(* ===== verification/Prelude.thy ===== *)
theory Prelude
  imports Main "HOL-Library.Word" "HOL-Library.Monad_Syntax" "HOL-Library.Multiset"
begin

text \<open>
  Shared ground of the development: the conventions for program outcomes, the named theorem
  collections the component theories fill, and the generic lemmas on lists, integers used as
  array indices, and machine words.

  Conventions.
  \<^item> \<open>'a option\<close> is the outcome of code that may not proceed: \<open>None\<close> stands for a failed
    \<open>LF_ASSERT\<close> (debug builds terminate), a read outside an array, or a loop that does not end.
    Theorems that an operation returns are stated as \<open>= Some \<dots>\<close>.
  \<^item> C++ exceptions are values of the type \<open>exn + 'a\<close>.
  \<^item> \<open>std::ptrdiff_t\<close> indices that only grow by one per operation are \<open>int\<close>; \<open>uint16_t\<close>,
    \<open>uint32_t\<close>, \<open>uint64_t\<close> and \<open>std::size_t\<close> values whose wrap-around matters are words.
\<close>

unbundle bit_operations_syntax

named_theorems ring_simps \<open>loads, stores and copies of ring buffers\<close>
named_theorems word_pack_simps \<open>halves of packed 64-bit words\<close>

type_synonym u16 = "16 word"
type_synonym u32 = "32 word"
type_synonym u64 = "64 word"

datatype exn = Bad_alloc | Length_error | Runtime_error

section \<open>Assertions\<close>

text \<open>\<open>LF_ASSERT(P)\<close>: the program goes on only if \<open>P\<close> holds.\<close>

definition lf_assert :: "bool \<Rightarrow> unit option" where
  "lf_assert P = (if P then Some () else None)"

lemma lf_assert_True [simp]: "lf_assert True = Some ()"
  by (simp add: lf_assert_def)

lemma lf_assert_eq_Some [simp]: "lf_assert P = Some u \<longleftrightarrow> P"
  by (simp add: lf_assert_def)

lemma lf_assert_bind [simp]: "P \<Longrightarrow> Option.bind (lf_assert P) f = f ()"
  by (simp add: lf_assert_def)

section \<open>Powers of two as bit masks\<close>

text \<open>\<open>std::has_single_bit\<close> on a value that is positive as a signed integer.\<close>

definition has_single_bit :: "int \<Rightarrow> bool" where
  "has_single_bit c \<longleftrightarrow> 0 < c \<and> c AND (c - 1) = 0"

lemma and_mask_pow2: "(i::int) AND (2 ^ k - 1) = i mod 2 ^ k"
  using take_bit_eq_mask [of k i] by (simp add: take_bit_eq_mod mask_eq_exp_minus_1)

lemma has_single_bit_pow2: "has_single_bit (2 ^ k)"
  by (simp add: has_single_bit_def and_mask_pow2)

lemma has_single_bit_double:
  assumes "has_single_bit (2 * c)" "0 < c"
  shows "has_single_bit c"
proof -
  have "(2 * c - 1) div 2 = c - 1" by simp
  then have "(2 * c) AND (2 * c - 1) = 2 * (c AND (c - 1))"
    by (simp add: and_int_rec [of "2 * c"])
  with assms show ?thesis by (simp add: has_single_bit_def)
qed

lemma has_single_bit_odd:
  assumes "has_single_bit (2 * c + 1)"
  shows "c = 0"
proof -
  have "(2 * c + 1) AND (2 * c) = 2 * c"
    by (simp add: and_int_rec [of "2 * c + 1"])
  with assms show ?thesis by (simp add: has_single_bit_def)
qed

text \<open>A positive integer with a single bit set is a power of two.\<close>

lemma has_single_bit_imp_pow2: "has_single_bit c \<Longrightarrow> \<exists>k. c = 2 ^ k"
proof (induction "nat c" arbitrary: c rule: less_induct)
  case less
  from less.prems have pos: "0 < c" by (simp add: has_single_bit_def)
  show ?case
  proof (cases "even c")
    case True
    then obtain d where d: "c = 2 * d" by (elim evenE)
    with pos less.prems have "0 < d" "has_single_bit d"
      by (auto intro: has_single_bit_double)
    with less.hyps [of d] d obtain k where "d = 2 ^ k" by auto
    with d have "c = 2 ^ Suc k" by simp
    then show ?thesis by blast
  next
    case False
    then obtain d where d: "c = 2 * d + 1" by (elim oddE)
    with less.prems has_single_bit_odd have "d = 0" by blast
    with d have "c = 2 ^ 0" by simp
    then show ?thesis by blast
  qed
qed

lemma has_single_bit_iff: "has_single_bit c \<longleftrightarrow> (\<exists>k. c = 2 ^ k)"
  using has_single_bit_imp_pow2 has_single_bit_pow2 by auto

lemma has_single_bit_times2: "has_single_bit c \<Longrightarrow> has_single_bit (2 * c)"
  by (auto simp: has_single_bit_iff intro: power_Suc [symmetric])

lemma single_bit_mask_mod: "has_single_bit c \<Longrightarrow> i AND (c - 1) = i mod c"
  by (auto simp: has_single_bit_iff and_mask_pow2)

section \<open>Residues of a window of indices\<close>

text \<open>Two different indices less than \<open>c\<close> apart never share a slot modulo \<open>c\<close>.\<close>

lemma mod_window_inj:
  fixes i j c :: int
  assumes "i mod c = j mod c" "\<bar>i - j\<bar> < c"
  shows "i = j"
proof -
  from assms(1) have "c dvd i - j" by (simp add: mod_eq_dvd_iff)
  with assms(2) show ?thesis
    using dvd_imp_le_int [of "i - j" c] by fastforce
qed

section \<open>Lists over integer ranges\<close>

lemma upto_rec_last: "i \<le> j \<Longrightarrow> [i..j] = [i..j - 1] @ [j]"
  by (rule upto_rec2)

lemma map_upto_cong: "(\<And>k. i \<le> k \<Longrightarrow> k \<le> j \<Longrightarrow> f k = g k) \<Longrightarrow> map f [i..j] = map g [i..j]"
  by (rule map_cong) auto

lemma mset_butlast_last: "xs \<noteq> [] \<Longrightarrow> mset xs = add_mset (last xs) (mset (butlast xs))"
  by (metis append_butlast_last_id mset_append mset.simps union_mset_add_mset_right add.right_neutral)

lemma mset_hd_tl: "xs \<noteq> [] \<Longrightarrow> mset xs = add_mset (hd xs) (mset (tl xs))"
  by (metis list.collapse mset.simps(2))

text \<open>Two balance equations in a row.\<close>

lemma balance_trans:
  fixes a :: "'a::ab_semigroup_add"
  assumes "a + p = t + x" "t + q = u + y"
  shows "a + (p + q) = u + (x + y)"
proof -
  have "a + (p + q) = (a + p) + q" by (simp add: add.assoc)
  also have "\<dots> = (t + q) + x" unfolding assms(1) by (simp add: ac_simps)
  also have "\<dots> = u + (x + y)" unfolding assms(2) by (simp add: ac_simps)
  finally show ?thesis .
qed

end
