(* ===== verification/Ring_Buffer.thy ===== *)
theory Ring_Buffer
  imports Prelude
begin

text \<open>
  \<open>impl::atomic_ring_buf\<close> of \<open>include/libfork/core/ext/deque_chase_lev.hpp\<close> (the same class is
  in \<open>deque_blocking.hpp\<close>): an array addressed modulo its capacity, a power of two, through a
  bit mask. The array holds one cell per slot; new cells hold the value-initialised element
  \<open>z\<close>.
\<close>

record 'a ring_buf =
  rb_cap :: int
  rb_mask :: int
  rb_cells :: "'a list"

text \<open>The constructor, with its assertion on the capacity.\<close>

definition ring_buf_new :: "'a \<Rightarrow> int \<Rightarrow> 'a ring_buf option" where
  "ring_buf_new z cap = do {
     lf_assert (cap > 0 \<and> has_single_bit cap);
     Some \<lparr>rb_cap = cap, rb_mask = cap - 1, rb_cells = replicate (nat cap) z\<rparr> }"

definition rb_capacity :: "'a ring_buf \<Rightarrow> int" where
  "rb_capacity b = rb_cap b"

definition rb_slot :: "'a ring_buf \<Rightarrow> int \<Rightarrow> nat" where
  "rb_slot b i = nat (i AND rb_mask b)"

definition rb_store :: "'a ring_buf \<Rightarrow> int \<Rightarrow> 'a \<Rightarrow> 'a ring_buf option" where
  "rb_store b i v = do {
     lf_assert (i \<ge> 0);
     lf_assert (rb_slot b i < length (rb_cells b));
     Some (b\<lparr>rb_cells := (rb_cells b)[rb_slot b i := v]\<rparr>) }"

definition rb_load :: "'a ring_buf \<Rightarrow> int \<Rightarrow> 'a option" where
  "rb_load b i = do {
     lf_assert (i \<ge> 0);
     lf_assert (rb_slot b i < length (rb_cells b));
     Some (rb_cells b ! rb_slot b i) }"

text \<open>The copying loop of \<open>resize\<close>; it only ends when \<open>i\<close> meets \<open>btm\<close>.\<close>

partial_function (option) rb_copy :: "'a ring_buf \<Rightarrow> int \<Rightarrow> int \<Rightarrow> 'a ring_buf \<Rightarrow> 'a ring_buf option" where
  "rb_copy src i btm dst =
     (if i = btm then Some dst
      else do { v \<leftarrow> rb_load src i; dst' \<leftarrow> rb_store dst i v; rb_copy src (i + 1) btm dst' })"

definition rb_resize :: "'a \<Rightarrow> 'a ring_buf \<Rightarrow> int \<Rightarrow> int \<Rightarrow> 'a ring_buf option" where
  "rb_resize z b btm tp = do { ptr \<leftarrow> ring_buf_new z (2 * rb_cap b); rb_copy b tp btm ptr }"

text \<open>Well-formed buffers: what the constructor establishes.\<close>

definition rb_wf :: "'a ring_buf \<Rightarrow> bool" where
  "rb_wf b \<longleftrightarrow> has_single_bit (rb_cap b) \<and> rb_mask b = rb_cap b - 1
     \<and> length (rb_cells b) = nat (rb_cap b)"

text \<open>The value a load of index \<open>i\<close> sees.\<close>

definition rb_at :: "'a ring_buf \<Rightarrow> int \<Rightarrow> 'a" where
  "rb_at b i = rb_cells b ! rb_slot b i"

section \<open>Slots\<close>

lemma rb_wf_cap_pos: "rb_wf b \<Longrightarrow> 0 < rb_cap b"
  by (simp add: rb_wf_def has_single_bit_def)

lemma rb_slot_mod: "rb_wf b \<Longrightarrow> rb_slot b i = nat (i mod rb_cap b)"
  by (simp add: rb_slot_def rb_wf_def single_bit_mask_mod)

lemma rb_slot_bound: "rb_wf b \<Longrightarrow> rb_slot b i < length (rb_cells b)"
  using rb_wf_cap_pos [of b] by (simp add: rb_slot_mod rb_wf_def)

lemma rb_slot_distinct:
  assumes "rb_wf b" "i \<noteq> j" "\<bar>i - j\<bar> < rb_cap b"
  shows "rb_slot b i \<noteq> rb_slot b j"
proof
  assume "rb_slot b i = rb_slot b j"
  then have "i mod rb_cap b = j mod rb_cap b"
    using rb_wf_cap_pos [OF assms(1)] by (simp add: rb_slot_mod [OF assms(1)] nat_eq_iff)
  with assms mod_window_inj show False by blast
qed

section \<open>Loads and stores\<close>

definition rb_put :: "'a ring_buf \<Rightarrow> int \<Rightarrow> 'a \<Rightarrow> 'a ring_buf" where
  "rb_put b i v = b\<lparr>rb_cells := (rb_cells b)[rb_slot b i := v]\<rparr>"

lemma rb_store_wf [ring_simps]: "rb_wf b \<Longrightarrow> 0 \<le> i \<Longrightarrow> rb_store b i v = Some (rb_put b i v)"
  by (simp add: rb_store_def rb_put_def rb_slot_bound)

lemma rb_load_wf [ring_simps]: "rb_wf b \<Longrightarrow> 0 \<le> i \<Longrightarrow> rb_load b i = Some (rb_at b i)"
  by (simp add: rb_load_def rb_at_def rb_slot_bound)

lemma rb_put_wf [simp]: "rb_wf b \<Longrightarrow> rb_wf (rb_put b i v)"
  by (simp add: rb_wf_def rb_put_def)

lemma rb_put_cap [simp]: "rb_cap (rb_put b i v) = rb_cap b"
  by (simp add: rb_put_def)

lemma rb_at_put_same [simp]: "rb_wf b \<Longrightarrow> rb_at (rb_put b i v) i = v"
  using rb_slot_bound [of b i] by (simp add: rb_at_def rb_put_def rb_slot_def)

lemma rb_at_put_other:
  "rb_wf b \<Longrightarrow> i \<noteq> j \<Longrightarrow> \<bar>i - j\<bar> < rb_cap b \<Longrightarrow> rb_at (rb_put b i v) j = rb_at b j"
  using rb_slot_distinct [of b i j] by (simp add: rb_at_def rb_put_def rb_slot_def)

lemma ring_buf_new_wf:
  "has_single_bit cap \<Longrightarrow> \<exists>b. ring_buf_new z cap = Some b \<and> rb_wf b \<and> rb_cap b = cap"
  by (simp add: ring_buf_new_def rb_wf_def has_single_bit_def)

text \<open>Storing behind the last element appends it.\<close>

lemma rb_put_appends:
  assumes "rb_wf b" "tp \<le> bt" "bt - tp < rb_cap b"
  shows "map (rb_at (rb_put b bt v)) [tp..bt] = map (rb_at b) [tp..bt - 1] @ [v]"
proof -
  have "map (rb_at (rb_put b bt v)) [tp..bt - 1] = map (rb_at b) [tp..bt - 1]"
    by (rule map_upto_cong) (use assms in \<open>auto intro!: rb_at_put_other\<close>)
  with assms show ?thesis by (simp add: upto_rec2)
qed

section \<open>Growing\<close>

lemma rb_copy_range:
  assumes "rb_wf src" "rb_wf dst" "0 \<le> i" "i \<le> btm" "btm - i \<le> rb_cap dst"
  shows "\<exists>d. rb_copy src i btm dst = Some d \<and> rb_wf d \<and> rb_cap d = rb_cap dst
     \<and> (\<forall>k. i \<le> k \<and> k < btm \<longrightarrow> rb_at d k = rb_at src k)
     \<and> (\<forall>k. btm - rb_cap dst \<le> k \<and> k < i \<longrightarrow> rb_at d k = rb_at dst k)"
  using assms
proof (induction "nat (btm - i)" arbitrary: i dst)
  case 0
  then have "i = btm" by simp
  with "0.prems" show ?case by (auto simp: rb_copy.simps [of src btm btm dst])
next
  case (Suc n)
  let ?d = "rb_put dst i (rb_at src i)"
  from Suc.hyps(2) have less: "i < btm" by simp
  have step: "rb_copy src i btm dst = rb_copy src (i + 1) btm ?d"
    using less Suc.prems by (subst rb_copy.simps) (simp add: ring_simps)
  from Suc.hyps(2) have n: "n = nat (btm - (i + 1))" by arith
  from Suc.hyps(1) [OF n, of ?d] Suc.prems less obtain d where
    d: "rb_copy src (i + 1) btm ?d = Some d" "rb_wf d" "rb_cap d = rb_cap dst"
      "\<And>k. i + 1 \<le> k \<Longrightarrow> k < btm \<Longrightarrow> rb_at d k = rb_at src k"
      "\<And>k. btm - rb_cap dst \<le> k \<Longrightarrow> k < i + 1 \<Longrightarrow> rb_at d k = rb_at ?d k"
    by auto
  have at_i: "rb_at d i = rb_at src i"
    using d(5) [of i] Suc.prems by simp
  have low: "rb_at d k = rb_at dst k" if "btm - rb_cap dst \<le> k" "k < i" for k
    using d(5) [of k] that less Suc.prems rb_at_put_other [of dst i k "rb_at src i"] by auto
  have mid: "rb_at d k = rb_at src k" if "i \<le> k" "k < btm" for k
    using that d(4) [of k] at_i by (cases "k = i") auto
  from d(1-3) mid low step show ?case by simp
qed

lemma rb_resize_copies:
  assumes "rb_wf b" "0 \<le> tp" "tp \<le> btm" "btm - tp \<le> 2 * rb_cap b"
  shows "\<exists>d. rb_resize z b btm tp = Some d \<and> rb_wf d \<and> rb_cap d = 2 * rb_cap b
     \<and> (\<forall>k. tp \<le> k \<and> k < btm \<longrightarrow> rb_at d k = rb_at b k)"
proof -
  from assms(1) have "has_single_bit (2 * rb_cap b)"
    by (simp add: rb_wf_def has_single_bit_times2)
  then obtain p where p: "ring_buf_new z (2 * rb_cap b) = Some p" "rb_wf p" "rb_cap p = 2 * rb_cap b"
    using ring_buf_new_wf [of "2 * rb_cap b" z] by metis
  have "btm - tp \<le> rb_cap p" using assms(4) p(3) by simp
  from rb_copy_range [OF assms(1) p(2) assms(2,3) this] p show ?thesis
    unfolding rb_resize_def by fastforce
qed

end
