(* ===== verification/Deque_Common.thy ===== *)
theory Deque_Common
  imports Prelude
begin

text \<open>
  \<open>include/libfork/core/ext/deque_common.hpp\<close>: the error codes and the result type of
  \<open>steal()\<close>, and the contract every work-stealing deque of the library offers to the
  schedulers, as the locales \<open>ws_deque\<close> and \<open>ws_deque_eager\<close>. A deque is described by the
  list of its elements, oldest first: the owner pushes and pops at the end (LIFO), thieves
  take from the front (FIFO).
\<close>

section \<open>Steal results\<close>

datatype err = Err_none | Err_lost | Err_empty

text \<open>
  \<open>val\<close> is \<open>None\<close> where the code writes \<open>.val = {}\<close>, a value-initialised object no caller
  may read.
\<close>

record 'a steal_t =
  code :: err
  steal_val :: "'a option"

definition stolen :: "'a \<Rightarrow> 'a steal_t" where
  "stolen x = \<lparr>code = Err_none, steal_val = Some x\<rparr>"

definition steal_failed :: "err \<Rightarrow> 'a steal_t" where
  "steal_failed e = \<lparr>code = e, steal_val = None\<rparr>"

definition steal_bool :: "'a steal_t \<Rightarrow> bool" where
  "steal_bool r \<longleftrightarrow> code r = Err_none"

text \<open>\<open>operator*\<close> and \<open>operator->\<close>: guarded by \<open>LF_ASSERT(code == err::none)\<close>.\<close>

definition steal_deref :: "'a steal_t \<Rightarrow> 'a option" where
  "steal_deref r = do { lf_assert (code r = Err_none); steal_val r }"

definition return_nullopt :: "'a option" where
  "return_nullopt = None"

lemma stolen_simps [simp]:
  "code (stolen x) = Err_none" "steal_val (stolen x) = Some x"
  "steal_deref (stolen x) = Some x" "steal_bool (stolen x)"
  by (simp_all add: stolen_def steal_deref_def steal_bool_def)

lemma steal_failed_simps [simp]:
  "code (steal_failed e) = e" "steal_val (steal_failed e) = None" "steal_deref (steal_failed e) = None"
  by (simp_all add: steal_failed_def steal_deref_def lf_assert_def)

section \<open>Histories of a deque\<close>

text \<open>
  A history is a sequence of whole operations. \<open>run_deque\<close> drives any implementation through
  one and collects what each operation returned; \<open>list_run\<close> is the same on the specification,
  a plain list.
\<close>

datatype 'a deque_op = Op_push 'a | Op_pop | Op_steal

datatype 'a deque_out = Out_pushed 'a | Out_popped "'a option" | Out_stolen "'a option"

fun run_deque :: "('d \<Rightarrow> bool) \<Rightarrow> ('d \<Rightarrow> 'a \<Rightarrow> 'd option) \<Rightarrow> ('d \<Rightarrow> ('a option \<times> 'd) option)
    \<Rightarrow> ('d \<Rightarrow> ('a steal_t \<times> 'd) option) \<Rightarrow> 'd \<Rightarrow> 'a deque_op list
    \<Rightarrow> ('a deque_out list \<times> 'd) option" where
  "run_deque room push pop steal d [] = Some ([], d)"
| "run_deque room push pop steal d (Op_push v # ops) = do {
     lf_assert (room d);
     d' \<leftarrow> push d v;
     (outs, e) \<leftarrow> run_deque room push pop steal d' ops;
     Some (Out_pushed v # outs, e) }"
| "run_deque room push pop steal d (Op_pop # ops) = do {
     (r, d') \<leftarrow> pop d;
     (outs, e) \<leftarrow> run_deque room push pop steal d' ops;
     Some (Out_popped r # outs, e) }"
| "run_deque room push pop steal d (Op_steal # ops) = do {
     (r, d') \<leftarrow> steal d;
     (outs, e) \<leftarrow> run_deque room push pop steal d' ops;
     Some (Out_stolen (steal_val r) # outs, e) }"

fun list_run :: "'a list \<Rightarrow> 'a deque_op list \<Rightarrow> 'a deque_out list \<times> 'a list" where
  "list_run xs [] = ([], xs)"
| "list_run xs (Op_push v # ops) =
     (let (outs, ys) = list_run (xs @ [v]) ops in (Out_pushed v # outs, ys))"
| "list_run xs (Op_pop # ops) =
     (let (outs, ys) = list_run (butlast xs) ops
      in (Out_popped (if xs = [] then None else Some (last xs)) # outs, ys))"
| "list_run xs (Op_steal # ops) =
     (let (outs, ys) = list_run (tl xs) ops
      in (Out_stolen (if xs = [] then None else Some (hd xs)) # outs, ys))"

text \<open>The values a history put in and took out.\<close>

fun pushed_of :: "'a deque_out list \<Rightarrow> 'a multiset" where
  "pushed_of [] = {#}"
| "pushed_of (Out_pushed v # os) = add_mset v (pushed_of os)"
| "pushed_of (_ # os) = pushed_of os"

fun taken_of :: "'a deque_out list \<Rightarrow> 'a multiset" where
  "taken_of [] = {#}"
| "taken_of (Out_popped (Some v) # os) = add_mset v (taken_of os)"
| "taken_of (Out_stolen (Some v) # os) = add_mset v (taken_of os)"
| "taken_of (_ # os) = taken_of os"

section \<open>The contract of a work-stealing deque\<close>

text \<open>
  \<open>room d\<close> says that one more element fits (always true for the growing deques). A steal may
  report \<open>empty\<close> although elements are left (the private part of the Lace deque), but then
  changes nothing; without contention it never reports \<open>lost\<close>.
\<close>

locale ws_deque =
  fixes invar :: "'d \<Rightarrow> bool"
    and contents :: "'d \<Rightarrow> 'a list"
    and room :: "'d \<Rightarrow> bool"
    and push :: "'d \<Rightarrow> 'a \<Rightarrow> 'd option"
    and pop :: "'d \<Rightarrow> ('a option \<times> 'd) option"
    and steal :: "'d \<Rightarrow> ('a steal_t \<times> 'd) option"
  assumes push_law: "invar d \<Longrightarrow> room d \<Longrightarrow>
      \<exists>d'. push d v = Some d' \<and> invar d' \<and> contents d' = contents d @ [v]"
    and pop_law: "invar d \<Longrightarrow>
      \<exists>d'. pop d = Some (if contents d = [] then None else Some (last (contents d)), d')
        \<and> invar d' \<and> contents d' = butlast (contents d)"
    and steal_law: "invar d \<Longrightarrow>
      \<exists>r d'. steal d = Some (r, d') \<and> invar d' \<and>
        (r = stolen (hd (contents d)) \<and> contents d \<noteq> [] \<and> contents d' = tl (contents d)
         \<or> r = steal_failed Err_empty \<and> contents d' = contents d)"
begin

lemma push_pop:
  assumes "invar d" "room d"
  shows "\<exists>d' d''. push d v = Some d' \<and> pop d' = Some (Some v, d'') \<and> contents d'' = contents d"
proof -
  from push_law [OF assms] obtain d' where
    "push d v = Some d'" "invar d'" "contents d' = contents d @ [v]" by blast
  moreover from pop_law [OF \<open>invar d'\<close>] obtain d'' where
    "pop d' = Some (if contents d' = [] then None else Some (last (contents d')), d'')"
    "contents d'' = butlast (contents d')" by blast
  ultimately show ?thesis by auto
qed

text \<open>No history loses or duplicates an element.\<close>

lemma run_conserves:
  "run_deque room push pop steal d ops = Some (outs, e) \<Longrightarrow> invar d \<Longrightarrow>
     invar e \<and> mset (contents d) + pushed_of outs = mset (contents e) + taken_of outs"
proof (induction ops arbitrary: d outs)
  case (Cons x ops)
  show ?case
  proof (cases x)
    case (Op_push v)
    with Cons.prems push_law [of d v] obtain d' os where
      "room d" "invar d'" "contents d' = contents d @ [v]"
      "run_deque room push pop steal d' ops = Some (os, e)" "outs = Out_pushed v # os"
      by (auto simp: Option.bind_eq_Some_conv split: prod.splits)
    with Cons.IH [of d' os] show ?thesis by simp
  next
    case Op_pop
    with Cons.prems pop_law [of d] obtain d' os where
      "invar d'" "contents d' = butlast (contents d)"
      "run_deque room push pop steal d' ops = Some (os, e)"
      "outs = Out_popped (if contents d = [] then None else Some (last (contents d))) # os"
      by (auto simp: Option.bind_eq_Some_conv split: prod.splits)
    with Cons.IH [of d' os] show ?thesis
      by (cases "contents d = []") (simp_all add: mset_butlast_last)
  next
    case Op_steal
    from steal_law [OF Cons.prems(2)] obtain r d' where d': "steal d = Some (r, d')" "invar d'"
      "r = stolen (hd (contents d)) \<and> contents d \<noteq> [] \<and> contents d' = tl (contents d)
       \<or> r = steal_failed Err_empty \<and> contents d' = contents d" by blast
    from Op_steal Cons.prems(1) d'(1) obtain os where
      os: "run_deque room push pop steal d' ops = Some (os, e)" "outs = Out_stolen (steal_val r) # os"
      by (auto simp: Option.bind_eq_Some_conv split: prod.splits)
    from Cons.IH [OF os(1) d'(2)] d'(3) os(2) show ?thesis
      by (auto simp: mset_hd_tl [of "contents d"])
  qed
qed simp

end

text \<open>A deque that always has room and whose steals only report \<open>empty\<close> when it is.\<close>

locale ws_deque_eager = ws_deque +
  assumes always_room: "invar d \<Longrightarrow> room d"
    and steal_empty: "invar d \<Longrightarrow> steal d = Some (steal_failed Err_empty, d') \<Longrightarrow> contents d = []"
begin

lemma steal_eager:
  assumes "invar d"
  shows "\<exists>r d'. steal d = Some (r, d') \<and> invar d' \<and> contents d' = tl (contents d)
    \<and> steal_val r = (if contents d = [] then None else Some (hd (contents d)))"
  using steal_law [OF assms] steal_empty [OF assms] by fastforce

text \<open>Every history runs to its end and answers exactly as the list does.\<close>

lemma run_refines_list:
  "invar d \<Longrightarrow> \<exists>outs e. run_deque room push pop steal d ops = Some (outs, e)
     \<and> (outs, contents e) = list_run (contents d) ops"
proof (induction ops arbitrary: d)
  case (Cons x ops)
  show ?case
  proof (cases x)
    case (Op_push v)
    from push_law [OF Cons.prems always_room [OF Cons.prems]] obtain d' where
      d': "push d v = Some d'" "invar d'" "contents d' = contents d @ [v]" by blast
    with Cons.IH [of d'] Op_push always_room [OF Cons.prems] show ?thesis
      by (fastforce simp: Let_def split: prod.splits)
  next
    case Op_pop
    from pop_law [OF Cons.prems] obtain d' where
      d': "pop d = Some (if contents d = [] then None else Some (last (contents d)), d')"
        "invar d'" "contents d' = butlast (contents d)" by blast
    with Cons.IH [of d'] Op_pop show ?thesis
      by (fastforce simp: Let_def split: prod.splits)
  next
    case Op_steal
    from steal_eager [OF Cons.prems] obtain r d' where
      d': "steal d = Some (r, d')" "invar d'" "contents d' = tl (contents d)"
        "steal_val r = (if contents d = [] then None else Some (hd (contents d)))" by blast
    with Cons.IH [of d'] Op_steal show ?thesis
      by (fastforce simp: Let_def split: prod.splits)
  qed
qed simp

end

text \<open>
  A deque of bounded lifetime: \<open>budget d\<close> pushes are still possible, whatever is taken out in
  between.
\<close>

fun pushes :: "'a deque_op list \<Rightarrow> nat" where
  "pushes [] = 0"
| "pushes (Op_push _ # ops) = Suc (pushes ops)"
| "pushes (_ # ops) = pushes ops"

locale ws_deque_bounded = ws_deque +
  fixes budget :: "'d \<Rightarrow> nat"
  assumes budget_room: "invar d \<Longrightarrow> 0 < budget d \<Longrightarrow> room d"
    and budget_push: "invar d \<Longrightarrow> room d \<Longrightarrow> push d v = Some d' \<Longrightarrow> budget d \<le> Suc (budget d')"
    and budget_pop: "invar d \<Longrightarrow> pop d = Some (r, d') \<Longrightarrow> budget d \<le> budget d'"
    and budget_steal: "invar d \<Longrightarrow> steal d = Some (s, d') \<Longrightarrow> budget d \<le> budget d'"
begin

lemma run_total:
  "invar d \<Longrightarrow> pushes ops \<le> budget d \<Longrightarrow>
     \<exists>outs e. run_deque room push pop steal d ops = Some (outs, e)"
proof (induction ops arbitrary: d)
  case (Cons x ops)
  show ?case
  proof (cases x)
    case (Op_push v)
    with Cons.prems have room: "room d" by (intro budget_room) auto
    from push_law [OF Cons.prems(1) room] obtain d' where d': "push d v = Some d'" "invar d'" by blast
    with budget_push [OF Cons.prems(1) room d'(1)] Op_push Cons.prems Cons.IH [of d'] room show ?thesis
      by fastforce
  next
    case Op_pop
    from pop_law [OF Cons.prems(1)] obtain r d' where d': "pop d = Some (r, d')" "invar d'" by blast
    with budget_pop [OF Cons.prems(1) d'(1)] Op_pop Cons.prems Cons.IH [of d'] show ?thesis
      by fastforce
  next
    case Op_steal
    from steal_law [OF Cons.prems(1)] obtain r d' where d': "steal d = Some (r, d')" "invar d'" by blast
    with budget_steal [OF Cons.prems(1) d'(1)] Op_steal Cons.prems Cons.IH [of d'] show ?thesis
      by fastforce
  qed
qed simp

end

end
