(* ===== verification/Chase_Lev.thy ===== *)
theory Chase_Lev
  imports Ring_Buffer Deque_Common
begin

text \<open>
  \<open>chase_lev_deque\<close> of \<open>include/libfork/core/ext/deque_chase_lev.hpp\<close>, its operations run one
  at a time. The interleaved runs of the same code are in \<open>Chase_Lev_Conc\<close>.

  The parameter \<open>z\<close> is the value-initialised element new cells hold and \<open>alloc c\<close> tells
  whether the allocation of a buffer of capacity \<open>c\<close> succeeds; \<open>Inl Bad_alloc\<close> is the exception
  of a failed one, which leaves the deque as it was.
\<close>

record 'a chase_lev =
  cl_top :: int
  cl_bottom :: int
  cl_buf :: "'a ring_buf"
  cl_garbage :: "'a ring_buf list"

definition cl_k_default_capacity :: int where
  "cl_k_default_capacity = 1024"

definition chase_lev_new :: "'a \<Rightarrow> int \<Rightarrow> 'a chase_lev option" where
  "chase_lev_new z cap = do {
     b \<leftarrow> ring_buf_new z cap;
     Some \<lparr>cl_top = 0, cl_bottom = 0, cl_buf = b, cl_garbage = []\<rparr> }"

definition chase_lev_default :: "'a \<Rightarrow> 'a chase_lev option" where
  "chase_lev_default z = chase_lev_new z cl_k_default_capacity"

definition cl_ssize :: "'a chase_lev \<Rightarrow> int" where
  "cl_ssize d = max (cl_bottom d - cl_top d) 0"

definition cl_size :: "'a chase_lev \<Rightarrow> nat" where
  "cl_size d = nat (cl_ssize d)"

definition cl_capacity :: "'a chase_lev \<Rightarrow> int" where
  "cl_capacity d = rb_capacity (cl_buf d)"

definition cl_empty :: "'a chase_lev \<Rightarrow> bool" where
  "cl_empty d \<longleftrightarrow> cl_top d \<ge> cl_bottom d"

text \<open>The buffer \<open>push\<close> writes to: the current one, or a bigger copy when that is full.\<close>

definition cl_grow :: "'a \<Rightarrow> (int \<Rightarrow> bool) \<Rightarrow> 'a chase_lev \<Rightarrow> (exn + 'a chase_lev) option" where
  "cl_grow z alloc d =
     (let bottom = cl_bottom d; tp = cl_top d; buf = cl_buf d in
      if rb_capacity buf < (bottom - tp) + 1 then
        if alloc (2 * rb_cap buf) then do {
          bigger \<leftarrow> rb_resize z buf bottom tp;
          Some (Inr (d\<lparr>cl_buf := bigger, cl_garbage := cl_garbage d @ [buf]\<rparr>)) }
        else Some (Inl Bad_alloc)
      else Some (Inr d))"

definition cl_push :: "'a \<Rightarrow> (int \<Rightarrow> bool) \<Rightarrow> 'a chase_lev \<Rightarrow> 'a \<Rightarrow> (exn + 'a chase_lev) option" where
  "cl_push z alloc d v = do {
     g \<leftarrow> cl_grow z alloc d;
     (case g of
        Inl e \<Rightarrow> Some (Inl e)
      | Inr d' \<Rightarrow> do {
          buf \<leftarrow> rb_store (cl_buf d') (cl_bottom d) v;
          Some (Inr (d'\<lparr>cl_buf := buf, cl_bottom := cl_bottom d + 1\<rparr>)) }) }"

text \<open>\<open>push\<close> where every allocation succeeds.\<close>

definition cl_push_ok :: "'a \<Rightarrow> 'a chase_lev \<Rightarrow> 'a \<Rightarrow> 'a chase_lev option" where
  "cl_push_ok z d v = (case cl_push z (\<lambda>_. True) d v of Some (Inr d') \<Rightarrow> Some d' | _ \<Rightarrow> None)"

text \<open>
  \<open>pop\<close> with \<open>when_empty\<close> returning \<open>std::nullopt\<close>. The compare-exchange on \<open>m_top\<close> compares with
  the value just loaded; run alone it succeeds.
\<close>

definition cl_pop :: "'a chase_lev \<Rightarrow> ('a option \<times> 'a chase_lev) option" where
  "cl_pop d =
     (let bottom = cl_bottom d - 1; buf = cl_buf d; d1 = d\<lparr>cl_bottom := bottom\<rparr>; tp = cl_top d1 in
      if tp \<le> bottom then
        (if tp = bottom then
           (if cl_top d1 = tp then do {
              v \<leftarrow> rb_load buf bottom;
              Some (Some v, d1\<lparr>cl_top := tp + 1, cl_bottom := bottom + 1\<rparr>) }
            else Some (return_nullopt, d1\<lparr>cl_bottom := bottom + 1\<rparr>))
         else do { v \<leftarrow> rb_load buf bottom; Some (Some v, d1) })
      else Some (return_nullopt, d1\<lparr>cl_bottom := bottom + 1\<rparr>))"

definition cl_steal :: "'a chase_lev \<Rightarrow> ('a steal_t \<times> 'a chase_lev) option" where
  "cl_steal d =
     (let tp = cl_top d; bottom = cl_bottom d in
      if tp < bottom then do {
        tmp \<leftarrow> rb_load (cl_buf d) tp;
        (if cl_top d = tp then Some (stolen tmp, d\<lparr>cl_top := tp + 1\<rparr>)
         else Some (steal_failed Err_lost, d)) }
      else Some (steal_failed Err_empty, d))"

section \<open>Invariant and abstraction\<close>

definition cl_inv :: "'a chase_lev \<Rightarrow> bool" where
  "cl_inv d \<longleftrightarrow> rb_wf (cl_buf d) \<and> 0 \<le> cl_top d \<and> cl_top d \<le> cl_bottom d
     \<and> cl_bottom d - cl_top d \<le> rb_cap (cl_buf d)"

definition cl_contents :: "'a chase_lev \<Rightarrow> 'a list" where
  "cl_contents d = map (rb_at (cl_buf d)) [cl_top d..cl_bottom d - 1]"

lemma cl_contents_empty_iff: "cl_inv d \<Longrightarrow> cl_contents d = [] \<longleftrightarrow> cl_top d = cl_bottom d"
  by (auto simp: cl_contents_def cl_inv_def)

lemma cl_contents_hd: "cl_top d < cl_bottom d \<Longrightarrow>
    cl_contents d = rb_at (cl_buf d) (cl_top d) # map (rb_at (cl_buf d)) [cl_top d + 1..cl_bottom d - 1]"
  by (simp add: cl_contents_def upto_rec1)

lemma cl_contents_last: "cl_top d < cl_bottom d \<Longrightarrow>
    cl_contents d = map (rb_at (cl_buf d)) [cl_top d..cl_bottom d - 2] @ [rb_at (cl_buf d) (cl_bottom d - 1)]"
  by (simp add: cl_contents_def upto_rec2)

lemma cl_grow_ok:
  assumes "cl_inv d" "alloc (2 * rb_cap (cl_buf d))"
  shows "\<exists>d'. cl_grow z alloc d = Some (Inr d') \<and> cl_inv d' \<and> cl_contents d' = cl_contents d
     \<and> cl_top d' = cl_top d \<and> cl_bottom d' = cl_bottom d
     \<and> cl_bottom d - cl_top d < rb_cap (cl_buf d')"
proof (cases "rb_cap (cl_buf d) < cl_bottom d - cl_top d + 1")
  case True
  from assms(1) have wf: "rb_wf (cl_buf d)" and "0 \<le> cl_top d" "cl_top d \<le> cl_bottom d"
    and le: "cl_bottom d - cl_top d \<le> rb_cap (cl_buf d)" by (auto simp: cl_inv_def)
  with rb_wf_cap_pos [OF wf] rb_resize_copies [OF wf, of "cl_top d" "cl_bottom d" z] obtain b where
    b: "rb_resize z (cl_buf d) (cl_bottom d) (cl_top d) = Some b" "rb_wf b"
      "rb_cap b = 2 * rb_cap (cl_buf d)"
      "\<And>k. cl_top d \<le> k \<Longrightarrow> k < cl_bottom d \<Longrightarrow> rb_at b k = rb_at (cl_buf d) k" by auto
  have "map (rb_at b) [cl_top d..cl_bottom d - 1] = map (rb_at (cl_buf d)) [cl_top d..cl_bottom d - 1]"
    by (rule map_upto_cong) (simp add: b(4))
  with True b assms wf rb_wf_cap_pos [OF wf] show ?thesis
    by (simp add: cl_grow_def rb_capacity_def cl_inv_def cl_contents_def Let_def)
next
  case False
  with assms show ?thesis by (simp add: cl_grow_def rb_capacity_def Let_def)
qed

lemma cl_push_grown:
  assumes "cl_inv d" "alloc (2 * rb_cap (cl_buf d))"
  shows "\<exists>d'. cl_push z alloc d v = Some (Inr d') \<and> cl_inv d' \<and> cl_contents d' = cl_contents d @ [v]"
proof -
  from cl_grow_ok [of d alloc z] assms obtain g where
    g: "cl_grow z alloc d = Some (Inr g)" "cl_inv g" "cl_contents g = cl_contents d"
      "cl_top g = cl_top d" "cl_bottom g = cl_bottom d" "cl_bottom d - cl_top d < rb_cap (cl_buf g)"
    by blast
  let ?b = "rb_put (cl_buf g) (cl_bottom d) v"
  let ?d = "g\<lparr>cl_buf := ?b, cl_bottom := cl_bottom d + 1\<rparr>"
  from g(2,4,5) have wf: "rb_wf (cl_buf g)" and "0 \<le> cl_bottom d" and le: "cl_top d \<le> cl_bottom d"
    by (auto simp: cl_inv_def)
  with g(1) have push: "cl_push z alloc d v = Some (Inr ?d)"
    by (simp add: cl_push_def ring_simps)
  have inv: "cl_inv ?d" using g wf le by (auto simp: cl_inv_def)
  have "cl_contents ?d = cl_contents g @ [v]"
    using rb_put_appends [OF wf le g(6)] by (simp add: cl_contents_def g(4,5))
  with push inv g(3) show ?thesis by auto
qed

lemma cl_pop_last:
  assumes "cl_inv d"
  shows "\<exists>d'. cl_pop d = Some (if cl_contents d = [] then None else Some (last (cl_contents d)), d')
     \<and> cl_inv d' \<and> cl_contents d' = butlast (cl_contents d)"
proof (cases "cl_top d < cl_bottom d")
  case True
  let ?v = "rb_at (cl_buf d) (cl_bottom d - 1)"
  from assms have wf: "rb_wf (cl_buf d)" and "0 \<le> cl_bottom d - 1"
    using True by (auto simp: cl_inv_def)
  with True have "cl_pop d = Some (Some ?v, if cl_top d = cl_bottom d - 1 then d\<lparr>cl_top := cl_bottom d\<rparr>
      else d\<lparr>cl_bottom := cl_bottom d - 1\<rparr>)"
    by (simp add: cl_pop_def ring_simps Let_def)
  moreover have "cl_contents d = map (rb_at (cl_buf d)) [cl_top d..cl_bottom d - 2] @ [?v]"
    using True by (rule cl_contents_last)
  ultimately show ?thesis
    using True assms by (auto simp: cl_inv_def cl_contents_def)
next
  case False
  with assms have "cl_top d = cl_bottom d" by (simp add: cl_inv_def)
  with assms show ?thesis
    by (simp add: cl_pop_def cl_contents_def return_nullopt_def Let_def)
qed

lemma cl_steal_first:
  assumes "cl_inv d"
  shows "cl_steal d = Some (if cl_contents d = [] then (steal_failed Err_empty, d)
      else (stolen (hd (cl_contents d)), d\<lparr>cl_top := cl_top d + 1\<rparr>))"
proof (cases "cl_top d < cl_bottom d")
  case True
  with assms show ?thesis
    by (auto simp: cl_steal_def cl_inv_def ring_simps cl_contents_hd Let_def)
next
  case False
  with assms have "cl_top d = cl_bottom d" by (simp add: cl_inv_def)
  then show ?thesis by (simp add: cl_steal_def cl_contents_def Let_def)
qed

section \<open>The contract of a work-stealing deque\<close>

interpretation cl: ws_deque_eager cl_inv cl_contents "\<lambda>_. True" "cl_push_ok z" cl_pop cl_steal for z
proof (unfold_locales, goal_cases)
  case (1 d v)
  then show ?case
    using cl_push_grown [of d "\<lambda>_. True" z v] by (auto simp: cl_push_ok_def)
next
  case (2 d)
  then show ?case by (rule cl_pop_last)
next
  case (3 d)
  show ?case
  proof (cases "cl_top d < cl_bottom d")
    case True
    with 3 have "cl_inv (d\<lparr>cl_top := cl_top d + 1\<rparr>)" by (auto simp: cl_inv_def)
    moreover from True have "cl_contents (d\<lparr>cl_top := cl_top d + 1\<rparr>) = tl (cl_contents d)"
      by (subst cl_contents_hd) (simp_all add: cl_contents_def)
    ultimately show ?thesis
      using True 3 by (simp add: cl_steal_first cl_contents_empty_iff)
  next
    case False
    with 3 have "cl_contents d = []" by (simp add: cl_contents_def)
    with 3 show ?thesis by (simp add: cl_steal_first)
  qed
next
  case 4
  then show ?case by simp
next
  case (5 d d')
  then show ?case
    by (auto simp: cl_steal_first stolen_def steal_failed_def split: if_splits)
qed

lemma cl_ssize_contents: "cl_inv d \<Longrightarrow> cl_ssize d = int (length (cl_contents d))"
  by (auto simp: cl_ssize_def cl_contents_def cl_inv_def)

lemma chase_lev_new_inv:
  "has_single_bit cap \<Longrightarrow> \<exists>d. chase_lev_new z cap = Some d \<and> cl_inv d \<and> cl_contents d = []"
  using ring_buf_new_wf [of cap z] rb_wf_cap_pos
  by (fastforce simp: chase_lev_new_def cl_inv_def cl_contents_def)

lemma cl_grow_fails:
  "cl_grow z alloc d = Some (Inl e) \<longleftrightarrow>
     e = Bad_alloc \<and> \<not> alloc (2 * rb_cap (cl_buf d)) \<and> rb_cap (cl_buf d) < cl_bottom d - cl_top d + 1"
  by (auto simp: cl_grow_def rb_capacity_def Let_def Option.bind_eq_Some_conv)

section \<open>Properties\<close>

text \<open>
  A fresh Chase-Lev deque of any power-of-two capacity, driven through any sequence
  of whole pushes, pops and steals, never fails an assertion and answers every operation exactly
  as a list does: pops take the newest element, steals the oldest, growing the buffer is
  invisible, and the final contents are those of the list.
\<close>

theorem chase_lev_refines_list:
  assumes "has_single_bit cap"
  shows "\<exists>d outs e. chase_lev_new z cap = Some d
     \<and> run_deque (\<lambda>_. True) (cl_push_ok z) cl_pop cl_steal d ops = Some (outs, e)
     \<and> (outs, cl_contents e) = list_run [] ops"
proof -
  from chase_lev_new_inv [OF assms] obtain d where
    d: "chase_lev_new z cap = Some d" "cl_inv d" "cl_contents d = []" by metis
  from cl.run_refines_list [OF d(2), of z ops] d show ?thesis by metis
qed

theorem chase_lev_refines_list_witness:
  "has_single_bit 1 \<and> (\<exists>d outs e. chase_lev_new (0::nat) 1 = Some d
     \<and> run_deque (\<lambda>_. True) (cl_push_ok 0) cl_pop cl_steal d
         [Op_push 5, Op_push 6, Op_push 7, Op_steal, Op_pop, Op_pop, Op_pop] = Some (outs, e)
     \<and> (outs, cl_contents e) = ([Out_pushed 5, Out_pushed 6, Out_pushed 7, Out_stolen (Some 5),
           Out_popped (Some 7), Out_popped (Some 6), Out_popped None], []))"
proof -
  have one: "has_single_bit 1" using has_single_bit_pow2 [of 0] by simp
  from one chase_lev_refines_list [OF one, of "0::nat" "[Op_push 5, Op_push 6, Op_push 7, Op_steal, Op_pop, Op_pop, Op_pop]"]
  show ?thesis by simp
qed

text \<open>
  \<open>push\<close> either throws \<open>std::bad_alloc\<close>, exactly when the buffer is full and the
  allocation of one of twice the capacity fails, or appends the value and keeps the invariant.
\<close>

theorem chase_lev_push_outcomes:
  assumes "cl_inv d"
  shows "if rb_cap (cl_buf d) = cl_ssize d \<and> \<not> alloc (2 * rb_cap (cl_buf d))
     then cl_push z alloc d v = Some (Inl Bad_alloc)
     else \<exists>d'. cl_push z alloc d v = Some (Inr d') \<and> cl_inv d' \<and> cl_contents d' = cl_contents d @ [v]"
proof (cases "rb_cap (cl_buf d) = cl_ssize d \<and> \<not> alloc (2 * rb_cap (cl_buf d))")
  case True
  with assms have "cl_grow z alloc d = Some (Inl Bad_alloc)"
    by (subst cl_grow_fails) (auto simp: cl_inv_def cl_ssize_def)
  with True show ?thesis by (auto simp: cl_push_def)
next
  case False
  show ?thesis
  proof (cases "rb_cap (cl_buf d) = cl_ssize d")
    case True
    with False cl_push_grown [OF assms, of alloc z v] show ?thesis by simp
  next
    case noteq: False
    with assms have "cl_grow z alloc d = cl_grow z (\<lambda>_. True) d"
      by (auto simp: cl_grow_def cl_inv_def cl_ssize_def rb_capacity_def Let_def)
    then have "cl_push z alloc d v = cl_push z (\<lambda>_. True) d v" by (simp add: cl_push_def)
    with noteq cl_push_grown [OF assms, of "\<lambda>_. True" z v] show ?thesis by simp
  qed
qed

theorem chase_lev_push_outcomes_witness:
  "cl_inv \<lparr>cl_top = 0, cl_bottom = 1, cl_buf = \<lparr>rb_cap = 1, rb_mask = 0, rb_cells = [5::nat]\<rparr>, cl_garbage = []\<rparr>
   \<and> cl_push 0 (\<lambda>_. False)
       \<lparr>cl_top = 0, cl_bottom = 1, cl_buf = \<lparr>rb_cap = 1, rb_mask = 0, rb_cells = [5::nat]\<rparr>, cl_garbage = []\<rparr> 6
     = Some (Inl Bad_alloc)"
proof -
  let ?d = "\<lparr>cl_top = 0, cl_bottom = 1, cl_buf = \<lparr>rb_cap = 1, rb_mask = 0, rb_cells = [5::nat]\<rparr>, cl_garbage = []\<rparr>"
  have inv: "cl_inv ?d" using has_single_bit_pow2 [of 0] by (simp add: cl_inv_def rb_wf_def)
  from inv chase_lev_push_outcomes [OF inv, of "\<lambda>_. False" 0 6] show ?thesis
    by (simp add: cl_ssize_def)
qed

text \<open>
  \<open>size()\<close>, \<open>ssize()\<close> and \<open>empty()\<close> agree with the contents, and the capacity is a
  power of two that holds them.
\<close>

theorem chase_lev_observers:
  assumes "cl_inv d"
  shows "cl_size d = length (cl_contents d) \<and> cl_ssize d = int (length (cl_contents d))
     \<and> (cl_empty d \<longleftrightarrow> cl_contents d = []) \<and> int (length (cl_contents d)) \<le> cl_capacity d
     \<and> has_single_bit (cl_capacity d)"
  using assms cl_ssize_contents [OF assms] cl_contents_empty_iff [OF assms]
  by (auto simp: cl_size_def cl_empty_def cl_capacity_def rb_capacity_def cl_inv_def rb_wf_def cl_ssize_def)

theorem chase_lev_observers_witness:
  "cl_inv \<lparr>cl_top = 3, cl_bottom = 4, cl_buf = \<lparr>rb_cap = 1, rb_mask = 0, rb_cells = [5::nat]\<rparr>, cl_garbage = []\<rparr>
   \<and> cl_size \<lparr>cl_top = 3, cl_bottom = 4, cl_buf = \<lparr>rb_cap = 1, rb_mask = 0, rb_cells = [5::nat]\<rparr>, cl_garbage = []\<rparr>
     = length [5::nat]"
proof -
  let ?d = "\<lparr>cl_top = 3, cl_bottom = 4, cl_buf = \<lparr>rb_cap = 1, rb_mask = 0, rb_cells = [5::nat]\<rparr>, cl_garbage = []\<rparr>"
  have inv: "cl_inv ?d" using has_single_bit_pow2 [of 0] by (simp add: cl_inv_def rb_wf_def)
  moreover have "cl_contents ?d = [5]" by (simp add: cl_contents_def rb_at_def rb_slot_def)
  ultimately show ?thesis using chase_lev_observers [OF inv] by simp
qed

end
