(* ===== verification/Conc_Deque.thy ===== *)
theory Conc_Deque
  imports Deque_Common
begin

text \<open>
  What the three deques promise under interleaving, as the locale \<open>conc_deque\<close>: each step of the owner
  or of a thief is one event of an abstract deque, a list.  A provider supplies its step relation, its
  runs, its invariant, the list it stands for, and what each agent has taken and not yet returned;
  proved here once are that the invariant holds along runs, that nothing is lost or taken twice, and
  that agents return what they took.
\<close>

section \<open>Events\<close>

text \<open>
  What a step does to the abstract deque. \<open>E_pop v\<close> is the step at which a \<open>pop\<close> takes the
  element it will return, \<open>E_ret v\<close> the step at which it returns \<open>v\<close>.
\<close>

datatype 'a event =
    E_tau
  | E_push 'a
  | E_pop 'a
  | E_pop_empty
  | E_ret 'a
  | E_steal 'a
  | E_steal_lost
  | E_steal_empty

text \<open>What each event means for a list.\<close>

fun list_event :: "'a list \<Rightarrow> 'a event \<Rightarrow> 'a list \<Rightarrow> bool" where
  "list_event xs (E_push v) ys \<longleftrightarrow> ys = xs @ [v]"
| "list_event xs (E_pop v) ys \<longleftrightarrow> xs = ys @ [v]"
| "list_event xs (E_steal v) ys \<longleftrightarrow> xs = v # ys"
| "list_event xs E_pop_empty ys \<longleftrightarrow> xs = [] \<and> ys = []"
| "list_event xs _ ys \<longleftrightarrow> ys = xs"

text \<open>The values of the events of a run, in order.\<close>

fun ev_pushed :: "'a event \<Rightarrow> 'a list" where
  "ev_pushed (E_push v) = [v]" | "ev_pushed _ = []"

fun ev_popped :: "'a event \<Rightarrow> 'a list" where
  "ev_popped (E_pop v) = [v]" | "ev_popped _ = []"

fun ev_stolen :: "'a event \<Rightarrow> 'a list" where
  "ev_stolen (E_steal v) = [v]" | "ev_stolen _ = []"

fun ev_returned :: "'a event \<Rightarrow> 'a list" where
  "ev_returned (E_ret v) = [v]" | "ev_returned _ = []"

lemma list_event_conserves:
  "list_event xs e ys \<Longrightarrow> mset xs + mset (ev_pushed e) = mset ys + mset (ev_popped e) + mset (ev_stolen e)"
  by (cases e) auto

section \<open>The contract\<close>

text \<open>
  \<open>l\<close> is the label of a step and \<open>ev l\<close> its event; \<open>tk i l\<close> and \<open>rt i l\<close> are what the agent \<open>i\<close> takes and
  returns in it, \<open>pend i s\<close> what it has taken and not returned.
\<close>

locale conc_deque =
  fixes step :: "'s \<Rightarrow> 'l \<Rightarrow> 's \<Rightarrow> bool"
    and run :: "'s \<Rightarrow> 'l list \<Rightarrow> 's \<Rightarrow> bool"
    and inv :: "'s \<Rightarrow> bool"
    and items :: "'s \<Rightarrow> 'a list"
    and ev :: "'l \<Rightarrow> 'a event"
    and pend :: "'i \<Rightarrow> 's \<Rightarrow> 'a list"
    and tk :: "'i \<Rightarrow> 'l \<Rightarrow> 'a list"
    and rt :: "'i \<Rightarrow> 'l \<Rightarrow> 'a list"
  assumes run_cases: "run s ls t \<Longrightarrow> ls = [] \<and> t = s \<or> (\<exists>ks l u. ls = ks @ [l] \<and> run s ks u \<and> step u l t)"
    and step_law: "step s l t \<Longrightarrow> inv s \<Longrightarrow> inv t \<and> list_event (items s) (ev l) (items t)"
    and pend_law: "step s l t \<Longrightarrow> inv s \<Longrightarrow> pend i s @ tk i l = rt i l @ pend i t"
begin

lemma run_induct [consumes 1, case_names refl snoc]:
  assumes "run s ls t" "P [] s" "\<And>ks l u t. run s ks u \<Longrightarrow> step u l t \<Longrightarrow> P ks u \<Longrightarrow> P (ks @ [l]) t"
  shows "P ls t"
  using assms(1)
proof (induction ls arbitrary: t rule: rev_induct)
  case Nil
  with run_cases [OF Nil] assms(2) show ?case by simp
next
  case (snoc l ks)
  from run_cases [OF snoc.prems] obtain u where "run s ks u" "step u l t" by auto
  with snoc.IH assms(3) show ?case by blast
qed

lemma run_inv: "run s ls t \<Longrightarrow> inv s \<Longrightarrow> inv t"
  by (induction rule: run_induct) (auto dest: step_law)

lemma run_conserves:
  assumes "run s ls t" "inv s"
  shows "mset (items s) + mset (concat (map (\<lambda>l. ev_pushed (ev l)) ls))
     = mset (items t) + mset (concat (map (\<lambda>l. ev_popped (ev l)) ls)) + mset (concat (map (\<lambda>l. ev_stolen (ev l)) ls))"
  using assms(1)
proof (induction rule: run_induct)
  case (snoc ks l u t)
  from step_law [OF snoc(2) run_inv [OF snoc(1) assms(2)]]
  have "mset (items u) + mset (ev_pushed (ev l)) = mset (items t) + mset (ev_popped (ev l)) + mset (ev_stolen (ev l))"
    by (intro list_event_conserves) simp
  from balance_trans [OF snoc(3) [unfolded add.assoc] this [unfolded add.assoc]] show ?case by (simp add: ac_simps)
qed simp

lemma run_pending:
  assumes "run s ls t" "inv s"
  shows "pend i s @ concat (map (tk i) ls) = concat (map (rt i) ls) @ pend i t"
  using assms(1)
proof (induction rule: run_induct)
  case (snoc ks l u t)
  have "pend i s @ concat (map (tk i) (ks @ [l])) = (pend i s @ concat (map (tk i) ks)) @ tk i l" by simp
  also have "\<dots> = concat (map (rt i) ks) @ rt i l @ pend i t"
    using snoc(3) pend_law [OF snoc(2) run_inv [OF snoc(1) assms(2)], of i] by simp
  finally show ?case by simp
qed simp

end

end
