(* ===== verification/Chase_Lev_Conc.thy ===== *)
theory Chase_Lev_Conc
  imports Chase_Lev Conc_Deque
begin

text \<open>
  The Chase-Lev deque under interleaving: one owner that pushes and pops and any number of
  thieves, with one step per access to a shared atomic (\<open>m_top\<close>, \<open>m_bottom\<close>, \<open>m_buf\<close> and the
  cells of the buffers) in the order of \<open>push\<close>, \<open>pop\<close> and \<open>steal\<close> of \<open>deque_chase_lev.hpp\<close>.
  The memory is sequentially consistent: the fences and memory orders of the source, which make
  the accesses behave so on weaker hardware, are not modelled.

  The buffers ever allocated are kept in a list and a pointer to a buffer is its position there,
  since retired buffers stay alive in \<open>m_garbage\<close>: a thief may still read one.
\<close>

datatype 'a owner_pc =
    O_idle
  | O_push_ld_bottom 'a
  | O_push_ld_top 'a int
  | O_push_ld_buf 'a int int
  | O_push_st_buf 'a int nat
  | O_push_st_cell 'a int nat
  | O_push_st_bottom 'a int
  | O_pop_ld_bottom
  | O_pop_ld_buf int
  | O_pop_st_bottom int nat
  | O_pop_ld_top int nat
  | O_pop_cas int nat
  | O_pop_won int nat 'a
  | O_pop_ld_cell int nat 'a
  | O_pop_restore int

datatype 'a thief_pc =
    T_idle
  | T_ld_top
  | T_ld_bottom int
  | T_ld_buf int
  | T_ld_cell int nat
  | T_cas int 'a

record 'a cl_sys =
  s_top :: int
  s_bottom :: int
  s_buf :: nat
  s_bufs :: "'a ring_buf list"
  s_owner :: "'a owner_pc"
  s_thief :: "nat \<Rightarrow> 'a thief_pc"

definition cl_cell :: "'a cl_sys \<Rightarrow> int \<Rightarrow> 'a" where
  "cl_cell s i = rb_at (s_bufs s ! s_buf s) i"

definition set_thief :: "'a cl_sys \<Rightarrow> nat \<Rightarrow> 'a thief_pc \<Rightarrow> 'a cl_sys" where
  "set_thief s i p = s\<lparr>s_thief := (s_thief s)(i := p)\<rparr>"

definition cl_init :: "'a \<Rightarrow> int \<Rightarrow> 'a cl_sys option" where
  "cl_init z cap = do {
     b \<leftarrow> ring_buf_new z cap;
     Some \<lparr>s_top = 0, s_bottom = 0, s_buf = 0, s_bufs = [b], s_owner = O_idle, s_thief = (\<lambda>_. T_idle)\<rparr> }"

section \<open>The owner\<close>

inductive push_step :: "'a \<Rightarrow> 'a cl_sys \<Rightarrow> 'a event \<Rightarrow> 'a cl_sys \<Rightarrow> bool" for z :: 'a where
  push_call: "s_owner s = O_idle \<Longrightarrow>
     push_step z s E_tau (s\<lparr>s_owner := O_push_ld_bottom v\<rparr>)"
| push_ld_bottom: "s_owner s = O_push_ld_bottom v \<Longrightarrow>
     push_step z s E_tau (s\<lparr>s_owner := O_push_ld_top v (s_bottom s)\<rparr>)"
| push_ld_top: "s_owner s = O_push_ld_top v b \<Longrightarrow>
     push_step z s E_tau (s\<lparr>s_owner := O_push_ld_buf v b (s_top s)\<rparr>)"
| push_full: "s_owner s = O_push_ld_buf v b t \<Longrightarrow> rb_capacity (s_bufs s ! s_buf s) < (b - t) + 1 \<Longrightarrow>
     rb_resize z (s_bufs s ! s_buf s) b t = Some bigger \<Longrightarrow>
     push_step z s E_tau
       (s\<lparr>s_bufs := s_bufs s @ [bigger], s_owner := O_push_st_buf v b (length (s_bufs s))\<rparr>)"
| push_alloc_fails: "s_owner s = O_push_ld_buf v b t \<Longrightarrow> rb_capacity (s_bufs s ! s_buf s) < (b - t) + 1 \<Longrightarrow>
     push_step z s E_tau (s\<lparr>s_owner := O_idle\<rparr>)"
| push_fits: "s_owner s = O_push_ld_buf v b t \<Longrightarrow> \<not> rb_capacity (s_bufs s ! s_buf s) < (b - t) + 1 \<Longrightarrow>
     push_step z s E_tau (s\<lparr>s_owner := O_push_st_cell v b (s_buf s)\<rparr>)"
| push_st_buf: "s_owner s = O_push_st_buf v b p \<Longrightarrow>
     push_step z s E_tau (s\<lparr>s_buf := p, s_owner := O_push_st_cell v b p\<rparr>)"
| push_st_cell: "s_owner s = O_push_st_cell v b p \<Longrightarrow> rb_store (s_bufs s ! p) b v = Some c \<Longrightarrow>
     push_step z s E_tau (s\<lparr>s_bufs := (s_bufs s)[p := c], s_owner := O_push_st_bottom v b\<rparr>)"
| push_st_bottom: "s_owner s = O_push_st_bottom v b \<Longrightarrow>
     push_step z s (E_push v) (s\<lparr>s_bottom := b + 1, s_owner := O_idle\<rparr>)"

inductive pop_step :: "'a cl_sys \<Rightarrow> 'a event \<Rightarrow> 'a cl_sys \<Rightarrow> bool" where
  pop_call: "s_owner s = O_idle \<Longrightarrow> pop_step s E_tau (s\<lparr>s_owner := O_pop_ld_bottom\<rparr>)"
| pop_ld_bottom: "s_owner s = O_pop_ld_bottom \<Longrightarrow>
     pop_step s E_tau (s\<lparr>s_owner := O_pop_ld_buf (s_bottom s - 1)\<rparr>)"
| pop_ld_buf: "s_owner s = O_pop_ld_buf b \<Longrightarrow>
     pop_step s E_tau (s\<lparr>s_owner := O_pop_st_bottom b (s_buf s)\<rparr>)"
| pop_st_bottom: "s_owner s = O_pop_st_bottom b p \<Longrightarrow>
     pop_step s E_tau (s\<lparr>s_bottom := b, s_owner := O_pop_ld_top b p\<rparr>)"
| pop_many: "s_owner s = O_pop_ld_top b p \<Longrightarrow> s_top s < b \<Longrightarrow> v = rb_at (s_bufs s ! p) b \<Longrightarrow>
     pop_step s (E_pop v) (s\<lparr>s_owner := O_pop_ld_cell b p v\<rparr>)"
| pop_single: "s_owner s = O_pop_ld_top b p \<Longrightarrow> s_top s = b \<Longrightarrow>
     pop_step s E_tau (s\<lparr>s_owner := O_pop_cas b p\<rparr>)"
| pop_none: "s_owner s = O_pop_ld_top b p \<Longrightarrow> b < s_top s \<Longrightarrow>
     pop_step s E_pop_empty (s\<lparr>s_owner := O_pop_restore b\<rparr>)"
| pop_cas_wins: "s_owner s = O_pop_cas b p \<Longrightarrow> s_top s = b \<Longrightarrow> v = rb_at (s_bufs s ! p) b \<Longrightarrow>
     pop_step s (E_pop v) (s\<lparr>s_top := b + 1, s_owner := O_pop_won b p v\<rparr>)"
| pop_cas_loses: "s_owner s = O_pop_cas b p \<Longrightarrow> s_top s \<noteq> b \<Longrightarrow>
     pop_step s E_pop_empty (s\<lparr>s_owner := O_pop_restore b\<rparr>)"
| pop_won: "s_owner s = O_pop_won b p v \<Longrightarrow>
     pop_step s E_tau (s\<lparr>s_bottom := b + 1, s_owner := O_pop_ld_cell b p v\<rparr>)"
| pop_ld_cell: "s_owner s = O_pop_ld_cell b p v \<Longrightarrow> rb_load (s_bufs s ! p) b = Some w \<Longrightarrow>
     pop_step s (E_ret w) (s\<lparr>s_owner := O_idle\<rparr>)"
| pop_restore: "s_owner s = O_pop_restore b \<Longrightarrow>
     pop_step s E_tau (s\<lparr>s_bottom := b + 1, s_owner := O_idle\<rparr>)"

section \<open>The thieves\<close>

inductive steal_step :: "nat \<Rightarrow> 'a cl_sys \<Rightarrow> 'a event \<Rightarrow> 'a cl_sys \<Rightarrow> bool" for i :: nat where
  steal_call: "s_thief s i = T_idle \<Longrightarrow> steal_step i s E_tau (set_thief s i T_ld_top)"
| steal_ld_top: "s_thief s i = T_ld_top \<Longrightarrow>
     steal_step i s E_tau (set_thief s i (T_ld_bottom (s_top s)))"
| steal_some: "s_thief s i = T_ld_bottom t \<Longrightarrow> t < s_bottom s \<Longrightarrow>
     steal_step i s E_tau (set_thief s i (T_ld_buf t))"
| steal_none: "s_thief s i = T_ld_bottom t \<Longrightarrow> \<not> t < s_bottom s \<Longrightarrow>
     steal_step i s E_steal_empty (set_thief s i T_idle)"
| steal_ld_buf: "s_thief s i = T_ld_buf t \<Longrightarrow>
     steal_step i s E_tau (set_thief s i (T_ld_cell t (s_buf s)))"
| steal_ld_cell: "s_thief s i = T_ld_cell t p \<Longrightarrow> rb_load (s_bufs s ! p) t = Some v \<Longrightarrow>
     steal_step i s E_tau (set_thief s i (T_cas t v))"
| steal_wins: "s_thief s i = T_cas t v \<Longrightarrow> s_top s = t \<Longrightarrow>
     steal_step i s (E_steal v) (set_thief (s\<lparr>s_top := t + 1\<rparr>) i T_idle)"
| steal_loses: "s_thief s i = T_cas t v \<Longrightarrow> s_top s \<noteq> t \<Longrightarrow>
     steal_step i s E_steal_lost (set_thief s i T_idle)"

definition cl_step :: "'a \<Rightarrow> 'a cl_sys \<Rightarrow> 'a event \<Rightarrow> 'a cl_sys \<Rightarrow> bool" where
  "cl_step z s e s' \<longleftrightarrow> push_step z s e s' \<or> pop_step s e s' \<or> (\<exists>i. steal_step i s e s')"

inductive cl_run :: "'a \<Rightarrow> 'a cl_sys \<Rightarrow> 'a event list \<Rightarrow> 'a cl_sys \<Rightarrow> bool" for z :: 'a where
  run_refl: "cl_run z s [] s"
| run_step: "cl_run z s es t \<Longrightarrow> cl_step z t e u \<Longrightarrow> cl_run z s (es @ [e]) u"

section \<open>The abstract deque\<close>

text \<open>
  Where the logical end of the deque is: a \<open>pop\<close> in flight has already lowered \<open>m_bottom\<close> although
  the element is still up for grabs.
\<close>

definition l_bottom :: "'a cl_sys \<Rightarrow> int" where
  "l_bottom s = (case s_owner s of
     O_pop_ld_top b p \<Rightarrow> b + 1 | O_pop_cas b p \<Rightarrow> b + 1 | O_pop_won b p v \<Rightarrow> b + 1
   | O_pop_restore b \<Rightarrow> b + 1 | _ \<Rightarrow> s_bottom s)"

definition cl_items :: "'a cl_sys \<Rightarrow> 'a list" where
  "cl_items s = map (cl_cell s) [s_top s..l_bottom s - 1]"

section \<open>The invariant\<close>

definition cl_shared_ok :: "'a cl_sys \<Rightarrow> bool" where
  "cl_shared_ok s \<longleftrightarrow> (\<forall>p < length (s_bufs s). rb_wf (s_bufs s ! p)) \<and> s_buf s < length (s_bufs s)
     \<and> 0 \<le> s_top s \<and> s_top s \<le> l_bottom s \<and> l_bottom s - s_top s \<le> rb_cap (s_bufs s ! s_buf s)"

definition cl_owner_ok :: "'a cl_sys \<Rightarrow> bool" where
  "cl_owner_ok s = (case s_owner s of
     O_idle \<Rightarrow> True
   | O_push_ld_bottom v \<Rightarrow> True
   | O_push_ld_top v b \<Rightarrow> b = s_bottom s
   | O_push_ld_buf v b t \<Rightarrow> b = s_bottom s \<and> 0 \<le> t \<and> t \<le> s_top s
       \<and> b - t \<le> rb_cap (s_bufs s ! s_buf s)
   | O_push_st_buf v b p \<Rightarrow> b = s_bottom s \<and> p < length (s_bufs s)
       \<and> b - s_top s < rb_cap (s_bufs s ! p)
       \<and> (\<forall>k. s_top s \<le> k \<and> k < b \<longrightarrow> rb_at (s_bufs s ! p) k = cl_cell s k)
   | O_push_st_cell v b p \<Rightarrow> b = s_bottom s \<and> p = s_buf s \<and> b - s_top s < rb_cap (s_bufs s ! p)
   | O_push_st_bottom v b \<Rightarrow> b = s_bottom s \<and> b - s_top s < rb_cap (s_bufs s ! s_buf s) \<and> cl_cell s b = v
   | O_pop_ld_bottom \<Rightarrow> True
   | O_pop_ld_buf b \<Rightarrow> b = s_bottom s - 1
   | O_pop_st_bottom b p \<Rightarrow> b = s_bottom s - 1 \<and> p = s_buf s
   | O_pop_ld_top b p \<Rightarrow> b = s_bottom s \<and> p = s_buf s
   | O_pop_cas b p \<Rightarrow> b = s_bottom s \<and> p = s_buf s \<and> b \<le> s_top s
   | O_pop_won b p v \<Rightarrow> b = s_bottom s \<and> p = s_buf s \<and> s_top s = b + 1 \<and> 0 \<le> b \<and> cl_cell s b = v
   | O_pop_ld_cell b p v \<Rightarrow> p = s_buf s \<and> 0 \<le> b \<and> cl_cell s b = v
   | O_pop_restore b \<Rightarrow> b = s_bottom s \<and> s_top s = b + 1)"

fun cl_thief_ok :: "'a cl_sys \<Rightarrow> 'a thief_pc \<Rightarrow> bool" where
  "cl_thief_ok s T_idle \<longleftrightarrow> True"
| "cl_thief_ok s T_ld_top \<longleftrightarrow> True"
| "cl_thief_ok s (T_ld_bottom t) \<longleftrightarrow> 0 \<le> t \<and> t \<le> s_top s"
| "cl_thief_ok s (T_ld_buf t) \<longleftrightarrow> 0 \<le> t \<and> t \<le> s_top s \<and> (t = s_top s \<longrightarrow> t < l_bottom s)"
| "cl_thief_ok s (T_ld_cell t p) \<longleftrightarrow> 0 \<le> t \<and> t \<le> s_top s \<and> p < length (s_bufs s)
     \<and> (t = s_top s \<longrightarrow> t < l_bottom s \<and> rb_at (s_bufs s ! p) t = cl_cell s t)"
| "cl_thief_ok s (T_cas t v) \<longleftrightarrow> 0 \<le> t \<and> t \<le> s_top s
     \<and> (t = s_top s \<longrightarrow> t < l_bottom s \<and> v = cl_cell s t)"

definition cl_conc_inv :: "'a cl_sys \<Rightarrow> bool" where
  "cl_conc_inv s \<longleftrightarrow> cl_shared_ok s \<and> cl_owner_ok s \<and> (\<forall>i. cl_thief_ok s (s_thief s i))"

lemmas cl_inv_defs = cl_conc_inv_def cl_shared_ok_def cl_owner_ok_def cl_items_def cl_cell_def
  l_bottom_def set_thief_def

text \<open>A thief's claim survives any change that keeps the element at the front.\<close>

lemma cl_thief_ok_mono:
  assumes "cl_thief_ok s p" "s_top s \<le> s_top s'" "length (s_bufs s) \<le> length (s_bufs s')"
    and "s_top s' = s_top s \<Longrightarrow> s_top s < l_bottom s \<Longrightarrow>
      s_top s < l_bottom s' \<and> cl_cell s' (s_top s) = cl_cell s (s_top s)
      \<and> (\<forall>q < length (s_bufs s). rb_at (s_bufs s ! q) (s_top s) = cl_cell s (s_top s)
           \<longrightarrow> rb_at (s_bufs s' ! q) (s_top s) = cl_cell s (s_top s))"
  shows "cl_thief_ok s' p"
  using assms by (cases p) auto

lemma l_bottom_ge_top: "cl_shared_ok s \<Longrightarrow> s_top s \<le> l_bottom s"
  by (simp add: cl_shared_ok_def)

text \<open>A general step of the owner: what has to be checked when only the owner's view changes.\<close>

lemma owner_step:
  assumes inv: "cl_conc_inv s"
    and thief: "s_thief s' = s_thief s" "s_top s \<le> s_top s'" "length (s_bufs s) \<le> length (s_bufs s')"
    and front: "s_top s' = s_top s \<Longrightarrow> s_top s < l_bottom s \<Longrightarrow>
      s_top s < l_bottom s' \<and> cl_cell s' (s_top s) = cl_cell s (s_top s)
      \<and> (\<forall>q < length (s_bufs s). rb_at (s_bufs s ! q) (s_top s) = cl_cell s (s_top s)
           \<longrightarrow> rb_at (s_bufs s' ! q) (s_top s) = cl_cell s (s_top s))"
    and shared: "cl_shared_ok s'" and owner: "cl_owner_ok s'"
  shows "cl_conc_inv s'"
proof -
  have "cl_thief_ok s' (s_thief s' i)" for i
    unfolding thief(1)
  proof (rule cl_thief_ok_mono)
    show "cl_thief_ok s (s_thief s i)" using inv by (simp add: cl_conc_inv_def)
  qed (fact thief(2,3) front)+
  with shared owner show ?thesis by (simp add: cl_conc_inv_def)
qed

text \<open>Steps that only move the owner's program counter.\<close>

lemma owner_moves:
  assumes "cl_conc_inv s" "l_bottom (s\<lparr>s_owner := pc\<rparr>) = l_bottom s" "cl_owner_ok (s\<lparr>s_owner := pc\<rparr>)"
  shows "cl_conc_inv (s\<lparr>s_owner := pc\<rparr>)" "cl_items (s\<lparr>s_owner := pc\<rparr>) = cl_items s"
proof -
  have cell: "cl_cell (s\<lparr>s_owner := pc\<rparr>) = cl_cell s" by (rule ext) (simp add: cl_cell_def)
  show "cl_conc_inv (s\<lparr>s_owner := pc\<rparr>)"
    by (rule owner_step [OF assms(1)]) (use assms cell in \<open>auto simp: cl_conc_inv_def cl_shared_ok_def\<close>)
  show "cl_items (s\<lparr>s_owner := pc\<rparr>) = cl_items s"
    using assms(2) cell by (simp add: cl_items_def)
qed

lemma cl_items_cong:
  assumes "s_top s' = s_top s" "l_bottom s' = l_bottom s"
    and "\<And>k. s_top s \<le> k \<Longrightarrow> k < l_bottom s \<Longrightarrow> cl_cell s' k = cl_cell s k"
  shows "cl_items s' = cl_items s"
  unfolding cl_items_def assms(1,2) by (rule map_upto_cong) (simp add: assms(3))

section \<open>Pushing\<close>

lemma push_full_ok:
  assumes inv: "cl_conc_inv s" and pc: "s_owner s = O_push_ld_buf v b t"
    and full: "rb_capacity (s_bufs s ! s_buf s) < (b - t) + 1"
    and res: "rb_resize z (s_bufs s ! s_buf s) b t = Some g"
  defines "s' \<equiv> s\<lparr>s_bufs := s_bufs s @ [g], s_owner := O_push_st_buf v b (length (s_bufs s))\<rparr>"
  shows "cl_conc_inv s' \<and> cl_items s' = cl_items s"
proof -
  let ?c = "s_bufs s ! s_buf s"
  from inv pc have wf: "rb_wf ?c" and b: "b = s_bottom s" "0 \<le> t" "t \<le> s_top s" "b - t \<le> rb_cap ?c"
    and lb: "l_bottom s = s_bottom s" and le: "s_top s \<le> b" "b - s_top s \<le> rb_cap ?c"
    and p: "s_buf s < length (s_bufs s)" "\<forall>p < length (s_bufs s). rb_wf (s_bufs s ! p)"
    by (auto simp: cl_inv_defs)
  from rb_wf_cap_pos [OF wf] le b have tb: "t \<le> b" and cap: "b - t \<le> 2 * rb_cap ?c" by auto
  from rb_resize_copies [OF wf b(2) tb cap, of z] res have g: "rb_wf g" "rb_cap g = 2 * rb_cap ?c"
    "\<And>k. t \<le> k \<Longrightarrow> k < b \<Longrightarrow> rb_at g k = rb_at ?c k" by auto
  have cell: "cl_cell s' k = cl_cell s k" for k
    using p by (simp add: cl_cell_def s'_def nth_append)
  have lb': "l_bottom s' = l_bottom s" by (simp add: s'_def lb pc l_bottom_def)
  have "cl_shared_ok s'"
    using inv g(1) p lb' by (auto simp: cl_conc_inv_def cl_shared_ok_def s'_def nth_append less_Suc_eq)
  moreover have "cl_owner_ok s'"
    using g b le rb_wf_cap_pos [OF wf] p
    by (auto simp: cl_owner_ok_def s'_def cl_cell_def nth_append)
  ultimately have "cl_conc_inv s'"
    by (intro owner_step [OF inv]) (use cell lb' in \<open>auto simp: s'_def nth_append\<close>)
  moreover have "cl_items s' = cl_items s"
    using cell lb' by (simp add: cl_items_def s'_def)
  ultimately show ?thesis by simp
qed


lemma push_st_buf_ok:
  assumes inv: "cl_conc_inv s" and pc: "s_owner s = O_push_st_buf v b p"
  defines "s' \<equiv> s\<lparr>s_buf := p, s_owner := O_push_st_cell v b p\<rparr>"
  shows "cl_conc_inv s' \<and> cl_items s' = cl_items s"
proof -
  from inv pc have b: "b = s_bottom s" "p < length (s_bufs s)" "b - s_top s < rb_cap (s_bufs s ! p)"
    and eq: "\<And>k. s_top s \<le> k \<Longrightarrow> k < b \<Longrightarrow> rb_at (s_bufs s ! p) k = cl_cell s k"
    by (auto simp: cl_conc_inv_def cl_owner_ok_def)
  have lb: "l_bottom s = b" "l_bottom s' = b" using pc b(1) by (simp_all add: s'_def l_bottom_def)
  have cell: "cl_cell s' k = cl_cell s k" if "s_top s \<le> k" "k < b" for k
    using eq that by (simp add: cl_cell_def s'_def)
  have "cl_shared_ok s'" "cl_owner_ok s'"
    using inv b lb by (auto simp: cl_conc_inv_def cl_shared_ok_def cl_owner_ok_def s'_def)
  then have "cl_conc_inv s'"
    by (intro owner_step [OF inv]) (use cell lb in \<open>auto simp: s'_def\<close>)
  moreover have "cl_items s' = cl_items s"
    by (rule cl_items_cong) (use cell lb in \<open>auto simp: s'_def\<close>)
  ultimately show ?thesis by simp
qed

lemma push_st_cell_ok:
  assumes inv: "cl_conc_inv s" and pc: "s_owner s = O_push_st_cell v b p"
    and st: "rb_store (s_bufs s ! p) b v = Some c"
  defines "s' \<equiv> s\<lparr>s_bufs := (s_bufs s)[p := c], s_owner := O_push_st_bottom v b\<rparr>"
  shows "cl_conc_inv s' \<and> cl_items s' = cl_items s"
proof -
  let ?c = "s_bufs s ! s_buf s"
  from inv pc have b: "b = s_bottom s" "p = s_buf s" "b - s_top s < rb_cap ?c"
    and wf: "rb_wf ?c" "\<forall>p < length (s_bufs s). rb_wf (s_bufs s ! p)" and p: "s_buf s < length (s_bufs s)"
    and le: "0 \<le> s_top s" "s_top s \<le> b"
    by (auto simp: cl_inv_defs)
  from st b wf le have c: "c = rb_put ?c b v" by (simp add: ring_simps)
  have lb: "l_bottom s = b" "l_bottom s' = b" using pc b(1) by (simp_all add: s'_def l_bottom_def)
  have at: "rb_at (rb_put ?c b v) k = rb_at ?c k" if "s_top s \<le> k" "k < b" for k
    using wf(1) b(3) that by (intro rb_at_put_other) auto
  have cell: "cl_cell s' k = cl_cell s k" if "s_top s \<le> k" "k < b" for k
    using at that p by (simp add: cl_cell_def s'_def b(2) c)
  have "cl_shared_ok s'" "cl_owner_ok s'"
    using inv b lb wf p
    by (auto simp: cl_conc_inv_def cl_shared_ok_def cl_owner_ok_def cl_cell_def s'_def c nth_list_update)
  then have "cl_conc_inv s'"
    by (intro owner_step [OF inv])
      (use cell lb at b(2) p in \<open>auto simp: s'_def c nth_list_update cl_cell_def\<close>)
  moreover have "cl_items s' = cl_items s"
    by (rule cl_items_cong) (use cell lb in \<open>auto simp: s'_def\<close>)
  ultimately show ?thesis by simp
qed

lemma push_st_bottom_ok:
  assumes inv: "cl_conc_inv s" and pc: "s_owner s = O_push_st_bottom v b"
  defines "s' \<equiv> s\<lparr>s_bottom := b + 1, s_owner := O_idle\<rparr>"
  shows "cl_conc_inv s' \<and> cl_items s' = cl_items s @ [v]"
proof -
  from inv pc have b: "b = s_bottom s" "b - s_top s < rb_cap (s_bufs s ! s_buf s)" "cl_cell s b = v"
    and le: "s_top s \<le> b" by (auto simp: cl_conc_inv_def cl_shared_ok_def cl_owner_ok_def l_bottom_def)
  have cell: "cl_cell s' = cl_cell s" by (rule ext) (simp add: cl_cell_def s'_def)
  have lb: "l_bottom s = b" "l_bottom s' = b + 1" using pc b(1) by (simp_all add: s'_def l_bottom_def)
  have "cl_shared_ok s'" "cl_owner_ok s'"
    using inv b lb le by (auto simp: cl_conc_inv_def cl_shared_ok_def cl_owner_ok_def s'_def)
  then have "cl_conc_inv s'"
    by (intro owner_step [OF inv]) (use cell lb in \<open>auto simp: s'_def\<close>)
  moreover have "cl_items s' = cl_items s @ [v]"
    using le b(3) unfolding cl_items_def lb cell by (simp add: s'_def upto_rec2)
  ultimately show ?thesis by simp
qed

lemma push_step_ok:
  assumes "push_step z s e s'" "cl_conc_inv s"
  shows "cl_conc_inv s' \<and> list_event (cl_items s) e (cl_items s')"
  using assms(1)
proof cases
  case (push_full v b t bigger)
  then show ?thesis using push_full_ok [OF assms(2)] by simp
next
  case (push_st_buf v b p)
  then show ?thesis using push_st_buf_ok [OF assms(2)] by simp
next
  case (push_st_cell v b p c)
  then show ?thesis using push_st_cell_ok [OF assms(2)] by simp
next
  case (push_st_bottom v b)
  then show ?thesis using push_st_bottom_ok [OF assms(2)] by simp
qed (use assms(2) owner_moves [OF assms(2)] in
    \<open>auto simp: l_bottom_def cl_owner_ok_def cl_conc_inv_def cl_shared_ok_def rb_capacity_def\<close>)

section \<open>Popping\<close>

text \<open>A step that lowers or restores \<open>m_bottom\<close> leaves the cells alone.\<close>

lemma bottom_step:
  assumes inv: "cl_conc_inv s" and s': "s' = s\<lparr>s_bottom := b, s_owner := pc\<rparr>"
    and lb: "l_bottom s' = l_bottom s" and owner: "cl_owner_ok s'"
  shows "cl_conc_inv s' \<and> cl_items s' = cl_items s"
proof -
  have cell: "cl_cell s' = cl_cell s" by (rule ext) (simp add: cl_cell_def s')
  have "cl_shared_ok s'" using inv lb by (auto simp: cl_conc_inv_def cl_shared_ok_def s')
  with owner have "cl_conc_inv s'"
    by (intro owner_step [OF inv]) (use cell lb in \<open>auto simp: s'\<close>)
  moreover have "cl_items s' = cl_items s"
    by (rule cl_items_cong) (use cell lb in \<open>auto simp: s'\<close>)
  ultimately show ?thesis by simp
qed

lemma pop_many_ok:
  assumes inv: "cl_conc_inv s" and pc: "s_owner s = O_pop_ld_top b p" and more: "s_top s < b"
  defines "s' \<equiv> s\<lparr>s_owner := O_pop_ld_cell b p (rb_at (s_bufs s ! p) b)\<rparr>"
  shows "cl_conc_inv s' \<and> cl_items s = cl_items s' @ [rb_at (s_bufs s ! p) b]"
proof -
  from inv pc have b: "b = s_bottom s" "p = s_buf s" and le: "0 \<le> s_top s"
    by (auto simp: cl_conc_inv_def cl_shared_ok_def cl_owner_ok_def)
  have cell: "cl_cell s' = cl_cell s" by (rule ext) (simp add: cl_cell_def s'_def)
  have lb: "l_bottom s = b + 1" "l_bottom s' = b" using pc b(1) by (simp_all add: s'_def l_bottom_def)
  have "cl_shared_ok s'" "cl_owner_ok s'"
    using inv b lb le more
    by (auto simp: cl_conc_inv_def cl_shared_ok_def cl_owner_ok_def cl_cell_def s'_def)
  then have "cl_conc_inv s'"
    by (intro owner_step [OF inv]) (use cell lb more in \<open>auto simp: s'_def\<close>)
  moreover have "cl_items s = cl_items s' @ [rb_at (s_bufs s ! p) b]"
    using more b(2) unfolding cl_items_def lb cell by (simp add: s'_def upto_rec2 cl_cell_def)
  ultimately show ?thesis by simp
qed

lemma pop_cas_wins_ok:
  assumes inv: "cl_conc_inv s" and pc: "s_owner s = O_pop_cas b p" and eq: "s_top s = b"
  defines "s' \<equiv> s\<lparr>s_top := b + 1, s_owner := O_pop_won b p (rb_at (s_bufs s ! p) b)\<rparr>"
  shows "cl_conc_inv s' \<and> cl_items s = cl_items s' @ [rb_at (s_bufs s ! p) b]"
proof -
  from inv pc have b: "b = s_bottom s" "p = s_buf s" and le: "0 \<le> s_top s"
    by (auto simp: cl_conc_inv_def cl_shared_ok_def cl_owner_ok_def)
  have cell: "cl_cell s' = cl_cell s" by (rule ext) (simp add: cl_cell_def s'_def)
  have lb: "l_bottom s = b + 1" "l_bottom s' = b + 1" using pc b(1) by (simp_all add: s'_def l_bottom_def)
  have "cl_shared_ok s'" "cl_owner_ok s'"
    using inv b lb le eq
    by (auto simp: cl_conc_inv_def cl_shared_ok_def cl_owner_ok_def cl_cell_def s'_def)
  then have "cl_conc_inv s'"
    by (intro owner_step [OF inv]) (use cell lb eq in \<open>auto simp: s'_def\<close>)
  moreover have "cl_items s = cl_items s' @ [rb_at (s_bufs s ! p) b]"
    using eq b(2) unfolding cl_items_def lb cell by (simp add: s'_def cl_cell_def)
  ultimately show ?thesis by simp
qed

lemma pop_empty_ok:
  assumes inv: "cl_conc_inv s" and pc: "s_owner s = O_pop_ld_top b p \<or> s_owner s = O_pop_cas b p"
    and gone: "b < s_top s"
  shows "cl_conc_inv (s\<lparr>s_owner := O_pop_restore b\<rparr>) \<and> cl_items s = []
     \<and> cl_items (s\<lparr>s_owner := O_pop_restore b\<rparr>) = []"
proof -
  from inv pc have b: "b = s_bottom s" and lb: "l_bottom s = b + 1" and "s_top s \<le> l_bottom s"
    by (auto simp: cl_conc_inv_def cl_shared_ok_def cl_owner_ok_def l_bottom_def)
  with gone have tp: "s_top s = b + 1" by simp
  have "cl_owner_ok (s\<lparr>s_owner := O_pop_restore b\<rparr>)" "l_bottom (s\<lparr>s_owner := O_pop_restore b\<rparr>) = l_bottom s"
    using b tp lb by (simp_all add: cl_owner_ok_def l_bottom_def)
  from owner_moves [OF inv this(2,1)] lb tp show ?thesis by (simp add: cl_items_def)
qed

lemma pop_step_ok:
  assumes "pop_step s e s'" "cl_conc_inv s"
  shows "cl_conc_inv s' \<and> list_event (cl_items s) e (cl_items s')"
  using assms(1)
proof cases
  case (pop_st_bottom b p)
  then show ?thesis
    using assms(2) bottom_step [OF assms(2), where b = b and pc = "O_pop_ld_top b p"]
    by (simp add: cl_conc_inv_def cl_owner_ok_def l_bottom_def)
next
  case (pop_many b p v)
  then show ?thesis using pop_many_ok [OF assms(2)] by simp
next
  case (pop_none b p)
  then show ?thesis using pop_empty_ok [OF assms(2)] by simp
next
  case (pop_cas_wins b p v)
  then show ?thesis using pop_cas_wins_ok [OF assms(2)] by simp
next
  case (pop_cas_loses b p)
  moreover from this assms(2) have "b < s_top s" by (auto simp: cl_conc_inv_def cl_owner_ok_def)
  ultimately show ?thesis using pop_empty_ok [OF assms(2), of b p] by simp
next
  case (pop_won b p v)
  then show ?thesis
    using assms(2) bottom_step [OF assms(2), where b = "b + 1" and pc = "O_pop_ld_cell b p v"]
    by (auto simp: cl_conc_inv_def cl_owner_ok_def l_bottom_def cl_cell_def)
next
  case (pop_restore b)
  then show ?thesis
    using assms(2) bottom_step [OF assms(2), where b = "b + 1" and pc = O_idle]
    by (simp add: cl_conc_inv_def cl_owner_ok_def l_bottom_def)
qed (use assms(2) owner_moves [OF assms(2)] in
    \<open>auto simp: l_bottom_def cl_owner_ok_def cl_conc_inv_def cl_shared_ok_def\<close>)

section \<open>Stealing\<close>

lemma thief_moves:
  assumes inv: "cl_conc_inv s" and ok: "cl_thief_ok s p"
  shows "cl_conc_inv (set_thief s i p) \<and> cl_items (set_thief s i p) = cl_items s"
proof -
  have cell: "cl_cell (set_thief s i p) = cl_cell s" and lb: "l_bottom (set_thief s i p) = l_bottom s"
    by (auto simp: cl_cell_def l_bottom_def set_thief_def split: owner_pc.split)
  have other: "cl_thief_ok (set_thief s i p) q = cl_thief_ok s q" for q
    using cell lb by (cases q) (auto simp: set_thief_def)
  have "cl_shared_ok (set_thief s i p)" "cl_owner_ok (set_thief s i p)"
    using inv cell lb
    by (auto simp: cl_conc_inv_def cl_shared_ok_def cl_owner_ok_def set_thief_def split: owner_pc.splits)
  moreover have "\<forall>j. cl_thief_ok (set_thief s i p) (s_thief (set_thief s i p) j)"
    using inv ok by (auto simp: other cl_conc_inv_def) (auto simp: set_thief_def)
  ultimately show ?thesis
    using cell lb by (simp add: cl_conc_inv_def cl_items_def) (simp add: set_thief_def)
qed

text \<open>Taking the front element: the owner's claims on later ones are not touched.\<close>

lemma top_step:
  assumes inv: "cl_conc_inv s" and some: "s_top s < l_bottom s"
  defines "s' \<equiv> s\<lparr>s_top := s_top s + 1\<rparr>"
  shows "cl_conc_inv s' \<and> cl_items s = cl_cell s (s_top s) # cl_items s'"
proof -
  have cell: "cl_cell s' = cl_cell s" and lb: "l_bottom s' = l_bottom s"
    by (auto simp: cl_cell_def l_bottom_def s'_def split: owner_pc.split)
  have "cl_shared_ok s'" "cl_owner_ok s'"
    using inv lb some cell
    by (auto simp: cl_conc_inv_def cl_shared_ok_def cl_owner_ok_def s'_def l_bottom_def
        split: owner_pc.splits)
  then have "cl_conc_inv s'"
    by (intro owner_step [OF inv]) (auto simp: s'_def)
  moreover have "cl_items s = cl_cell s (s_top s) # cl_items s'"
    using some unfolding cl_items_def lb cell by (simp add: s'_def upto_rec1)
  ultimately show ?thesis by simp
qed

lemma steal_step_ok:
  assumes "steal_step i s e s'" "cl_conc_inv s"
  shows "cl_conc_inv s' \<and> list_event (cl_items s) e (cl_items s')"
proof -
  have ok: "cl_thief_ok s (s_thief s i)" and sh: "cl_shared_ok s"
    using assms(2) by (auto simp: cl_conc_inv_def)
  from assms(1) show ?thesis
  proof cases
    case (steal_some t)
    moreover have "s_bottom s \<le> l_bottom s"
      using assms(2) by (auto simp: cl_conc_inv_def cl_owner_ok_def l_bottom_def split: owner_pc.splits)
    ultimately show ?thesis using ok thief_moves [OF assms(2), of "T_ld_buf t"] by auto
  next
    case (steal_ld_cell t p v)
    moreover with ok sh have "v = rb_at (s_bufs s ! p) t"
      by (simp add: cl_shared_ok_def ring_simps)
    ultimately show ?thesis using ok thief_moves [OF assms(2), of "T_cas t v"] by auto
  next
    case (steal_wins t v)
    with ok have "s_top s < l_bottom s" "v = cl_cell s (s_top s)" by auto
    with top_step [OF assms(2)] steal_wins thief_moves [of "s\<lparr>s_top := s_top s + 1\<rparr>" T_idle i]
    show ?thesis by auto
  qed (use ok sh thief_moves [OF assms(2)] in \<open>auto simp: cl_shared_ok_def cl_cell_def\<close>)
qed

section \<open>Runs\<close>

lemma cl_step_ok:
  "cl_step z s e s' \<Longrightarrow> cl_conc_inv s \<Longrightarrow> cl_conc_inv s' \<and> list_event (cl_items s) e (cl_items s')"
  unfolding cl_step_def by (elim disjE exE) (rule push_step_ok pop_step_ok steal_step_ok, assumption+)+

lemma cl_init_ok:
  "cl_init z cap = Some s \<Longrightarrow> cl_conc_inv s \<and> cl_items s = []"
  using rb_wf_cap_pos
  by (fastforce simp: cl_init_def cl_inv_defs ring_buf_new_def rb_wf_def Option.bind_eq_Some_conv)

text \<open>The element a \<open>pop\<close> has taken and not yet returned.\<close>

definition pop_pending :: "'a cl_sys \<Rightarrow> 'a list" where
  "pop_pending s = (case s_owner s of O_pop_won b p v \<Rightarrow> [v] | O_pop_ld_cell b p v \<Rightarrow> [v] | _ \<Rightarrow> [])"

text \<open>A \<open>pop\<close> returns what it took.\<close>

lemma pop_step_pending:
  assumes "pop_step s e s'" "cl_conc_inv s"
  shows "pop_pending s @ ev_popped e = ev_returned e @ pop_pending s'"
  using assms(1)
proof cases
  case (pop_ld_cell b p v w)
  with assms(2) have "p = s_buf s" "0 \<le> b" "v = rb_at (s_bufs s ! s_buf s) b" "rb_wf (s_bufs s ! s_buf s)"
    by (auto simp: cl_conc_inv_def cl_owner_ok_def cl_shared_ok_def cl_cell_def)
  with pop_ld_cell show ?thesis by (simp add: pop_pending_def ring_simps)
qed (simp_all add: pop_pending_def)

lemma push_step_pending:
  "push_step z s e s' \<Longrightarrow> pop_pending s @ ev_popped e = ev_returned e @ pop_pending s'"
  by (induction rule: push_step.induct) (auto simp: pop_pending_def)

lemma steal_step_pending:
  "steal_step i s e s' \<Longrightarrow> pop_pending s @ ev_popped e = ev_returned e @ pop_pending s'"
  by (induction rule: steal_step.induct) (auto simp: pop_pending_def set_thief_def split: owner_pc.split)

lemma cl_step_pending:
  "cl_step z s e s' \<Longrightarrow> cl_conc_inv s \<Longrightarrow> pop_pending s @ ev_popped e = ev_returned e @ pop_pending s'"
  by (auto simp: cl_step_def dest: pop_step_pending push_step_pending steal_step_pending)

interpretation clc: conc_deque "cl_step z" "cl_run z" cl_conc_inv cl_items "\<lambda>e. e" "\<lambda>_::unit. pop_pending" "\<lambda>_. ev_popped" "\<lambda>_. ev_returned"
  for z
  by unfold_locales (auto elim: cl_run.cases simp: cl_step_ok cl_step_pending)

lemmas cl_run_inv = clc.run_inv
lemmas cl_run_conserves = clc.run_conserves
lemmas cl_run_pending = clc.run_pending

section \<open>No step gets stuck\<close>

lemma owner_progress:
  assumes inv: "cl_conc_inv s" and busy: "s_owner s \<noteq> O_idle"
  shows "\<exists>e s'. push_step z s e s' \<or> pop_step s e s'"
proof (cases "s_owner s")
  case (O_push_ld_buf v b t)
  then show ?thesis
    by (cases "rb_capacity (s_bufs s ! s_buf s) < (b - t) + 1")
      (meson push_step.push_alloc_fails, meson push_step.push_fits)
next
  case (O_push_st_cell v b p)
  with inv have "rb_store (s_bufs s ! p) b v = Some (rb_put (s_bufs s ! p) b v)"
    by (intro rb_store_wf) (auto simp: cl_inv_defs)
  from push_step.push_st_cell [OF O_push_st_cell this] show ?thesis by metis
next
  case (O_pop_ld_top b p)
  then show ?thesis
    by (cases "s_top s" b rule: linorder_cases)
      (meson pop_step.pop_many, meson pop_step.pop_single, meson pop_step.pop_none)
next
  case (O_pop_cas b p)
  then show ?thesis
    by (cases "s_top s = b") (meson pop_step.pop_cas_wins, meson pop_step.pop_cas_loses)
next
  case (O_pop_ld_cell b p v)
  with inv have "rb_load (s_bufs s ! p) b = Some (rb_at (s_bufs s ! p) b)"
    by (intro rb_load_wf) (auto simp: cl_conc_inv_def cl_owner_ok_def cl_shared_ok_def)
  from pop_step.pop_ld_cell [OF O_pop_ld_cell this] show ?thesis by metis
qed (use busy in \<open>auto\<close>,
    (meson push_step.push_ld_bottom push_step.push_ld_top push_step.push_st_buf push_step.push_st_bottom
      pop_step.pop_ld_bottom pop_step.pop_ld_buf pop_step.pop_st_bottom pop_step.pop_won pop_step.pop_restore)+)

text \<open>A full buffer can always be replaced: the copying loop of \<open>resize\<close> ends.\<close>

lemma resize_enabled:
  assumes inv: "cl_conc_inv s" and pc: "s_owner s = O_push_ld_buf v b t"
  shows "\<exists>g. rb_resize z (s_bufs s ! s_buf s) b t = Some g"
proof -
  from inv pc have wf: "rb_wf (s_bufs s ! s_buf s)" and "0 \<le> t" "t \<le> b"
    "b - t \<le> rb_cap (s_bufs s ! s_buf s)" by (auto simp: cl_inv_defs)
  with rb_wf_cap_pos [OF wf] rb_resize_copies [OF wf, of t b z] show ?thesis by auto
qed

lemma thief_progress:
  assumes inv: "cl_conc_inv s" and busy: "s_thief s i \<noteq> T_idle"
  shows "\<exists>e s'. steal_step i s e s'"
proof (cases "s_thief s i")
  case (T_ld_bottom t)
  then show ?thesis
    by (cases "t < s_bottom s") (meson steal_step.steal_some, meson steal_step.steal_none)
next
  case (T_ld_cell t p)
  from inv have "cl_thief_ok s (s_thief s i)" "cl_shared_ok s" by (auto simp: cl_conc_inv_def)
  with T_ld_cell have "rb_load (s_bufs s ! p) t = Some (rb_at (s_bufs s ! p) t)"
    by (intro rb_load_wf) (auto simp: cl_shared_ok_def)
  from steal_step.steal_ld_cell [OF T_ld_cell this] show ?thesis by metis
next
  case (T_cas t v)
  then show ?thesis
    by (cases "s_top s = t") (meson steal_step.steal_wins, meson steal_step.steal_loses)
qed (use busy in \<open>auto\<close>, (meson steal_step.steal_ld_top steal_step.steal_ld_buf)+)

section \<open>Properties\<close>

text \<open>A run of six steps, a push of 7 into a deque of capacity 2, for the witnesses below.\<close>

definition demo_sys :: "nat list \<Rightarrow> int \<Rightarrow> nat owner_pc \<Rightarrow> nat cl_sys" where
  "demo_sys xs b pc = \<lparr>s_top = 0, s_bottom = b, s_buf = 0,
     s_bufs = [\<lparr>rb_cap = 2, rb_mask = 1, rb_cells = xs\<rparr>], s_owner = pc, s_thief = (\<lambda>_. T_idle)\<rparr>"

lemma demo_init: "cl_init 0 2 = Some (demo_sys [0, 0] 0 O_idle)"
  using has_single_bit_pow2 [of 1]
  by (simp add: cl_init_def ring_buf_new_def demo_sys_def numeral_2_eq_2)

lemma demo_run:
  "cl_run 0 (demo_sys [0, 0] 0 O_idle) [E_tau, E_tau, E_tau, E_tau, E_tau, E_push 7] (demo_sys [7, 0] 1 O_idle)"
proof -
  let ?s = "demo_sys [0, 0] 0"
  have "cl_step 0 (?s O_idle) E_tau (?s (O_push_ld_bottom 7))"
    using push_step.push_call [of "?s O_idle" 0 7] by (simp add: cl_step_def demo_sys_def)
  moreover have "cl_step 0 (?s (O_push_ld_bottom 7)) E_tau (?s (O_push_ld_top 7 0))"
    using push_step.push_ld_bottom [of "?s (O_push_ld_bottom 7)" 7 0] by (simp add: cl_step_def demo_sys_def)
  moreover have "cl_step 0 (?s (O_push_ld_top 7 0)) E_tau (?s (O_push_ld_buf 7 0 0))"
    using push_step.push_ld_top [of "?s (O_push_ld_top 7 0)" 7 0 0] by (simp add: cl_step_def demo_sys_def)
  moreover have "cl_step 0 (?s (O_push_ld_buf 7 0 0)) E_tau (?s (O_push_st_cell 7 0 0))"
    using push_step.push_fits [of "?s (O_push_ld_buf 7 0 0)" 7 0 0 0]
    by (simp add: cl_step_def demo_sys_def rb_capacity_def)
  moreover have "cl_step 0 (?s (O_push_st_cell 7 0 0)) E_tau (demo_sys [7, 0] 0 (O_push_st_bottom 7 0))"
    using push_step.push_st_cell [of "?s (O_push_st_cell 7 0 0)" 7 0 0 "\<lparr>rb_cap = 2, rb_mask = 1, rb_cells = [7, 0]\<rparr>" 0]
    by (simp add: cl_step_def demo_sys_def rb_store_def rb_slot_def)
  moreover have "cl_step 0 (demo_sys [7, 0] 0 (O_push_st_bottom 7 0)) (E_push 7) (demo_sys [7, 0] 1 O_idle)"
    using push_step.push_st_bottom [of "demo_sys [7, 0] 0 (O_push_st_bottom 7 0)" 7 0 0]
    by (simp add: cl_step_def demo_sys_def)
  ultimately have "cl_run 0 (?s O_idle) ([] @ [E_tau] @ [E_tau] @ [E_tau] @ [E_tau] @ [E_tau] @ [E_push 7])
      (demo_sys [7, 0] 1 O_idle)"
    unfolding append_assoc [symmetric]
    by (intro cl_run.run_step) (rule cl_run.run_refl | assumption)+
  then show ?thesis by simp
qed

text \<open>
  Property C1. Linearisability: along every interleaved run from a fresh deque, each atomic step
  of the owner and the thieves acts on the abstract deque as its event says. A push appends at
  the moment \<open>m_bottom\<close> is stored, a pop removes the last element when it reads \<open>m_top\<close> or wins
  the compare-exchange, a steal removes the first element when its compare-exchange succeeds and
  returns exactly that element, a pop reports empty only when the deque is empty, and no other
  step, growing the buffer included, changes the contents.
\<close>

theorem chase_lev_linearises:
  assumes "cl_init z cap = Some s0" "cl_run z s0 es s" "cl_step z s e s'"
  shows "list_event (cl_items s) e (cl_items s')"
  using cl_step_ok [OF assms(3)] cl_run_inv [OF assms(2)] cl_init_ok [OF assms(1)] by simp

theorem chase_lev_linearises_witness:
  "cl_init 0 2 = Some (demo_sys [0, 0] 0 O_idle)
   \<and> cl_run 0 (demo_sys [0, 0] 0 O_idle) [E_tau, E_tau, E_tau, E_tau, E_tau, E_push 7] (demo_sys [7, 0] 1 O_idle)
   \<and> cl_step 0 (demo_sys [7, 0] 1 O_idle) E_tau (demo_sys [7, 0] 1 O_pop_ld_bottom)
   \<and> list_event (cl_items (demo_sys [7, 0] 1 O_idle)) E_tau (cl_items (demo_sys [7, 0] 1 O_pop_ld_bottom))"
proof -
  have "cl_step 0 (demo_sys [7, 0] 1 O_idle) E_tau (demo_sys [7, 0] 1 O_pop_ld_bottom)"
    using pop_step.pop_call [of "demo_sys [7, 0] 1 O_idle"] by (simp add: cl_step_def demo_sys_def)
  with demo_init demo_run chase_lev_linearises [OF demo_init demo_run this] show ?thesis by simp
qed

text \<open>
  Property C3. No task is lost and none is run twice: in every reachable state of every
  interleaving, the elements pushed are exactly the elements popped, the elements stolen and the
  elements still in the deque, counted with multiplicity.
\<close>

theorem chase_lev_conserves:
  assumes "cl_init z cap = Some s0" "cl_run z s0 es s"
  shows "mset (concat (map ev_pushed es))
     = mset (cl_items s) + mset (concat (map ev_popped es)) + mset (concat (map ev_stolen es))"
  using cl_run_conserves [OF assms(2)] cl_init_ok [OF assms(1)] by simp

theorem chase_lev_conserves_witness:
  "cl_init 0 2 = Some (demo_sys [0, 0] 0 O_idle)
   \<and> cl_run 0 (demo_sys [0, 0] 0 O_idle) [E_tau, E_tau, E_tau, E_tau, E_tau, E_push 7] (demo_sys [7, 0] 1 O_idle)
   \<and> mset (cl_items (demo_sys [7, 0] 1 O_idle)) = {#7#}"
  using demo_init demo_run chase_lev_conserves [OF demo_init demo_run] by simp

text \<open>
  Property C14. The values the calls of \<open>pop\<close> return, in order, are the values they removed from
  the deque, in order, up to the one call that has removed its element and not yet returned: the
  late load of the cell, after the slot is won, is safe against every thief and every resize.
\<close>

theorem chase_lev_pop_returns_taken:
  assumes "cl_init z cap = Some s0" "cl_run z s0 es s"
  shows "concat (map ev_popped es) = concat (map ev_returned es) @ pop_pending s"
proof -
  from assms(1) have "pop_pending s0 = []"
    by (auto simp: cl_init_def pop_pending_def Option.bind_eq_Some_conv)
  with cl_run_pending [OF assms(2)] cl_init_ok [OF assms(1)] show ?thesis by simp
qed

theorem chase_lev_pop_returns_taken_witness:
  "cl_init 0 2 = Some (demo_sys [0, 0] 0 O_idle)
   \<and> cl_run 0 (demo_sys [0, 0] 0 O_idle) [E_tau, E_tau, E_tau, E_tau, E_tau, E_push 7] (demo_sys [7, 0] 1 O_idle)
   \<and> pop_pending (demo_sys [7, 0] 1 O_idle) = []"
  using demo_init demo_run chase_lev_pop_returns_taken [OF demo_init demo_run] by simp

text \<open>
  Property C15. In every reachable state every thread inside an operation can take its next step:
  no assertion of the ring buffer can fail, no thief ever reads outside a buffer, and \<open>resize\<close>
  always produces its copy.
\<close>

theorem chase_lev_never_stuck:
  assumes "cl_init z cap = Some s0" "cl_run z s0 es s"
  shows "(s_owner s \<noteq> O_idle \<longrightarrow> (\<exists>e s'. push_step z s e s' \<or> pop_step s e s'))
     \<and> (\<forall>i. s_thief s i \<noteq> T_idle \<longrightarrow> (\<exists>e s'. steal_step i s e s'))
     \<and> (\<forall>v b t. s_owner s = O_push_ld_buf v b t \<longrightarrow> (\<exists>g. rb_resize z (s_bufs s ! s_buf s) b t = Some g))"
proof -
  have inv: "cl_conc_inv s" using cl_run_inv [OF assms(2)] cl_init_ok [OF assms(1)] by simp
  show ?thesis
    using owner_progress [OF inv] thief_progress [OF inv] resize_enabled [OF inv] by simp
qed

theorem chase_lev_never_stuck_witness:
  "cl_init 0 2 = Some (demo_sys [0, 0] 0 O_idle)
   \<and> cl_run 0 (demo_sys [0, 0] 0 O_idle) [E_tau, E_tau, E_tau, E_tau, E_tau, E_push 7, E_tau]
       (demo_sys [7, 0] 1 O_pop_ld_bottom)
   \<and> (\<exists>e s'. push_step 0 (demo_sys [7, 0] 1 O_pop_ld_bottom) e s' \<or> pop_step (demo_sys [7, 0] 1 O_pop_ld_bottom) e s')"
proof -
  have "cl_step 0 (demo_sys [7, 0] 1 O_idle) E_tau (demo_sys [7, 0] 1 O_pop_ld_bottom)"
    using pop_step.pop_call [of "demo_sys [7, 0] 1 O_idle"] by (simp add: cl_step_def demo_sys_def)
  from cl_run.run_step [OF demo_run this]
  have run: "cl_run 0 (demo_sys [0, 0] 0 O_idle) [E_tau, E_tau, E_tau, E_tau, E_tau, E_push 7, E_tau]
       (demo_sys [7, 0] 1 O_pop_ld_bottom)" by simp
  moreover have "s_owner (demo_sys [7, 0] 1 O_pop_ld_bottom) \<noteq> O_idle" by (simp add: demo_sys_def)
  ultimately show ?thesis
    using demo_init chase_lev_never_stuck [OF demo_init run] by simp
qed

end
