(* ===== verification/Blocking_Deque.thy ===== *)
theory Blocking_Deque
  imports Ring_Buffer Deque_Common
begin

text \<open>
  \<open>blocking_deque\<close> of \<open>include/libfork/core/ext/deque_blocking.hpp\<close>: a deque whose operations run
  under a compare-exchange spin lock. \<open>lock()\<close> waits, \<open>try_lock()\<close> gives up; \<open>pop\<close> and \<open>steal\<close> first
  look at the indices without the lock.

  As in \<open>Chase_Lev\<close>, \<open>z\<close> is the value-initialised element and \<open>alloc c\<close> tells whether the
  allocation of a buffer of capacity \<open>c\<close> succeeds. The exception of a failed allocation is
  returned with the state it leaves behind.
\<close>

record 'a blocking_deque =
  bq_flag :: int
  bq_top :: int
  bq_bottom :: int
  bq_buf :: "'a ring_buf"
  bq_garbage :: "'a ring_buf list"

definition bq_k_default_capacity :: int where
  "bq_k_default_capacity = 1024"

definition blocking_new :: "'a \<Rightarrow> int \<Rightarrow> 'a blocking_deque option" where
  "blocking_new z cap = do {
     b \<leftarrow> ring_buf_new z cap;
     Some \<lparr>bq_flag = 0, bq_top = 0, bq_bottom = 0, bq_buf = b, bq_garbage = []\<rparr> }"

definition bq_ssize :: "'a blocking_deque \<Rightarrow> int" where
  "bq_ssize d = max (bq_bottom d - bq_top d) 0"

definition bq_size :: "'a blocking_deque \<Rightarrow> nat" where
  "bq_size d = nat (bq_ssize d)"

definition bq_capacity :: "'a blocking_deque \<Rightarrow> int" where
  "bq_capacity d = rb_capacity (bq_buf d)"

definition bq_empty :: "'a blocking_deque \<Rightarrow> bool" where
  "bq_empty d \<longleftrightarrow> bq_top d \<ge> bq_bottom d"

definition bq_empty_relaxed :: "'a blocking_deque \<Rightarrow> bool" where
  "bq_empty_relaxed d \<longleftrightarrow> bq_top d \<ge> bq_bottom d"

section \<open>The lock\<close>

definition bq_cas_flag :: "'a blocking_deque \<Rightarrow> bool \<times> 'a blocking_deque" where
  "bq_cas_flag d = (if bq_flag d = 0 then (True, d\<lparr>bq_flag := 1\<rparr>) else (False, d))"

partial_function (option) bq_spin :: "'a blocking_deque \<Rightarrow> 'a blocking_deque option" where
  "bq_spin d =
     (if bq_flag d = 0 then
        (let r = bq_cas_flag d in if fst r then Some (snd r) else bq_spin (snd r))
      else bq_spin d)"

definition bq_lock :: "'a blocking_deque \<Rightarrow> 'a blocking_deque option" where
  "bq_lock d = (let r = bq_cas_flag d in if fst r then Some (snd r) else bq_spin (snd r))"

definition bq_try_lock :: "'a blocking_deque \<Rightarrow> bool \<times> 'a blocking_deque" where
  "bq_try_lock d = bq_cas_flag d"

definition bq_unlock :: "'a blocking_deque \<Rightarrow> 'a blocking_deque" where
  "bq_unlock d = d\<lparr>bq_flag := 0\<rparr>"

section \<open>Operations\<close>

text \<open>\<open>push\<close>: the lock is released at the end of the function only.\<close>

definition bq_push :: "'a \<Rightarrow> (int \<Rightarrow> bool) \<Rightarrow> 'a blocking_deque \<Rightarrow> 'a
    \<Rightarrow> ((exn + unit) \<times> 'a blocking_deque) option" where
  "bq_push z alloc d v = do {
     l \<leftarrow> bq_lock d;
     (let bottom = bq_bottom l; tp = bq_top l; buf = bq_buf l in
      if rb_capacity buf < (bottom - tp) + 1 then
        if alloc (2 * rb_cap buf) then do {
          bigger \<leftarrow> rb_resize z buf bottom tp;
          buf' \<leftarrow> rb_store bigger bottom v;
          Some (Inr (), bq_unlock (l\<lparr>bq_garbage := bq_garbage l @ [buf], bq_buf := buf', bq_bottom := bottom + 1\<rparr>)) }
        else Some (Inl Bad_alloc, l)
      else do {
        buf' \<leftarrow> rb_store buf bottom v;
        Some (Inr (), bq_unlock (l\<lparr>bq_buf := buf', bq_bottom := bottom + 1\<rparr>)) }) }"

definition bq_push_ok :: "'a \<Rightarrow> 'a blocking_deque \<Rightarrow> 'a \<Rightarrow> 'a blocking_deque option" where
  "bq_push_ok z d v = (case bq_push z (\<lambda>_. True) d v of Some (Inr _, d') \<Rightarrow> Some d' | _ \<Rightarrow> None)"

definition bq_pop :: "'a blocking_deque \<Rightarrow> ('a option \<times> 'a blocking_deque) option" where
  "bq_pop d =
     (if bq_empty_relaxed d then Some (return_nullopt, d)
      else do {
        l \<leftarrow> bq_lock d;
        (let bottom = bq_bottom l - 1; tp = bq_top l; buf = bq_buf l in
         if tp \<le> bottom then do {
           v \<leftarrow> rb_load buf bottom;
           Some (Some v, bq_unlock (l\<lparr>bq_bottom := bottom\<rparr>)) }
         else Some (return_nullopt, bq_unlock l)) })"

definition bq_steal :: "'a blocking_deque \<Rightarrow> ('a steal_t \<times> 'a blocking_deque) option" where
  "bq_steal d =
     (if bq_empty_relaxed d then Some (steal_failed Err_empty, d)
      else (let (got, l) = bq_try_lock d in
        if got then
          (let tp = bq_top l; bottom = bq_bottom l; buf = bq_buf l in
           if tp < bottom then do {
             v \<leftarrow> rb_load buf tp;
             Some (stolen v, bq_unlock (l\<lparr>bq_top := tp + 1\<rparr>)) }
           else Some (steal_failed Err_empty, bq_unlock l))
        else Some (steal_failed Err_lost, l)))"

section \<open>Invariant and abstraction\<close>

definition bq_inv :: "'a blocking_deque \<Rightarrow> bool" where
  "bq_inv d \<longleftrightarrow> bq_flag d = 0 \<and> rb_wf (bq_buf d) \<and> 0 \<le> bq_top d \<and> bq_top d \<le> bq_bottom d
     \<and> bq_bottom d - bq_top d \<le> rb_cap (bq_buf d)"

definition bq_contents :: "'a blocking_deque \<Rightarrow> 'a list" where
  "bq_contents d = map (rb_at (bq_buf d)) [bq_top d..bq_bottom d - 1]"

lemma bq_lock_free [simp]: "bq_flag d = 0 \<Longrightarrow> bq_lock d = Some (d\<lparr>bq_flag := 1\<rparr>)"
  by (simp add: bq_lock_def bq_cas_flag_def)

lemma bq_try_lock_free [simp]: "bq_flag d = 0 \<Longrightarrow> bq_try_lock d = (True, d\<lparr>bq_flag := 1\<rparr>)"
  by (simp add: bq_try_lock_def bq_cas_flag_def)

lemma bq_try_lock_held [simp]: "bq_flag d \<noteq> 0 \<Longrightarrow> bq_try_lock d = (False, d)"
  by (simp add: bq_try_lock_def bq_cas_flag_def)

lemma bq_push_works:
  assumes "bq_inv d" "rb_cap (bq_buf d) = bq_ssize d \<longrightarrow> alloc (2 * rb_cap (bq_buf d))"
  shows "\<exists>d'. bq_push z alloc d v = Some (Inr (), d') \<and> bq_inv d' \<and> bq_contents d' = bq_contents d @ [v]"
proof -
  from assms(1) have wf: "rb_wf (bq_buf d)" and flag: "bq_flag d = 0" and ge: "0 \<le> bq_top d"
    and le: "bq_top d \<le> bq_bottom d" and cap: "bq_bottom d - bq_top d \<le> rb_cap (bq_buf d)"
    by (auto simp: bq_inv_def)
  show ?thesis
  proof (cases "rb_cap (bq_buf d) < bq_bottom d - bq_top d + 1")
    case True
    with assms(2) cap le have ok: "alloc (2 * rb_cap (bq_buf d))" by (simp add: bq_ssize_def)
    from rb_wf_cap_pos [OF wf] cap have "bq_bottom d - bq_top d \<le> 2 * rb_cap (bq_buf d)" by simp
    from rb_resize_copies [OF wf ge le this, of z] obtain g where
      g: "rb_resize z (bq_buf d) (bq_bottom d) (bq_top d) = Some g" "rb_wf g"
        "rb_cap g = 2 * rb_cap (bq_buf d)"
        "\<And>k. bq_top d \<le> k \<Longrightarrow> k < bq_bottom d \<Longrightarrow> rb_at g k = rb_at (bq_buf d) k" by auto
    have "map (rb_at g) [bq_top d..bq_bottom d - 1] = bq_contents d"
      unfolding bq_contents_def by (rule map_upto_cong) (simp add: g(4))
    moreover have "bq_bottom d - bq_top d < rb_cap g" using g(3) cap rb_wf_cap_pos [OF wf] by simp
    ultimately show ?thesis
      using True ok g(1,2) flag ge le rb_put_appends [OF g(2) le]
      by (simp add: bq_push_def rb_capacity_def Let_def ring_simps bq_inv_def bq_contents_def bq_unlock_def)
  next
    case False
    with wf flag ge le rb_put_appends [OF wf le] show ?thesis
      by (simp add: bq_push_def rb_capacity_def Let_def ring_simps bq_inv_def bq_contents_def bq_unlock_def)
  qed
qed

lemma bq_pop_works:
  assumes "bq_inv d"
  shows "\<exists>d'. bq_pop d = Some (if bq_contents d = [] then None else Some (last (bq_contents d)), d')
     \<and> bq_inv d' \<and> bq_contents d' = butlast (bq_contents d)"
proof (cases "bq_top d < bq_bottom d")
  case True
  with assms have "bq_pop d = Some (Some (rb_at (bq_buf d) (bq_bottom d - 1)), d\<lparr>bq_bottom := bq_bottom d - 1\<rparr>)"
    by (simp add: bq_pop_def bq_empty_relaxed_def bq_inv_def ring_simps Let_def bq_unlock_def)
  with True assms show ?thesis
    by (simp add: bq_inv_def bq_contents_def upto_rec2)
next
  case False
  with assms show ?thesis
    by (simp add: bq_pop_def bq_empty_relaxed_def bq_inv_def bq_contents_def return_nullopt_def)
qed

lemma bq_steal_works:
  assumes "bq_inv d"
  shows "bq_steal d = Some (if bq_contents d = [] then (steal_failed Err_empty, d)
      else (stolen (hd (bq_contents d)), d\<lparr>bq_top := bq_top d + 1\<rparr>))"
proof (cases "bq_top d < bq_bottom d")
  case True
  with assms show ?thesis
    by (simp add: bq_steal_def bq_empty_relaxed_def bq_inv_def ring_simps bq_contents_def upto_rec1
        Let_def bq_unlock_def)
next
  case False
  with assms show ?thesis
    by (simp add: bq_steal_def bq_empty_relaxed_def bq_inv_def bq_contents_def)
qed

interpretation bq: ws_deque_eager bq_inv bq_contents "\<lambda>_. True" "bq_push_ok z" bq_pop bq_steal for z
proof (unfold_locales, goal_cases)
  case (1 d v)
  then show ?case
    using bq_push_works [of d "\<lambda>_. True" z v] by (auto simp: bq_push_ok_def)
next
  case (2 d)
  then show ?case by (rule bq_pop_works)
next
  case (3 d)
  then show ?case
    by (cases "bq_top d < bq_bottom d")
      (auto simp: bq_steal_works bq_inv_def bq_contents_def upto_rec1)
next
  case 4
  then show ?case by simp
next
  case (5 d d')
  then show ?case
    by (auto simp: bq_steal_works stolen_def steal_failed_def split: if_splits)
qed

section \<open>Properties\<close>

text \<open>
  A fresh blocking deque, driven through any sequence of whole pushes, pops and
  steals, always gets its lock, releases it, and answers exactly as a list does.
\<close>

theorem blocking_refines_list:
  assumes "has_single_bit cap"
  shows "\<exists>d outs e. blocking_new z cap = Some d
     \<and> run_deque (\<lambda>_. True) (bq_push_ok z) bq_pop bq_steal d ops = Some (outs, e)
     \<and> (outs, bq_contents e) = list_run [] ops"
proof -
  from ring_buf_new_wf [OF assms, of z] obtain b where
    b: "ring_buf_new z cap = Some b" "rb_wf b" by metis
  let ?d = "\<lparr>bq_flag = 0, bq_top = 0, bq_bottom = 0, bq_buf = b, bq_garbage = []\<rparr>"
  have "bq_inv ?d" using b rb_wf_cap_pos [OF b(2)] by (simp add: bq_inv_def)
  from bq.run_refines_list [OF this, of z ops] b(1) show ?thesis
    by (simp add: blocking_new_def bq_contents_def)
qed

theorem blocking_refines_list_witness:
  "has_single_bit 2 \<and> (\<exists>d outs e. blocking_new (0::nat) 2 = Some d
     \<and> run_deque (\<lambda>_. True) (bq_push_ok 0) bq_pop bq_steal d
         [Op_push 5, Op_push 6, Op_push 7, Op_steal, Op_pop] = Some (outs, e)
     \<and> (outs, bq_contents e) = ([Out_pushed 5, Out_pushed 6, Out_pushed 7, Out_stolen (Some 5),
           Out_popped (Some 7)], [6]))"
proof -
  have two: "has_single_bit 2" using has_single_bit_pow2 [of 1] by simp
  from two blocking_refines_list [OF two, of "0::nat" "[Op_push 5, Op_push 6, Op_push 7, Op_steal, Op_pop]"]
  show ?thesis by simp
qed

text \<open>
  Property C39. A \<open>push\<close> whose allocation fails leaves the lock taken: the exception leaves the
  function between \<open>lock()\<close> and \<open>unlock()\<close>. The elements are unchanged, but from then on every
  steal of the non-empty deque reports \<open>lost\<close>, and so for ever, since only \<open>unlock()\<close>
  resets the flag.
\<close>

theorem blocking_push_throw_leaves_locked:
  assumes "bq_inv d" "rb_cap (bq_buf d) = bq_ssize d" "\<not> alloc (2 * rb_cap (bq_buf d))"
  shows "\<exists>d'. bq_push z alloc d v = Some (Inl Bad_alloc, d') \<and> bq_contents d' = bq_contents d
     \<and> bq_flag d' = 1 \<and> bq_steal d' = Some (steal_failed Err_lost, d')"
proof -
  let ?d = "d\<lparr>bq_flag := 1\<rparr>"
  from assms(1) have d: "bq_flag d = 0" "rb_wf (bq_buf d)" "bq_top d \<le> bq_bottom d"
    by (auto simp: bq_inv_def)
  have less: "bq_top d < bq_bottom d"
    using assms(2) rb_wf_cap_pos [OF d(2)] by (auto simp: bq_ssize_def split: if_splits)
  with assms d have "bq_push z alloc d v = Some (Inl Bad_alloc, ?d)"
    by (auto simp: bq_push_def rb_capacity_def bq_ssize_def Let_def)
  moreover have "bq_steal ?d = Some (steal_failed Err_lost, ?d)"
    using less by (simp add: bq_steal_def bq_empty_relaxed_def)
  ultimately show ?thesis by (simp add: bq_contents_def)
qed

theorem blocking_push_throw_leaves_locked_witness:
  "\<exists>d d'. bq_inv d \<and> rb_cap (bq_buf d) = bq_ssize d \<and> bq_push (0::nat) (\<lambda>_. False) d 6 = Some (Inl Bad_alloc, d')
     \<and> bq_contents d' = [5] \<and> bq_flag d' = 1 \<and> bq_steal d' = Some (steal_failed Err_lost, d')"
proof -
  let ?d = "\<lparr>bq_flag = 0, bq_top = 0, bq_bottom = 1,
     bq_buf = \<lparr>rb_cap = 1, rb_mask = 0, rb_cells = [5::nat]\<rparr>, bq_garbage = []\<rparr>"
  have inv: "bq_inv ?d" using has_single_bit_pow2 [of 0] by (simp add: bq_inv_def rb_wf_def)
  have full: "rb_cap (bq_buf ?d) = bq_ssize ?d" by (simp add: bq_ssize_def)
  have contents: "bq_contents ?d = [5]" by (simp add: bq_contents_def rb_at_def rb_slot_def)
  from blocking_push_throw_leaves_locked [OF inv full, of "\<lambda>_. False" 0 6] contents obtain d' where
    "bq_push 0 (\<lambda>_. False) ?d 6 = Some (Inl Bad_alloc, d')" "bq_contents d' = [5]" "bq_flag d' = 1"
    "bq_steal d' = Some (steal_failed Err_lost, d')" by auto
  with inv full show ?thesis by (intro exI conjI)
qed

end
