(* ===== verification/Blocking_Conc.thy ===== *)
theory Blocking_Conc
  imports Blocking_Deque Conc_Deque
begin

text \<open>
  The lock-based deque of \<open>core/ext/deque_blocking.hpp\<close> under interleaving: agent 0 is the owner,
  which pushes and pops, every other agent a thief.  One step is one access to \<open>m_flag\<close>, \<open>m_top\<close>,
  \<open>m_bottom\<close> or a cell, in the order of the source; a load of \<open>m_buf\<close>, which changes under the lock
  only, goes with the access to the buffer that follows it.  The two loads of \<open>empty_relaxed\<close> are
  made without the lock.  \<open>compare_exchange_weak\<close> may fail spuriously.  An allocation that fails
  leaves \<open>push\<close> with the lock taken (\<open>y_leaked\<close>).  Memory is sequentially consistent.

  The events and the abstract deque are those of \<open>Conc_Deque\<close>, whose contract the system meets.
\<close>

section \<open>The system\<close>

datatype 'a call = C_push 'a | C_pop

datatype 'a bq_pc =
    Q_idle
  | Q_first "'a call" | Q_spin "'a call" | Q_weak "'a call"
  | Q_push_bottom 'a | Q_push_top 'a int | Q_push_buf 'a int int | Q_push_cell 'a int | Q_push_set 'a int | Q_push_unlock
  | Q_empty_top | Q_empty_bottom int
  | Q_pop_bottom | Q_pop_top int | Q_pop_set int | Q_pop_cell int 'a | Q_pop_unlock 'a | Q_none_unlock
  | Q_thief_top | Q_thief_bottom int | Q_try
  | Q_steal_top | Q_steal_bottom int | Q_steal_cell int | Q_steal_set int 'a | Q_steal_unlock

record 'a bq_sys =
  y_flag :: int
  y_top :: int
  y_bottom :: int
  y_buf :: "'a ring_buf"
  y_leaked :: bool
  y_pc :: "nat \<Rightarrow> 'a bq_pc"

definition y_go :: "'a bq_sys \<Rightarrow> nat \<Rightarrow> 'a bq_pc \<Rightarrow> 'a bq_sys" where
  "y_go s i p = s\<lparr>y_pc := (y_pc s)(i := p)\<rparr>"

definition y_init :: "'a \<Rightarrow> int \<Rightarrow> 'a bq_sys option" where
  "y_init z cap = do {
     b \<leftarrow> ring_buf_new z cap;
     Some \<lparr>y_flag = 0, y_top = 0, y_bottom = 0, y_buf = b, y_leaked = False, y_pc = (\<lambda>_. Q_idle)\<rparr> }"

fun y_enter :: "'a call \<Rightarrow> 'a bq_pc" where
  "y_enter (C_push v) = Q_push_bottom v" | "y_enter C_pop = Q_pop_bottom"

text \<open>\<open>lock\<close>, called by the owner.\<close>

inductive y_lock :: "'a bq_sys \<Rightarrow> 'a event \<Rightarrow> 'a bq_sys \<Rightarrow> bool" where
  yl_first: "y_pc s 0 = Q_first c \<Longrightarrow> y_flag s = 0 \<Longrightarrow> y_lock s E_tau ((y_go s 0 (y_enter c))\<lparr>y_flag := 1\<rparr>)"
| yl_busy: "y_pc s 0 = Q_first c \<Longrightarrow> y_flag s \<noteq> 0 \<Longrightarrow> y_lock s E_tau (y_go s 0 (Q_spin c))"
| yl_free: "y_pc s 0 = Q_spin c \<Longrightarrow> y_flag s = 0 \<Longrightarrow> y_lock s E_tau (y_go s 0 (Q_weak c))"
| yl_spin: "y_pc s 0 = Q_spin c \<Longrightarrow> y_flag s \<noteq> 0 \<Longrightarrow> y_lock s E_tau (y_go s 0 (Q_spin c))"
| yl_weak: "y_pc s 0 = Q_weak c \<Longrightarrow> y_flag s = 0 \<Longrightarrow> y_lock s E_tau ((y_go s 0 (y_enter c))\<lparr>y_flag := 1\<rparr>)"
| yl_fail: "y_pc s 0 = Q_weak c \<Longrightarrow> y_lock s E_tau (y_go s 0 (Q_spin c))"

inductive y_push :: "'a \<Rightarrow> 'a bq_sys \<Rightarrow> 'a event \<Rightarrow> 'a bq_sys \<Rightarrow> bool" for z :: 'a where
  yp_call: "y_pc s 0 = Q_idle \<Longrightarrow> y_push z s E_tau (y_go s 0 (Q_first (C_push v)))"
| yp_bottom: "y_pc s 0 = Q_push_bottom v \<Longrightarrow> y_push z s E_tau (y_go s 0 (Q_push_top v (y_bottom s)))"
| yp_top: "y_pc s 0 = Q_push_top v b \<Longrightarrow> y_push z s E_tau (y_go s 0 (Q_push_buf v b (y_top s)))"
| yp_full: "y_pc s 0 = Q_push_buf v b t \<Longrightarrow> rb_capacity (y_buf s) < (b - t) + 1 \<Longrightarrow>
     rb_resize z (y_buf s) b t = Some bigger \<Longrightarrow>
     y_push z s E_tau ((y_go s 0 (Q_push_cell v b))\<lparr>y_buf := bigger\<rparr>)"
| yp_alloc_fails: "y_pc s 0 = Q_push_buf v b t \<Longrightarrow> rb_capacity (y_buf s) < (b - t) + 1 \<Longrightarrow>
     y_push z s E_tau ((y_go s 0 Q_idle)\<lparr>y_leaked := True\<rparr>)"
| yp_fits: "y_pc s 0 = Q_push_buf v b t \<Longrightarrow> \<not> rb_capacity (y_buf s) < (b - t) + 1 \<Longrightarrow>
     y_push z s E_tau (y_go s 0 (Q_push_cell v b))"
| yp_cell: "y_pc s 0 = Q_push_cell v b \<Longrightarrow> rb_store (y_buf s) b v = Some c \<Longrightarrow>
     y_push z s E_tau ((y_go s 0 (Q_push_set v b))\<lparr>y_buf := c\<rparr>)"
| yp_set: "y_pc s 0 = Q_push_set v b \<Longrightarrow> y_push z s (E_push v) ((y_go s 0 Q_push_unlock)\<lparr>y_bottom := b + 1\<rparr>)"
| yp_unlock: "y_pc s 0 = Q_push_unlock \<Longrightarrow> y_push z s E_tau ((y_go s 0 Q_idle)\<lparr>y_flag := 0\<rparr>)"

inductive y_pop :: "'a bq_sys \<Rightarrow> 'a event \<Rightarrow> 'a bq_sys \<Rightarrow> bool" where
  yq_call: "y_pc s 0 = Q_idle \<Longrightarrow> y_pop s E_tau (y_go s 0 Q_empty_top)"
| yq_empty_top: "y_pc s 0 = Q_empty_top \<Longrightarrow> y_pop s E_tau (y_go s 0 (Q_empty_bottom (y_top s)))"
| yq_empty: "y_pc s 0 = Q_empty_bottom t \<Longrightarrow> t \<ge> y_bottom s \<Longrightarrow> y_pop s E_pop_empty (y_go s 0 Q_idle)"
| yq_some: "y_pc s 0 = Q_empty_bottom t \<Longrightarrow> \<not> t \<ge> y_bottom s \<Longrightarrow> y_pop s E_tau (y_go s 0 (Q_first C_pop))"
| yq_bottom: "y_pc s 0 = Q_pop_bottom \<Longrightarrow> y_pop s E_tau (y_go s 0 (Q_pop_top (y_bottom s - 1)))"
| yq_top: "y_pc s 0 = Q_pop_top b \<Longrightarrow> y_top s \<le> b \<Longrightarrow> y_pop s E_tau (y_go s 0 (Q_pop_set b))"
| yq_gone: "y_pc s 0 = Q_pop_top b \<Longrightarrow> \<not> y_top s \<le> b \<Longrightarrow> y_pop s E_pop_empty (y_go s 0 Q_none_unlock)"
| yq_set: "y_pc s 0 = Q_pop_set b \<Longrightarrow> v = rb_at (y_buf s) b \<Longrightarrow>
     y_pop s (E_pop v) ((y_go s 0 (Q_pop_cell b v))\<lparr>y_bottom := b\<rparr>)"
| yq_cell: "y_pc s 0 = Q_pop_cell b v \<Longrightarrow> rb_load (y_buf s) b = Some w \<Longrightarrow> y_pop s E_tau (y_go s 0 (Q_pop_unlock w))"
| yq_unlock: "y_pc s 0 = Q_pop_unlock w \<Longrightarrow> y_pop s (E_ret w) ((y_go s 0 Q_idle)\<lparr>y_flag := 0\<rparr>)"
| yq_none: "y_pc s 0 = Q_none_unlock \<Longrightarrow> y_pop s E_tau ((y_go s 0 Q_idle)\<lparr>y_flag := 0\<rparr>)"

inductive y_steal :: "nat \<Rightarrow> 'a bq_sys \<Rightarrow> 'a event \<Rightarrow> 'a bq_sys \<Rightarrow> bool" for i :: nat where
  ys_call: "y_pc s i = Q_idle \<Longrightarrow> y_steal i s E_tau (y_go s i Q_thief_top)"
| ys_empty_top: "y_pc s i = Q_thief_top \<Longrightarrow> y_steal i s E_tau (y_go s i (Q_thief_bottom (y_top s)))"
| ys_empty: "y_pc s i = Q_thief_bottom t \<Longrightarrow> t \<ge> y_bottom s \<Longrightarrow> y_steal i s E_steal_empty (y_go s i Q_idle)"
| ys_some: "y_pc s i = Q_thief_bottom t \<Longrightarrow> \<not> t \<ge> y_bottom s \<Longrightarrow> y_steal i s E_tau (y_go s i Q_try)"
| ys_lock: "y_pc s i = Q_try \<Longrightarrow> y_flag s = 0 \<Longrightarrow> y_steal i s E_tau ((y_go s i Q_steal_top)\<lparr>y_flag := 1\<rparr>)"
| ys_lost: "y_pc s i = Q_try \<Longrightarrow> y_flag s \<noteq> 0 \<Longrightarrow> y_steal i s E_steal_lost (y_go s i Q_idle)"
| ys_top: "y_pc s i = Q_steal_top \<Longrightarrow> y_steal i s E_tau (y_go s i (Q_steal_bottom (y_top s)))"
| ys_bottom: "y_pc s i = Q_steal_bottom t \<Longrightarrow> t < y_bottom s \<Longrightarrow> y_steal i s E_tau (y_go s i (Q_steal_cell t))"
| ys_gone: "y_pc s i = Q_steal_bottom t \<Longrightarrow> \<not> t < y_bottom s \<Longrightarrow> y_steal i s E_steal_empty (y_go s i Q_steal_unlock)"
| ys_cell: "y_pc s i = Q_steal_cell t \<Longrightarrow> rb_load (y_buf s) t = Some v \<Longrightarrow> y_steal i s E_tau (y_go s i (Q_steal_set t v))"
| ys_set: "y_pc s i = Q_steal_set t v \<Longrightarrow>
     y_steal i s (E_steal v) ((y_go s i Q_steal_unlock)\<lparr>y_top := t + 1\<rparr>)"
| ys_unlock: "y_pc s i = Q_steal_unlock \<Longrightarrow> y_steal i s E_tau ((y_go s i Q_idle)\<lparr>y_flag := 0\<rparr>)"

definition y_step :: "'a \<Rightarrow> 'a bq_sys \<Rightarrow> 'a event \<Rightarrow> 'a bq_sys \<Rightarrow> bool" where
  "y_step z s e s' \<longleftrightarrow> y_lock s e s' \<or> y_push z s e s' \<or> y_pop s e s' \<or> (\<exists>i>0. y_steal i s e s')"

inductive y_run :: "'a \<Rightarrow> 'a bq_sys \<Rightarrow> 'a event list \<Rightarrow> 'a bq_sys \<Rightarrow> bool" for z :: 'a where
  y_refl: "y_run z s [] s"
| y_snoc: "y_run z s es t \<Longrightarrow> y_step z t e u \<Longrightarrow> y_run z s (es @ [e]) u"

section \<open>Mutual exclusion and the contents\<close>

text \<open>The places inside the critical section.\<close>

fun y_cs :: "'a bq_pc \<Rightarrow> bool" where
  "y_cs Q_idle = False" | "y_cs (Q_first c) = False" | "y_cs (Q_spin c) = False" | "y_cs (Q_weak c) = False"
| "y_cs Q_empty_top = False" | "y_cs (Q_empty_bottom t) = False"
| "y_cs Q_thief_top = False" | "y_cs (Q_thief_bottom t) = False" | "y_cs Q_try = False"
| "y_cs _ = True"

text \<open>What an agent knows: a top read without the lock is a lower bound, values read under it are current.\<close>

fun y_knows :: "'a bq_sys \<Rightarrow> 'a bq_pc \<Rightarrow> bool" where
  "y_knows s (Q_empty_bottom t) \<longleftrightarrow> t \<le> y_top s"
| "y_knows s (Q_thief_bottom t) \<longleftrightarrow> t \<le> y_top s"
| "y_knows s (Q_push_top v b) \<longleftrightarrow> b = y_bottom s"
| "y_knows s (Q_push_buf v b t) \<longleftrightarrow> b = y_bottom s \<and> t = y_top s"
| "y_knows s (Q_push_cell v b) \<longleftrightarrow> b = y_bottom s \<and> b - y_top s < rb_cap (y_buf s)"
| "y_knows s (Q_push_set v b) \<longleftrightarrow> b = y_bottom s \<and> b - y_top s < rb_cap (y_buf s) \<and> rb_at (y_buf s) b = v"
| "y_knows s (Q_pop_top b) \<longleftrightarrow> b = y_bottom s - 1"
| "y_knows s (Q_pop_set b) \<longleftrightarrow> b = y_bottom s - 1 \<and> y_top s \<le> b"
| "y_knows s (Q_pop_cell b v) \<longleftrightarrow> 0 \<le> b \<and> rb_at (y_buf s) b = v"
| "y_knows s (Q_steal_bottom t) \<longleftrightarrow> t = y_top s"
| "y_knows s (Q_steal_cell t) \<longleftrightarrow> t = y_top s \<and> t < y_bottom s"
| "y_knows s (Q_steal_set t v) \<longleftrightarrow> t = y_top s \<and> t < y_bottom s \<and> rb_at (y_buf s) t = v"
| "y_knows s _ \<longleftrightarrow> True"

definition y_shared :: "'a bq_sys \<Rightarrow> bool" where
  "y_shared s \<longleftrightarrow> rb_wf (y_buf s) \<and> 0 \<le> y_top s \<and> y_top s \<le> y_bottom s \<and> y_bottom s - y_top s \<le> rb_cap (y_buf s)"

definition y_mutex :: "'a bq_sys \<Rightarrow> bool" where
  "y_mutex s \<longleftrightarrow> (\<forall>i j. y_cs (y_pc s i) \<longrightarrow> y_cs (y_pc s j) \<longrightarrow> i = j) \<and>
     (y_flag s = 0 \<longleftrightarrow> \<not> y_leaked s \<and> (\<forall>i. \<not> y_cs (y_pc s i))) \<and> (y_leaked s \<longrightarrow> (\<forall>i. \<not> y_cs (y_pc s i)))"

definition y_inv :: "'a bq_sys \<Rightarrow> bool" where
  "y_inv s \<longleftrightarrow> y_shared s \<and> y_mutex s \<and> (\<forall>i. y_knows s (y_pc s i))"

definition y_items :: "'a bq_sys \<Rightarrow> 'a list" where
  "y_items s = map (rb_at (y_buf s)) [y_top s..y_bottom s - 1]"

lemma y_go_simps [simp]:
  "y_flag (y_go s i p) = y_flag s" "y_top (y_go s i p) = y_top s" "y_bottom (y_go s i p) = y_bottom s"
  "y_buf (y_go s i p) = y_buf s" "y_leaked (y_go s i p) = y_leaked s" "y_pc (y_go s i p) = (y_pc s)(i := p)"
  by (simp_all add: y_go_def)

lemma y_cs_enter [simp]: "y_cs (y_enter c)" "y_knows s (y_enter c)"
  by (cases c; simp)+

text \<open>What an agent outside the critical section knows survives every step that does not lower \<open>m_top\<close>.\<close>

lemma y_knows_mono: "y_knows s p \<Longrightarrow> \<not> y_cs p \<Longrightarrow> y_top s \<le> y_top s' \<Longrightarrow> y_knows s' p"
  by (cases p) auto

lemma y_knows_cong:
  "y_top s' = y_top s \<Longrightarrow> y_bottom s' = y_bottom s \<Longrightarrow> y_buf s' = y_buf s \<Longrightarrow> y_knows s' p = y_knows s p"
  by (cases p) auto

section \<open>Steps keep the invariant\<close>

lemma y_moves:
  assumes "y_inv s" "y_cs p = y_cs (y_pc s i)" "y_knows s p"
  shows "y_inv (y_go s i p) \<and> y_items (y_go s i p) = y_items s"
proof -
  have "y_cs (((y_pc s)(i := p)) j) = y_cs (y_pc s j)" for j using assms(2) by simp
  then have "y_mutex (y_go s i p)" using assms(1) by (simp add: y_inv_def y_mutex_def)
  moreover have "y_knows (y_go s i p) q = y_knows s q" for q by (rule y_knows_cong) simp_all
  ultimately show ?thesis using assms by (simp add: y_inv_def y_shared_def y_items_def)
qed

lemma y_acquires:
  assumes "y_inv s" "y_flag s = 0" "y_cs p" "y_knows s p"
  shows "y_inv ((y_go s i p)\<lparr>y_flag := 1\<rparr>) \<and> y_items ((y_go s i p)\<lparr>y_flag := 1\<rparr>) = y_items s"
proof -
  let ?s = "(y_go s i p)\<lparr>y_flag := 1\<rparr>"
  have none: "\<not> y_leaked s" "\<And>j. \<not> y_cs (y_pc s j)" using assms(1,2) by (auto simp: y_inv_def y_mutex_def)
  then have "y_cs (y_pc ?s j) \<longleftrightarrow> j = i" for j using assms(3) by simp
  then have "y_mutex ?s" using none(1) by (simp add: y_mutex_def)
  moreover have "y_knows ?s q = y_knows s q" for q by (rule y_knows_cong) simp_all
  ultimately show ?thesis using assms by (simp add: y_inv_def y_shared_def y_items_def)
qed

text \<open>The agent in the critical section is alone there.\<close>

lemma y_alone: "y_inv s \<Longrightarrow> y_cs (y_pc s i) \<Longrightarrow> y_cs (y_pc s j) \<longleftrightarrow> j = i"
  unfolding y_inv_def y_mutex_def by blast

lemma y_leaves:
  assumes "y_inv s" "y_cs (y_pc s i)" "\<not> y_cs p" "y_knows s p"
  shows "y_inv ((y_go s i p)\<lparr>y_flag := 0\<rparr>) \<and> y_items ((y_go s i p)\<lparr>y_flag := 0\<rparr>) = y_items s"
    and "y_inv ((y_go s i p)\<lparr>y_leaked := True\<rparr>) \<and> y_items ((y_go s i p)\<lparr>y_leaked := True\<rparr>) = y_items s"
proof -
  have none: "\<not> y_cs (((y_pc s)(i := p)) j)" for j using y_alone [OF assms(1,2), of j] assms(3) by simp
  have held: "y_flag s \<noteq> 0" "\<not> y_leaked s" using assms(1,2) unfolding y_inv_def y_mutex_def by blast+
  have "y_mutex ((y_go s i p)\<lparr>y_flag := 0\<rparr>)" "y_mutex ((y_go s i p)\<lparr>y_leaked := True\<rparr>)"
    using none held by (simp_all add: y_mutex_def)
  moreover have "y_knows ((y_go s i p)\<lparr>y_flag := 0\<rparr>) q = y_knows s q"
    "y_knows ((y_go s i p)\<lparr>y_leaked := True\<rparr>) q = y_knows s q" for q by (rule y_knows_cong; simp)+
  ultimately show "y_inv ((y_go s i p)\<lparr>y_flag := 0\<rparr>) \<and> y_items ((y_go s i p)\<lparr>y_flag := 0\<rparr>) = y_items s"
    "y_inv ((y_go s i p)\<lparr>y_leaked := True\<rparr>) \<and> y_items ((y_go s i p)\<lparr>y_leaked := True\<rparr>) = y_items s"
    using assms by (simp_all add: y_inv_def y_shared_def y_items_def)
qed

text \<open>A change of the shared variables by the agent in the critical section.\<close>

lemma y_changes:
  assumes inv: "y_inv s" and cs: "y_cs (y_pc s i)" "y_cs p" and pc: "y_pc s' = (y_pc s)(i := p)"
    and same: "y_flag s' = y_flag s" "y_leaked s' = y_leaked s" "y_top s \<le> y_top s'"
    and ok: "y_shared s'" "y_knows s' p"
  shows "y_inv s'"
proof -
  have alone: "y_cs (y_pc s j) \<longleftrightarrow> j = i" for j by (rule y_alone [OF inv cs(1)])
  have "y_cs (y_pc s' j) = y_cs (y_pc s j)" for j using pc cs by simp
  then have "y_mutex s'" using inv same by (simp add: y_inv_def y_mutex_def)
  moreover have "y_knows s' (y_pc s' j)" for j
    using y_knows_mono [of s "y_pc s j" s'] inv same(3) alone [of j] ok(2) pc
    by (cases "j = i") (auto simp: y_inv_def)
  ultimately show ?thesis using ok(1) by (simp add: y_inv_def)
qed

lemma y_inv_at: "y_inv s \<Longrightarrow> y_knows s (y_pc s i) \<and> y_shared s"
  by (simp add: y_inv_def)

lemma y_items_empty: "y_top s \<ge> y_bottom s \<Longrightarrow> y_items s = []"
  by (simp add: y_items_def)

lemma y_lock_ok:
  assumes "y_lock s e s'" "y_inv s"
  shows "y_inv s' \<and> list_event (y_items s) e (y_items s')"
  using assms(1)
proof cases
  case (yl_first c)
  then show ?thesis using y_acquires [OF assms(2), of "y_enter c" 0] by simp
next
  case (yl_weak c)
  then show ?thesis using y_acquires [OF assms(2), of "y_enter c" 0] by simp
qed (use y_moves [OF assms(2)] in \<open>auto\<close>)

lemma y_push_ok:
  assumes "y_push z s e s'" "y_inv s"
  shows "y_inv s' \<and> list_event (y_items s) e (y_items s')"
proof -
  from y_inv_at [OF assms(2), of 0] have k: "y_knows s (y_pc s 0)" and sh: "y_shared s" by simp_all
  note w = sh [unfolded y_shared_def]
  from assms(1) show ?thesis
  proof cases
    case (yp_full v b t bigger)
    with k have bt: "b = y_bottom s" "t = y_top s" by simp_all
    have "y_bottom s - y_top s \<le> 2 * rb_cap (y_buf s)" using w rb_wf_cap_pos [of "y_buf s"] by simp
    from rb_resize_copies [OF _ _ _ this, of z] w yp_full(5) bt have
      g: "rb_wf bigger" "rb_cap bigger = 2 * rb_cap (y_buf s)" "\<And>k. y_top s \<le> k \<Longrightarrow> k < y_bottom s \<Longrightarrow> rb_at bigger k = rb_at (y_buf s) k"
      by auto
    have "y_items s' = y_items s"
      using yp_full(2) g(3) by (simp add: y_items_def)
    moreover have "y_inv s'"
      by (rule y_changes [OF assms(2), of 0 "Q_push_cell v b"])
        (use yp_full g w bt rb_wf_cap_pos [of "y_buf s"] in \<open>auto simp: y_shared_def\<close>)
    ultimately show ?thesis using yp_full(1) by simp
  next
    case (yp_alloc_fails v b t)
    then show ?thesis using y_leaves(2) [OF assms(2), of 0 Q_idle] by simp
  next
    case (yp_fits v b t)
    then show ?thesis using k w y_moves [OF assms(2), of "Q_push_cell v b" 0] by (auto simp: rb_capacity_def)
  next
    case (yp_cell v b c)
    with k w have b: "b = y_bottom s" "b - y_top s < rb_cap (y_buf s)" "c = rb_put (y_buf s) b v"
      by (simp_all add: ring_simps)
    have "y_items s' = y_items s"
      using yp_cell(2) b w by (auto simp: y_items_def intro!: rb_at_put_other)
    moreover have "y_inv s'"
      by (rule y_changes [OF assms(2), of 0 "Q_push_set v b"]) (use yp_cell b w in \<open>auto simp: y_shared_def\<close>)
    ultimately show ?thesis using yp_cell(1) by simp
  next
    case (yp_set v b)
    with k have b: "b = y_bottom s" "b - y_top s < rb_cap (y_buf s)" "rb_at (y_buf s) b = v" by auto
    have "y_items s' = y_items s @ [v]"
      using yp_set(2) b w by (simp add: y_items_def upto_rec2)
    moreover have "y_inv s'"
      by (rule y_changes [OF assms(2), of 0 Q_push_unlock]) (use yp_set b w in \<open>auto simp: y_shared_def\<close>)
    ultimately show ?thesis using yp_set(1) by simp
  next
    case yp_unlock
    then show ?thesis using y_leaves(1) [OF assms(2), of 0 Q_idle] by simp
  qed (use k y_moves [OF assms(2)] in auto)
qed

lemma y_pop_ok:
  assumes "y_pop s e s'" "y_inv s"
  shows "y_inv s' \<and> list_event (y_items s) e (y_items s')"
proof -
  from y_inv_at [OF assms(2), of 0] have k: "y_knows s (y_pc s 0)" and sh: "y_shared s" by simp_all
  note w = sh [unfolded y_shared_def]
  from assms(1) show ?thesis
  proof cases
    case (yq_empty t)
    then show ?thesis using k y_items_empty [of s] y_moves [OF assms(2), of Q_idle 0] by simp
  next
    case (yq_gone b)
    then show ?thesis using k y_items_empty [of s] y_moves [OF assms(2), of Q_none_unlock 0] by simp
  next
    case (yq_set b v)
    with k have b: "b = y_bottom s - 1" "y_top s \<le> b" by simp_all
    have "y_items s = y_items s' @ [v]"
      using yq_set(2,4) b by (simp add: y_items_def upto_rec2)
    moreover have "y_inv s'"
      by (rule y_changes [OF assms(2), of 0 "Q_pop_cell b v"]) (use yq_set b w in \<open>auto simp: y_shared_def\<close>)
    ultimately show ?thesis using yq_set(1) by simp
  next
    case (yq_unlock v)
    then show ?thesis using y_leaves(1) [OF assms(2), of 0 Q_idle] by simp
  next
    case yq_none
    then show ?thesis using y_leaves(1) [OF assms(2), of 0 Q_idle] by simp
  qed (use k y_moves [OF assms(2)] in auto)
qed

lemma y_steal_ok:
  assumes "y_steal i s e s'" "y_inv s"
  shows "y_inv s' \<and> list_event (y_items s) e (y_items s') \<and> (e = E_steal_empty \<longrightarrow> y_items s = [])"
proof -
  from y_inv_at [OF assms(2), of i] have k: "y_knows s (y_pc s i)" and sh: "y_shared s" by simp_all
  note w = sh [unfolded y_shared_def]
  from assms(1) show ?thesis
  proof cases
    case (ys_empty t)
    then show ?thesis using k y_items_empty [of s] y_moves [OF assms(2), of Q_idle i] by simp
  next
    case (ys_gone t)
    then show ?thesis using k y_items_empty [of s] y_moves [OF assms(2), of Q_steal_unlock i] by simp
  next
    case ys_lock
    then show ?thesis using y_acquires [OF assms(2), of Q_steal_top i] by simp
  next
    case (ys_cell t v)
    then show ?thesis using k w y_moves [OF assms(2), of "Q_steal_set t v" i] by (auto simp: ring_simps)
  next
    case (ys_set t v)
    with k have t: "t = y_top s" "t < y_bottom s" "rb_at (y_buf s) t = v" by auto
    have "y_items s = v # y_items s'" using ys_set(2) t by (simp add: y_items_def upto_rec1)
    moreover have "y_inv s'"
      by (rule y_changes [OF assms(2), of i Q_steal_unlock]) (use ys_set t w in \<open>auto simp: y_shared_def\<close>)
    ultimately show ?thesis using ys_set(1) by simp
  next
    case ys_unlock
    then show ?thesis using y_leaves(1) [OF assms(2), of i Q_idle] by simp
  qed (use k y_moves [OF assms(2)] in auto)
qed

section \<open>Runs\<close>

lemma y_owner_event:
  "y_lock s e s' \<or> y_push z s e s' \<or> y_pop s e s' \<Longrightarrow> e \<noteq> E_steal_empty"
  by (auto elim: y_lock.cases y_push.cases y_pop.cases)

lemma y_step_ok:
  assumes "y_step z s e s'" "y_inv s"
  shows "y_inv s' \<and> list_event (y_items s) e (y_items s') \<and> (e = E_steal_empty \<longrightarrow> y_items s = [])"
proof -
  from assms(1) consider "y_lock s e s' \<or> y_push z s e s' \<or> y_pop s e s'" | i where "y_steal i s e s'"
    unfolding y_step_def by blast
  then show ?thesis
  proof cases
    case 1
    with y_owner_event [OF 1] y_lock_ok [OF _ assms(2)] y_push_ok [OF _ assms(2)] y_pop_ok [OF _ assms(2)]
    show ?thesis by metis
  next
    case 2
    with y_steal_ok [OF _ assms(2)] show ?thesis by blast
  qed
qed

lemma y_init_ok:
  assumes "y_init z cap = Some s"
  shows "y_inv s \<and> y_items s = []"
proof (cases "ring_buf_new z cap")
  case (Some b)
  then have "rb_wf b" using ring_buf_new_wf [of cap z] by (auto simp: ring_buf_new_def lf_assert_def split: if_splits)
  moreover have "s = \<lparr>y_flag = 0, y_top = 0, y_bottom = 0, y_buf = b, y_leaked = False, y_pc = (\<lambda>_. Q_idle)\<rparr>"
    using Some assms by (simp add: y_init_def)
  ultimately show ?thesis using rb_wf_cap_pos [of b] by (simp add: y_inv_def y_shared_def y_mutex_def y_items_def)
qed (use assms in \<open>simp add: y_init_def\<close>)

text \<open>The owner runs \<open>push\<close> and \<open>pop\<close>, the others \<open>steal\<close>.\<close>

fun y_thief :: "'a bq_pc \<Rightarrow> bool" where
  "y_thief Q_thief_top = True" | "y_thief (Q_thief_bottom t) = True" | "y_thief Q_try = True"
| "y_thief Q_steal_top = True" | "y_thief (Q_steal_bottom t) = True" | "y_thief (Q_steal_cell t) = True"
| "y_thief (Q_steal_set t v) = True" | "y_thief Q_steal_unlock = True" | "y_thief _ = False"

definition y_roles :: "'a bq_sys \<Rightarrow> bool" where
  "y_roles s \<longleftrightarrow> (\<forall>i. y_pc s i = Q_idle \<or> (y_thief (y_pc s i) \<longleftrightarrow> i \<noteq> 0))"

lemma y_enter_owner [simp]: "\<not> y_thief (y_enter c)"
  by (cases c) simp_all

lemma y_roles_update [simp]:
  "y_roles (s\<lparr>y_flag := f\<rparr>) = y_roles s" "y_roles (s\<lparr>y_top := k\<rparr>) = y_roles s"
  "y_roles (s\<lparr>y_bottom := k\<rparr>) = y_roles s" "y_roles (s\<lparr>y_buf := b\<rparr>) = y_roles s"
  "y_roles (s\<lparr>y_leaked := l\<rparr>) = y_roles s"
  by (simp_all add: y_roles_def)

lemma y_roles_go [simp]:
  "y_roles s \<Longrightarrow> p = Q_idle \<or> (y_thief p \<longleftrightarrow> i \<noteq> 0) \<Longrightarrow> y_roles (y_go s i p)"
  by (simp add: y_roles_def)

lemma y_lock_roles: "y_lock s e s' \<Longrightarrow> y_roles s \<Longrightarrow> y_roles s'"
  by (induction rule: y_lock.induct) simp_all

lemma y_push_roles: "y_push z s e s' \<Longrightarrow> y_roles s \<Longrightarrow> y_roles s'"
  by (induction rule: y_push.induct) simp_all

lemma y_pop_roles: "y_pop s e s' \<Longrightarrow> y_roles s \<Longrightarrow> y_roles s'"
  by (induction rule: y_pop.induct) simp_all

lemma y_steal_roles: "y_steal i s e s' \<Longrightarrow> 0 < i \<Longrightarrow> y_roles s \<Longrightarrow> y_roles s'"
  by (induction rule: y_steal.induct) simp_all

lemma y_step_roles:
  assumes "y_step z s e s'" "y_roles s"
  shows "y_roles s'"
proof -
  from assms(1) consider "y_lock s e s'" | "y_push z s e s'" | "y_pop s e s'" | i where "0 < i" "y_steal i s e s'"
    unfolding y_step_def by auto
  then show ?thesis
    by cases (use assms(2) in \<open>auto dest: y_lock_roles y_push_roles y_pop_roles y_steal_roles\<close>)
qed

lemma y_run_roles: "y_run z s es t \<Longrightarrow> y_roles s \<Longrightarrow> y_roles t"
  by (induction rule: y_run.induct) (simp_all add: y_step_roles)

lemma y_init_roles: "y_init z cap = Some s \<Longrightarrow> y_roles s \<and> y_pc s 0 = Q_idle"
  by (auto simp: y_init_def y_roles_def Option.bind_eq_Some_conv)

text \<open>A \<open>pop\<close> returns what it took: the element taken and not yet returned.\<close>

definition y_pending :: "'a bq_sys \<Rightarrow> 'a list" where
  "y_pending s = (case y_pc s 0 of Q_pop_cell b v \<Rightarrow> [v] | Q_pop_unlock w \<Rightarrow> [w] | _ \<Rightarrow> [])"

lemma y_pop_pending:
  assumes "y_pop s e s'" "y_inv s"
  shows "y_pending s @ ev_popped e = ev_returned e @ y_pending s'"
  using assms(1)
proof cases
  case (yq_cell b v w)
  with y_inv_at [OF assms(2), of 0] have "w = v" by (simp add: y_shared_def ring_simps)
  with yq_cell show ?thesis by (simp add: y_pending_def)
qed (simp_all add: y_pending_def)

lemma y_enter_pending [simp]:
  "(case y_enter c of Q_pop_cell b v \<Rightarrow> [v] | Q_pop_unlock w \<Rightarrow> [w] | _ \<Rightarrow> []) = []"
  by (cases c) simp_all

lemma y_lock_pending: "y_lock s e s' \<Longrightarrow> y_pending s @ ev_popped e = ev_returned e @ y_pending s'"
  by (erule y_lock.cases) (auto simp: y_pending_def)

lemma y_push_pending: "y_push z s e s' \<Longrightarrow> y_pending s @ ev_popped e = ev_returned e @ y_pending s'"
  by (erule y_push.cases) (simp_all add: y_pending_def)

lemma y_steal_pending: "y_steal i s e s' \<Longrightarrow> 0 < i \<Longrightarrow> y_pending s @ ev_popped e = ev_returned e @ y_pending s'"
  by (erule y_steal.cases) (simp_all add: y_pending_def)

lemma y_step_pending:
  assumes "y_step z s e s'" "y_inv s"
  shows "y_pending s @ ev_popped e = ev_returned e @ y_pending s'"
proof -
  from assms(1) consider "y_lock s e s'" | "y_push z s e s'" | "y_pop s e s'" | i where "0 < i" "y_steal i s e s'"
    unfolding y_step_def by auto
  then show ?thesis
    by cases (simp_all add: y_lock_pending y_push_pending y_pop_pending assms(2) y_steal_pending)
qed

interpretation yc: conc_deque "y_step z" "y_run z" y_inv y_items "\<lambda>e. e" "\<lambda>_::unit. y_pending" "\<lambda>_. ev_popped" "\<lambda>_. ev_returned"
  for z
  by unfold_locales (auto elim: y_run.cases simp: y_step_ok y_step_pending)

lemmas y_run_inv = yc.run_inv
lemmas y_run_conserves = yc.run_conserves
lemmas y_run_pending = yc.run_pending

section \<open>The lock is released\<close>

text \<open>The steps that the agent in the critical section has left before it leaves.\<close>

fun y_left :: "'a bq_pc \<Rightarrow> nat" where
  "y_left (Q_push_bottom v) = 6" | "y_left (Q_push_top v b) = 5" | "y_left (Q_push_buf v b t) = 4"
| "y_left (Q_push_cell v b) = 3" | "y_left (Q_push_set v b) = 2" | "y_left Q_push_unlock = 1"
| "y_left Q_pop_bottom = 5" | "y_left (Q_pop_top b) = 4" | "y_left (Q_pop_set b) = 3"
| "y_left (Q_pop_cell b v) = 2" | "y_left (Q_pop_unlock w) = 1" | "y_left Q_none_unlock = 1"
| "y_left Q_steal_top = 5" | "y_left (Q_steal_bottom t) = 4" | "y_left (Q_steal_cell t) = 3"
| "y_left (Q_steal_set t v) = 2" | "y_left Q_steal_unlock = 1"
| "y_left _ = 0"

lemma y_left_bounds: "y_left p \<le> 6" "y_left p = 0 \<longleftrightarrow> \<not> y_cs p"
  by (cases p; simp)+

definition y_advances :: "'a \<Rightarrow> 'a bq_sys \<Rightarrow> nat \<Rightarrow> bool" where
  "y_advances z s i \<longleftrightarrow> (\<exists>e s'. y_step z s e s' \<and> y_leaked s' = y_leaked s \<and>
     y_left (y_pc s' i) < y_left (y_pc s i) \<and> (\<forall>j. j \<noteq> i \<longrightarrow> y_pc s' j = y_pc s j))"

lemma y_advancesI:
  assumes "y_push z s e s' \<and> i = 0 \<or> y_pop s e s' \<and> i = 0 \<or> y_steal i s e s' \<and> 0 < i"
    and "y_leaked s' = y_leaked s" "y_left (y_pc s' i) < y_left (y_pc s i)" "\<And>j. j \<noteq> i \<Longrightarrow> y_pc s' j = y_pc s j"
  shows "y_advances z s i"
  using assms unfolding y_advances_def y_step_def by (intro exI conjI) auto

lemmas y_push_advances = y_advancesI [OF disjI1 [OF conjI [OF _ refl]]]
lemmas y_pop_advances = y_advancesI [OF disjI2 [OF disjI1 [OF conjI [OF _ refl]]]]
lemmas y_steal_advances = y_advancesI [OF disjI2 [OF disjI2 [OF conjI]]]

lemma y_owner_advances:
  assumes "y_inv s" "y_cs (y_pc s 0)" "\<not> y_thief (y_pc s 0)"
  shows "y_advances z s 0"
proof -
  from y_inv_at [OF assms(1), of 0] have k: "y_knows s (y_pc s 0)" and sh: "y_shared s" by simp_all
  note w = sh [unfolded y_shared_def]
  show ?thesis
  proof (cases "y_pc s 0")
    case (Q_push_bottom v)
    then show ?thesis by (intro y_push_advances [OF y_push.yp_bottom]) simp_all
  next
    case (Q_push_top v b)
    then show ?thesis by (intro y_push_advances [OF y_push.yp_top]) simp_all
  next
    case (Q_push_buf v b t)
    then have bt: "b = y_bottom s" "t = y_top s" using k by simp_all
    from w rb_wf_cap_pos [of "y_buf s"] have "y_bottom s - y_top s \<le> 2 * rb_cap (y_buf s)" by simp
    from rb_resize_copies [OF _ _ _ this, of z] w bt obtain d where d: "rb_resize z (y_buf s) b t = Some d" by blast
    show ?thesis
    proof (cases "rb_capacity (y_buf s) < (b - t) + 1")
      case True
      show ?thesis using Q_push_buf by (intro y_push_advances [OF y_push.yp_full [OF Q_push_buf True d]]) simp_all
    next
      case False
      show ?thesis using Q_push_buf by (intro y_push_advances [OF y_push.yp_fits [OF Q_push_buf False]]) simp_all
    qed
  next
    case (Q_push_cell v b)
    then have "rb_store (y_buf s) b v = Some (rb_put (y_buf s) b v)" using k w by (simp add: ring_simps)
    then show ?thesis using Q_push_cell by (intro y_push_advances [OF y_push.yp_cell [OF Q_push_cell]]) simp_all
  next
    case (Q_push_set v b)
    then show ?thesis by (intro y_push_advances [OF y_push.yp_set]) simp_all
  next
    case Q_push_unlock
    then show ?thesis by (intro y_push_advances [OF y_push.yp_unlock]) simp_all
  next
    case Q_pop_bottom
    then show ?thesis by (intro y_pop_advances [OF y_pop.yq_bottom]) simp_all
  next
    case (Q_pop_top b)
    show ?thesis
    proof (cases "y_top s \<le> b")
      case True
      show ?thesis using Q_pop_top by (intro y_pop_advances [OF y_pop.yq_top [OF Q_pop_top True]]) simp_all
    next
      case False
      show ?thesis using Q_pop_top by (intro y_pop_advances [OF y_pop.yq_gone [OF Q_pop_top False]]) simp_all
    qed
  next
    case (Q_pop_set b)
    show ?thesis using Q_pop_set by (intro y_pop_advances [OF y_pop.yq_set [OF Q_pop_set refl]]) simp_all
  next
    case (Q_pop_cell b v)
    then have "rb_load (y_buf s) b = Some v" using k w by (simp add: ring_simps)
    then show ?thesis using Q_pop_cell by (intro y_pop_advances [OF y_pop.yq_cell [OF Q_pop_cell]]) simp_all
  next
    case (Q_pop_unlock v)
    then show ?thesis by (intro y_pop_advances [OF y_pop.yq_unlock]) simp_all
  next
    case Q_none_unlock
    then show ?thesis by (intro y_pop_advances [OF y_pop.yq_none]) simp_all
  qed (use assms(2,3) in simp_all)
qed

lemma y_thief_advances:
  assumes "y_inv s" "y_cs (y_pc s i)" "y_thief (y_pc s i)" "0 < i"
  shows "y_advances z s i"
proof -
  from y_inv_at [OF assms(1), of i] have k: "y_knows s (y_pc s i)" and sh: "y_shared s" by simp_all
  note w = sh [unfolded y_shared_def]
  show ?thesis
  proof (cases "y_pc s i")
    case Q_steal_top
    then show ?thesis using assms(4) by (intro y_steal_advances [OF y_steal.ys_top]) simp_all
  next
    case (Q_steal_bottom t)
    show ?thesis
    proof (cases "t < y_bottom s")
      case True
      show ?thesis using Q_steal_bottom assms(4)
        by (intro y_steal_advances [OF y_steal.ys_bottom [OF Q_steal_bottom True]]) simp_all
    next
      case False
      show ?thesis using Q_steal_bottom assms(4)
        by (intro y_steal_advances [OF y_steal.ys_gone [OF Q_steal_bottom False]]) simp_all
    qed
  next
    case (Q_steal_cell t)
    then have "rb_load (y_buf s) t = Some (rb_at (y_buf s) t)" using k w by (simp add: ring_simps)
    then show ?thesis using Q_steal_cell assms(4)
      by (intro y_steal_advances [OF y_steal.ys_cell [OF Q_steal_cell]]) simp_all
  next
    case (Q_steal_set t v)
    then show ?thesis using assms(4) by (intro y_steal_advances [OF y_steal.ys_set]) simp_all
  next
    case Q_steal_unlock
    then show ?thesis using assms(4) by (intro y_steal_advances [OF y_steal.ys_unlock]) simp_all
  qed (use assms(2,3) in simp_all)
qed

lemma y_holder_advances:
  assumes "y_inv s" "y_roles s" "y_cs (y_pc s i)"
  shows "y_advances z s i"
proof -
  from assms(3) have "y_pc s i \<noteq> Q_idle" by auto
  with assms(2) have "y_thief (y_pc s i) \<longleftrightarrow> i \<noteq> 0" unfolding y_roles_def by blast
  with y_owner_advances [OF assms(1)] y_thief_advances [OF assms(1,3)] assms(3) show ?thesis by (cases "i = 0") simp_all
qed

lemma y_holder_leaves:
  assumes "y_run z s0 es s" "y_inv s" "y_roles s" "y_cs (y_pc s i)" "\<not> y_leaked s"
  shows "\<exists>fs t. y_run z s0 (es @ fs) t \<and> length fs \<le> y_left (y_pc s i) \<and> y_flag t = 0 \<and> (\<forall>j. j \<noteq> i \<longrightarrow> y_pc t j = y_pc s j)"
  using assms
proof (induction "y_left (y_pc s i)" arbitrary: s es rule: less_induct)
  case less
  from y_holder_advances [OF less.prems(2-4), of z] obtain e u where
    u: "y_step z s e u" "y_leaked u = y_leaked s" "y_left (y_pc u i) < y_left (y_pc s i)" "\<forall>j. j \<noteq> i \<longrightarrow> y_pc u j = y_pc s j"
    unfolding y_advances_def by blast
  have run: "y_run z s0 (es @ [e]) u" by (rule y_run.y_snoc [OF less.prems(1) u(1)])
  have inv: "y_inv u" "y_roles u" "\<not> y_leaked u"
    using y_step_ok [OF u(1) less.prems(2)] y_step_roles [OF u(1) less.prems(3)] u(2) less.prems(5) by simp_all
  show ?case
  proof (cases "y_cs (y_pc u i)")
    case True
    from less.hyps [OF u(3) run inv(1,2) True inv(3)] obtain fs t where
      "y_run z s0 ((es @ [e]) @ fs) t" "length fs \<le> y_left (y_pc u i)" "y_flag t = 0" "\<forall>j. j \<noteq> i \<longrightarrow> y_pc t j = y_pc u j"
      by blast
    with u(3,4) show ?thesis by (intro exI [of _ "e # fs"] exI [of _ t]) simp
  next
    case False
    have "\<not> y_cs (y_pc u j)" for j
      using False u(4) y_alone [OF less.prems(2,4), of j] by (cases "j = i") simp_all
    with inv have "y_flag u = 0" by (simp add: y_inv_def y_mutex_def)
    with run u(3,4) show ?thesis by (intro exI [of _ "[e]"] exI [of _ u]) simp
  qed
qed

section \<open>Properties\<close>

text \<open>A run on which the owner pushes 7, for the witnesses below.\<close>

definition y_demo :: "int \<Rightarrow> nat list \<Rightarrow> int \<Rightarrow> nat bq_pc \<Rightarrow> nat bq_sys" where
  "y_demo f xs b p = \<lparr>y_flag = f, y_top = 0, y_bottom = b, y_buf = \<lparr>rb_cap = 2, rb_mask = 1, rb_cells = xs\<rparr>, y_leaked = False,
     y_pc = (\<lambda>_. Q_idle)(0 := p)\<rparr>"

lemma y_demo_go [simp]:
  "y_go (y_demo f xs b p) 0 p' = y_demo f xs b p'"
  "y_pc (y_demo f xs b p) 0 = p" "y_flag (y_demo f xs b p) = f"
  "y_bottom (y_demo f xs b p) = b" "y_top (y_demo f xs b p) = 0" "y_leaked (y_demo f xs b p) = False"
  "(y_demo f xs b p)\<lparr>y_flag := g\<rparr> = y_demo g xs b p" "(y_demo f xs b p)\<lparr>y_bottom := c\<rparr> = y_demo f xs c p"
  "y_buf (y_demo f xs b p) = \<lparr>rb_cap = 2, rb_mask = 1, rb_cells = xs\<rparr>"
  "(y_demo f xs b p)\<lparr>y_buf := \<lparr>rb_cap = 2, rb_mask = 1, rb_cells = ys\<rparr>\<rparr> = y_demo f ys b p"
  by (auto simp: y_demo_def y_go_def fun_eq_iff)

lemma y_demo_init: "y_init 0 2 = Some (y_demo 0 [0, 0] 0 Q_idle)"
  using has_single_bit_pow2 [of 1] by (simp add: y_init_def ring_buf_new_def y_demo_def numeral_2_eq_2 fun_eq_iff)

lemma y_demo_locks:
  "y_run 0 (y_demo 0 [0, 0] 0 Q_idle) [E_tau, E_tau, E_tau] (y_demo 1 [0, 0] 0 (Q_push_top 7 0))"
proof -
  have "y_step 0 (y_demo 0 [0, 0] 0 Q_idle) E_tau (y_demo 0 [0, 0] 0 (Q_first (C_push 7)))"
    using y_push.yp_call [of "y_demo 0 [0, 0] 0 Q_idle" 0 7] by (simp add: y_step_def)
  moreover have "y_step 0 (y_demo 0 [0, 0] 0 (Q_first (C_push 7))) E_tau (y_demo 1 [0, 0] 0 (Q_push_bottom 7))"
    using y_lock.yl_first [of "y_demo 0 [0, 0] 0 (Q_first (C_push 7))" "C_push 7"] by (simp add: y_step_def)
  moreover have "y_step 0 (y_demo 1 [0, 0] 0 (Q_push_bottom 7)) E_tau (y_demo 1 [0, 0] 0 (Q_push_top 7 0))"
    using y_push.yp_bottom [of "y_demo 1 [0, 0] 0 (Q_push_bottom 7)" 7 0] by (simp add: y_step_def)
  ultimately have "y_run 0 (y_demo 0 [0, 0] 0 Q_idle) ((([] @ [E_tau]) @ [E_tau]) @ [E_tau]) (y_demo 1 [0, 0] 0 (Q_push_top 7 0))"
    by (intro y_run.y_snoc) (rule y_run.y_refl | assumption)+
  then show ?thesis by simp
qed

lemma y_demo_pushes:
  "y_run 0 (y_demo 0 [0, 0] 0 Q_idle) [E_tau, E_tau, E_tau, E_tau, E_tau, E_tau] (y_demo 1 [7, 0] 0 (Q_push_set 7 0))"
  "y_step 0 (y_demo 1 [7, 0] 0 (Q_push_set 7 0)) (E_push 7) (y_demo 1 [7, 0] 1 Q_push_unlock)"
proof -
  have "y_step 0 (y_demo 1 [0, 0] 0 (Q_push_top 7 0)) E_tau (y_demo 1 [0, 0] 0 (Q_push_buf 7 0 0))"
    using y_push.yp_top [of "y_demo 1 [0, 0] 0 (Q_push_top 7 0)" 7 0 0] by (simp add: y_step_def)
  moreover have "y_step 0 (y_demo 1 [0, 0] 0 (Q_push_buf 7 0 0)) E_tau (y_demo 1 [0, 0] 0 (Q_push_cell 7 0))"
    using y_push.yp_fits [of "y_demo 1 [0, 0] 0 (Q_push_buf 7 0 0)" 7 0 0 0]
    by (simp add: y_step_def rb_capacity_def)
  moreover have "y_step 0 (y_demo 1 [0, 0] 0 (Q_push_cell 7 0)) E_tau (y_demo 1 [7, 0] 0 (Q_push_set 7 0))"
    using y_push.yp_cell [of "y_demo 1 [0, 0] 0 (Q_push_cell 7 0)" 7 0 "\<lparr>rb_cap = 2, rb_mask = 1, rb_cells = [7, 0]\<rparr>" 0]
    by (simp add: y_step_def rb_store_def rb_slot_def)
  ultimately have "y_run 0 (y_demo 0 [0, 0] 0 Q_idle) ((([E_tau, E_tau, E_tau] @ [E_tau]) @ [E_tau]) @ [E_tau])
      (y_demo 1 [7, 0] 0 (Q_push_set 7 0))"
    by (intro y_run.y_snoc) (rule y_demo_locks | assumption)+
  then show "y_run 0 (y_demo 0 [0, 0] 0 Q_idle) [E_tau, E_tau, E_tau, E_tau, E_tau, E_tau] (y_demo 1 [7, 0] 0 (Q_push_set 7 0))"
    by simp
  show "y_step 0 (y_demo 1 [7, 0] 0 (Q_push_set 7 0)) (E_push 7) (y_demo 1 [7, 0] 1 Q_push_unlock)"
    using y_push.yp_set [of "y_demo 1 [7, 0] 0 (Q_push_set 7 0)" 7 0 0] by (simp add: y_step_def)
qed

text \<open>
  Property C33. The lock-based deque is linearisable: in every interleaved run of an owner and any
  number of thieves from a fresh deque, with spurious failures of the lock's compare-exchange and
  allocations that fail, each step acts on the abstract list as its event says (a push appends, a
  pop removes the last element, a steal the first), a pop and a steal report empty only when the
  deque is empty at that step, although both test for it without the lock, at most one agent is in
  the critical section, the elements pushed are those popped, those stolen and those left, and
  the calls of \<open>pop\<close> return the elements they took, in order.
\<close>

theorem blocking_linearises:
  assumes "y_init z cap = Some s0" "y_run z s0 es s" "y_step z s e s'"
  shows "list_event (y_items s) e (y_items s') \<and> (e = E_steal_empty \<longrightarrow> y_items s = [])
    \<and> (\<forall>i j. y_cs (y_pc s i) \<and> y_cs (y_pc s j) \<longrightarrow> i = j)
    \<and> mset (concat (map ev_pushed es))
        = mset (y_items s) + mset (concat (map ev_popped es)) + mset (concat (map ev_stolen es))
    \<and> concat (map ev_popped es) = concat (map ev_returned es) @ y_pending s"
proof -
  note i = y_init_ok [OF assms(1)]
  moreover have "y_pending s0 = []" using y_init_roles [OF assms(1)] by (simp add: y_pending_def)
  ultimately have "concat (map ev_popped es) = concat (map ev_returned es) @ y_pending s"
    using y_run_pending [OF assms(2)] by simp
  moreover have inv: "y_inv s" using y_run_inv [OF assms(2)] i by simp
  ultimately show ?thesis using y_step_ok [OF assms(3)] y_run_conserves [OF assms(2)] i y_alone [OF inv] by auto
qed

theorem blocking_linearises_witness:
  "y_init 0 2 = Some (y_demo 0 [0, 0] 0 Q_idle)
   \<and> y_run 0 (y_demo 0 [0, 0] 0 Q_idle) [E_tau, E_tau, E_tau, E_tau, E_tau, E_tau] (y_demo 1 [7, 0] 0 (Q_push_set 7 0))
   \<and> y_step 0 (y_demo 1 [7, 0] 0 (Q_push_set 7 0)) (E_push 7) (y_demo 1 [7, 0] 1 Q_push_unlock)
   \<and> y_items (y_demo 1 [7, 0] 1 Q_push_unlock) = y_items (y_demo 1 [7, 0] 0 (Q_push_set 7 0)) @ [7]"
  using blocking_linearises [OF y_demo_init y_demo_pushes] y_demo_init y_demo_pushes by simp

text \<open>
  Property C34. The lock is not held for ever: in every reachable state of every interleaving in which no
  allocation has failed inside \<open>push\<close>, at most six steps of the agent that holds the lock, and of no
  other, lead to a state in which it is free.  The critical sections have no assertion that fails,
  no access outside the buffer and no wait.
\<close>

theorem blocking_lock_released:
  assumes "y_init z cap = Some s0" "y_run z s0 es s" "\<not> y_leaked s"
  shows "\<exists>fs t. y_run z s0 (es @ fs) t \<and> length fs \<le> 6 \<and> y_flag t = 0
    \<and> (\<forall>j. \<not> y_cs (y_pc s j) \<longrightarrow> y_pc t j = y_pc s j)"
proof (cases "\<exists>i. y_cs (y_pc s i)")
  case True
  then obtain i where i: "y_cs (y_pc s i)" by blast
  have "y_inv s" "y_roles s"
    using y_run_inv [OF assms(2)] y_run_roles [OF assms(2)] y_init_ok [OF assms(1)] y_init_roles [OF assms(1)] by simp_all
  from y_holder_leaves [OF assms(2) this i assms(3)] obtain fs t where
    t: "y_run z s0 (es @ fs) t" "length fs \<le> y_left (y_pc s i)" "y_flag t = 0" "\<forall>j. j \<noteq> i \<longrightarrow> y_pc t j = y_pc s j"
    by blast
  with y_left_bounds(1) [of "y_pc s i"] i show ?thesis by (intro exI [of _ fs] exI [of _ t]) auto
next
  case False
  moreover have "y_inv s" using y_run_inv [OF assms(2)] y_init_ok [OF assms(1)] by simp
  ultimately have "y_flag s = 0" using assms(3) by (simp add: y_inv_def y_mutex_def)
  with assms(2) show ?thesis by (intro exI [of _ "[]"] exI [of _ s]) simp
qed

theorem blocking_lock_released_witness:
  "y_init 0 2 = Some (y_demo 0 [0, 0] 0 Q_idle)
   \<and> y_run 0 (y_demo 0 [0, 0] 0 Q_idle) [E_tau, E_tau, E_tau] (y_demo 1 [0, 0] 0 (Q_push_top 7 0))
   \<and> (\<exists>fs t. y_run 0 (y_demo 0 [0, 0] 0 Q_idle) ([E_tau, E_tau, E_tau] @ fs) t \<and> y_flag t = 0)"
  using blocking_lock_released [OF y_demo_init y_demo_locks] y_demo_init y_demo_locks by auto

end
