(* ===== verification/Lace_Deque.thy ===== *)
theory Lace_Deque
  imports Deque_Common
begin

text \<open>
  \<open>lace_deque\<close> of \<open>include/libfork/core/ext/deque_lace.hpp\<close>: a split deque of fixed capacity. The
  elements at \<open>top \<le> i < split\<close> are shared with the thieves, those at \<open>split \<le> i < bottom\<close> are
  private to the owner. \<open>top\<close> and \<open>split\<close> are 32-bit halves of one 64-bit atomic, so \<open>steal\<close> moves
  \<open>top\<close> by a compare-exchange of both and the owner moves \<open>split\<close> by adding to the upper half.

  The operations here run one at a time. \<open>None\<close> is a call of \<open>std::abort\<close> or an access outside
  the array. \<open>z\<close> is the zero-filled element of fresh memory and \<open>vmem\<close> tells whether
  \<open>allocate_virtual\<close> returned memory.
\<close>

record 'a lace_deque =
  la_array :: "'a list"
  la_mask :: int
  la_capacity :: int
  la_top_split :: u64
  la_bottom :: u32
  la_allstolen :: bool
  la_splitreq :: bool
  la_w_bottom :: int
  la_w_osplit :: int
  la_w_allstolen :: bool

text \<open>\<open>bit_cast\<close> of \<open>split_state{top, split}\<close> on a little-endian machine: \<open>top\<close> is the low half.\<close>

definition la_pack :: "u32 \<Rightarrow> u32 \<Rightarrow> u64" where
  "la_pack t s = ucast t OR push_bit 32 (ucast s)"

definition la_unpack :: "u64 \<Rightarrow> u32 \<times> u32" where
  "la_unpack v = (ucast v, ucast (drop_bit 32 v))"

definition la_k_default_cap :: u64 where
  "la_k_default_cap = push_bit 24 1"

text \<open>The constructor and its checks, in their order.\<close>

definition lace_new :: "'a \<Rightarrow> bool \<Rightarrow> u64 \<Rightarrow> (exn + 'a lace_deque) option" where
  "lace_new z vmem cap =
     (if cap > 2 ^ 63 - 1 then Some (Inl Length_error)
      else if cap AND (cap - 1) \<noteq> 0 then None
      else if cap > 2 ^ 32 - 1 then Some (Inl Length_error)
      else if \<not> vmem then Some (Inl Bad_alloc)
      else Some (Inr \<lparr>la_array = replicate (unat cap) z, la_mask = uint cap - 1, la_capacity = uint cap,
        la_top_split = la_pack 0 0, la_bottom = 0, la_allstolen = True, la_splitreq = False,
        la_w_bottom = 0, la_w_osplit = 0, la_w_allstolen = True\<rparr>))"

definition la_mask_index :: "'a lace_deque \<Rightarrow> int \<Rightarrow> nat" where
  "la_mask_index d idx = nat (idx AND la_mask d)"

text \<open>Reading and writing the array: outside it the behaviour is undefined.\<close>

definition la_read :: "'a lace_deque \<Rightarrow> nat \<Rightarrow> 'a option" where
  "la_read d i = (if i < length (la_array d) then Some (la_array d ! i) else None)"

definition la_write :: "'a lace_deque \<Rightarrow> nat \<Rightarrow> 'a \<Rightarrow> 'a lace_deque option" where
  "la_write d i v = (if i < length (la_array d) then Some (d\<lparr>la_array := (la_array d)[i := v]\<rparr>) else None)"

definition la_publish_bottom :: "'a lace_deque \<Rightarrow> 'a lace_deque" where
  "la_publish_bottom d = d\<lparr>la_bottom := word_of_int (la_w_bottom d)\<rparr>"

definition la_ssize :: "'a lace_deque \<Rightarrow> int" where
  "la_ssize d = (let (tp, split) = la_unpack (la_top_split d); bt = la_bottom d in
     if bt \<le> tp then 0 else uint (bt - tp))"

definition la_empty :: "'a lace_deque \<Rightarrow> bool" where
  "la_empty d = (if la_allstolen d then True
     else (let (tp, split) = la_unpack (la_top_split d) in tp \<ge> la_bottom d))"

definition la_grow_shared :: "'a lace_deque \<Rightarrow> 'a lace_deque" where
  "la_grow_shared d =
     (let split = word_of_int (la_w_osplit d) :: u32; bt = word_of_int (la_w_bottom d) :: u32 in
      if bt \<le> split then d
      else (let diff = drop_bit 1 (bt - split + 1); new_split = split + diff in
        d\<lparr>la_top_split := la_top_split d + push_bit 32 (ucast diff),
          la_w_osplit := uint new_split, la_w_allstolen := False,
          la_allstolen := False, la_splitreq := False\<rparr>))"

definition la_push :: "'a lace_deque \<Rightarrow> 'a \<Rightarrow> 'a lace_deque option" where
  "la_push d v =
     (let bt = word_of_int (la_w_bottom d) :: u32 in do {
        d1 \<leftarrow> la_write d (la_mask_index d (uint bt)) v;
        (let d2 =
           (if la_w_allstolen d1 then
              d1\<lparr>la_top_split := la_pack bt (bt + 1), la_allstolen := False,
                 la_splitreq := (if la_splitreq d1 then False else la_splitreq d1),
                 la_w_osplit := uint (bt + 1), la_w_allstolen := False\<rparr>
            else if la_splitreq d1 then la_grow_shared d1 else d1)
         in Some (la_publish_bottom (d2\<lparr>la_w_bottom := la_w_bottom d2 + 1\<rparr>))) })"

text \<open>
  \<open>shrink_shared\<close>: gives half of the shared part back to the owner. Returns \<open>True\<close> when everything
  was stolen. The second load of \<open>m_top_split\<close> sees the value just written.
\<close>

definition la_shrink_shared :: "'a lace_deque \<Rightarrow> bool \<times> 'a lace_deque" where
  "la_shrink_shared d =
     (let (tp, split) = la_unpack (la_top_split d);
          all_stolen = (\<lambda>e. (True, e\<lparr>la_allstolen := True, la_w_allstolen := True\<rparr>)) in
      if tp \<noteq> split then
        (let new_split = tp + drop_bit 1 (split - tp);
             decrement = split - new_split;
             d1 = d\<lparr>la_top_split := la_top_split d - push_bit 32 (ucast decrement)\<rparr>;
             fresh_t = fst (la_unpack (la_top_split d1)) in
         if fresh_t \<noteq> split then
           (if fresh_t > new_split then
              (let corrected = ucast (drop_bit 1 (ucast fresh_t + ucast split :: u64)) :: u32;
                   correction = corrected - new_split in
               (False, d1\<lparr>la_top_split := la_top_split d1 + push_bit 32 (ucast correction),
                 la_w_osplit := uint corrected\<rparr>))
            else (False, d1\<lparr>la_w_osplit := uint new_split\<rparr>))
         else all_stolen d1)
      else all_stolen d)"

definition la_pop_empty :: "'a lace_deque \<Rightarrow> 'a option \<times> 'a lace_deque" where
  "la_pop_empty d = (return_nullopt,
     if \<not> la_w_allstolen d then d\<lparr>la_allstolen := True, la_w_allstolen := True\<rparr> else d)"

definition la_pop_cold_path :: "'a lace_deque \<Rightarrow> ('a option \<times> 'a lace_deque) option" where
  "la_pop_cold_path d =
     (if la_w_allstolen d then Some (return_nullopt, d)
      else (let (gone, d1) = la_shrink_shared d in
        if gone then Some (la_pop_empty d1)
        else (let d2 = la_publish_bottom (d1\<lparr>la_w_bottom := la_w_bottom d1 - 1\<rparr>) in do {
          v \<leftarrow> la_read d2 (la_mask_index d2 (la_w_bottom d2));
          Some (Some v, if la_splitreq d2 then la_grow_shared d2 else d2) })))"

text \<open>\<open>pop\<close>: the fast path indexes the array with \<open>m_worker.bottom\<close> itself, without the mask.\<close>

definition la_pop :: "'a lace_deque \<Rightarrow> ('a option \<times> 'a lace_deque) option" where
  "la_pop d =
     (if la_w_bottom d > la_w_osplit d then
        (let d1 = la_publish_bottom (d\<lparr>la_w_bottom := la_w_bottom d - 1\<rparr>) in do {
           v \<leftarrow> la_read d1 (nat (la_w_bottom d1));
           Some (Some v, if la_splitreq d1 then la_grow_shared d1 else d1) })
      else la_pop_cold_path d)"

definition la_steal :: "'a lace_deque \<Rightarrow> ('a steal_t \<times> 'a lace_deque) option" where
  "la_steal d =
     (if la_allstolen d then Some (steal_failed Err_empty, d)
      else (let (tp, split) = la_unpack (la_top_split d) in
        if sint (split - tp) > 0 then do {
          tmp \<leftarrow> la_read d (la_mask_index d (uint tp));
          Some (stolen tmp, d\<lparr>la_top_split := la_pack (tp + 1) split\<rparr>) }
        else Some (steal_failed Err_empty, d\<lparr>la_splitreq := True\<rparr>)))"

section \<open>The packed word\<close>

lemma la_pack_eq: "la_pack t s = word_of_int (uint t + 2 ^ 32 * uint s)"
proof -
  have "la_pack t s = ucast t + push_bit 32 (ucast s)"
    unfolding la_pack_def
    by (rule disjunctive_add [symmetric]) (auto simp: bit_simps dest: bit_imp_le_length)
  also have "\<dots> = word_of_int (uint t) + 2 ^ 32 * word_of_int (uint s)"
    unfolding ucast_eq push_bit_eq_mult by (simp add: mult.commute)
  finally show ?thesis by simp
qed

lemma la_unpack_pack [simp, word_pack_simps]: "la_unpack (la_pack t s) = (t, s)"
  by (auto simp: la_unpack_def la_pack_def bit_eq_iff bit_simps dest: bit_imp_le_length)

lemma la_pack_unpack: "\<exists>t s. v = la_pack t s"
proof -
  have "la_pack (fst (la_unpack v)) (snd (la_unpack v)) = v"
    by (rule bit_word_eqI) (auto simp: la_unpack_def la_pack_def bit_simps)
  then show ?thesis by metis
qed

text \<open>Adding to the upper half changes \<open>split\<close> alone, modulo \<open>2\<close> to the power 32.\<close>

lemma upper_half_cong:
  "(word_of_int (a + 2 ^ 32 * (b mod 2 ^ 32)) :: u64) = word_of_int (a + 2 ^ 32 * b)"
proof -
  have "(2 ^ 32 * (b mod 2 ^ 32)) mod 2 ^ 64 = (2 ^ 32 * b) mod (2 ^ 64 :: int)"
    using mult_mod_right [of "2 ^ 32" b "2 ^ 32 :: int"] by simp
  then have "(a + 2 ^ 32 * (b mod 2 ^ 32)) mod 2 ^ 64 = (a + 2 ^ 32 * b) mod (2 ^ 64 :: int)"
    by (rule mod_add_cong [OF refl])
  then show ?thesis by (simp add: word_of_int_eq_iff take_bit_eq_mod del: of_int_add of_int_mult)
qed

lemma la_pack_add [word_pack_simps]: "la_pack t s + push_bit 32 (ucast d) = la_pack t (s + d)"
proof -
  have "la_pack t s + push_bit 32 (ucast d) = word_of_int (uint t + 2 ^ 32 * (uint s + uint d))"
    unfolding la_pack_eq ucast_eq push_bit_eq_mult by (simp add: algebra_simps)
  also have "\<dots> = la_pack t (s + d)"
    unfolding la_pack_eq uint_word_ariths(1) using upper_half_cong by simp
  finally show ?thesis .
qed

lemma la_pack_sub [word_pack_simps]: "la_pack t s - push_bit 32 (ucast d) = la_pack t (s - d)"
  using la_pack_add [of t "s - d" d] by (simp add: algebra_simps)

section \<open>Invariant and abstraction\<close>

text \<open>
  The regime in which the operations are correct: the owner's index never passes the capacity, so
  masked and plain indices agree and no 32-bit value wraps.
\<close>

abbreviation la_top :: "'a lace_deque \<Rightarrow> int" where
  "la_top d \<equiv> uint (fst (la_unpack (la_top_split d)))"

abbreviation la_split :: "'a lace_deque \<Rightarrow> int" where
  "la_split d \<equiv> uint (snd (la_unpack (la_top_split d)))"

definition la_inv :: "'a lace_deque \<Rightarrow> bool" where
  "la_inv d \<longleftrightarrow> has_single_bit (la_capacity d) \<and> la_capacity d \<le> 2 ^ 31
     \<and> la_mask d = la_capacity d - 1 \<and> length (la_array d) = nat (la_capacity d)
     \<and> 0 \<le> la_w_bottom d \<and> la_w_bottom d \<le> la_capacity d \<and> la_bottom d = word_of_int (la_w_bottom d)
     \<and> la_allstolen d = la_w_allstolen d
     \<and> (if la_allstolen d then la_w_osplit d = la_w_bottom d
         else la_top d \<le> la_split d \<and> la_split d = la_w_osplit d \<and> la_split d \<le> la_w_bottom d)"

definition la_room :: "'a lace_deque \<Rightarrow> bool" where
  "la_room d \<longleftrightarrow> la_w_bottom d < la_capacity d"

definition la_contents :: "'a lace_deque \<Rightarrow> 'a list" where
  "la_contents d = (if la_allstolen d then []
     else map (\<lambda>i. la_array d ! nat i) [la_top d..la_w_bottom d - 1])"

lemma la_mask_index_small:
  assumes "has_single_bit (la_capacity d)" "la_mask d = la_capacity d - 1" "0 \<le> i" "i < la_capacity d"
  shows "la_mask_index d i = nat i"
  using assms by (simp add: la_mask_index_def single_bit_mask_mod)

lemma uint_small: "0 \<le> i \<Longrightarrow> i \<le> 2 ^ 31 \<Longrightarrow> uint (word_of_int i :: u32) = i"
  by (simp add: uint_word_of_int)

lemma uint_sub_le: "uint b \<le> uint a \<Longrightarrow> uint (a - b :: u32) = uint a - uint b"
  by (simp add: uint_sub_if')

lemma uint_add_le: "uint a + uint b < 2 ^ 32 \<Longrightarrow> uint (a + b :: u32) = uint a + uint b"
  by (simp add: uint_plus_if')

lemma uint_half: "uint (drop_bit (Suc 0) (a :: u32)) = uint a div 2"
  by (simp add: drop_bit_eq_div uint_div)

text \<open>The new split of \<open>grow_shared\<close> and of \<open>shrink_shared\<close>, and the corrected one, do not wrap.\<close>

lemma uint_grown:
  assumes "uint s \<le> b" "b \<le> 2 ^ 31"
  shows "uint (s + drop_bit 1 (word_of_int b - s + 1) :: u32) = uint s + (b - uint s + 1) div 2"
proof -
  have b: "0 \<le> b" using assms(1) uint_ge_0 [of s] by linarith
  then have "uint (word_of_int b - s) = b - uint s" using assms by (simp add: uint_sub_le uint_small)
  moreover have "(2 :: int) ^ 31 < 2 ^ 32 - 1" by simp
  then have "b - uint s < 2 ^ 32 - 1" using assms(2) uint_ge_0 [of s] by linarith
  ultimately have "uint (word_of_int b - s + 1) = b - uint s + 1" by (subst uint_add_le) auto
  then have "uint (drop_bit 1 (word_of_int b - s + 1)) = (b - uint s + 1) div 2" by (simp add: uint_half)
  then show ?thesis using assms b by (subst uint_add_le) auto
qed

lemma uint_shrunk:
  assumes "uint t \<le> uint s"
  shows "uint (t + drop_bit 1 (s - t) :: u32) = uint t + (uint s - uint t) div 2"
proof -
  have "uint (drop_bit 1 (s - t)) = (uint s - uint t) div 2" using assms by (simp add: uint_half uint_sub_le)
  then show ?thesis using uint_lt2p [of s] assms by (subst uint_add_le) auto
qed

lemma uint_corrected: "uint (ucast (drop_bit 1 (ucast f + ucast s :: u64)) :: u32) = (uint (f :: u32) + uint (s :: u32)) div 2"
proof -
  have b: "uint f < 2 ^ 32" "uint s < 2 ^ 32" using uint_lt2p [of f] uint_lt2p [of s] by simp_all
  have "uint (ucast f + ucast s :: u64) = uint f + uint s"
    using b by (simp add: uint_word_ariths uint_up_ucast is_up)
  then have "uint (drop_bit 1 (ucast f + ucast s :: u64)) = (uint f + uint s) div 2"
    by (simp add: drop_bit_eq_div uint_div)
  then show ?thesis using b by (simp add: unsigned_ucast_eq take_bit_eq_mod)
qed

lemma la_inv_shared:
  assumes "la_inv d" "\<not> la_allstolen d"
  obtains t s where "la_top_split d = la_pack t s" "uint t \<le> uint s"
    "uint s = la_w_osplit d" "uint s \<le> la_w_bottom d"
  using assms la_pack_unpack [of "la_top_split d"] by (auto simp: la_inv_def)

text \<open>\<open>grow_shared\<close> and \<open>shrink_shared\<close> only move the border between shared and private elements.\<close>

lemma la_grow_shared_ok:
  assumes "la_inv d" "\<not> la_allstolen d"
  shows "la_inv (la_grow_shared d) \<and> la_contents (la_grow_shared d) = la_contents d
     \<and> la_w_bottom (la_grow_shared d) = la_w_bottom d \<and> la_capacity (la_grow_shared d) = la_capacity d
     \<and> \<not> la_allstolen (la_grow_shared d) \<and> la_array (la_grow_shared d) = la_array d"
proof (cases "la_w_bottom d \<le> la_w_osplit d")
  case True
  moreover from assms have "0 \<le> la_w_osplit d" "la_w_osplit d \<le> 2 ^ 31" "0 \<le> la_w_bottom d" "la_w_bottom d \<le> 2 ^ 31"
    by (auto simp: la_inv_def) (metis uint_ge_0)
  ultimately have "la_grow_shared d = d"
    by (simp add: la_grow_shared_def word_le_def uint_small)
  with assms show ?thesis by simp
next
  case False
  from la_inv_shared [OF assms] obtain t s where ts: "la_top_split d = la_pack t s" "uint t \<le> uint s"
    "uint s = la_w_osplit d" "uint s \<le> la_w_bottom d" .
  from assms have b: "0 \<le> la_w_bottom d" "la_w_bottom d \<le> 2 ^ 31" by (auto simp: la_inv_def)
  let ?bt = "word_of_int (la_w_bottom d) :: u32"
  let ?diff = "drop_bit 1 (?bt - s + 1)"
  have s: "word_of_int (la_w_osplit d) = s" using ts(3) by (metis word_of_int_uint)
  have ub: "uint ?bt = la_w_bottom d" using b by (rule uint_small)
  have new: "uint (s + ?diff) = uint s + (la_w_bottom d - uint s + 1) div 2" by (rule uint_grown [OF ts(4) b(2)])
  have g: "la_grow_shared d = d\<lparr>la_top_split := la_pack t (s + ?diff), la_w_osplit := uint (s + ?diff),
      la_w_allstolen := False, la_allstolen := False, la_splitreq := False\<rparr>"
    using False ts(3) ub by (simp add: la_grow_shared_def s word_le_def ts(1) la_pack_add Let_def)
  have le: "uint (s + ?diff) \<le> la_w_bottom d" "uint s \<le> uint (s + ?diff)"
    using new ts(4) by auto
  show ?thesis
    using assms ts le g by (auto simp: la_inv_def la_contents_def)
qed

lemma la_shrink_shared_ok:
  assumes "la_inv d" "\<not> la_allstolen d" "la_w_bottom d = la_w_osplit d"
  shows "if la_contents d = [] then
       la_shrink_shared d = (True, d\<lparr>la_allstolen := True, la_w_allstolen := True\<rparr>)
     else \<exists>e. la_shrink_shared d = (False, e) \<and> la_inv e \<and> la_contents e = la_contents d
       \<and> la_w_bottom e = la_w_bottom d \<and> la_capacity e = la_capacity d \<and> la_array e = la_array d
       \<and> \<not> la_allstolen e \<and> la_w_osplit e < la_w_bottom e \<and> la_mask e = la_mask d"
proof -
  from la_inv_shared [OF assms(1,2)] obtain t s where ts: "la_top_split d = la_pack t s" "uint t \<le> uint s"
    "uint s = la_w_osplit d" "uint s \<le> la_w_bottom d" .
  have empty: "la_contents d = [] \<longleftrightarrow> t = s"
    using ts assms(2,3) by (auto simp: la_contents_def intro: word_uint_eqI)
  show ?thesis
  proof (cases "t = s")
    case True
    with empty ts show ?thesis by (simp add: la_shrink_shared_def)
  next
    case False
    let ?new = "t + drop_bit 1 (s - t)"
    have lt: "uint t < uint s" using False ts(2) by (metis order_le_less word_uint_eq_iff)
    have "uint ?new = uint t + (uint s - uint t) div 2" by (rule uint_shrunk [OF ts(2)])
    then have le: "uint t \<le> uint ?new" "uint ?new < uint s" using lt by auto
    have not: "\<not> t > ?new" using le(1) by (simp add: word_less_def)
    let ?e = "d\<lparr>la_top_split := la_pack t ?new, la_w_osplit := uint ?new\<rparr>"
    have "la_shrink_shared d = (False, ?e)"
      using False not by (simp add: la_shrink_shared_def ts(1) la_pack_sub Let_def)
    moreover have "la_inv ?e" "la_contents ?e = la_contents d" "uint ?new < la_w_bottom d"
      using assms ts le by (auto simp: la_inv_def la_contents_def)
    ultimately show ?thesis using empty False assms(2) by simp
  qed
qed

section \<open>The operations in that regime\<close>

lemma la_push_ok:
  assumes inv: "la_inv d" and room: "la_room d"
  shows "\<exists>d'. la_push d v = Some d' \<and> la_inv d' \<and> la_contents d' = la_contents d @ [v]
     \<and> la_w_bottom d' = la_w_bottom d + 1 \<and> la_capacity d' = la_capacity d"
proof -
  let ?b = "la_w_bottom d" let ?bt = "word_of_int ?b :: u32"
  let ?d1 = "d\<lparr>la_array := (la_array d)[nat ?b := v]\<rparr>"
  from inv room have b: "0 \<le> ?b" "?b < la_capacity d" "?b \<le> 2 ^ 31" "la_capacity d \<le> 2 ^ 31"
    "nat ?b < length (la_array d)" by (auto simp: la_inv_def la_room_def)
  have ub: "uint ?bt = ?b" "uint (?bt + 1) = ?b + 1"
    using b by (simp_all add: uint_small uint_add_le)
  have idx: "la_mask_index d ?b = nat ?b"
    using inv b by (intro la_mask_index_small) (auto simp: la_inv_def)
  have wr: "la_write d (la_mask_index d (uint ?bt)) v = Some ?d1"
    using b by (simp add: la_write_def ub idx)
  have fin: "la_inv (la_publish_bottom (e\<lparr>la_w_bottom := ?b + 1\<rparr>))
      \<and> la_contents (la_publish_bottom (e\<lparr>la_w_bottom := ?b + 1\<rparr>)) = la_contents d @ [v]"
    if e: "la_inv e" "\<not> la_allstolen e" "la_contents e = la_contents d" "la_w_bottom e = ?b"
      "la_array e = la_array ?d1" "la_capacity e = la_capacity d" for e
  proof -
    from e(1,2) have le: "la_top e \<le> ?b" using e(4) by (auto simp: la_inv_def)
    then have "la_contents (la_publish_bottom (e\<lparr>la_w_bottom := ?b + 1\<rparr>)) = la_contents e @ [v]"
      using e(2,4,5) b by (simp add: la_contents_def la_publish_bottom_def upto_rec2)
    moreover have "la_inv (la_publish_bottom (e\<lparr>la_w_bottom := ?b + 1\<rparr>))"
      using e(1,2,4) e(6) b by (auto simp: la_inv_def la_publish_bottom_def)
    ultimately show ?thesis using e(3) by simp
  qed
  have "la_array ?d1 ! nat x = la_array d ! nat x" if "la_top d \<le> x" "x < ?b" for x
    using order_trans [OF uint_ge_0 that(1)] that(2) by simp
  then have cont1: "la_contents ?d1 = la_contents d" "la_inv ?d1"
    using inv by (auto simp: la_contents_def la_inv_def)
  show ?thesis
  proof (cases "la_allstolen d")
    case True
    with inv have "la_w_allstolen d" by (simp add: la_inv_def)
    let ?e = "la_publish_bottom (?d1\<lparr>la_top_split := la_pack ?bt (?bt + 1), la_allstolen := False, la_splitreq := False,
        la_w_osplit := uint (?bt + 1), la_w_allstolen := False, la_w_bottom := ?b + 1\<rparr>)"
    have "la_push d v = Some ?e"
      using wr \<open>la_w_allstolen d\<close> by (simp add: la_push_def Let_def)
    moreover have "la_inv ?e" using inv b ub by (auto simp: la_inv_def la_publish_bottom_def)
    moreover have "la_contents ?e = la_contents d @ [v]"
      using True b ub by (simp add: la_contents_def la_publish_bottom_def)
    ultimately show ?thesis by (simp add: la_publish_bottom_def)
  next
    case False
    with inv have ws: "\<not> la_w_allstolen d" by (simp add: la_inv_def)
    let ?e = "if la_splitreq ?d1 then la_grow_shared ?d1 else ?d1"
    have "la_push d v = Some (la_publish_bottom (?e\<lparr>la_w_bottom := la_w_bottom ?e + 1\<rparr>))"
      using wr ws by (simp add: la_push_def Let_def)
    moreover have "la_w_bottom ?e = ?b" "la_capacity ?e = la_capacity d"
      using la_grow_shared_ok [OF cont1(2)] False by auto
    ultimately show ?thesis
      using fin [of ?e] la_grow_shared_ok [OF cont1(2)] False cont1
      by (auto simp: la_publish_bottom_def split: if_splits)
  qed
qed

lemma la_pop_tail:
  assumes inv: "la_inv d" and ns: "\<not> la_allstolen d" and lt: "la_w_osplit d < la_w_bottom d"
  defines "d1 \<equiv> la_publish_bottom (d\<lparr>la_w_bottom := la_w_bottom d - 1\<rparr>)"
  defines "e \<equiv> if la_splitreq d1 then la_grow_shared d1 else d1"
  shows "la_contents d \<noteq> [] \<and> la_read d1 (nat (la_w_bottom d1)) = Some (last (la_contents d))
     \<and> la_mask_index d1 (la_w_bottom d1) = nat (la_w_bottom d1)
     \<and> la_inv e \<and> la_contents e = butlast (la_contents d)"
proof -
  let ?b = "la_w_bottom d"
  from inv ns have b: "?b \<le> la_capacity d" "la_top d \<le> la_w_osplit d" "0 \<le> la_top d"
    using lt by (auto simp: la_inv_def)
  with lt have "0 \<le> ?b - 1" "0 < ?b" by linarith+
  note b = this b
  have idx: "la_mask_index d1 (la_w_bottom d1) = nat (la_w_bottom d1)"
    using inv b by (intro la_mask_index_small) (auto simp: la_inv_def d1_def la_publish_bottom_def)
  have read: "la_read d1 (nat (la_w_bottom d1)) = Some (la_array d ! nat (?b - 1))"
    using inv b by (auto simp: la_read_def d1_def la_publish_bottom_def la_inv_def)
  have contents: "la_contents d = la_contents d1 @ [la_array d ! nat (?b - 1)]"
    using ns b lt by (simp add: la_contents_def d1_def la_publish_bottom_def upto_rec2)
  have d1: "la_inv d1" "\<not> la_allstolen d1"
    using inv ns lt b(1,2) by (auto simp: la_inv_def d1_def la_publish_bottom_def)
  have "la_inv e \<and> la_contents e = la_contents d1"
    using la_grow_shared_ok [OF d1] d1 by (simp add: e_def)
  with contents read idx show ?thesis by simp
qed

lemma la_pop_ok:
  assumes inv: "la_inv d"
  shows "\<exists>d'. la_pop d = Some (if la_contents d = [] then None else Some (last (la_contents d)), d')
     \<and> la_inv d' \<and> la_contents d' = butlast (la_contents d)"
proof (cases "la_w_bottom d > la_w_osplit d")
  case True
  with inv have ns: "\<not> la_allstolen d" by (auto simp: la_inv_def split: if_splits)
  from la_pop_tail [OF inv ns True] show ?thesis
    using True by (simp add: la_pop_def Let_def)
next
  case False
  with inv have eq: "la_w_bottom d = la_w_osplit d" by (auto simp: la_inv_def split: if_splits)
  show ?thesis
  proof (cases "la_allstolen d")
    case True
    with inv False show ?thesis
      by (simp add: la_pop_def la_pop_cold_path_def la_inv_def la_contents_def return_nullopt_def)
  next
    case ns: False
    with inv have ws: "\<not> la_w_allstolen d" by (simp add: la_inv_def)
    show ?thesis
    proof (cases "la_contents d = []")
      case True
      with la_shrink_shared_ok [OF inv ns eq]
      have "la_shrink_shared d = (True, d\<lparr>la_allstolen := True, la_w_allstolen := True\<rparr>)" by simp
      moreover have "la_inv (d\<lparr>la_allstolen := True, la_w_allstolen := True\<rparr>)"
        using inv eq by (auto simp: la_inv_def)
      ultimately show ?thesis
        using True False ws
        by (simp add: la_pop_def la_pop_cold_path_def la_pop_empty_def return_nullopt_def la_contents_def)
    next
      case more: False
      with la_shrink_shared_ok [OF inv ns eq] obtain e where
        e: "la_shrink_shared d = (False, e)" "la_inv e" "la_contents e = la_contents d"
          "\<not> la_allstolen e" "la_w_osplit e < la_w_bottom e" by auto
      from la_pop_tail [OF e(2,4,5)] show ?thesis
        using False ws e(1,3) by (simp add: la_pop_def la_pop_cold_path_def Let_def)
    qed
  qed
qed

lemma la_steal_ok:
  assumes inv: "la_inv d"
  shows "\<exists>r d'. la_steal d = Some (r, d') \<and> la_inv d' \<and>
     (r = stolen (hd (la_contents d)) \<and> la_contents d \<noteq> [] \<and> la_contents d' = tl (la_contents d)
      \<or> r = steal_failed Err_empty \<and> la_contents d' = la_contents d)"
proof (cases "la_allstolen d")
  case True
  with inv show ?thesis by (simp add: la_steal_def)
next
  case False
  from la_inv_shared [OF inv this] obtain t s where ts: "la_top_split d = la_pack t s" "uint t \<le> uint s"
    "uint s = la_w_osplit d" "uint s \<le> la_w_bottom d" .
  show ?thesis
  proof (cases "sint (s - t) > 0")
    case True
    then have "t \<noteq> s" by auto
    with ts(2) have lt: "uint t < uint s" by (metis order_le_less word_uint_eq_iff)
    with ts inv have cap: "uint t < la_capacity d" by (auto simp: la_inv_def)
    have idx: "la_mask_index d (uint t) = nat (uint t)"
      using inv cap by (intro la_mask_index_small) (auto simp: la_inv_def)
    have read: "la_read d (nat (uint t)) = Some (la_array d ! nat (uint t))"
      using inv cap order.strict_trans1 [OF uint_ge_0 cap]
      by (simp add: la_read_def la_inv_def nat_less_iff del: nat_uint_eq)
    have t1: "uint (t + 1) = uint t + 1"
      using lt uint_lt2p [of s] by (simp add: uint_add_le)
    let ?e = "d\<lparr>la_top_split := la_pack (t + 1) s\<rparr>"
    have "la_steal d = Some (stolen (la_array d ! nat (uint t)), ?e)"
      using False True read by (simp add: la_steal_def ts(1) idx)
    moreover have "la_contents d = la_array d ! nat (uint t) # la_contents ?e"
      using False lt ts(1,4) t1 by (simp add: la_contents_def upto_rec1)
    moreover have "la_inv ?e" using inv False ts lt t1 by (auto simp: la_inv_def)
    ultimately show ?thesis by simp
  next
    case no: False
    have "la_inv (d\<lparr>la_splitreq := True\<rparr>)" using inv by (auto simp: la_inv_def)
    with False no show ?thesis by (simp add: la_steal_def ts(1) la_contents_def)
  qed
qed

text \<open>What bounds a history: every push uses one more index, and no operation gives one back.\<close>

definition la_budget :: "'a lace_deque \<Rightarrow> nat" where
  "la_budget d = nat (la_capacity d - la_w_bottom d)"

lemma la_grow_shared_keeps:
  "la_w_bottom (la_grow_shared d) = la_w_bottom d" "la_capacity (la_grow_shared d) = la_capacity d"
  by (simp_all add: la_grow_shared_def Let_def)

lemma la_shrink_shared_keeps:
  assumes "la_shrink_shared d = (g, e)"
  shows "la_w_bottom e = la_w_bottom d \<and> la_capacity e = la_capacity d"
  using assms by (auto simp: la_shrink_shared_def Let_def split: prod.splits if_splits)

lemma la_pop_budget: "la_pop d = Some (r, d') \<Longrightarrow> la_budget d \<le> la_budget d'"
  by (auto simp: la_pop_def la_pop_cold_path_def la_pop_empty_def la_publish_bottom_def la_budget_def Let_def
        la_grow_shared_keeps Option.bind_eq_Some_conv dest!: la_shrink_shared_keeps split: if_splits prod.splits)

lemma la_steal_budget: "la_steal d = Some (r, d') \<Longrightarrow> la_budget d \<le> la_budget d'"
  by (auto simp: la_steal_def la_budget_def Option.bind_eq_Some_conv Let_def split: if_splits prod.splits)

interpretation la: ws_deque_bounded la_inv la_contents la_room la_push la_pop la_steal la_budget
proof (unfold_locales, goal_cases)
  case (1 d v)
  from la_push_ok [OF this, of v] show ?case by auto
next
  case (2 d)
  then show ?case by (rule la_pop_ok)
next
  case (3 d)
  then show ?case by (rule la_steal_ok)
next
  case (4 d)
  then show ?case by (simp add: la_budget_def la_room_def)
next
  case (5 d v d')
  with la_push_ok [of d v] show ?case by (auto simp: la_budget_def la_room_def)
next
  case (6 d r d')
  then show ?case by (auto dest: la_pop_budget)
next
  case (7 d r d')
  then show ?case by (auto dest: la_steal_budget)
qed

lemma lace_new_inv:
  assumes "has_single_bit (uint cap)" "uint cap \<le> 2 ^ 31" "lace_new z True cap = Some (Inr d)"
  shows "la_inv d \<and> la_contents d = [] \<and> la_budget d = unat cap"
  using assms by (auto simp: lace_new_def la_inv_def la_contents_def la_budget_def split: if_splits)

lemma lace_new_ok:
  assumes "has_single_bit (uint cap)" "uint cap \<le> 2 ^ 31"
  shows "\<exists>d. lace_new z True cap = Some (Inr d)"
proof -
  have "1 \<le> uint cap" using assms(1) by (auto simp: has_single_bit_def)
  then have "uint (cap - 1) = uint cap - 1" using uint_sub_if' [of cap 1] by simp
  then have "uint (cap AND (cap - 1)) = 0"
    using assms(1) by (simp add: uint_and single_bit_mask_mod)
  then have "cap AND (cap - 1) = 0" by (simp add: unsigned_eq_0_iff)
  with assms(2) show ?thesis by (simp add: lace_new_def word_less_def)
qed

section \<open>Properties\<close>

text \<open>
  In its first \<open>capacity\<close> pushes a Lace deque is a work-stealing deque: from the
  constructor on, every history with no more pushes than the capacity runs to its end with no
  access outside the array, and the elements taken out by \<open>pop\<close> and \<open>steal\<close> together with those
  left are exactly the elements pushed.
\<close>

theorem lace_conserves:
  assumes "has_single_bit (uint cap)" "uint cap \<le> 2 ^ 31" "pushes ops \<le> unat cap"
  shows "\<exists>d outs e. lace_new z True cap = Some (Inr d)
     \<and> run_deque la_room la_push la_pop la_steal d ops = Some (outs, e)
     \<and> pushed_of outs = mset (la_contents e) + taken_of outs"
proof -
  from lace_new_ok [OF assms(1,2), of z] obtain d where d: "lace_new z True cap = Some (Inr d)" ..
  note inv = lace_new_inv [OF assms(1,2) d]
  from la.run_total [of d ops] inv assms(3) obtain outs e where
    run: "run_deque la_room la_push la_pop la_steal d ops = Some (outs, e)" by auto
  from la.run_conserves [OF run] inv have "pushed_of outs = mset (la_contents e) + taken_of outs" by simp
  with d run show ?thesis by (intro exI conjI)
qed

theorem lace_conserves_witness:
  "\<exists>d outs e. lace_new (0::nat) True 4 = Some (Inr d)
     \<and> run_deque la_room la_push la_pop la_steal d
         [Op_push 1, Op_push 2, Op_push 3, Op_steal, Op_pop, Op_push 4, Op_steal, Op_pop] = Some (outs, e)
     \<and> pushed_of outs = mset (la_contents e) + taken_of outs"
  by (rule lace_conserves) (use has_single_bit_pow2 [of 2] in simp_all)

text \<open>
  The owner's end of a Lace deque is a stack: with room, \<open>pop\<close> straight after
  \<open>push\<close> returns the pushed element and leaves the elements as they were, whichever of the two
  paths of \<open>pop\<close> is taken.
\<close>

theorem lace_push_pop:
  assumes "la_inv d" "la_room d"
  shows "\<exists>d' d''. la_push d v = Some d' \<and> la_pop d' = Some (Some v, d'') \<and> la_contents d'' = la_contents d"
  by (rule la.push_pop [OF assms])

theorem lace_push_pop_witness:
  "\<exists>d d' d''. lace_new (0::nat) True 4 = Some (Inr d) \<and> la_push d 7 = Some d'
     \<and> la_pop d' = Some (Some 7, d'') \<and> la_contents d'' = []"
proof -
  have four: "has_single_bit (uint (4 :: u64))" using has_single_bit_pow2 [of 2] by simp
  from lace_new_ok [OF four, of "0::nat"] obtain d where d: "lace_new (0::nat) True 4 = Some (Inr d)" by auto
  note inv = lace_new_inv [OF four _ d]
  then have "la_room d" by (intro la.budget_room) simp_all
  with lace_push_pop [of d 7] inv d show ?thesis by auto
qed

text \<open>
  Property C35. \<open>unpack\<close> inverts \<open>pack\<close>, every 64-bit value is a packed pair, and the
  \<open>fetch_add\<close>/\<open>fetch_sub\<close> of a difference shifted into the upper half moves \<open>split\<close>, modulo
  \<open>2\<close> to the power 32, and never touches \<open>top\<close>.
\<close>

theorem lace_split_word:
  "la_unpack (la_pack t s) = (t, s) \<and> (\<exists>t' s'. v = la_pack t' s')
   \<and> la_unpack (la_pack t s + push_bit 32 (ucast d)) = (t, s + d)
   \<and> la_unpack (la_pack t s - push_bit 32 (ucast d)) = (t, s - d)"
  using la_pack_unpack by (simp add: la_pack_add la_pack_sub)

text \<open>
  Property C38. Past its first \<open>capacity\<close> pushes the deque is not safe, however few elements it
  holds: with capacity 2 the third \<open>push\<close>, after one steal, stores at index \<open>2 & mask = 0\<close>,
  and the fast path of \<open>pop\<close> then reads \<open>m_array[2]\<close>, outside the two-element array. At no
  time were there more than two elements.
\<close>

theorem lace_pop_reads_out_of_bounds:
  "\<exists>d e. lace_new (0::nat) True 2 = Some (Inr d)
     \<and> run_deque (\<lambda>_. True) la_push la_pop la_steal d [Op_push 1, Op_steal, Op_push 2, Op_push 3]
       = Some ([Out_pushed 1, Out_stolen (Some 1), Out_pushed 2, Out_pushed 3], e)
     \<and> la_ssize e = 2 \<and> la_pop e = None"
proof -
  let ?d = "\<lparr>la_array = [0,0::nat], la_mask = 1, la_capacity = 2, la_top_split = la_pack 0 0, la_bottom = 0,
     la_allstolen = True, la_splitreq = False, la_w_bottom = 0, la_w_osplit = 0, la_w_allstolen = True\<rparr>"
  let ?e = "\<lparr>la_array = [3,2::nat], la_mask = 1, la_capacity = 2, la_top_split = la_pack 1 1, la_bottom = 3,
     la_allstolen = False, la_splitreq = False, la_w_bottom = 3, la_w_osplit = 1, la_w_allstolen = False\<rparr>"
  let ?d1 = "\<lparr>la_array = [1,0::nat], la_mask = 1, la_capacity = 2, la_top_split = la_pack 0 1, la_bottom = 1,
     la_allstolen = False, la_splitreq = False, la_w_bottom = 1, la_w_osplit = 1, la_w_allstolen = False\<rparr>"
  let ?d2 = "?d1\<lparr>la_top_split := la_pack 1 1\<rparr>"
  let ?d3 = "?d2\<lparr>la_array := [1,2], la_bottom := 2, la_w_bottom := 2\<rparr>"
  note ops = la_write_def la_read_def la_mask_index_def la_publish_bottom_def
  have two: "replicate 2 0 = [0, 0 :: nat]" by (simp add: numeral_2_eq_2)
  have "lace_new (0::nat) True 2 = Some (Inr ?d)" by (simp add: lace_new_def two)
  moreover have "la_push ?d 1 = Some ?d1" by (simp add: la_push_def ops)
  moreover have "la_steal ?d1 = Some (stolen 1, ?d2)" by (simp add: la_steal_def ops)
  moreover have "la_push ?d2 2 = Some ?d3" by (simp add: la_push_def ops)
  moreover have "la_push ?d3 3 = Some ?e" by (simp add: la_push_def ops)
  moreover have "la_ssize ?e = 2 \<and> la_pop ?e = None"
    by (simp add: la_ssize_def la_pop_def ops word_le_def)
  ultimately show ?thesis by (intro exI [of _ ?d] exI [of _ ?e]) simp
qed

end
