(* ===== verification/Lace_Conc.thy ===== *)
theory Lace_Conc
  imports Lace_Deque Conc_Deque
begin

text \<open>
  The Lace deque of \<open>core/ext/deque_lace.hpp\<close> under interleaving: agent 0 is the owner, which pushes
  and pops, every other agent a thief.  One step is one access to \<open>m_top_split\<close>, \<open>m_bottom\<close>,
  \<open>m_allstolen\<close>, \<open>m_splitreq\<close> or the array, in the order of the source, with the accesses to
  \<open>m_worker\<close>, which only the owner touches, that go with it.  \<open>None\<close> is an access outside the array.
  Memory is sequentially consistent.

  The owner runs between two shared accesses at a place of \<open>lo_pc\<close>, a thief at one of \<open>lt_pc\<close>.  A step
  is labelled with its agent and an event of \<open>Conc_Deque\<close>: \<open>E_push\<close>, \<open>E_pop\<close> and \<open>E_steal\<close> are put
  where the operation takes effect, \<open>E_ret\<close> where \<open>pop\<close> or \<open>steal\<close> returns an element.  The element in
  a label of \<open>E_pop\<close> and \<open>E_steal\<close> is the one that the slot holds at that step, the element in
  \<open>E_ret\<close> the one the code reads, in a later step.
\<close>

section \<open>The operations\<close>

text \<open>What \<open>grow_shared\<close> returns to.\<close>

datatype 'a kont = K_push 'a | K_pop 'a

datatype 'a lo_pc =
    X_idle
  | X_store 'a | X_allst | X_clr_ld | X_clr | X_req 'a | X_bottom "'a option"
  | X_grow "'a kont" | X_g_allst "'a kont" | X_g_req "'a kont"
  | X_read bool 'a | X_pop_req 'a | X_ret 'a
  | X_load | X_sub u32 u32 | X_fresh u32 u32 | X_correct u32 u32 u32 | X_take | X_all | X_empty

datatype 'a lt_pc = L_idle | L_load | L_cas u32 u32 | L_read u32 'a | L_req

fun x_resume :: "'a kont \<Rightarrow> 'a lo_pc" where
  "x_resume (K_push v) = X_bottom (Some v)" | "x_resume (K_pop w) = X_ret w"

text \<open>The first step of \<open>push\<close>: the store to the array and the choice of the branch.\<close>

definition x_push :: "'a lace_deque \<Rightarrow> 'a \<Rightarrow> ('a lace_deque \<times> 'a lo_pc) option" where
  "x_push d v = do {
     d1 \<leftarrow> la_write d (la_mask_index d (uint (word_of_int (la_w_bottom d) :: u32))) v;
     Some (d1, if la_w_allstolen d1 then X_store v else X_req v) }"

text \<open>\<open>--m_worker.bottom; publish_bottom(relaxed)\<close>, and the index that the load after it uses.\<close>

definition x_dec :: "'a lace_deque \<Rightarrow> 'a lace_deque" where
  "x_dec d = la_publish_bottom (d\<lparr>la_w_bottom := la_w_bottom d - 1\<rparr>)"

definition x_index :: "bool \<Rightarrow> 'a lace_deque \<Rightarrow> nat" where
  "x_index fast d = (if fast then nat (la_w_bottom d) else la_mask_index d (la_w_bottom d))"

definition x_takes :: "bool \<Rightarrow> 'a lace_deque \<Rightarrow> ('a event \<times> 'a lace_deque \<times> 'a lo_pc) option" where
  "x_takes fast d = do { v \<leftarrow> la_read (x_dec d) (x_index fast (x_dec d)); Some (E_pop v, x_dec d, X_read fast v) }"

text \<open>
  The other steps of the owner.  At \<open>X_idle\<close> the owner calls \<open>pop\<close>, which chooses its path from private
  variables.
\<close>

fun x_own :: "'a lace_deque \<Rightarrow> 'a lo_pc \<Rightarrow> ('a event \<times> 'a lace_deque \<times> 'a lo_pc) option" where
  "x_own d X_idle =
     (if la_w_bottom d > la_w_osplit d then x_takes True d
      else if la_w_allstolen d then Some (E_pop_empty, d, X_idle)
      else Some (E_tau, d, X_load))"
| "x_own d (X_store v) =
     (let bt = word_of_int (la_w_bottom d) :: u32 in Some (E_push v, d\<lparr>la_top_split := la_pack bt (bt + 1)\<rparr>, X_allst))"
| "x_own d X_allst = Some (E_tau, d\<lparr>la_allstolen := False\<rparr>, X_clr_ld)"
| "x_own d X_clr_ld =
     (if la_splitreq d then Some (E_tau, d, X_clr)
      else Some (E_tau, d\<lparr>la_w_osplit := uint (word_of_int (la_w_bottom d) + 1 :: u32), la_w_allstolen := False\<rparr>, X_bottom None))"
| "x_own d X_clr =
     Some (E_tau, d\<lparr>la_splitreq := False, la_w_osplit := uint (word_of_int (la_w_bottom d) + 1 :: u32),
       la_w_allstolen := False\<rparr>, X_bottom None)"
| "x_own d (X_req v) = Some (E_tau, d, if la_splitreq d then X_grow (K_push v) else X_bottom (Some v))"
| "x_own d (X_bottom p) =
     Some (case p of Some v \<Rightarrow> E_push v | None \<Rightarrow> E_tau, la_publish_bottom (d\<lparr>la_w_bottom := la_w_bottom d + 1\<rparr>), X_idle)"
| "x_own d (X_grow k) =
     (let split = word_of_int (la_w_osplit d) :: u32; bt = word_of_int (la_w_bottom d) :: u32 in
      if bt \<le> split then Some (E_tau, d, x_resume k)
      else (let diff = drop_bit 1 (bt - split + 1); new_split = split + diff in
        Some (E_tau, d\<lparr>la_top_split := la_top_split d + push_bit 32 (ucast diff),
          la_w_osplit := uint new_split, la_w_allstolen := False\<rparr>, X_g_allst k)))"
| "x_own d (X_g_allst k) = Some (E_tau, d\<lparr>la_allstolen := False\<rparr>, X_g_req k)"
| "x_own d (X_g_req k) = Some (E_tau, d\<lparr>la_splitreq := False\<rparr>, x_resume k)"
| "x_own d (X_read fast v) = do { w \<leftarrow> la_read d (x_index fast d); Some (E_tau, d, X_pop_req w) }"
| "x_own d (X_pop_req w) = Some (E_tau, d, if la_splitreq d then X_grow (K_pop w) else X_ret w)"
| "x_own d (X_ret w) = Some (E_ret w, d, X_idle)"
| "x_own d X_load =
     (let (tp, split) = la_unpack (la_top_split d) in
      if tp \<noteq> split then Some (E_tau, d, X_sub tp split) else Some (E_pop_empty, d, X_all))"
| "x_own d (X_sub tp split) =
     (let new_split = tp + drop_bit 1 (split - tp); decrement = split - new_split in
      Some (E_tau, d\<lparr>la_top_split := la_top_split d - push_bit 32 (ucast decrement)\<rparr>, X_fresh split new_split))"
| "x_own d (X_fresh split new_split) =
     (let fresh_t = fst (la_unpack (la_top_split d)) in
      if fresh_t \<noteq> split then
        (if fresh_t > new_split then Some (E_tau, d, X_correct fresh_t split new_split)
         else Some (E_tau, d\<lparr>la_w_osplit := uint new_split\<rparr>, X_take))
      else Some (E_pop_empty, d, X_all))"
| "x_own d (X_correct fresh_t split new_split) =
     (let corrected = ucast (drop_bit 1 (ucast fresh_t + ucast split :: u64)) :: u32;
          correction = corrected - new_split in
      Some (E_tau, d\<lparr>la_top_split := la_top_split d + push_bit 32 (ucast correction),
        la_w_osplit := uint corrected\<rparr>, X_take))"
| "x_own d X_take = x_takes False d"
| "x_own d X_all = Some (E_tau, d\<lparr>la_allstolen := True, la_w_allstolen := True\<rparr>, X_empty)"
| "x_own d X_empty = Some (E_tau, snd (la_pop_empty d), X_idle)"

text \<open>\<open>steal\<close>.\<close>

fun x_steal :: "'a lace_deque \<Rightarrow> 'a lt_pc \<Rightarrow> ('a event \<times> 'a lace_deque \<times> 'a lt_pc) option" where
  "x_steal d L_idle = Some (if la_allstolen d then (E_steal_empty, d, L_idle) else (E_tau, d, L_load))"
| "x_steal d L_load =
     (let (tp, split) = la_unpack (la_top_split d) in
      Some (E_tau, d, if sint (split - tp) > 0 then L_cas tp split else L_req))"
| "x_steal d (L_cas tp split) =
     (if la_top_split d = la_pack tp split then do {
        v \<leftarrow> la_read d (la_mask_index d (uint tp));
        Some (E_steal v, d\<lparr>la_top_split := la_pack (tp + 1) split\<rparr>, L_read tp v) }
      else Some (E_steal_lost, d, L_idle))"
| "x_steal d (L_read tp v) = do { w \<leftarrow> la_read d (la_mask_index d (uint tp)); Some (E_ret w, d, L_idle) }"
| "x_steal d L_req = Some (E_steal_empty, d\<lparr>la_splitreq := True\<rparr>, L_idle)"

section \<open>The system\<close>

text \<open>\<open>x_begun\<close> counts the calls of \<open>push\<close>.\<close>

record 'a lace_sys =
  x_d :: "'a lace_deque"
  x_owner :: "'a lo_pc"
  x_thief :: "nat \<Rightarrow> 'a lt_pc"
  x_begun :: nat

definition x_init :: "'a lace_deque \<Rightarrow> 'a lace_sys" where
  "x_init d = \<lparr>x_d = d, x_owner = X_idle, x_thief = (\<lambda>_. L_idle), x_begun = 0\<rparr>"

inductive x_step :: "'a lace_sys \<Rightarrow> nat \<times> 'a event \<Rightarrow> 'a lace_sys \<Rightarrow> bool" where
  xs_push: "x_owner s = X_idle \<Longrightarrow> x_push (x_d s) v = Some (d, p) \<Longrightarrow>
     x_step s (0, E_tau) (s\<lparr>x_d := d, x_owner := p, x_begun := Suc (x_begun s)\<rparr>)"
| xs_own: "x_own (x_d s) (x_owner s) = Some (e, d, p) \<Longrightarrow> x_step s (0, e) (s\<lparr>x_d := d, x_owner := p\<rparr>)"
| xs_steal: "0 < i \<Longrightarrow> x_steal (x_d s) (x_thief s i) = Some (e, d, p) \<Longrightarrow>
     x_step s (i, e) (s\<lparr>x_d := d, x_thief := (x_thief s)(i := p)\<rparr>)"

inductive x_run :: "'a lace_sys \<Rightarrow> (nat \<times> 'a event) list \<Rightarrow> 'a lace_sys \<Rightarrow> bool" where
  x_refl: "x_run s [] s"
| x_snoc: "x_run s es t \<Longrightarrow> x_step t l u \<Longrightarrow> x_run s (es @ [l]) u"

section \<open>The invariant\<close>

definition x_cell :: "'a lace_deque \<Rightarrow> int \<Rightarrow> 'a" where
  "x_cell d i = la_array d ! nat i"

definition x_static :: "'a lace_deque \<Rightarrow> bool" where
  "x_static d \<longleftrightarrow> has_single_bit (la_capacity d) \<and> la_capacity d \<le> 2 ^ 31 \<and> la_mask d = la_capacity d - 1
     \<and> length (la_array d) = nat (la_capacity d) \<and> 0 \<le> la_w_bottom d \<and> la_w_bottom d \<le> la_capacity d"

text \<open>
  Between operations: when all is stolen the owner's end is the top, and no thief can move as the split
  is not above it; otherwise top, split and bottom are in order and \<open>osplit\<close> is exact.
\<close>

definition x_normal :: "'a lace_deque \<Rightarrow> bool" where
  "x_normal d \<longleftrightarrow> (if la_w_allstolen d then la_w_osplit d = la_w_bottom d \<and> la_top d = la_w_bottom d \<and> la_split d \<le> la_w_bottom d
     else la_top d \<le> la_split d \<and> la_split d = la_w_osplit d \<and> la_w_osplit d \<le> la_w_bottom d)"

definition x_some :: "'a lace_deque \<Rightarrow> bool" where
  "x_some d \<longleftrightarrow> \<not> la_w_allstolen d \<and> la_top d \<le> la_split d \<and> la_split d = la_w_osplit d \<and> la_w_osplit d \<le> la_w_bottom d"

text \<open>The element beyond the bottom that \<open>push\<close> has written and not yet made part of the deque.\<close>

definition x_wrote :: "'a lace_deque \<Rightarrow> 'a \<Rightarrow> bool" where
  "x_wrote d v \<longleftrightarrow> la_w_bottom d < la_capacity d \<and> x_cell d (la_w_bottom d) = v"

text \<open>\<open>push\<close> has shared its element and not yet counted it in \<open>m_worker.bottom\<close>.\<close>

definition x_gave :: "'a lace_deque \<Rightarrow> bool" where
  "x_gave d \<longleftrightarrow> la_w_bottom d < la_capacity d \<and> la_w_bottom d \<le> la_top d \<and> la_top d \<le> la_split d
     \<and> la_split d = la_w_bottom d + 1"

fun x_kont :: "'a lace_deque \<Rightarrow> 'a kont \<Rightarrow> bool" where
  "x_kont d (K_push v) \<longleftrightarrow> x_some d \<and> x_wrote d v" | "x_kont d (K_pop w) \<longleftrightarrow> x_some d"

text \<open>\<open>shrink_shared\<close> starts with no private element.\<close>

definition x_shrinks :: "'a lace_deque \<Rightarrow> u32 \<Rightarrow> bool" where
  "x_shrinks d split \<longleftrightarrow> \<not> la_w_allstolen d \<and> la_w_osplit d = la_w_bottom d \<and> uint split = la_w_bottom d \<and> la_top d \<le> uint split"

fun x_ok :: "'a lace_deque \<Rightarrow> 'a lo_pc \<Rightarrow> bool" where
  "x_ok d X_idle \<longleftrightarrow> x_normal d"
| "x_ok d (X_store v) \<longleftrightarrow> x_normal d \<and> la_w_allstolen d \<and> x_wrote d v"
| "x_ok d X_allst \<longleftrightarrow> x_gave d" | "x_ok d X_clr_ld \<longleftrightarrow> x_gave d" | "x_ok d X_clr \<longleftrightarrow> x_gave d"
| "x_ok d (X_req v) \<longleftrightarrow> x_some d \<and> x_wrote d v"
| "x_ok d (X_bottom None) \<longleftrightarrow> x_gave d \<and> la_w_osplit d = la_split d \<and> \<not> la_w_allstolen d"
| "x_ok d (X_bottom (Some v)) \<longleftrightarrow> x_some d \<and> x_wrote d v"
| "x_ok d (X_grow k) \<longleftrightarrow> x_kont d k" | "x_ok d (X_g_allst k) \<longleftrightarrow> x_kont d k" | "x_ok d (X_g_req k) \<longleftrightarrow> x_kont d k"
| "x_ok d (X_read fast v) \<longleftrightarrow> x_some d \<and> x_wrote d v"
| "x_ok d (X_pop_req w) \<longleftrightarrow> x_some d" | "x_ok d (X_ret w) \<longleftrightarrow> x_some d"
| "x_ok d X_load \<longleftrightarrow> x_some d \<and> la_w_osplit d = la_w_bottom d"
| "x_ok d (X_sub tp split) \<longleftrightarrow> x_shrinks d split \<and> la_split d = uint split \<and> uint tp < uint split \<and> uint tp \<le> la_top d"
| "x_ok d (X_fresh split new) \<longleftrightarrow> x_shrinks d split \<and> la_split d = uint new \<and> uint new < uint split"
| "x_ok d (X_correct f split new) \<longleftrightarrow> x_shrinks d split \<and> la_split d = uint new \<and> la_top d = uint f
     \<and> uint new < uint f \<and> uint f < uint split"
| "x_ok d X_take \<longleftrightarrow> x_some d \<and> la_w_osplit d < la_w_bottom d"
| "x_ok d X_all \<longleftrightarrow> la_w_osplit d = la_w_bottom d \<and> la_top d = la_w_bottom d \<and> la_split d \<le> la_w_bottom d"
| "x_ok d X_empty \<longleftrightarrow> x_normal d \<and> la_w_allstolen d"

fun x_ahead :: "'a lo_pc \<Rightarrow> int" where
  "x_ahead X_allst = 1" | "x_ahead X_clr_ld = 1" | "x_ahead X_clr = 1" | "x_ahead (X_bottom None) = 1" | "x_ahead _ = 0"

fun x_kpush :: "'a kont \<Rightarrow> int" where
  "x_kpush (K_push v) = 1" | "x_kpush (K_pop w) = 0"

fun x_pushing :: "'a lo_pc \<Rightarrow> int" where
  "x_pushing (X_store v) = 1" | "x_pushing X_allst = 1" | "x_pushing X_clr_ld = 1" | "x_pushing X_clr = 1"
| "x_pushing (X_req v) = 1" | "x_pushing (X_bottom p) = 1"
| "x_pushing (X_grow k) = x_kpush k" | "x_pushing (X_g_allst k) = x_kpush k" | "x_pushing (X_g_req k) = x_kpush k"
| "x_pushing _ = 0"

definition x_list :: "'a lace_deque \<Rightarrow> 'a lo_pc \<Rightarrow> 'a list" where
  "x_list d p = map (x_cell d) [la_top d..la_w_bottom d + x_ahead p - 1]"

definition x_post :: "'a lace_deque \<Rightarrow> 'a lo_pc \<Rightarrow> 'a event \<Rightarrow> 'a lace_deque \<Rightarrow> 'a lo_pc \<Rightarrow> bool" where
  "x_post d p e d' p' \<longleftrightarrow> x_static d' \<and> x_ok d' p' \<and> list_event (x_list d p) e (x_list d' p')
     \<and> la_top d \<le> la_top d' \<and> la_array d' = la_array d \<and> la_capacity d' = la_capacity d
     \<and> la_w_bottom d' + x_pushing p' \<le> la_w_bottom d + x_pushing p"

lemmas x_defs = x_normal_def x_some_def x_wrote_def x_gave_def x_shrinks_def x_cell_def

lemma x_index_ok: "x_static d \<Longrightarrow> 0 \<le> i \<Longrightarrow> i < la_capacity d \<Longrightarrow> la_mask_index d i = nat i \<and> la_read d (nat i) = Some (x_cell d i)"
  by (auto simp: x_static_def x_cell_def la_read_def intro!: la_mask_index_small)

lemma x_some_bottom: "x_some d \<Longrightarrow> 0 \<le> la_top d \<and> la_top d \<le> la_w_bottom d"
  by (simp add: x_some_def)

lemma x_resume_simps [simp]:
  "x_ok d (x_resume k) = x_kont d k" "x_ahead (x_resume k) = 0" "x_pushing (x_resume k) = x_kpush k"
  by (cases k; simp)+

text \<open>\<open>pop\<close> takes the last element, which is private.\<close>

lemma x_takes_ok:
  assumes st: "x_static d" and ok: "x_some d" "la_w_osplit d < la_w_bottom d" and p: "x_ahead p = 0" "x_pushing p = 0"
  shows "\<exists>e d' p'. x_takes fast d = Some (e, d', p') \<and> x_post d p e d' p'"
proof -
  let ?d = "x_dec d" let ?v = "x_cell d (la_w_bottom d - 1)"
  from x_some_bottom [OF ok(1)] ok have b: "0 \<le> la_top d" "la_top d \<le> la_w_bottom d - 1" "la_w_bottom d - 1 < la_capacity d" "0 \<le> la_w_bottom d - 1"
    using st uint_ge_0 [of "fst (la_unpack (la_top_split d))"] unfolding x_some_def x_static_def by linarith+
  have st': "x_static ?d" using st b by (simp add: x_static_def x_dec_def la_publish_bottom_def)
  from x_index_ok [OF this, of "la_w_bottom d - 1"] b
  have "x_takes fast d = Some (E_pop ?v, ?d, X_read fast ?v)"
    by (simp add: x_takes_def x_index_def x_dec_def la_publish_bottom_def x_cell_def)
  moreover have "x_list d p = x_list ?d (X_read fast ?v) @ [?v]"
    using b p by (simp add: x_list_def x_dec_def la_publish_bottom_def x_cell_def upto_rec2)
  ultimately show ?thesis
    using st' ok b p by (intro exI conjI) (auto simp: x_post_def x_dec_def la_publish_bottom_def x_defs)
qed

text \<open>\<open>grow_shared\<close> and \<open>shrink_shared\<close> move the split.\<close>

lemma la_unpack_obtain: obtains t s where "la_top_split d = la_pack t s" "la_top d = uint t" "la_split d = uint s"
  using la_pack_unpack [of "la_top_split d"] by auto

lemma x_grow_ok:
  assumes st: "x_static d" and ok: "x_kont d k"
  shows "\<exists>e d' p'. x_own d (X_grow k) = Some (e, d', p') \<and> x_post d (X_grow k) e d' p'"
proof -
  obtain t s where ts: "la_top_split d = la_pack t s" "la_top d = uint t" "la_split d = uint s" by (rule la_unpack_obtain)
  from ok have some: "x_some d" by (cases k) simp_all
  then have s: "uint s = la_w_osplit d" "word_of_int (la_w_osplit d) = s" "uint s \<le> la_w_bottom d" "uint t \<le> uint s"
    using ts by (auto simp: x_some_def) (metis word_of_int_uint)
  have b: "0 \<le> la_w_bottom d" "la_w_bottom d \<le> 2 ^ 31" using st by (simp_all add: x_static_def)
  let ?new = "s + drop_bit 1 (word_of_int (la_w_bottom d) - s + 1)"
  have new: "uint ?new = uint s + (la_w_bottom d - uint s + 1) div 2" by (rule uint_grown [OF s(3) b(2)])
  have "x_own d (X_grow k) = (if la_w_bottom d \<le> la_w_osplit d then Some (E_tau, d, x_resume k)
      else Some (E_tau, d\<lparr>la_top_split := la_pack t ?new, la_w_osplit := uint ?new, la_w_allstolen := False\<rparr>, X_g_allst k))"
    using s b by (simp add: Let_def ts(1) la_pack_add word_le_def uint_small)
  moreover have "x_kont (d\<lparr>la_top_split := la_pack t ?new, la_w_osplit := uint ?new, la_w_allstolen := False\<rparr>) k" if "\<not> la_w_bottom d \<le> la_w_osplit d"
    using ok new s that by (cases k) (auto simp: x_defs)
  ultimately show ?thesis using st ok ts by (auto simp: x_post_def x_static_def x_list_def x_cell_def)
qed

lemma x_sub_ok:
  assumes st: "x_static d" and ok: "x_ok d (X_sub tp split)"
  shows "\<exists>e d' p'. x_own d (X_sub tp split) = Some (e, d', p') \<and> x_post d (X_sub tp split) e d' p'"
proof -
  obtain t s where ts: "la_top_split d = la_pack t s" "la_top d = uint t" "la_split d = uint s" by (rule la_unpack_obtain)
  then have "s = split" using ok by (simp add: word_uint_eq_iff)
  with ts ok have "uint tp \<le> uint split" by simp
  from uint_shrunk [OF this] ok have "uint (tp + drop_bit 1 (split - tp)) < uint split" by auto
  with ok ts st \<open>s = split\<close> show ?thesis
    by (auto simp: Let_def la_pack_sub x_post_def x_static_def x_list_def x_defs)
qed

lemma x_correct_ok:
  assumes st: "x_static d" and ok: "x_ok d (X_correct f split new)"
  shows "\<exists>e d' p'. x_own d (X_correct f split new) = Some (e, d', p') \<and> x_post d (X_correct f split new) e d' p'"
proof -
  obtain t s where ts: "la_top_split d = la_pack t s" "la_top d = uint t" "la_split d = uint s" by (rule la_unpack_obtain)
  then have "t = f" "s = new" using ok by (simp_all add: word_uint_eq_iff)
  then show ?thesis using ok st ts uint_corrected [of f split]
    by (auto simp: Let_def la_pack_add x_post_def x_static_def x_list_def x_defs)
qed

lemma x_load_ok:
  assumes st: "x_static d" and ok: "x_ok d X_load"
  shows "\<exists>e d' p'. x_own d X_load = Some (e, d', p') \<and> x_post d X_load e d' p'"
proof -
  obtain t s where ts: "la_top_split d = la_pack t s" "la_top d = uint t" "la_split d = uint s" by (rule la_unpack_obtain)
  with ok have "t \<noteq> s \<Longrightarrow> uint t < uint s" by (simp add: x_some_def order_less_le word_uint_eq_iff)
  with ok st ts show ?thesis by (auto simp: x_post_def x_list_def x_some_def x_shrinks_def)
qed

lemma x_fresh_ok:
  assumes st: "x_static d" and ok: "x_ok d (X_fresh split new)"
  shows "\<exists>e d' p'. x_own d (X_fresh split new) = Some (e, d', p') \<and> x_post d (X_fresh split new) e d' p'"
proof -
  obtain t s where ts: "la_top_split d = la_pack t s" "la_top d = uint t" "la_split d = uint s" by (rule la_unpack_obtain)
  with ok have "s = new" "t \<noteq> split \<Longrightarrow> uint t < uint split"
    by (simp_all add: x_shrinks_def order_less_le word_uint_eq_iff)
  with ok st ts show ?thesis
    by (auto simp: Let_def x_post_def x_list_def x_some_def x_shrinks_def x_static_def word_less_def x_cell_def)
qed

lemma x_store_ok:
  assumes st: "x_static d" and ok: "x_ok d (X_store v)"
  shows "\<exists>e d' p'. x_own d (X_store v) = Some (e, d', p') \<and> x_post d (X_store v) e d' p'"
proof -
  let ?b = "word_of_int (la_w_bottom d) :: u32"
  have b: "0 \<le> la_w_bottom d" "la_w_bottom d \<le> 2 ^ 31" using st by (simp_all add: x_static_def)
  then have "uint ?b = la_w_bottom d" "uint (?b + 1) = la_w_bottom d + 1" by (simp_all add: uint_small uint_add_le)
  with ok st show ?thesis by (auto simp: Let_def x_post_def x_static_def x_list_def x_defs)
qed

lemma x_bottom_ok:
  assumes st: "x_static d" and ok: "x_ok d (X_bottom q)"
  shows "\<exists>e d' p'. x_own d (X_bottom q) = Some (e, d', p') \<and> x_post d (X_bottom q) e d' p'"
proof (cases q)
  case None
  with ok st show ?thesis by (auto simp: x_post_def x_static_def x_list_def x_defs la_publish_bottom_def)
next
  case (Some v)
  with ok have "x_list (la_publish_bottom (d\<lparr>la_w_bottom := la_w_bottom d + 1\<rparr>)) X_idle = x_list d (X_bottom q) @ [v]"
    by (auto simp: x_list_def x_defs la_publish_bottom_def upto_rec2)
  with Some ok st show ?thesis by (auto simp: x_post_def x_static_def x_defs la_publish_bottom_def)
qed

lemma x_read_ok:
  assumes st: "x_static d" and ok: "x_ok d (X_read fast v)"
  shows "x_own d (X_read fast v) = Some (E_tau, d, X_pop_req v)"
  using st ok x_index_ok [OF st, of "la_w_bottom d"] by (auto simp: x_index_def x_wrote_def x_static_def x_cell_def)

lemma x_idle_ok:
  assumes st: "x_static d" and ok: "x_ok d X_idle"
  shows "\<exists>e d' p'. x_own d X_idle = Some (e, d', p') \<and> x_post d X_idle e d' p'"
proof (cases "la_w_bottom d > la_w_osplit d")
  case True
  with ok have "x_some d" by (auto simp: x_defs split: if_splits)
  from x_takes_ok [OF st this True, of X_idle True] True show ?thesis by simp
next
  case False
  with st ok show ?thesis by (auto simp: x_post_def x_defs x_list_def split: if_splits)
qed

lemma x_own_ok:
  assumes st: "x_static d" and ok: "x_ok d p"
  shows "\<exists>e d' p'. x_own d p = Some (e, d', p') \<and> x_post d p e d' p'"
proof (cases p)
  case X_idle then show ?thesis using x_idle_ok [OF st] ok by simp
next
  case (X_store v) then show ?thesis using x_store_ok [OF st] ok by blast
next
  case (X_bottom q) then show ?thesis using x_bottom_ok [OF st] ok by blast
next
  case (X_grow k) then show ?thesis using x_grow_ok [OF st, of k] ok by simp
next
  case (X_read fast v) then show ?thesis using x_read_ok [OF st, of fast v] ok st by (simp add: x_post_def x_list_def)
next
  case X_load then show ?thesis using x_load_ok [OF st] ok by blast
next
  case (X_sub tp split) then show ?thesis using x_sub_ok [OF st] ok by blast
next
  case (X_fresh split new) then show ?thesis using x_fresh_ok [OF st] ok by blast
next
  case (X_correct f split new) then show ?thesis using x_correct_ok [OF st] ok by blast
next
  case X_take then show ?thesis using x_takes_ok [OF st, of X_take False] ok by simp
next
  case (X_g_allst k) then show ?thesis using ok st by (cases k) (auto simp: x_post_def x_static_def x_list_def x_defs)
next
  case (X_g_req k) then show ?thesis using ok st by (cases k) (auto simp: x_post_def x_static_def x_list_def x_defs)
next
  case X_clr_ld
  then show ?thesis using ok st
    by (auto simp: x_post_def x_static_def x_list_def x_defs uint_small uint_add_le)
next
  case X_clr
  then show ?thesis using ok st
    by (auto simp: x_post_def x_static_def x_list_def x_defs uint_small uint_add_le)
next
  case X_allst then show ?thesis using ok st by (auto simp: x_post_def x_static_def x_list_def x_defs)
next
  case (X_req v) then show ?thesis using ok st by (auto simp: x_post_def x_static_def x_list_def x_defs)
next
  case (X_pop_req w) then show ?thesis using ok st by (auto simp: x_post_def x_list_def)
next
  case (X_ret w) then show ?thesis using ok st by (auto simp: x_post_def x_list_def x_defs)
next
  case X_all then show ?thesis using ok st by (auto simp: x_post_def x_static_def x_list_def x_defs)
next
  case X_empty then show ?thesis using ok st by (auto simp: x_post_def x_static_def x_list_def la_pop_empty_def)
qed

text \<open>A call of \<open>push\<close> writes beyond the bottom.\<close>

lemma x_push_ok:
  assumes st: "x_static d" and ok: "x_ok d X_idle" and room: "la_w_bottom d < la_capacity d"
  shows "\<exists>d' p. x_push d v = Some (d', p) \<and> x_static d' \<and> x_ok d' p \<and> x_list d' p = x_list d X_idle
     \<and> la_top d' = la_top d \<and> (\<forall>i. 0 \<le> i \<and> i < la_top d \<longrightarrow> x_cell d' i = x_cell d i)
     \<and> la_capacity d' = la_capacity d \<and> la_w_bottom d' + x_pushing p = la_w_bottom d + 1"
proof -
  let ?b = "la_w_bottom d" let ?d = "d\<lparr>la_array := (la_array d)[nat ?b := v]\<rparr>"
  have b: "0 \<le> ?b" "?b \<le> 2 ^ 31" "nat ?b < length (la_array d)" using st room by (auto simp: x_static_def)
  have "x_push d v = Some (?d, if la_w_allstolen d then X_store v else X_req v)"
    using x_index_ok [OF st b(1) room] b by (simp add: x_push_def uint_small la_write_def)
  moreover have top: "la_top d \<le> ?b" using ok by (auto simp: x_defs split: if_splits)
  moreover have cells: "x_cell ?d i = x_cell d i" if "0 \<le> i" "i < ?b" for i using that by (simp add: x_cell_def)
  moreover have "x_list ?d q = x_list d X_idle" if "x_ahead q = 0" for q
    using that cells by (auto simp: x_list_def) (metis order_trans uint_ge_0)
  ultimately show ?thesis using st ok room b
    by (auto simp: x_static_def x_defs split: if_splits)
qed

section \<open>Thieves\<close>

fun x_thief_ok :: "'a lace_deque \<Rightarrow> 'a lt_pc \<Rightarrow> bool" where
  "x_thief_ok d (L_cas tp split) \<longleftrightarrow> sint (split - tp) > 0"
| "x_thief_ok d (L_read tp v) \<longleftrightarrow> uint tp < la_top d \<and> x_cell d (uint tp) = v"
| "x_thief_ok d _ \<longleftrightarrow> True"

lemma x_top_bound:
  assumes "x_static d" "x_ok d p"
  shows "la_top d \<le> la_w_bottom d + x_ahead p" "la_split d \<le> la_w_bottom d + x_ahead p" "la_w_bottom d + x_ahead p \<le> la_capacity d"
  using assms by (cases "(d, p)" rule: x_ok.cases; auto simp: x_defs x_static_def elim!: x_kont.elims split: if_splits)+

lemma sint_positive:
  assumes "uint t \<le> 2 ^ 31" "uint s \<le> 2 ^ 31" "sint (s - t :: u32) > 0"
  shows "uint t < uint s"
proof (rule ccontr)
  assume "\<not> uint t < uint s"
  moreover have "uint t \<noteq> uint s" using assms(3) by (auto simp flip: word_uint_eq_iff)
  ultimately have lt: "uint s < uint t" by simp
  have m: "- (2 ^ 31) \<le> uint s - uint t" "uint s - uint t < 2 ^ 31" using assms(1) lt uint_ge_0 [of s] by linarith+
  have "sint (s - t) = signed_take_bit 31 (uint (s - t))" by (simp add: sint_uint)
  also have "\<dots> = signed_take_bit 31 (uint s - uint t)"
    by (simp add: uint_word_ariths signed_take_bit_eq_take_bit_shift take_bit_eq_mod mod_simps)
  also have "\<dots> = uint s - uint t" using m by (simp add: signed_take_bit_int_eq_self)
  finally show False using assms(3) lt by simp
qed

text \<open>A thief that wins moves the top by one, whatever the owner is doing.\<close>

lemma x_ok_stolen:
  assumes "x_ok d p" "la_top_split d = la_pack t s" "uint t < uint s"
  shows "x_ok (d\<lparr>la_top_split := la_pack (t + 1) s\<rparr>) p"
proof -
  have "uint (t + 1) = uint t + 1" using assms(3) uint_lt2p [of s] by (simp add: uint_add_le)
  with assms show ?thesis
    by (cases "(d, p)" rule: x_ok.cases; auto simp: x_defs elim!: x_kont.elims split: if_splits)
qed

definition x_thief_post :: "'a lace_deque \<Rightarrow> 'a lo_pc \<Rightarrow> 'a event \<Rightarrow> 'a lace_deque \<Rightarrow> 'a lt_pc \<Rightarrow> bool" where
  "x_thief_post d p e d' q' \<longleftrightarrow> x_static d' \<and> x_ok d' p \<and> x_thief_ok d' q' \<and> list_event (x_list d p) e (x_list d' p)
     \<and> la_top d \<le> la_top d' \<and> la_array d' = la_array d \<and> la_capacity d' = la_capacity d \<and> la_w_bottom d' = la_w_bottom d"

lemma x_cas_ok:
  assumes st: "x_static d" and ok: "x_ok d p" and th: "sint (sp - tp) > 0" and eq: "la_top_split d = la_pack tp sp"
  shows "\<exists>e d' q'. x_steal d (L_cas tp sp) = Some (e, d', q') \<and> x_thief_post d p e d' q'"
proof -
  note bd = x_top_bound [OF st ok]
  from st have "la_capacity d \<le> 2 ^ 31" by (simp add: x_static_def)
  then have "uint tp \<le> 2 ^ 31" "uint sp \<le> 2 ^ 31" using bd eq by auto
  from sint_positive [OF this th] have lt: "uint tp < uint sp" .
  then have t1: "uint (tp + 1) = uint tp + 1" using uint_lt2p [of sp] by (simp add: uint_add_le)
  have "uint tp < la_capacity d" using lt bd eq by auto
  from x_index_ok [OF st uint_ge_0 this]
  have "x_steal d (L_cas tp sp) = Some (E_steal (x_cell d (uint tp)), d\<lparr>la_top_split := la_pack (tp + 1) sp\<rparr>, L_read tp (x_cell d (uint tp)))"
    using eq by simp
  moreover have "x_list d p = x_cell d (uint tp) # x_list (d\<lparr>la_top_split := la_pack (tp + 1) sp\<rparr>) p"
    using eq lt t1 bd by (simp add: x_list_def x_cell_def upto_rec1)
  ultimately show ?thesis
    using x_ok_stolen [OF ok eq lt] st t1 eq by (auto simp: x_thief_post_def x_static_def x_cell_def)
qed

lemma x_steal_ok:
  assumes st: "x_static d" and ok: "x_ok d p" and th: "x_thief_ok d q"
  shows "\<exists>e d' q'. x_steal d q = Some (e, d', q') \<and> x_thief_post d p e d' q'"
proof (cases q)
  case (L_cas tp sp)
  then show ?thesis using x_cas_ok [OF st ok, of sp tp] th st ok
    by (cases "la_top_split d = la_pack tp sp") (simp_all add: x_thief_post_def)
next
  case (L_read tp v)
  then have "uint tp < la_capacity d" using th x_top_bound [OF st ok] by auto
  from x_index_ok [OF st uint_ge_0 this] L_read st ok show ?thesis by (simp add: x_thief_post_def)
next
  case L_req
  have "x_ok (d\<lparr>la_splitreq := True\<rparr>) p" using ok
    by (cases "(d, p)" rule: x_ok.cases; auto simp: x_defs elim!: x_kont.elims split: if_splits)
  with L_req st show ?thesis by (simp add: x_thief_post_def x_static_def x_list_def x_cell_def)
qed (use st ok in \<open>auto simp: x_thief_post_def split: prod.splits\<close>)

text \<open>What a thief has won stays in its slot while the top does not move back and the owner writes above it.\<close>

lemma x_thief_stable:
  "x_thief_ok d q \<Longrightarrow> la_top d \<le> la_top d' \<Longrightarrow> (\<And>i. 0 \<le> i \<Longrightarrow> i < la_top d \<Longrightarrow> x_cell d' i = x_cell d i) \<Longrightarrow> x_thief_ok d' q"
  by (cases q) auto

section \<open>Runs\<close>

definition x_inv :: "'a lace_sys \<Rightarrow> bool" where
  "x_inv s \<longleftrightarrow> x_static (x_d s) \<and> x_ok (x_d s) (x_owner s) \<and> (\<forall>i. x_thief_ok (x_d s) (x_thief s i))
     \<and> la_w_bottom (x_d s) + x_pushing (x_owner s) \<le> int (x_begun s)"

definition x_items :: "'a lace_sys \<Rightarrow> 'a list" where
  "x_items s = x_list (x_d s) (x_owner s)"

lemma x_step_ok:
  assumes "x_step s (i, e) s'" "x_inv s" "int (x_begun s') \<le> la_capacity (x_d s)"
  shows "x_inv s' \<and> list_event (x_items s) e (x_items s') \<and> la_capacity (x_d s') = la_capacity (x_d s)"
proof -
  from assms(2) have st: "x_static (x_d s)" and ok: "x_ok (x_d s) (x_owner s)" and th: "\<And>j. x_thief_ok (x_d s) (x_thief s j)"
    and bg: "la_w_bottom (x_d s) + x_pushing (x_owner s) \<le> int (x_begun s)" by (simp_all add: x_inv_def)
  from assms(1) show ?thesis
  proof cases
    case (xs_push v d p)
    from xs_push(3,4) bg assms(3) have "la_w_bottom (x_d s) < la_capacity (x_d s)" by simp
    from x_push_ok [OF st _ this, of v] ok xs_push(4,5)
    have d: "x_static d" "x_ok d p" "x_list d p = x_list (x_d s) X_idle" "la_top d = la_top (x_d s)"
      "\<And>j. 0 \<le> j \<Longrightarrow> j < la_top (x_d s) \<Longrightarrow> x_cell d j = x_cell (x_d s) j"
      "la_capacity d = la_capacity (x_d s)" "la_w_bottom d + x_pushing p = la_w_bottom (x_d s) + 1" by auto
    have "x_thief_ok d (x_thief s j)" for j by (rule x_thief_stable [OF th]) (use d in auto)
    with d xs_push bg show ?thesis by (simp add: x_inv_def x_items_def)
  next
    case (xs_own d p)
    with x_own_ok [OF st ok] have d: "x_post (x_d s) (x_owner s) e d p" by auto
    then have "x_thief_ok d (x_thief s j)" for j
      by (intro x_thief_stable [OF th]) (auto simp: x_post_def x_cell_def)
    with d xs_own bg show ?thesis by (auto simp: x_inv_def x_items_def x_post_def)
  next
    case (xs_steal d q)
    with x_steal_ok [OF st ok th, of i] have d: "x_thief_post (x_d s) (x_owner s) e d q" by auto
    then have "x_thief_ok d (x_thief s j)" for j
      by (intro x_thief_stable [OF th]) (auto simp: x_thief_post_def x_cell_def)
    with d xs_steal bg show ?thesis by (auto simp: x_inv_def x_items_def x_thief_post_def)
  qed
qed

lemma begun_uint: "n \<le> unat w \<longleftrightarrow> int n \<le> uint w" "n < unat w \<longleftrightarrow> int n < uint w"
  unfolding uint_nat by (simp_all only: of_nat_le_iff of_nat_less_iff)

lemma x_step_begun: "x_step s l s' \<Longrightarrow> x_begun s \<le> x_begun s'"
  by (induction rule: x_step.induct) simp_all

lemma x_takes_cap: "x_takes fast d = Some (e, d', p) \<Longrightarrow> la_capacity d' = la_capacity d"
  by (auto simp: x_takes_def x_dec_def la_publish_bottom_def Option.bind_eq_Some_conv)

lemma x_own_cap: "x_own d p = Some (e, d', p') \<Longrightarrow> la_capacity d' = la_capacity d"
  by (cases p) (auto simp: Let_def la_publish_bottom_def la_pop_empty_def Option.bind_eq_Some_conv dest: x_takes_cap
      split: if_splits prod.splits)

lemma x_steal_cap: "x_steal d q = Some (e, d', q') \<Longrightarrow> la_capacity d' = la_capacity d"
  by (cases q) (auto simp: Let_def Option.bind_eq_Some_conv split: if_splits prod.splits)

lemma x_step_cap: "x_step s l s' \<Longrightarrow> la_capacity (x_d s') = la_capacity (x_d s)"
  by (induction rule: x_step.induct)
    (auto simp: x_push_def la_write_def Option.bind_eq_Some_conv x_own_cap x_steal_cap split: if_splits)

lemma x_run_cap: "x_run s ls t \<Longrightarrow> la_capacity (x_d t) = la_capacity (x_d s)"
  by (induction rule: x_run.induct) (simp_all add: x_step_cap)

lemma x_init_ok:
  assumes "has_single_bit (uint cap)" "uint cap \<le> 2 ^ 31" "lace_new z True cap = Some (Inr d)"
  shows "x_inv (x_init d) \<and> x_items (x_init d) = [] \<and> la_capacity (x_d (x_init d)) = uint cap"
  using assms
  by (auto simp: lace_new_def x_inv_def x_init_def x_items_def x_list_def x_static_def x_normal_def split: if_splits)

text \<open>What each agent has taken and not yet returned, and that it returns what it took.\<close>

fun x_kpending :: "'a kont \<Rightarrow> 'a list" where
  "x_kpending (K_push v) = []" | "x_kpending (K_pop w) = [w]"

fun x_opending :: "'a lo_pc \<Rightarrow> 'a list" where
  "x_opending (X_read fast v) = [v]" | "x_opending (X_pop_req w) = [w]" | "x_opending (X_ret w) = [w]"
| "x_opending (X_grow k) = x_kpending k" | "x_opending (X_g_allst k) = x_kpending k" | "x_opending (X_g_req k) = x_kpending k"
| "x_opending _ = []"

fun x_tpending :: "'a lt_pc \<Rightarrow> 'a list" where
  "x_tpending (L_read tp v) = [v]" | "x_tpending _ = []"

definition x_pending :: "'a lace_sys \<Rightarrow> nat \<Rightarrow> 'a list" where
  "x_pending s i = (if i = 0 then x_opending (x_owner s) else x_tpending (x_thief s i))"

lemma x_resume_pending [simp]: "x_opending (x_resume k) = x_kpending k"
  by (cases k) simp_all

lemma x_own_pending:
  assumes "x_static d" "x_ok d p" "x_own d p = Some (e, d', p')"
  shows "x_opending p @ ev_popped e @ ev_stolen e = ev_returned e @ x_opending p'"
proof (cases p)
  case (X_read fast v)
  with assms x_read_ok [of d fast v] show ?thesis by simp
qed (use assms(3) in \<open>auto simp: Let_def x_takes_def Option.bind_eq_Some_conv split: if_splits option.splits prod.splits\<close>)

lemma x_steal_pending:
  assumes "x_static d" "x_ok d p" "x_thief_ok d q" "x_steal d q = Some (e, d', q')"
  shows "x_tpending q @ ev_popped e @ ev_stolen e = ev_returned e @ x_tpending q'"
proof (cases q)
  case (L_read tp v)
  then have "uint tp < la_capacity d" using assms(3) x_top_bound [OF assms(1,2)] by auto
  from x_index_ok [OF assms(1) uint_ge_0 this] L_read assms(3,4) show ?thesis by auto
qed (use assms(4) in \<open>auto simp: Let_def Option.bind_eq_Some_conv split: if_splits prod.splits\<close>)

lemma x_step_pending:
  assumes "x_step s (i, e) s'" "x_inv s"
  shows "x_pending s i @ ev_popped e @ ev_stolen e = ev_returned e @ x_pending s' i"
    and "j \<noteq> i \<Longrightarrow> x_pending s' j = x_pending s j"
  using assms
  by (auto elim!: x_step.cases simp: x_pending_def x_inv_def x_push_def Option.bind_eq_Some_conv
      intro: x_own_pending x_steal_pending split: if_splits)

text \<open>The contract holds for the runs that begin no more pushes than the capacity.\<close>

definition x_bounded_step :: "'a lace_sys \<Rightarrow> nat \<times> 'a event \<Rightarrow> 'a lace_sys \<Rightarrow> bool" where
  "x_bounded_step s l t \<longleftrightarrow> x_step s l t \<and> int (x_begun t) \<le> la_capacity (x_d s)"

definition x_bounded_run :: "'a lace_sys \<Rightarrow> (nat \<times> 'a event) list \<Rightarrow> 'a lace_sys \<Rightarrow> bool" where
  "x_bounded_run s ls t \<longleftrightarrow> x_run s ls t \<and> int (x_begun t) \<le> la_capacity (x_d s)"

definition x_takes_of :: "nat \<Rightarrow> nat \<times> 'a event \<Rightarrow> 'a list" where
  "x_takes_of i l = (if fst l = i then ev_popped (snd l) @ ev_stolen (snd l) else [])"

definition x_returns_of :: "nat \<Rightarrow> nat \<times> 'a event \<Rightarrow> 'a list" where
  "x_returns_of i l = (if fst l = i then ev_returned (snd l) else [])"

interpretation xc: conc_deque x_bounded_step x_bounded_run x_inv x_items snd "\<lambda>i s. x_pending s i" x_takes_of x_returns_of
proof unfold_locales
  fix s :: "'a lace_sys" and ls t assume "x_bounded_run s ls t"
  then have run: "x_run s ls t" "int (x_begun t) \<le> la_capacity (x_d s)" by (simp_all add: x_bounded_run_def)
  from run(1) show "ls = [] \<and> t = s \<or> (\<exists>ks l u. ls = ks @ [l] \<and> x_bounded_run s ks u \<and> x_bounded_step u l t)"
  proof cases
    case (x_snoc ks u l)
    with x_step_begun [OF x_snoc(3)] x_run_cap [OF x_snoc(2)] run(2) show ?thesis
      by (auto simp: x_bounded_run_def x_bounded_step_def)
  qed simp
next
  fix s t :: "'a lace_sys" and l assume a: "x_bounded_step s l t" "x_inv s"
  obtain i e where l: "l = (i, e)" by fastforce
  from a(1) have st: "x_step s (i, e) t" "int (x_begun t) \<le> la_capacity (x_d s)" by (simp_all add: x_bounded_step_def l)
  from x_step_ok [OF st(1) a(2) st(2)] show "x_inv t \<and> list_event (x_items s) (snd l) (x_items t)" by (simp add: l)
  fix j
  from x_step_pending [OF st(1) a(2)] show "x_pending s j @ x_takes_of j l = x_returns_of j l @ x_pending t j"
    by (auto simp: x_takes_of_def x_returns_of_def l)
qed

section \<open>Operations end\<close>

text \<open>Steps that the owner, or a thief, has left in its operation.\<close>

fun x_rank :: "'a lo_pc \<Rightarrow> nat" where
  "x_rank X_idle = 0"
| "x_rank (X_store v) = 5" | "x_rank X_allst = 4" | "x_rank X_clr_ld = 3" | "x_rank X_clr = 2" | "x_rank (X_req v) = 5"
| "x_rank (X_bottom p) = 1" | "x_rank (X_grow k) = 4" | "x_rank (X_g_allst k) = 3" | "x_rank (X_g_req k) = 2"
| "x_rank (X_ret w) = 1" | "x_rank (X_pop_req w) = 5" | "x_rank (X_read fast v) = 6"
| "x_rank X_take = 7" | "x_rank (X_correct f split new) = 8" | "x_rank (X_fresh split new) = 9" | "x_rank (X_sub tp split) = 10"
| "x_rank X_load = 11" | "x_rank X_all = 2" | "x_rank X_empty = 1"

fun x_trank :: "'a lt_pc \<Rightarrow> nat" where
  "x_trank L_idle = 0" | "x_trank L_load = 3" | "x_trank (L_cas tp split) = 2" | "x_trank (L_read tp v) = 1" | "x_trank L_req = 1"

lemma x_rank_resume [simp]: "x_rank (x_resume k) = 1"
  by (cases k) simp_all

lemma x_own_rank: "x_own d p = Some (e, d', p') \<Longrightarrow> p \<noteq> X_idle \<Longrightarrow> x_rank p' < x_rank p"
  by (cases p) (auto simp: Let_def x_takes_def Option.bind_eq_Some_conv split: if_splits prod.splits)

lemma x_steal_rank: "x_steal d q = Some (e, d', q') \<Longrightarrow> q \<noteq> L_idle \<Longrightarrow> x_trank q' < x_trank q"
  by (cases q) (auto simp: Let_def Option.bind_eq_Some_conv split: if_splits prod.splits)

text \<open>
  An operation of the owner, and of a thief, run to its end with no step of another agent: the
  elements returned and the deque.
\<close>

function x_alone :: "'a lace_deque \<Rightarrow> 'a lo_pc \<Rightarrow> ('a list \<times> 'a lace_deque) option" where
  "x_alone d p = (if p = X_idle then Some ([], d)
     else case x_own d p of None \<Rightarrow> None
       | Some (e, d', p') \<Rightarrow> map_option (\<lambda>(r, f). (ev_returned e @ r, f)) (x_alone d' p'))"
  by pat_completeness auto
termination
  by (relation "measure (\<lambda>(d, p). x_rank p)") (auto dest: x_own_rank)

function x_thief_alone :: "'a lace_deque \<Rightarrow> 'a lt_pc \<Rightarrow> ('a list \<times> 'a lace_deque) option" where
  "x_thief_alone d q = (if q = L_idle then Some ([], d)
     else case x_steal d q of None \<Rightarrow> None
       | Some (e, d', q') \<Rightarrow> map_option (\<lambda>(r, f). (ev_returned e @ r, f)) (x_thief_alone d' q'))"
  by pat_completeness auto
termination
  by (relation "measure (\<lambda>(d, q). x_trank q)") (auto dest: x_steal_rank)

declare x_alone.simps [simp del] x_thief_alone.simps [simp del]

lemma x_alone_idle [simp]: "x_alone d X_idle = Some ([], d)"
  by (simp add: x_alone.simps)

lemma x_alone_step:
  "p \<noteq> X_idle \<Longrightarrow> x_alone d p = (case x_own d p of None \<Rightarrow> None
     | Some (e, d', p') \<Rightarrow> map_option (\<lambda>(r, f). (ev_returned e @ r, f)) (x_alone d' p'))"
  by (subst x_alone.simps) simp

lemma x_alone_resume:
  "x_alone d (X_bottom q) = Some ([], la_publish_bottom (d\<lparr>la_w_bottom := la_w_bottom d + 1\<rparr>))"
  "x_alone d (X_ret w) = Some ([w], d)"
  by (simp_all add: x_alone_step split: option.split)

definition x_kreturns :: "'a kont \<Rightarrow> 'a lace_deque \<Rightarrow> 'a list \<times> 'a lace_deque" where
  "x_kreturns k d = (case k of K_push v \<Rightarrow> ([], la_publish_bottom (d\<lparr>la_w_bottom := la_w_bottom d + 1\<rparr>)) | K_pop w \<Rightarrow> ([w], d))"

lemma x_alone_kont: "x_alone d (x_resume k) = Some (x_kreturns k d)"
  by (cases k) (simp_all add: x_kreturns_def x_alone_resume)

lemma x_alone_grow: "x_alone d (X_grow k) = Some (x_kreturns k (la_grow_shared d))"
  by (simp add: x_alone_step Let_def la_grow_shared_def x_alone_kont)

lemma x_alone_push:
  "do { (d1, p) \<leftarrow> x_push d v; x_alone d1 p } = map_option (Pair []) (la_push d v)"
proof (cases "la_write d (la_mask_index d (uint (word_of_int (la_w_bottom d) :: u32))) v")
  case (Some d1)
  then have w: "la_w_bottom d1 = la_w_bottom d" by (auto simp: la_write_def split: if_splits)
  show ?thesis
  proof (cases "la_w_allstolen d1")
    case True
    with Some w show ?thesis
      by (simp add: x_push_def la_push_def x_alone_step [of "X_store v"] x_alone_step [of X_allst] x_alone_step [of X_clr_ld]
          x_alone_step [of X_clr] x_alone_resume Let_def la_publish_bottom_def)
  next
    case False
    with Some show ?thesis
      by (simp add: x_push_def la_push_def x_alone_step [of "X_req v"] x_alone_resume x_alone_grow x_kreturns_def Let_def)
  qed
qed (simp add: x_push_def la_push_def)

definition x_result :: "'a option \<times> 'a lace_deque \<Rightarrow> 'a list \<times> 'a lace_deque" where
  "x_result = (\<lambda>(r, d). (case r of None \<Rightarrow> [] | Some w \<Rightarrow> [w], d))"

text \<open>After \<open>pop\<close> has lowered the bottom.\<close>

lemma x_alone_takes:
  "do { (e, d', p) \<leftarrow> x_takes fast d; x_alone d' p } = do { v \<leftarrow> la_read (x_dec d) (x_index fast (x_dec d));
     Some ([v], if la_splitreq (x_dec d) then la_grow_shared (x_dec d) else x_dec d) }"
  by (cases "la_read (x_dec d) (x_index fast (x_dec d))")
    (simp_all add: x_takes_def x_alone_step [of "X_read fast v" for v] x_alone_step [of "X_pop_req v" for v]
      x_alone_grow x_kreturns_def x_alone_resume)

lemma x_takes_quiet: "x_takes fast d = Some (e, d', p) \<Longrightarrow> ev_returned e = []"
  by (auto simp: x_takes_def Option.bind_eq_Some_conv)

lemma x_alone_take:
  "x_alone d X_take = do { v \<leftarrow> la_read (x_dec d) (x_index False (x_dec d));
     Some ([v], if la_splitreq (x_dec d) then la_grow_shared (x_dec d) else x_dec d) }"
  unfolding x_alone_takes [symmetric]
  by (cases "x_takes False d") (auto simp: x_alone_step [of X_take] map_option_case dest!: x_takes_quiet split: option.splits)

lemma x_alone_all: "x_alone d X_all = Some ([], d\<lparr>la_allstolen := True, la_w_allstolen := True\<rparr>)"
  by (simp add: x_alone_step la_pop_empty_def)

text \<open>\<open>shrink_shared\<close> and what \<open>pop_cold_path\<close> does with its result.\<close>

lemma x_alone_shrink:
  "x_alone d X_load = (let (gone, d1) = la_shrink_shared d in if gone then Some ([], d1) else x_alone d1 X_take)"
  by (simp add: x_alone_step [of X_load] x_alone_step [of "X_sub a b" for a b] x_alone_step [of "X_fresh a b" for a b]
      x_alone_step [of "X_correct a b c" for a b c] x_alone_all la_shrink_shared_def Let_def option.map_id0
      case_prod_beta cong: if_cong)

lemma x_alone_pop:
  "do { (e, d', p) \<leftarrow> x_own d X_idle; x_alone d' p } = map_option x_result (la_pop d)"
proof (cases "la_w_bottom d > la_w_osplit d")
  case True
  then show ?thesis
    by (cases "la_read (x_dec d) (x_index True (x_dec d))")
      (simp_all add: x_alone_takes la_pop_def x_dec_def x_index_def Let_def x_result_def)
next
  case False
  obtain g d1 where sh: "la_shrink_shared d = (g, d1)" by fastforce
  then have g: "g \<Longrightarrow> la_w_allstolen d1 \<and> la_allstolen d1" by (auto simp: la_shrink_shared_def Let_def split: if_splits prod.splits)
  show ?thesis
    using False sh g
    by (cases "la_read (x_dec d1) (x_index False (x_dec d1))")
      (auto simp: la_pop_def la_pop_cold_path_def x_alone_shrink x_alone_take x_result_def return_nullopt_def la_pop_empty_def
        x_dec_def x_index_def Let_def)
qed

lemma x_alone_steal:
  "do { (e, d', q) \<leftarrow> x_steal d L_idle; x_thief_alone d' q }
     = map_option (\<lambda>(r, d'). x_result (steal_val r, d')) (la_steal d)"
proof -
  obtain t s where ts: "la_top_split d = la_pack t s" using la_pack_unpack by blast
  have upd: "la_mask_index (d\<lparr>la_top_split := w\<rparr>) = la_mask_index d" "la_read (d\<lparr>la_top_split := w\<rparr>) = la_read d" for w
    by (simp_all add: la_mask_index_def la_read_def fun_eq_iff)
  show ?thesis
    by (cases "la_read d (la_mask_index d (uint t))")
     (simp_all add: la_steal_def x_thief_alone.simps ts upd Let_def x_result_def)
qed

section \<open>Properties\<close>

text \<open>A schedule, as a list of who moves next, and the run it gives.\<close>

datatype 'a move = M_push 'a | M_own | M_steal nat

fun x_exec :: "'a lace_sys \<Rightarrow> 'a move list \<Rightarrow> ((nat \<times> 'a event) list \<times> 'a lace_sys) option" where
  "x_exec s [] = Some ([], s)"
| "x_exec s (M_push v # ms) = (if x_owner s = X_idle then do {
     (d, p) \<leftarrow> x_push (x_d s) v;
     (es, t) \<leftarrow> x_exec (s\<lparr>x_d := d, x_owner := p, x_begun := Suc (x_begun s)\<rparr>) ms;
     Some ((0, E_tau) # es, t) } else None)"
| "x_exec s (M_own # ms) = do {
     (e, d, p) \<leftarrow> x_own (x_d s) (x_owner s);
     (es, t) \<leftarrow> x_exec (s\<lparr>x_d := d, x_owner := p\<rparr>) ms;
     Some ((0, e) # es, t) }"
| "x_exec s (M_steal i # ms) = do {
     (e, d, p) \<leftarrow> x_steal (x_d s) (x_thief s (Suc i));
     (es, t) \<leftarrow> x_exec (s\<lparr>x_d := d, x_thief := (x_thief s)(Suc i := p)\<rparr>) ms;
     Some ((Suc i, e) # es, t) }"

lemma x_run_prepend: "x_run t es u \<Longrightarrow> x_step s l t \<Longrightarrow> x_run s (l # es) u"
proof (induction rule: x_run.induct)
  case (x_refl t)
  from x_run.x_snoc [OF x_run.x_refl x_refl] show ?case by simp
next
  case (x_snoc t es u l' w)
  from x_run.x_snoc [OF x_snoc.IH [OF x_snoc.prems] x_snoc.hyps(2)] show ?case by simp
qed

lemma x_exec_run: "x_exec s ms = Some (es, t) \<Longrightarrow> x_run s es t"
proof (induction ms arbitrary: s es)
  case (Cons m ms)
  then show ?case
    by (cases m) (auto simp: Option.bind_eq_Some_conv intro: x_run_prepend x_step.intros split: if_splits)
qed (simp add: x_run.x_refl)

text \<open>The owner pushes 7 and a thief is about to take it, while the owner has not yet published the bottom.\<close>

definition x_demo :: "nat lace_deque" where
  "x_demo = \<lparr>la_array = [0, 0], la_mask = 1, la_capacity = 2, la_top_split = la_pack 0 0, la_bottom = 0,
     la_allstolen = True, la_splitreq = False, la_w_bottom = 0, la_w_osplit = 0, la_w_allstolen = True\<rparr>"

definition x_demo_events :: "(nat \<times> nat event) list" where
  "x_demo_events = [(0, E_tau), (0, E_push 7), (0, E_tau), (0, E_tau), (1, E_tau), (1, E_tau)]"

definition x_demo_end :: "nat lace_sys" where
  "x_demo_end = \<lparr>x_d = x_demo\<lparr>la_array := [7, 0], la_top_split := la_pack 0 1, la_allstolen := False, la_w_osplit := 1,
       la_w_allstolen := False\<rparr>, x_owner = X_bottom None, x_thief = (\<lambda>_. L_idle)(1 := L_cas 0 1), x_begun = 1\<rparr>"

lemma x_demo_new: "lace_new 0 True 2 = Some (Inr x_demo)" "has_single_bit (uint (2 :: u64))" "uint (2 :: u64) \<le> 2 ^ 31"
proof -
  have two: "replicate 2 0 = [0, 0 :: nat]" by (simp add: numeral_2_eq_2)
  show "lace_new 0 True 2 = Some (Inr x_demo)" by (simp add: lace_new_def x_demo_def two)
qed (use has_single_bit_pow2 [of 1] in simp_all)

lemma x_demo_run: "x_run (x_init x_demo) x_demo_events x_demo_end"
  by (rule x_exec_run [of _ "[M_push 7, M_own, M_own, M_own, M_steal 0, M_steal 0]"])
    (simp add: x_demo_def x_demo_events_def x_demo_end_def x_init_def x_push_def la_write_def la_mask_index_def Let_def)

lemma x_demo_step:
  "x_step x_demo_end (1, E_steal 7) (x_demo_end\<lparr>x_d := (x_d x_demo_end)\<lparr>la_top_split := la_pack 1 1\<rparr>, x_thief := (\<lambda>_. L_idle)(1 := L_read 0 7)\<rparr>)"
  using x_step.xs_steal [of 1 x_demo_end "E_steal 7" "(x_d x_demo_end)\<lparr>la_top_split := la_pack 1 1\<rparr>" "L_read 0 7"]
  by (simp add: x_demo_end_def x_demo_def la_read_def la_mask_index_def)

text \<open>
  Property C4. The Lace deque is linearisable in its first \<open>capacity\<close> pushes: in every interleaved run of
  an owner and any number of thieves from the constructor on, each access to a shared variable acts
  on the abstract list as its event says.  A push appends when it stores \<open>m_top_split\<close> or \<open>m_bottom\<close>,
  a pop removes the last element when it lowers \<open>m_bottom\<close>, a steal the first when its compare-exchange
  succeeds, a pop finds nothing only when the deque is empty, and moving the split, the correction
  in \<open>shrink_shared\<close> included, changes nothing.  The elements pushed are those popped, those stolen and
  those left, and the owner and every thief return, in order, what they took, although all of them
  read the slot after it is theirs.
\<close>

theorem lace_linearises:
  assumes "has_single_bit (uint cap)" "uint cap \<le> 2 ^ 31" "lace_new z True cap = Some (Inr d)"
    and "x_run (x_init d) es s" "x_step s (i, e) s'" "x_begun s' \<le> unat cap"
  shows "list_event (x_items s) e (x_items s')
    \<and> mset (concat (map (\<lambda>l. ev_pushed (snd l)) es))
        = mset (x_items s) + mset (concat (map (\<lambda>l. ev_popped (snd l)) es)) + mset (concat (map (\<lambda>l. ev_stolen (snd l)) es))
    \<and> concat (map (x_takes_of j) es) = concat (map (x_returns_of j) es) @ x_pending s j"
proof -
  note i = x_init_ok [OF assms(1-3)]
  have b': "int (x_begun s') \<le> uint cap" using assms(6) by (simp add: begun_uint)
  with x_step_begun [OF assms(5)] have b: "int (x_begun s) \<le> la_capacity (x_d (x_init d))" using i by simp
  have "x_pending (x_init d) j = []" by (simp add: x_pending_def x_init_def)
  moreover have run: "x_bounded_run (x_init d) es s" using assms(4) b by (simp add: x_bounded_run_def)
  ultimately show ?thesis
    using xc.run_inv [OF run] xc.run_conserves [OF run] xc.run_pending [OF run, of j] x_step_ok [OF assms(5)] x_run_cap [OF assms(4)] i b' by simp
qed

theorem lace_linearises_witness:
  "lace_new 0 True 2 = Some (Inr x_demo) \<and> x_run (x_init x_demo) x_demo_events x_demo_end
   \<and> list_event (x_items x_demo_end) (E_steal 7)
       (x_items (x_demo_end\<lparr>x_d := (x_d x_demo_end)\<lparr>la_top_split := la_pack 1 1\<rparr>, x_thief := (\<lambda>_. L_idle)(1 := L_read 0 7)\<rparr>))
   \<and> mset (x_items x_demo_end) = {#7#}"
proof -
  have "x_begun (x_demo_end\<lparr>x_d := d, x_thief := f\<rparr>) \<le> unat (2 :: u64)" for d f by (simp add: x_demo_end_def)
  from lace_linearises [OF x_demo_new(2,3,1) x_demo_run x_demo_step this, of 1] x_demo_new(1) x_demo_run
  show ?thesis by (auto simp: x_demo_events_def)
qed

text \<open>
  Property C16. The Lace deque is wait-free in its first \<open>capacity\<close> pushes: in every reachable state of every
  interleaving the owner and each thief can take their next step, no access leaves the array, and
  each step of an agent inside an operation brings it nearer to the end, so that an operation of the
  owner has at most 11 more accesses and a \<open>steal\<close> at most 3, whatever the others do.
\<close>

theorem lace_wait_free:
  assumes "has_single_bit (uint cap)" "uint cap \<le> 2 ^ 31" "lace_new z True cap = Some (Inr d)"
    and "x_run (x_init d) es s" "x_begun s \<le> unat cap"
  shows "(\<exists>e d' p. x_own (x_d s) (x_owner s) = Some (e, d', p) \<and> (x_owner s = X_idle \<or> x_rank p < x_rank (x_owner s)))
    \<and> (\<exists>e d' q. x_steal (x_d s) (x_thief s i) = Some (e, d', q) \<and> (x_thief s i = L_idle \<or> x_trank q < x_trank (x_thief s i)))
    \<and> (x_owner s = X_idle \<and> x_begun s < unat cap \<longrightarrow> (\<exists>d' p. x_push (x_d s) v = Some (d', p) \<and> x_rank p \<le> 5))
    \<and> x_rank (x_owner s) \<le> 11 \<and> x_trank (x_thief s i) \<le> 3"
proof -
  note i = x_init_ok [OF assms(1-3)]
  have b: "int (x_begun s) \<le> la_capacity (x_d (x_init d))" using assms(5) i by (simp add: begun_uint)
  from xc.run_inv [of "x_init d" es s] assms(4) b i x_run_cap [OF assms(4)] have inv: "x_inv s" "la_capacity (x_d s) = uint cap"
    by (simp_all add: x_bounded_run_def)
  then have st: "x_static (x_d s)" and ok: "x_ok (x_d s) (x_owner s)" "x_thief_ok (x_d s) (x_thief s i)" by (simp_all add: x_inv_def)
  have "\<exists>d' p. x_push (x_d s) v = Some (d', p) \<and> x_rank p \<le> 5" if "x_owner s = X_idle" "x_begun s < unat cap"
  proof -
    from that inv have "la_w_bottom (x_d s) < la_capacity (x_d s)" by (auto simp: x_inv_def begun_uint)
    from x_push_ok [OF st _ this, of v] ok(1) that(1) show ?thesis by (auto simp: x_push_def Option.bind_eq_Some_conv)
  qed
  moreover have "x_rank p \<le> 11" "x_trank q \<le> 3" for p :: "'a lo_pc" and q :: "'a lt_pc" by (cases p; simp) (cases q; simp)
  ultimately show ?thesis using x_own_ok [OF st ok(1)] x_own_rank x_steal_ok [OF st ok] x_steal_rank by metis
qed

theorem lace_wait_free_witness:
  "lace_new 0 True 2 = Some (Inr x_demo) \<and> x_run (x_init x_demo) x_demo_events x_demo_end
   \<and> (\<exists>e d' q. x_steal (x_d x_demo_end) (x_thief x_demo_end 1) = Some (e, d', q))"
  using lace_wait_free [OF x_demo_new(2,3,1) x_demo_run, of 1] x_demo_new(1) x_demo_run
  by (auto simp: x_demo_end_def)

text \<open>
  With no other agent moving, the accesses of \<open>push\<close>, of \<open>pop\<close> and of \<open>steal\<close>, one after the
  other, are the operations of \<open>Lace_Deque\<close>: for every state of the deque, reachable or not, they
  end, leave the same deque, return the same element or none, and leave the array exactly when the
  operation does.
\<close>

theorem lace_accesses_alone:
  "do { (d1, p) \<leftarrow> x_push d v; x_alone d1 p } = map_option (Pair []) (la_push d v)
   \<and> do { (e, d1, p) \<leftarrow> x_own d X_idle; x_alone d1 p } = map_option x_result (la_pop d)
   \<and> do { (e, d1, q) \<leftarrow> x_steal d L_idle; x_thief_alone d1 q }
       = map_option (\<lambda>(r, d1). x_result (steal_val r, d1)) (la_steal d)"
  by (intro conjI x_alone_push x_alone_pop x_alone_steal)

end
