(* ===== verification/Event_Count.thy ===== *)
theory Event_Count
  imports Prelude
begin

text \<open>
  \<open>event_count\<close> of \<open>include/libfork/schedule/ext/event_count.hpp\<close>: one 64-bit atomic holds the epoch
  in its upper and the number of waiters in its lower half. First the operations on the word,
  then the system of threads that run \<open>await\<close> against threads that call \<open>notify_all\<close>, one step
  per access to the atomic.

  Of \<open>std::atomic::wait\<close> and \<open>notify_all\<close> the model has what the standard promises: a waiting
  thread compares the value with the one it was given and sleeps while they are equal; a
  notification, or nothing at all, makes it compare again; it returns only when they differ.
\<close>

definition k_add_waiter :: u64 where "k_add_waiter = 1"
definition k_sub_waiter :: u64 where "k_sub_waiter = - 1"
definition k_add_epoch :: u64 where "k_add_epoch = push_bit 32 1"
definition k_waiter_mask :: u64 where "k_waiter_mask = k_add_epoch - 1"

definition ec_epoch :: "u64 \<Rightarrow> u32" where
  "ec_epoch v = ucast (drop_bit 32 v)"

text \<open>\<open>notify_one\<close> and \<open>notify_all\<close>: the new word and whether the waiters are notified.\<close>

definition ec_notify :: "u64 \<Rightarrow> bool \<times> u64" where
  "ec_notify v = (v AND k_waiter_mask \<noteq> 0, v + k_add_epoch)"

definition ec_prepare_wait :: "u64 \<Rightarrow> u32 \<times> u64" where
  "ec_prepare_wait v = (ucast (drop_bit 32 v), v + k_add_waiter)"

definition ec_cancel_wait :: "u64 \<Rightarrow> u64 option" where
  "ec_cancel_wait v = do { lf_assert (v AND k_waiter_mask \<noteq> 0); Some (v + k_sub_waiter) }"

text \<open>The part of \<open>wait\<close> after the atomic's \<open>wait\<close> has returned.\<close>

definition ec_wait_return :: "u64 \<Rightarrow> u64 option" where
  "ec_wait_return v = do { lf_assert (v AND k_waiter_mask \<noteq> 0); Some (v + k_sub_waiter) }"

section \<open>Threads in await and threads that notify\<close>

text \<open>
  The places of a thread in \<open>await\<close>: calling the condition for the first time, at the top of the
  loop, calling it in the loop with a key, in \<open>cancel_wait\<close> (after \<open>true\<close>, or in the handler of an
  exception), in \<open>wait\<close> awake and asleep, and between the atomic's wait and the \<open>fetch_add\<close>.
\<close>

datatype wait_pc = W_idle | W_test0 | W_prep | W_test u32 | W_cancel | W_rethrow
  | W_wait u32 | W_asleep u32 | W_leave

record ec_sys =
  ec_val :: u64
  ec_w :: "wait_pc list"
  ec_wakers :: nat

datatype ec_event = V_tau | V_prepare nat | V_notify

definition ec_init :: "nat \<Rightarrow> ec_sys" where
  "ec_init n = \<lparr>ec_val = 0, ec_w = replicate n W_idle, ec_wakers = 0\<rparr>"

definition set_w :: "ec_sys \<Rightarrow> nat \<Rightarrow> wait_pc \<Rightarrow> ec_sys" where
  "set_w s i pc = s\<lparr>ec_w := (ec_w s)[i := pc]\<rparr>"

fun wake :: "wait_pc \<Rightarrow> wait_pc" where
  "wake (W_asleep k) = W_wait k"
| "wake pc = pc"

text \<open>\<open>await\<close> in thread \<open>i\<close>. What the condition returns, or that it throws, is arbitrary.\<close>

inductive await_step :: "nat \<Rightarrow> ec_sys \<Rightarrow> ec_event \<Rightarrow> ec_sys \<Rightarrow> bool" where
  await_call: "ec_w s ! i = W_idle \<Longrightarrow> await_step i s V_tau (set_w s i W_test0)"
| await_fast: "ec_w s ! i = W_test0 \<Longrightarrow> await_step i s V_tau (set_w s i W_idle)"
| await_slow: "ec_w s ! i = W_test0 \<Longrightarrow> await_step i s V_tau (set_w s i W_prep)"
| await_prepare: "ec_w s ! i = W_prep \<Longrightarrow> ec_prepare_wait (ec_val s) = (key, v) \<Longrightarrow>
     await_step i s (V_prepare i) ((set_w s i (W_test key))\<lparr>ec_val := v\<rparr>)"
| await_true: "ec_w s ! i = W_test key \<Longrightarrow> await_step i s V_tau (set_w s i W_cancel)"
| await_throw: "ec_w s ! i = W_test key \<Longrightarrow> await_step i s V_tau (set_w s i W_rethrow)"
| await_false: "ec_w s ! i = W_test key \<Longrightarrow> await_step i s V_tau (set_w s i (W_wait key))"
| await_cancel: "ec_w s ! i = W_cancel \<Longrightarrow> ec_cancel_wait (ec_val s) = Some v \<Longrightarrow>
     await_step i s V_tau ((set_w s i W_idle)\<lparr>ec_val := v\<rparr>)"
| await_rethrow: "ec_w s ! i = W_rethrow \<Longrightarrow> ec_cancel_wait (ec_val s) = Some v \<Longrightarrow>
     await_step i s V_tau ((set_w s i W_idle)\<lparr>ec_val := v\<rparr>)"
| await_changed: "ec_w s ! i = W_wait key \<Longrightarrow> ec_epoch (ec_val s) \<noteq> key \<Longrightarrow>
     await_step i s V_tau (set_w s i W_leave)"
| await_sleep: "ec_w s ! i = W_wait key \<Longrightarrow> ec_epoch (ec_val s) = key \<Longrightarrow>
     await_step i s V_tau (set_w s i (W_asleep key))"
| await_spurious: "ec_w s ! i = W_asleep key \<Longrightarrow> await_step i s V_tau (set_w s i (W_wait key))"
| await_again: "ec_w s ! i = W_leave \<Longrightarrow> ec_wait_return (ec_val s) = Some v \<Longrightarrow>
     await_step i s V_tau ((set_w s i W_prep)\<lparr>ec_val := v\<rparr>)"

text \<open>
  \<open>notify_all\<close>: the \<open>fetch_add\<close>, and then, when it saw waiters, the notification; \<open>ec_wakers\<close> counts
  the threads between the two.
\<close>

inductive notify_step :: "ec_sys \<Rightarrow> ec_event \<Rightarrow> ec_sys \<Rightarrow> bool" where
  notify_add: "ec_notify (ec_val s) = (b, v) \<Longrightarrow>
     notify_step s V_notify (s\<lparr>ec_val := v, ec_wakers := ec_wakers s + (if b then 1 else 0)\<rparr>)"
| notify_wake: "0 < ec_wakers s \<Longrightarrow>
     notify_step s V_tau (s\<lparr>ec_w := map wake (ec_w s), ec_wakers := ec_wakers s - 1\<rparr>)"

definition ec_step :: "ec_sys \<Rightarrow> ec_event \<Rightarrow> ec_sys \<Rightarrow> bool" where
  "ec_step s e s' \<longleftrightarrow> (\<exists>i < length (ec_w s). await_step i s e s') \<or> notify_step s e s'"

inductive ec_run :: "ec_sys \<Rightarrow> ec_event list \<Rightarrow> ec_sys \<Rightarrow> bool" where
  ec_run_nil: "ec_run s [] s"
| ec_run_step: "ec_run s es t \<Longrightarrow> ec_step t e u \<Longrightarrow> ec_run s (es @ [e]) u"

text \<open>The number of notifications in a history, and the number before thread \<open>i\<close>'s last \<open>prepare_wait\<close>.\<close>

definition notifies :: "ec_event list \<Rightarrow> nat" where
  "notifies es = length (filter (\<lambda>e. e = V_notify) es)"

definition prepared_at :: "nat \<Rightarrow> ec_event list \<Rightarrow> nat" where
  "prepared_at i es = notifies (rev (dropWhile (\<lambda>e. e \<noteq> V_prepare i) (rev es)))"

section \<open>The word\<close>

lemma ec_waiters_low:
  assumes "w < 2 ^ 32"
  shows "(of_nat (2 ^ 32 * e + w) :: u64) AND k_waiter_mask = of_nat w"
proof -
  have m: "k_waiter_mask = mask 32" by (simp add: k_waiter_mask_def k_add_epoch_def mask_eq_exp_minus_1)
  have "unat ((of_nat (2 ^ 32 * e + w) :: u64) AND k_waiter_mask) = (2 ^ 32 * e + w) mod 2 ^ 64 mod 2 ^ 32"
    unfolding m take_bit_eq_mask [symmetric] unsigned_take_bit_eq
    by (simp add: unat_of_nat take_bit_eq_mod del: of_nat_add of_nat_mult)
  also have "\<dots> = (2 ^ 32 * e + w) mod 2 ^ 32" by (rule mod_mod_cancel) simp
  also have "\<dots> = w" using assms by simp
  finally show ?thesis by (metis of_nat_unat ucast_id)
qed

lemma ec_waiters_zero:
  assumes "w < 2 ^ 32"
  shows "(of_nat (2 ^ 32 * e + w) :: u64) AND k_waiter_mask = 0 \<longleftrightarrow> w = 0"
proof -
  have "w mod 2 ^ 64 = w" using assms by simp
  then show ?thesis
    unfolding ec_waiters_low [OF assms] by (simp add: word_of_nat_eq_0_iff dvd_eq_mod_eq_0)
qed

lemma ec_epoch_word:
  assumes "w < 2 ^ 32"
  shows "ec_epoch (of_nat (2 ^ 32 * e + w)) = of_nat e"
proof -
  have "unat (drop_bit 32 (of_nat (2 ^ 32 * e + w) :: u64)) = (2 ^ 32 * e + w) mod (2 ^ 32 * 2 ^ 32) div 2 ^ 32"
    unfolding drop_bit_eq_div
    by (simp add: unat_div unat_of_nat take_bit_eq_mod del: of_nat_add of_nat_mult)
  also have "\<dots> = e mod 2 ^ 32"
    using assms by (subst mod_mult2_eq) simp
  finally have "drop_bit 32 (of_nat (2 ^ 32 * e + w) :: u64) = of_nat (e mod 2 ^ 32)"
    by (metis of_nat_unat ucast_id)
  then have "ec_epoch (of_nat (2 ^ 32 * e + w)) = ucast (of_nat (e mod 2 ^ 32) :: u64)"
    by (simp add: ec_epoch_def)
  also have "\<dots> = of_nat (e mod 2 ^ 32)"
  proof -
    have "e mod 2 ^ 32 < (2 :: nat) ^ 32" by simp
    also have "\<dots> \<le> 2 ^ 64" by simp
    finally have "take_bit 64 (e mod 2 ^ 32) = e mod 2 ^ 32" by (rule take_bit_nat_eq_self)
    moreover have "LENGTH(64) = 64" by simp
    ultimately show ?thesis unfolding unsigned_of_nat by (simp only:)
  qed
  also have "\<dots> = of_nat e" by (simp add: word_of_nat_eq_iff take_bit_eq_mod)
  finally show ?thesis .
qed

text \<open>The word that stands for \<open>e\<close> notifications and \<open>w\<close> waiters, and the operations on it.\<close>

definition ec_word :: "nat \<Rightarrow> nat \<Rightarrow> u64" where
  "ec_word e w = of_nat (2 ^ 32 * e + w)"

lemma ec_word_ops [word_pack_simps]:
  assumes "w < 2 ^ 32"
  shows "ec_epoch (ec_word e w) = of_nat e"
    and "ec_notify (ec_word e w) = (0 < w, ec_word (Suc e) w)"
    and "ec_prepare_wait (ec_word e w) = (of_nat e, ec_word e (Suc w))"
    and "ec_cancel_wait (ec_word e w) = (if w = 0 then None else Some (ec_word e (w - 1)))"
    and "ec_wait_return (ec_word e w) = (if w = 0 then None else Some (ec_word e (w - 1)))"
proof -
  note zero = ec_waiters_zero [OF assms, of e, folded ec_word_def]
  show epoch: "ec_epoch (ec_word e w) = of_nat e" unfolding ec_word_def by (rule ec_epoch_word [OF assms])
  have "ec_word e w + k_add_epoch = ec_word (Suc e) w"
    by (simp add: ec_word_def k_add_epoch_def algebra_simps)
  then show "ec_notify (ec_word e w) = (0 < w, ec_word (Suc e) w)"
    using zero by (simp add: ec_notify_def)
  show "ec_prepare_wait (ec_word e w) = (of_nat e, ec_word e (Suc w))"
    using epoch by (simp add: ec_prepare_wait_def ec_epoch_def ec_word_def k_add_waiter_def)
  have "ec_word e w + k_sub_waiter = ec_word e (w - 1)" if "w \<noteq> 0"
    using that by (cases w) (simp_all add: ec_word_def k_sub_waiter_def)
  then show "ec_cancel_wait (ec_word e w) = (if w = 0 then None else Some (ec_word e (w - 1)))"
    and "ec_wait_return (ec_word e w) = (if w = 0 then None else Some (ec_word e (w - 1)))"
    using zero by (simp_all add: ec_cancel_wait_def ec_wait_return_def lf_assert_def)
qed

section \<open>Invariant\<close>

fun weight :: "wait_pc \<Rightarrow> nat" where
  "weight W_idle = 0" | "weight W_test0 = 0" | "weight W_prep = 0" | "weight _ = 1"

fun key_of :: "wait_pc \<Rightarrow> u32 option" where
  "key_of (W_test k) = Some k" | "key_of (W_wait k) = Some k" | "key_of (W_asleep k) = Some k"
| "key_of _ = None"

definition waiters :: "wait_pc list \<Rightarrow> nat" where
  "waiters ws = sum_list (map weight ws)"

definition ec_inv :: "nat \<Rightarrow> (nat \<Rightarrow> nat) \<Rightarrow> ec_sys \<Rightarrow> bool" where
  "ec_inv e prep s \<longleftrightarrow> length (ec_w s) < 2 ^ 32 \<and> ec_val s = ec_word e (waiters (ec_w s))
     \<and> (\<forall>i < length (ec_w s). \<forall>k. key_of (ec_w s ! i) = Some k \<longrightarrow> k = of_nat (prep i))
     \<and> (ec_wakers s = 0 \<longrightarrow> (\<forall>i < length (ec_w s). \<forall>k. ec_w s ! i = W_asleep k \<longrightarrow> k = of_nat e))"

lemma weight_le: "weight pc \<le> 1" by (cases pc) simp_all

lemma waiters_le: "waiters ws \<le> length ws"
proof (induction ws)
  case (Cons pc ws)
  then show ?case using weight_le [of pc] by (simp add: waiters_def)
qed (simp add: waiters_def)

lemma waiters_update:
  assumes "i < length ws"
  shows "waiters (ws[i := pc]) + weight (ws ! i) = waiters ws + weight pc"
proof -
  have "weight (ws ! i) \<le> waiters ws"
    using assms by (auto simp: waiters_def intro: member_le_sum_list)
  with assms show ?thesis by (simp add: waiters_def map_update sum_list_update)
qed

lemma waiters_pos: "i < length ws \<Longrightarrow> weight (ws ! i) = 1 \<Longrightarrow> 0 < waiters ws"
  using waiters_update [of i ws W_idle] by simp

lemma wake_simps [simp]: "weight (wake pc) = weight pc" "key_of (wake pc) = key_of pc"
  "wake pc \<noteq> W_asleep k"
  by (cases pc; simp)+

lemma waiters_wake [simp]: "waiters (map wake ws) = waiters ws"
  by (simp add: waiters_def comp_def)

lemma ec_inv_init: "n < 2 ^ 32 \<Longrightarrow> ec_inv 0 (\<lambda>_. 0) (ec_init n)"
  by (simp add: ec_inv_def ec_init_def ec_word_def waiters_def sum_list_replicate)

lemma ec_inv_set:
  assumes inv: "ec_inv e prep s" and i: "i < length (ec_w s)"
    and key: "\<And>k. key_of pc = Some k \<Longrightarrow> k = of_nat (prep' i)"
    and other: "\<And>j. j \<noteq> i \<Longrightarrow> prep' j = prep j"
    and asleep: "\<And>k. pc = W_asleep k \<Longrightarrow> k = of_nat e"
    and v: "v = ec_word e (waiters ((ec_w s)[i := pc]))"
  shows "ec_inv e prep' ((set_w s i pc)\<lparr>ec_val := v\<rparr>)"
  unfolding ec_inv_def
proof (intro conjI allI impI, goal_cases)
  case (3 j k)
  then show ?case using inv key [of k] other [of j] i by (cases "j = i") (auto simp: ec_inv_def set_w_def)
next
  case (4 j k)
  then show ?case using inv asleep [of k] i by (cases "j = i") (auto simp: ec_inv_def set_w_def)
qed (use inv v in \<open>simp_all add: ec_inv_def set_w_def\<close>)

lemma ec_inv_val: "ec_inv e prep s \<Longrightarrow> ec_val s = ec_word e (waiters (ec_w s)) \<and> waiters (ec_w s) < 2 ^ 32"
  using waiters_le [of "ec_w s"] by (simp add: ec_inv_def)

lemma ec_inv_key: "ec_inv e prep s \<Longrightarrow> i < length (ec_w s) \<Longrightarrow> key_of (ec_w s ! i) = Some k \<Longrightarrow> k = of_nat (prep i)"
  by (simp add: ec_inv_def)

text \<open>A thread that moves without touching the word or its key.\<close>

lemma ec_inv_quiet:
  assumes inv: "ec_inv e prep s" and i: "i < length (ec_w s)"
    and w: "weight pc = weight (ec_w s ! i)" and k: "key_of pc = None \<or> key_of pc = key_of (ec_w s ! i)"
    and asleep: "\<And>k. pc = W_asleep k \<Longrightarrow> k = of_nat e"
  shows "ec_inv e prep (set_w s i pc)"
proof -
  have "waiters ((ec_w s)[i := pc]) = waiters (ec_w s)" using waiters_update [OF i, of pc] w by simp
  then have "ec_val s = ec_word e (waiters ((ec_w s)[i := pc]))" using ec_inv_val [OF inv] by simp
  moreover have "j = of_nat (prep i)" if "key_of pc = Some j" for j
    using that k ec_inv_key [OF inv i, of j] by auto
  ultimately have "ec_inv e prep ((set_w s i pc)\<lparr>ec_val := ec_val s\<rparr>)"
    using ec_inv_set [OF inv i, of pc prep "ec_val s"] asleep by simp
  then show ?thesis by (simp add: set_w_def)
qed

lemma ec_inv_awake:
  assumes "ec_inv e prep s" "i < length (ec_w s)" "weight pc = weight (ec_w s ! i)"
    "key_of pc = None \<or> key_of pc = key_of (ec_w s ! i)" "\<forall>k. pc \<noteq> W_asleep k"
  shows "ec_inv e prep (set_w s i pc)"
  using ec_inv_quiet [OF assms(1-4)] assms(5) by metis

text \<open>A thread that leaves the set of waiters.\<close>

lemma ec_inv_leave:
  assumes inv: "ec_inv e prep s" and i: "i < length (ec_w s)" and w: "weight (ec_w s ! i) = 1"
    and pc: "weight pc = 0"
  shows "ec_cancel_wait (ec_val s) = Some v \<Longrightarrow> ec_inv e prep ((set_w s i pc)\<lparr>ec_val := v\<rparr>)"
    and "ec_wait_return (ec_val s) = Some v \<Longrightarrow> ec_inv e prep ((set_w s i pc)\<lparr>ec_val := v\<rparr>)"
    and "\<exists>v. ec_cancel_wait (ec_val s) = Some v" "\<exists>v. ec_wait_return (ec_val s) = Some v"
proof -
  from ec_inv_val [OF inv] have val: "ec_val s = ec_word e (waiters (ec_w s))" "waiters (ec_w s) < 2 ^ 32" by auto
  note ops = ec_word_ops(4,5) [OF val(2), of e]
  have pos: "0 < waiters (ec_w s)" by (rule waiters_pos [OF i w])
  have "waiters ((ec_w s)[i := pc]) = waiters (ec_w s) - 1" using waiters_update [OF i, of pc] w pc by simp
  moreover have "key_of pc = None" "\<And>k. pc \<noteq> W_asleep k" using pc by (cases pc; simp)+
  ultimately have "ec_inv e prep ((set_w s i pc)\<lparr>ec_val := ec_word e (waiters (ec_w s) - 1)\<rparr>)"
    by (intro ec_inv_set [OF inv i]) auto
  then show "ec_cancel_wait (ec_val s) = Some v \<Longrightarrow> ec_inv e prep ((set_w s i pc)\<lparr>ec_val := v\<rparr>)"
    and "ec_wait_return (ec_val s) = Some v \<Longrightarrow> ec_inv e prep ((set_w s i pc)\<lparr>ec_val := v\<rparr>)"
    and "\<exists>v. ec_cancel_wait (ec_val s) = Some v" "\<exists>v. ec_wait_return (ec_val s) = Some v"
    using pos ops val(1) by auto
qed

lemma await_step_inv:
  assumes step: "await_step i s x s'" and inv: "ec_inv e prep s" and i: "i < length (ec_w s)"
  shows "x = V_tau \<and> ec_inv e prep s' \<or> x = V_prepare i \<and> ec_inv e (prep(i := e)) s'"
  using step
proof (cases rule: await_step.cases)
  case (await_prepare key v)
  from ec_inv_val [OF inv] have val: "ec_val s = ec_word e (waiters (ec_w s))" "waiters (ec_w s) < 2 ^ 32" by auto
  with await_prepare ec_word_ops(3) [OF val(2), of e] have
    kv: "key = of_nat e" "v = ec_word e (Suc (waiters (ec_w s)))" by auto
  have "waiters ((ec_w s)[i := W_test key]) = Suc (waiters (ec_w s))"
    using waiters_update [OF i, of "W_test key"] await_prepare(3) by simp
  with kv await_prepare ec_inv_set [OF inv i, of "W_test key" "prep(i := e)" v] show ?thesis by simp
next
  case (await_sleep key)
  from ec_inv_val [OF inv] ec_word_ops(1) [of "waiters (ec_w s)" e] await_sleep(4) have k: "key = of_nat e"
    by metis
  have "ec_inv e prep (set_w s i (W_asleep key))"
    by (rule ec_inv_quiet [OF inv i]) (simp_all add: await_sleep(3) k)
  then show ?thesis unfolding await_sleep(1,2) by simp
next
  case (await_cancel v)
  with ec_inv_leave(1) [OF inv i, of W_idle v] show ?thesis by simp
next
  case (await_rethrow v)
  with ec_inv_leave(1) [OF inv i, of W_idle v] show ?thesis by simp
next
  case (await_again v)
  with ec_inv_leave(2) [OF inv i, of W_prep v] show ?thesis by simp
qed (simp_all add: ec_inv_awake [OF inv i])

lemma notify_step_inv:
  assumes "notify_step s x s'" and inv: "ec_inv e prep s"
  shows "x = V_tau \<and> ec_inv e prep s' \<or> x = V_notify \<and> ec_inv (Suc e) prep s'"
  using assms(1)
proof (cases rule: notify_step.cases)
  case (notify_add b v)
  from ec_inv_val [OF inv] have val: "ec_val s = ec_word e (waiters (ec_w s))" "waiters (ec_w s) < 2 ^ 32" by auto
  with notify_add ec_word_ops(2) [OF val(2), of e] have
    bv: "b = (0 < waiters (ec_w s))" "v = ec_word (Suc e) (waiters (ec_w s))" by auto
  have "0 < waiters (ec_w s)" if "i < length (ec_w s)" "ec_w s ! i = W_asleep k" for i k
    using waiters_pos [OF that(1)] that(2) by simp
  then have "\<forall>i < length (ec_w s). \<forall>k. ec_w s ! i \<noteq> W_asleep k" if "\<not> b" using that bv(1) by auto
  with bv(2) inv notify_add show ?thesis by (cases b) (simp_all add: ec_inv_def)
next
  case notify_wake
  with inv show ?thesis by (auto simp: ec_inv_def)
qed

lemma prepared_at_snoc [simp]:
  "prepared_at i [] = 0"
  "prepared_at i (es @ [V_prepare j]) = (if i = j then notifies es else prepared_at i es)"
  "prepared_at i (es @ [V_notify]) = prepared_at i es"
  "prepared_at i (es @ [V_tau]) = prepared_at i es"
  by (simp_all add: prepared_at_def notifies_def)

lemma notifies_snoc [simp]:
  "notifies [] = 0"
  "notifies (es @ [V_prepare j]) = notifies es"
  "notifies (es @ [V_notify]) = Suc (notifies es)"
  "notifies (es @ [V_tau]) = notifies es"
  by (simp_all add: notifies_def)

lemma ec_run_inv:
  assumes "ec_run s es t" "ec_inv 0 (\<lambda>_. 0) s"
  shows "ec_inv (notifies es) (\<lambda>i. prepared_at i es) t"
  using assms
proof (induction rule: ec_run.induct)
  case (ec_run_step s es t x u)
  note inv = ec_run_step.IH [OF ec_run_step.prems]
  from ec_run_step.hyps(2) consider i where "i < length (ec_w t)" "await_step i t x u" | "notify_step t x u"
    unfolding ec_step_def by metis
  then show ?case
  proof cases
    case 1
    from await_step_inv [OF 1(2) inv 1(1)] show ?thesis
      by (auto simp: fun_upd_def cong: if_cong)
  next
    case 2
    from notify_step_inv [OF 2 inv] show ?thesis by auto
  qed
qed simp

section \<open>Properties\<close>

text \<open>
  Property C22. No wake-up is lost: with fewer than \<open>2\<close> to the power 32 waiters, a thread whose
  \<open>prepare_wait\<close> came before some \<open>notify_all\<close>, but before fewer than \<open>2\<close> to the power 32 of them, after
  which the epoch would be the same again, does not sleep once every \<open>notify_all\<close> that began has
  returned; whatever the condition did, however often the atomic's wait returned spuriously, and
  however the threads interleave.
\<close>

theorem event_count_no_lost_wakeup:
  assumes "ec_run (ec_init n) es s" "n < 2 ^ 32" "notifies es < prepared_at i es + 2 ^ 32"
    and "i < length (ec_w s)" "prepared_at i es < notifies es" "ec_wakers s = 0"
  shows "ec_w s ! i \<noteq> W_asleep k"
proof
  assume k: "ec_w s ! i = W_asleep k"
  from ec_run_inv [OF assms(1) ec_inv_init [OF assms(2)]]
  have inv: "ec_inv (notifies es) (\<lambda>i. prepared_at i es) s" .
  with assms(4,6) k have "k = of_nat (notifies es)" by (simp add: ec_inv_def)
  moreover from ec_inv_key [OF inv assms(4)] k have "k = of_nat (prepared_at i es)" by simp
  ultimately have "(of_nat (notifies es) :: u32) = of_nat (prepared_at i es)" by simp
  then have "notifies es mod 2 ^ 32 = prepared_at i es mod 2 ^ 32"
    by (simp add: word_of_nat_eq_iff take_bit_eq_mod)
  then have "2 ^ 32 dvd notifies es - prepared_at i es" by (metis mod_eq_dvd_iff_nat assms(5) less_imp_le)
  with dvd_imp_le [OF this] assms(3,5) show False by linarith
qed

text \<open>
  Property C23. The two halves of the word never run into each other: in every reachable state
  the upper half is the number of notifications modulo \<open>2\<close> to the power 32 and the lower half the
  number of threads between \<open>prepare_wait\<close> and the end of \<open>cancel_wait\<close> or \<open>wait\<close>; so the
  assertions of \<open>cancel_wait\<close> and \<open>wait\<close> hold whenever a thread reaches them, and a thread that
  left \<open>await\<close>, normally or by an exception, is no longer counted.
\<close>

theorem event_count_word:
  assumes "ec_run (ec_init n) es s" "n < 2 ^ 32"
  shows "ec_epoch (ec_val s) = of_nat (notifies es)
     \<and> ec_val s AND k_waiter_mask = of_nat (waiters (ec_w s))
     \<and> (\<forall>i < length (ec_w s). weight (ec_w s ! i) = 1 \<longrightarrow>
          (\<exists>v. ec_cancel_wait (ec_val s) = Some v) \<and> (\<exists>v. ec_wait_return (ec_val s) = Some v))"
proof -
  from ec_run_inv [OF assms(1) ec_inv_init [OF assms(2)]]
  have inv: "ec_inv (notifies es) (\<lambda>i. prepared_at i es) s" .
  from ec_inv_val [OF inv] have val: "ec_val s = ec_word (notifies es) (waiters (ec_w s))"
    "waiters (ec_w s) < 2 ^ 32" by auto
  have "(\<exists>v. ec_cancel_wait (ec_val s) = Some v) \<and> (\<exists>v. ec_wait_return (ec_val s) = Some v)"
    if "i < length (ec_w s)" "weight (ec_w s ! i) = 1" for i
    using ec_inv_leave(3,4) [OF inv that, of W_idle] by simp
  moreover have "ec_val s AND k_waiter_mask = of_nat (waiters (ec_w s))"
    unfolding val(1) ec_word_def by (rule ec_waiters_low [OF val(2)])
  moreover have "ec_epoch (ec_val s) = of_nat (notifies es)"
    using ec_word_ops(1) [OF val(2)] val(1) by simp
  ultimately show ?thesis by blast
qed

text \<open>A thread prepares, another notifies and wakes; used by the witnesses.\<close>

definition ec_demo :: "u64 \<Rightarrow> wait_pc \<Rightarrow> nat \<Rightarrow> ec_sys" where
  "ec_demo v pc w = \<lparr>ec_val = v, ec_w = [pc], ec_wakers = w\<rparr>"

lemma ec_demo_run:
  "ec_run (ec_init 1) [V_tau, V_tau, V_prepare 0, V_tau, V_tau, V_notify, V_tau] (ec_demo (ec_word 1 1) (W_wait 0) 0)"
proof -
  have i: "ec_init 1 = ec_demo (ec_word 0 0) W_idle 0" by (simp add: ec_init_def ec_demo_def ec_word_def)
  note defs = ec_step_def ec_demo_def set_w_def
  have w1: "(1 :: nat) < 2 ^ 32" "(0 :: nat) < 2 ^ 32" by simp_all
  have 1: "ec_step (ec_init 1) V_tau (ec_demo (ec_word 0 0) W_test0 0)"
    unfolding i using await_step.await_call [of "ec_demo (ec_word 0 0) W_idle 0" 0] by (auto simp: defs)
  have 2: "ec_step (ec_demo (ec_word 0 0) W_test0 0) V_tau (ec_demo (ec_word 0 0) W_prep 0)"
    using await_step.await_slow [of "ec_demo (ec_word 0 0) W_test0 0" 0] by (auto simp: defs)
  have 3: "ec_step (ec_demo (ec_word 0 0) W_prep 0) (V_prepare 0) (ec_demo (ec_word 0 1) (W_test 0) 0)"
    using await_step.await_prepare [of "ec_demo (ec_word 0 0) W_prep 0" 0 0 "ec_word 0 1"]
      ec_word_ops(3) [OF w1(2), of 0] by (auto simp: defs)
  have 4: "ec_step (ec_demo (ec_word 0 1) (W_test 0) 0) V_tau (ec_demo (ec_word 0 1) (W_wait 0) 0)"
    using await_step.await_false [of "ec_demo (ec_word 0 1) (W_test 0) 0" 0 0] by (auto simp: defs)
  have 5: "ec_step (ec_demo (ec_word 0 1) (W_wait 0) 0) V_tau (ec_demo (ec_word 0 1) (W_asleep 0) 0)"
    using await_step.await_sleep [of "ec_demo (ec_word 0 1) (W_wait 0) 0" 0 0]
      ec_word_ops(1) [OF w1(1), of 0] by (auto simp: defs)
  have 6: "ec_step (ec_demo (ec_word 0 1) (W_asleep 0) 0) V_notify (ec_demo (ec_word 1 1) (W_asleep 0) 1)"
    using notify_step.notify_add [of "ec_demo (ec_word 0 1) (W_asleep 0) 0" True "ec_word 1 1"]
      ec_word_ops(2) [OF w1(1), of 0] by (auto simp: defs)
  have 7: "ec_step (ec_demo (ec_word 1 1) (W_asleep 0) 1) V_tau (ec_demo (ec_word 1 1) (W_wait 0) 0)"
    using notify_step.notify_wake [of "ec_demo (ec_word 1 1) (W_asleep 0) 1"] by (auto simp: defs)
  note run = ec_run_step [OF ec_run_step [OF ec_run_step [OF ec_run_nil 1] 2] 3]
  from ec_run_step [OF ec_run_step [OF ec_run_step [OF ec_run_step [OF run 4] 5] 6] 7]
  show ?thesis by simp
qed

theorem event_count_no_lost_wakeup_witness:
  "ec_run (ec_init 1) [V_tau, V_tau, V_prepare 0, V_tau, V_tau, V_notify, V_tau] (ec_demo (ec_word 1 1) (W_wait 0) 0)
   \<and> ec_w (ec_demo (ec_word 1 1) (W_wait 0) 0) ! 0 \<noteq> W_asleep 0"
proof -
  have "prepared_at 0 [V_tau, V_tau, V_prepare 0, V_tau, V_tau, V_notify, V_tau] = 0"
    "notifies [V_tau, V_tau, V_prepare 0, V_tau, V_tau, V_notify, V_tau] = 1"
    by (simp_all add: prepared_at_def notifies_def)
  with event_count_no_lost_wakeup [OF ec_demo_run, of 0 0] ec_demo_run show ?thesis
    by (simp add: ec_demo_def)
qed

theorem event_count_word_witness:
  "ec_epoch (ec_val (ec_demo (ec_word 1 1) (W_wait 0) 0)) = 1
   \<and> ec_val (ec_demo (ec_word 1 1) (W_wait 0) 0) AND k_waiter_mask = 1"
  using event_count_word [OF ec_demo_run] by (simp add: ec_demo_def waiters_def notifies_def)

end
