(* ===== verification/Utility.thy ===== *)
theory Utility
  imports Prelude
begin

text \<open>
  Small helpers of \<open>include/libfork/core/impl/utility.hpp\<close> and the storage of
  \<open>impl/manual_lifetime.hpp\<close>, an object whose lifetime the code starts and ends by hand.
\<close>

definition k_u16_max :: u16 where
  "k_u16_max = 65535"

definition k_new_align :: u64 where
  "k_new_align = 16"

text \<open>\<open>non_null\<close> ends the program on a null pointer.\<close>

definition non_null :: "'p option \<Rightarrow> 'p option" where
  "non_null p = p"

text \<open>
  \<open>checked_cast\<close> between integral types, each given by its least and greatest value: the
  assertions are compiled in only where the target does not cover the source.
\<close>

definition checked_cast :: "int \<times> int \<Rightarrow> int \<times> int \<Rightarrow> int \<Rightarrow> int option" where
  "checked_cast to frm val =
     (let (to_min, to_max) = to; (from_min, from_max) = frm in do {
        lf_assert (to_min > from_min \<longrightarrow> val \<ge> to_min);
        lf_assert (to_max < from_max \<longrightarrow> val \<le> to_max);
        Some val })"

lemma checked_cast_total:
  assumes "from_min \<le> v" "v \<le> from_max" "to_min \<le> to_max"
  shows "checked_cast (to_min, to_max) (from_min, from_max) v = (if to_min \<le> v \<and> v \<le> to_max then Some v else None)"
  using assms by (auto simp: checked_cast_def lf_assert_def)

text \<open>\<open>map\<close> on vectors, with the function threading a state as the calls happen in order.\<close>

fun vec_map :: "('a \<Rightarrow> 's \<Rightarrow> 'b \<times> 's) \<Rightarrow> 'a list \<Rightarrow> 's \<Rightarrow> 'b list \<times> 's" where
  "vec_map func [] s = ([], s)"
| "vec_map func (item # items) s =
     (let (y, s1) = func item s; (out, s2) = vec_map func items s1 in (y # out, s2))"

section \<open>Objects with manual lifetime\<close>

text \<open>\<open>None\<close> is storage without a living object; using it then is undefined.\<close>

type_synonym 'a manual_lifetime = "'a option"

definition ml_construct :: "'a \<Rightarrow> 'a manual_lifetime \<Rightarrow> 'a manual_lifetime" where
  "ml_construct x m = Some x"

definition ml_data :: "'a manual_lifetime \<Rightarrow> 'a option" where
  "ml_data m = m"

definition ml_destroy :: "'a manual_lifetime \<Rightarrow> 'a manual_lifetime option" where
  "ml_destroy m = do { x \<leftarrow> m; Some None }"

lemma ml_simps [simp]:
  "ml_data (ml_construct x m) = Some x" "ml_destroy (ml_construct x m) = Some None"
  "ml_destroy None = None" "ml_data None = None"
  by (simp_all add: ml_construct_def ml_data_def ml_destroy_def)

end
