(* ===== verification/Frame.thy ===== *)
theory Frame
  imports Utility
begin

text \<open>
  \<open>impl::frame\<close> of \<open>include/libfork/core/impl/frame.hpp\<close>, the control block of every task: its
  coroutine, its stacklet, its parent (or, for a root, the semaphore of the waiting caller), the
  16-bit join and steal counters and the exception a child left. Pointers are numbers.
\<close>

text \<open>The union of \<open>m_parent\<close> and \<open>m_sem\<close>; before either setter is called it holds neither.\<close>

datatype link = No_link | Parent nat | Sem nat

record 'e frame =
  m_eptr :: "'e option manual_lifetime"
  m_this_coro :: nat
  m_stacklet :: nat
  m_link :: link
  m_join :: u16
  m_steal :: u16
  m_except :: bool

definition frame_new :: "nat \<Rightarrow> nat \<Rightarrow> 'e frame" where
  "frame_new coro stacklet = \<lparr>m_eptr = None, m_this_coro = coro, m_stacklet = stacklet, m_link = No_link,
     m_join = k_u16_max, m_steal = 0, m_except = False\<rparr>"

definition set_parent :: "nat option \<Rightarrow> 'e frame \<Rightarrow> 'e frame option" where
  "set_parent parent f = do { p \<leftarrow> non_null parent; Some (f\<lparr>m_link := Parent p\<rparr>) }"

definition set_root_sem :: "nat option \<Rightarrow> 'e frame \<Rightarrow> 'e frame option" where
  "set_root_sem sem f = do { p \<leftarrow> non_null sem; Some (f\<lparr>m_link := Sem p\<rparr>) }"

definition reset_stacklet :: "nat option \<Rightarrow> 'e frame \<Rightarrow> (nat \<times> 'e frame) option" where
  "reset_stacklet stacklet f = do { p \<leftarrow> non_null stacklet; Some (m_stacklet f, f\<lparr>m_stacklet := p\<rparr>) }"

text \<open>Reading the member of the union that was not written is undefined.\<close>

definition fr_parent :: "'e frame \<Rightarrow> nat option" where
  "fr_parent f = (case m_link f of Parent p \<Rightarrow> Some p | _ \<Rightarrow> None)"

definition fr_semaphore :: "'e frame \<Rightarrow> nat option" where
  "fr_semaphore f = (case m_link f of Sem p \<Rightarrow> Some p | _ \<Rightarrow> None)"

definition fr_stacklet :: "'e frame \<Rightarrow> nat" where
  "fr_stacklet f = m_stacklet f"

definition fr_self :: "'e frame \<Rightarrow> nat" where
  "fr_self f = m_this_coro f"

definition load_joins :: "'e frame \<Rightarrow> u16" where
  "load_joins f = m_join f"

definition fetch_sub_joins :: "u16 \<Rightarrow> 'e frame \<Rightarrow> u16 \<times> 'e frame" where
  "fetch_sub_joins v f = (m_join f, f\<lparr>m_join := m_join f - v\<rparr>)"

definition load_steals :: "'e frame \<Rightarrow> u16" where
  "load_steals f = m_steal f"

definition fetch_add_steal :: "'e frame \<Rightarrow> u16 \<times> 'e frame" where
  "fetch_add_steal f = (m_steal f, f\<lparr>m_steal := m_steal f + 1\<rparr>)"

definition fr_reset :: "'e frame \<Rightarrow> 'e frame" where
  "fr_reset f = f\<lparr>m_steal := 0, m_join := k_u16_max\<rparr>"

section \<open>Exceptions\<close>

definition capture_exception :: "'e \<Rightarrow> 'e frame \<Rightarrow> 'e frame" where
  "capture_exception e f =
     (let prev = m_except f; f1 = f\<lparr>m_except := True\<rparr> in
      if \<not> prev then f1\<lparr>m_eptr := ml_construct (Some e) (m_eptr f1)\<rparr> else f1)"

definition atomic_has_exception :: "'e frame \<Rightarrow> bool" where
  "atomic_has_exception f = m_except f"

definition unsafe_has_exception :: "'e frame \<Rightarrow> bool" where
  "unsafe_has_exception f = m_except f"

text \<open>
  \<open>rethrow\<close>: the exception leaves the pointer null, the deferred block then ends the pointer's
  life and clears the flag. The result is the exception thrown and the frame after it.
\<close>

definition rethrow :: "'e frame \<Rightarrow> ('e \<times> 'e frame) option" where
  "rethrow f = do {
     p \<leftarrow> ml_data (m_eptr f);
     e \<leftarrow> p;
     (let f1 = f\<lparr>m_eptr := Some None\<rparr> in do {
        q \<leftarrow> ml_data (m_eptr f1);
        lf_assert (q = None);
        m \<leftarrow> ml_destroy (m_eptr f1);
        Some (e, f1\<lparr>m_eptr := m, m_except := False\<rparr>) }) }"

text \<open>\<open>Inl e\<close> when an exception is thrown.\<close>

definition unsafe_rethrow_if_exception :: "'e frame \<Rightarrow> (('e + unit) \<times> 'e frame) option" where
  "unsafe_rethrow_if_exception f =
     (if m_except f then do { (e, f') \<leftarrow> rethrow f; Some (Inl e, f') } else Some (Inr (), f))"

text \<open>The flag says whether the pointer lives and holds an exception.\<close>

definition eptr_ok :: "'e frame \<Rightarrow> bool" where
  "eptr_ok f \<longleftrightarrow> (if m_except f then \<exists>e. m_eptr f = Some (Some e) else m_eptr f = None)"

definition pending_exn :: "'e frame \<Rightarrow> 'e option" where
  "pending_exn f = (case m_eptr f of None \<Rightarrow> None | Some x \<Rightarrow> x)"

lemma capture_exception_ok:
  assumes "eptr_ok f"
  shows "eptr_ok (capture_exception e f) \<and> m_except (capture_exception e f)
     \<and> pending_exn (capture_exception e f) = (case pending_exn f of None \<Rightarrow> Some e | Some e' \<Rightarrow> Some e')"
  using assms
  by (auto simp: capture_exception_def eptr_ok_def pending_exn_def ml_construct_def split: if_splits)

lemma rethrow_if_ok:
  assumes "eptr_ok f"
  shows "unsafe_rethrow_if_exception f =
     Some (case pending_exn f of None \<Rightarrow> (Inr (), f) | Some e \<Rightarrow> (Inl e, f\<lparr>m_eptr := None, m_except := False\<rparr>))"
  using assms
  by (auto simp: unsafe_rethrow_if_exception_def rethrow_def eptr_ok_def pending_exn_def ml_data_def ml_destroy_def
      split: if_splits)

lemma frame_counters [simp]:
  "m_join (capture_exception e f) = m_join f" "m_steal (capture_exception e f) = m_steal f"
  by (simp_all add: capture_exception_def Let_def)

lemma eptr_ok_cong [simp]:
  "eptr_ok (f\<lparr>m_join := j\<rparr>) = eptr_ok f" "eptr_ok (f\<lparr>m_steal := t\<rparr>) = eptr_ok f"
  "eptr_ok (fr_reset f) = eptr_ok f" "eptr_ok (frame_new c st)"
  "pending_exn (f\<lparr>m_join := j\<rparr>) = pending_exn f" "pending_exn (f\<lparr>m_steal := t\<rparr>) = pending_exn f"
  "pending_exn (fr_reset f) = pending_exn f" "pending_exn (frame_new c st) = None"
  by (simp_all add: eptr_ok_def pending_exn_def fr_reset_def frame_new_def)

end
