(* ===== verification/Fork_Join.thy ===== *)
theory Fork_Join
  imports Frame
begin

text \<open>
  The join protocol of one task (its \<open>frame\<close>) with its children: \<open>fork_awaitable\<close>, the stealing
  \<open>resume\<close>, \<open>join_awaitable\<close> (\<open>impl/awaitables.hpp\<close>, \<open>ext/resume.hpp\<close>) and
  \<open>detail::final_await_suspend\<close> (\<open>impl/promise.hpp\<close>), one step per access to the shared counters.

  The task's own strand is in one of the places of \<open>join_pc\<close>. A child whose parent was stolen
  while it ran is detached: \<open>fj_out\<close> counts the detached children that have not yet done their
  \<open>fetch_sub_joins\<close>. A child that threw called \<open>capture_exception\<close> on the parent before.
\<close>

datatype join_pc =
    J_run            \<comment> \<open>the task's body runs\<close>
  | J_forked         \<comment> \<open>a child runs, the task is in a deque\<close>
  | J_stolen         \<comment> \<open>a thief took the task and has not counted the steal yet\<close>
  | J_suspend        \<comment> \<open>at the join, \<open>await_ready\<close> said no\<close>
  | J_suspended      \<comment> \<open>at the join, waiting for the last child\<close>
  | J_reset          \<comment> \<open>won the join, before \<open>reset\<close>\<close>
  | J_child_reset    \<comment> \<open>a child won the join for it, before \<open>reset\<close>\<close>
  | J_resume         \<comment> \<open>in \<open>await_resume\<close>\<close>

record 'e fj_sys =
  fj_frame :: "'e frame"
  fj_out :: nat
  fj_pc :: join_pc

datatype 'e fj_event = K_tau | K_steal | K_throw 'e | K_child_wins | K_joined "'e option"

definition fj_init :: "nat \<Rightarrow> nat \<Rightarrow> 'e fj_sys" where
  "fj_init coro stacklet = \<lparr>fj_frame = frame_new coro stacklet, fj_out = 0, fj_pc = J_run\<rparr>"

text \<open>The comparisons are between 16-bit values promoted to \<open>int\<close>.\<close>

definition join_await_ready :: "'e frame \<Rightarrow> bool" where
  "join_await_ready f \<longleftrightarrow> (let joined = uint k_u16_max - uint (load_joins f) in uint (load_steals f) = joined)"

definition join_wins :: "u16 \<Rightarrow> u16 \<Rightarrow> bool" where
  "join_wins steals joined \<longleftrightarrow> uint steals = uint k_u16_max - uint joined"

text \<open>The steps of the task's strand, whichever worker runs it.\<close>

inductive task_step :: "'e fj_sys \<Rightarrow> 'e fj_event \<Rightarrow> 'e fj_sys \<Rightarrow> bool" where
  task_fork: "fj_pc s = J_run \<Longrightarrow>
     task_step s K_tau (s\<lparr>fj_pc := J_forked\<rparr>)"
| task_popped: "fj_pc s = J_forked \<Longrightarrow>
     task_step s K_tau (s\<lparr>fj_pc := J_run\<rparr>)"
| task_stolen: "fj_pc s = J_forked \<Longrightarrow>
     task_step s K_steal (s\<lparr>fj_pc := J_stolen, fj_out := fj_out s + 1\<rparr>)"
| task_resume_stolen: "fj_pc s = J_stolen \<Longrightarrow> fetch_add_steal (fj_frame s) = (prev, f) \<Longrightarrow>
     task_step s K_tau (s\<lparr>fj_pc := J_run, fj_frame := f\<rparr>)"
| task_join_no_steals: "fj_pc s = J_run \<Longrightarrow> load_steals (fj_frame s) = 0 \<Longrightarrow>
     task_step s K_tau (s\<lparr>fj_pc := J_resume\<rparr>)"
| task_join_ready: "fj_pc s = J_run \<Longrightarrow> load_steals (fj_frame s) \<noteq> 0 \<Longrightarrow> join_await_ready (fj_frame s) \<Longrightarrow>
     task_step s K_tau (s\<lparr>fj_pc := J_reset\<rparr>)"
| task_join_not_ready: "fj_pc s = J_run \<Longrightarrow> load_steals (fj_frame s) \<noteq> 0 \<Longrightarrow> \<not> join_await_ready (fj_frame s) \<Longrightarrow>
     task_step s K_tau (s\<lparr>fj_pc := J_suspend\<rparr>)"
| task_suspend: "fj_pc s = J_suspend \<Longrightarrow> steals = load_steals (fj_frame s) \<Longrightarrow>
     fetch_sub_joins (k_u16_max - steals) (fj_frame s) = (joined, f) \<Longrightarrow>
     task_step s K_tau (s\<lparr>fj_frame := f, fj_pc := if join_wins steals joined then J_reset else J_suspended\<rparr>)"
| task_reset: "fj_pc s = J_reset \<Longrightarrow>
     task_step s K_tau (s\<lparr>fj_pc := J_resume, fj_frame := fr_reset (fj_frame s)\<rparr>)"
| task_child_reset: "fj_pc s = J_child_reset \<Longrightarrow>
     task_step s K_tau (s\<lparr>fj_pc := J_resume, fj_frame := fr_reset (fj_frame s)\<rparr>)"
| task_resume: "fj_pc s = J_resume \<Longrightarrow> load_steals (fj_frame s) = 0 \<Longrightarrow> load_joins (fj_frame s) = k_u16_max \<Longrightarrow>
     unsafe_rethrow_if_exception (fj_frame s) = Some (r, f) \<Longrightarrow>
     task_step s (K_joined (case r of Inl e \<Rightarrow> Some e | Inr _ \<Rightarrow> None)) (s\<lparr>fj_pc := J_run, fj_frame := f\<rparr>)"

text \<open>
  The steps of the children: an exception, by a detached child or by the one that runs while the
  task is in the deque; and the end of a detached child. The child that sees 1 takes the task
  over, wherever the task's strand is.
\<close>

inductive child_step :: "'e fj_sys \<Rightarrow> 'e fj_event \<Rightarrow> 'e fj_sys \<Rightarrow> bool" where
  child_throws: "0 < fj_out s \<or> fj_pc s = J_forked \<Longrightarrow>
     child_step s (K_throw e) (s\<lparr>fj_frame := capture_exception e (fj_frame s)\<rparr>)"
| child_not_last: "0 < fj_out s \<Longrightarrow> fetch_sub_joins 1 (fj_frame s) = (prev, f) \<Longrightarrow> prev \<noteq> 1 \<Longrightarrow>
     child_step s K_tau (s\<lparr>fj_frame := f, fj_out := fj_out s - 1\<rparr>)"
| child_last: "0 < fj_out s \<Longrightarrow> fetch_sub_joins 1 (fj_frame s) = (prev, f) \<Longrightarrow> prev = 1 \<Longrightarrow>
     child_step s K_child_wins (s\<lparr>fj_frame := f, fj_out := fj_out s - 1, fj_pc := J_child_reset\<rparr>)"

definition fj_step :: "'e fj_sys \<Rightarrow> 'e fj_event \<Rightarrow> 'e fj_sys \<Rightarrow> bool" where
  "fj_step s e s' \<longleftrightarrow> task_step s e s' \<or> child_step s e s'"

inductive fj_run :: "'e fj_sys \<Rightarrow> 'e fj_event list \<Rightarrow> 'e fj_sys \<Rightarrow> bool" where
  fj_run_nil: "fj_run s [] s"
| fj_run_step: "fj_run s es t \<Longrightarrow> fj_step t e u \<Longrightarrow> fj_run s (es @ [e]) u"

text \<open>What happened since the last join was passed.\<close>

fun is_joined :: "'e fj_event \<Rightarrow> bool" where
  "is_joined (K_joined _) = True" | "is_joined _ = False"

fun is_steal :: "'e fj_event \<Rightarrow> bool" where
  "is_steal K_steal = True" | "is_steal _ = False"

fun thrown :: "'e fj_event \<Rightarrow> 'e list" where
  "thrown (K_throw e) = [e]" | "thrown _ = []"

definition scope :: "'e fj_event list \<Rightarrow> 'e fj_event list" where
  "scope es = rev (takeWhile (\<lambda>e. \<not> is_joined e) (rev es))"

definition scope_steals :: "'e fj_event list \<Rightarrow> nat" where
  "scope_steals es = length (filter is_steal (scope es))"

definition scope_exn :: "'e fj_event list \<Rightarrow> 'e option" where
  "scope_exn es = (case concat (map thrown (scope es)) of [] \<Rightarrow> None | e # _ \<Rightarrow> Some e)"

text \<open>Fewer than 65535 steals of the task in any one fork-join scope.\<close>

definition steals_bounded :: "'e fj_event list \<Rightarrow> bool" where
  "steals_bounded es \<longleftrightarrow> (\<forall>k \<le> length es. scope_steals (take k es) < 65535)"

section \<open>Invariant\<close>

text \<open>\<open>n\<close> steals so far in the scope, \<open>j\<close> children joined.\<close>

fun counters_ok :: "join_pc \<Rightarrow> nat \<Rightarrow> nat \<Rightarrow> nat \<Rightarrow> 'e frame \<Rightarrow> bool" where
  "counters_ok J_stolen n j k f \<longleftrightarrow> m_steal f = of_nat (n - 1) \<and> m_join f = of_nat (65535 - j) \<and> n = j + k \<and> 0 < n"
| "counters_ok J_suspended n j k f \<longleftrightarrow> m_join f = of_nat (n - j) \<and> n = j + k \<and> 0 < k"
| "counters_ok J_reset n j k f \<longleftrightarrow> k = 0"
| "counters_ok J_child_reset n j k f \<longleftrightarrow> k = 0"
| "counters_ok J_resume n j k f \<longleftrightarrow> m_steal f = 0 \<and> m_join f = k_u16_max \<and> k = 0"
| "counters_ok _ n j k f \<longleftrightarrow> m_steal f = of_nat n \<and> m_join f = of_nat (65535 - j) \<and> n = j + k"

definition fj_inv :: "nat \<Rightarrow> 'e option \<Rightarrow> 'e fj_sys \<Rightarrow> bool" where
  "fj_inv n x s \<longleftrightarrow> (\<exists>j. counters_ok (fj_pc s) n j (fj_out s) (fj_frame s))
     \<and> eptr_ok (fj_frame s) \<and> pending_exn (fj_frame s) = x"

lemma fj_inv_init: "fj_inv 0 None (fj_init c st)"
  by (simp add: fj_inv_def fj_init_def) (simp add: frame_new_def k_u16_max_def)

lemma u16_of_nat_eq: "a < 65536 \<Longrightarrow> b < 65536 \<Longrightarrow> (of_nat a :: u16) = of_nat b \<longleftrightarrow> a = b"
  by (simp add: word_of_nat_eq_iff take_bit_eq_mod)

lemma u16_uint_of_nat: "a < 65536 \<Longrightarrow> uint (of_nat a :: u16) = int a"
  by (simp add: uint_nat unat_of_nat)

lemma u16_sub: "b \<le> a \<Longrightarrow> (of_nat a :: u16) - of_nat b = of_nat (a - b)"
  by simp

lemma u16_eq_1: "a < 65536 \<Longrightarrow> (of_nat a :: u16) = 1 \<longleftrightarrow> a = 1"
  using u16_of_nat_eq [of a 1] by simp

lemma u16_eq_0: "a < 65536 \<Longrightarrow> (of_nat a :: u16) = 0 \<longleftrightarrow> a = 0"
  using u16_of_nat_eq [of a 0] by simp

lemma u16_max_of_nat: "k_u16_max = of_nat 65535"
  by (simp add: k_u16_max_def)

text \<open>Both tests of the join compare the number of steals with the number of joined children.\<close>

lemma join_await_ready_iff:
  assumes "m_steal f = of_nat n" "m_join f = of_nat (65535 - j)" "n < 65536" "j \<le> n" "n \<le> 65535"
  shows "join_await_ready f \<longleftrightarrow> n = j"
  using assms by (auto simp: join_await_ready_def load_joins_def load_steals_def u16_max_of_nat
      u16_uint_of_nat simp del: of_nat_diff of_nat_numeral)

lemma join_wins_iff:
  assumes "n < 65536" "j \<le> n" "n \<le> 65535"
  shows "join_wins (of_nat n) (of_nat (65535 - j)) \<longleftrightarrow> n = j"
  using assms by (auto simp: join_wins_def u16_max_of_nat u16_uint_of_nat simp del: of_nat_diff of_nat_numeral)

lemma joins_after_suspend:
  assumes "j \<le> n" "n \<le> 65535"
  shows "(of_nat (65535 - j) :: u16) - (k_u16_max - of_nat n) = of_nat (n - j)"
  using assms by (simp add: u16_max_of_nat of_nat_diff algebra_simps)

lemma task_step_inv:
  assumes "task_step s e s'" and inv: "fj_inv n x s" and bound: "n < 65535"
  shows "(\<exists>y. e = K_joined y \<and> y = x \<and> fj_inv 0 None s')
     \<or> e = K_steal \<and> fj_inv (Suc n) x s'
     \<or> e = K_tau \<and> fj_inv n x s'"
proof -
  from inv obtain j where ok: "counters_ok (fj_pc s) n j (fj_out s) (fj_frame s)"
    and ex: "eptr_ok (fj_frame s)" "pending_exn (fj_frame s) = x" by (auto simp: fj_inv_def)
  from assms(1) show ?thesis
  proof (cases rule: task_step.cases)
    case task_stolen
    with ok ex have "counters_ok J_stolen (Suc n) j (Suc (fj_out s)) (fj_frame s)" by simp
    with task_stolen ex show ?thesis by (auto simp: fj_inv_def)
  next
    case (task_resume_stolen prev f)
    with ok have "0 < n" "m_steal (fj_frame s) + 1 = of_nat n" by (auto simp: of_nat_diff)
    with task_resume_stolen ok ex show ?thesis by (auto simp: fj_inv_def fetch_add_steal_def)
  next
    case task_join_no_steals
    from ok task_join_no_steals(3) have "m_steal (fj_frame s) = of_nat n" by simp
    with task_join_no_steals(4) have "(of_nat n :: u16) = 0" unfolding load_steals_def by metis
    then have "n = 0" using u16_eq_0 [of n] bound by simp
    with task_join_no_steals ok ex show ?thesis by (auto simp: fj_inv_def k_u16_max_def)
  next
    case task_join_ready
    with ok bound join_await_ready_iff [of "fj_frame s" n j] have "n = j" by simp
    with task_join_ready ok ex show ?thesis by (auto simp: fj_inv_def)
  next
    case (task_suspend steals joined f)
    from task_suspend ok have eqs: "steals = of_nat n" "joined = of_nat (65535 - j)" "n = j + fj_out s"
      "f = (fj_frame s)\<lparr>m_join := of_nat (65535 - j) - (k_u16_max - of_nat n)\<rparr>"
      by (auto simp: load_steals_def fetch_sub_joins_def)
    then have f: "f = (fj_frame s)\<lparr>m_join := of_nat (n - j)\<rparr>"
      using joins_after_suspend [of j n] bound by simp
    have "join_wins steals joined \<longleftrightarrow> fj_out s = 0"
      using join_wins_iff [of n j] eqs bound by (simp del: of_nat_diff)
    with task_suspend(1,2) f eqs(3) ex show ?thesis
      by (cases "fj_out s = 0") (auto simp: fj_inv_def simp del: of_nat_diff)
  next
    case task_reset
    with ok ex show ?thesis by (auto simp: fj_inv_def) (simp_all add: fr_reset_def)
  next
    case task_child_reset
    with ok ex show ?thesis by (auto simp: fj_inv_def) (simp_all add: fr_reset_def)
  next
    case (task_resume r f)
    with rethrow_if_ok [OF ex(1)] ex ok show ?thesis
      by (auto simp: fj_inv_def eptr_ok_def pending_exn_def k_u16_max_def split: option.splits if_splits)
  qed (use ok ex in \<open>auto simp: fj_inv_def\<close>)
qed

lemma child_step_inv:
  assumes "child_step s e s'" and inv: "fj_inv n x s" and bound: "n < 65535"
  shows "(\<exists>y. e = K_throw y \<and> fj_inv n (case x of None \<Rightarrow> Some y | Some z \<Rightarrow> Some z) s')
     \<or> e = K_tau \<and> fj_inv n x s'
     \<or> e = K_child_wins \<and> fj_inv n x s' \<and> fj_pc s = J_suspended \<and> fj_out s = 1"
proof -
  from inv obtain j where ok: "counters_ok (fj_pc s) n j (fj_out s) (fj_frame s)"
    and ex: "eptr_ok (fj_frame s)" "pending_exn (fj_frame s) = x" by (auto simp: fj_inv_def)
  have dec: "(of_nat (65535 - j) :: u16) - 1 = of_nat (65535 - Suc j)" "(of_nat (65535 - j) :: u16) \<noteq> 1"
    if "j < n"
  proof -
    from that bound have lt: "Suc j < 65535" by simp
    then show "(of_nat (65535 - j) :: u16) \<noteq> 1" using u16_eq_1 [of "65535 - j"] by (simp del: of_nat_diff)
    show "(of_nat (65535 - j) :: u16) - 1 = of_nat (65535 - Suc j)"
      using u16_sub [of 1 "65535 - j"] lt by (simp del: of_nat_diff)
  qed
  have lt: "n = j + fj_out s \<Longrightarrow> 0 < fj_out s \<Longrightarrow> j < n" by simp
  from assms(1) show ?thesis
  proof (cases rule: child_step.cases)
    case (child_throws y)
    have "counters_ok (fj_pc s) n j (fj_out s) (capture_exception y (fj_frame s))"
      using ok by (cases "fj_pc s") auto
    with child_throws capture_exception_ok [OF ex(1), of y] ex(2) show ?thesis by (auto simp: fj_inv_def)
  next
    case (child_not_last prev f)
    then have f: "f = (fj_frame s)\<lparr>m_join := m_join (fj_frame s) - 1\<rparr>" "m_join (fj_frame s) \<noteq> 1"
      by (auto simp: fetch_sub_joins_def)
    have "counters_ok (fj_pc s) n (Suc j) (fj_out s - 1) f"
    proof (cases "fj_pc s")
      case J_suspended
      then have m: "m_join (fj_frame s) = of_nat (fj_out s)" "n = j + fj_out s" using ok by auto
      with f(2) child_not_last(3) have "Suc 0 < fj_out s" by (cases "fj_out s = 1") auto
      with J_suspended m f(1) show ?thesis by (simp add: of_nat_diff)
    qed (use ok f(1) dec lt child_not_last(3) in \<open>auto simp del: of_nat_diff\<close>)
    with child_not_last ex f(1) show ?thesis by (auto simp: fj_inv_def)
  next
    case (child_last prev f)
    then have f: "f = (fj_frame s)\<lparr>m_join := m_join (fj_frame s) - 1\<rparr>" "m_join (fj_frame s) = 1"
      by (auto simp: fetch_sub_joins_def)
    have pc: "fj_pc s = J_suspended"
      using ok f(2) dec(2) lt child_last(3) by (cases "fj_pc s") (auto simp del: of_nat_diff)
    with ok have "m_join (fj_frame s) = of_nat (fj_out s)" "fj_out s \<le> n" by auto
    with f(2) bound u16_eq_1 [of "fj_out s"] have out: "fj_out s = 1" by simp
    with child_last ex f(1) pc show ?thesis by (auto simp: fj_inv_def)
  qed
qed

lemma scope_snoc:
  "scope [] = []" "is_joined e \<Longrightarrow> scope (es @ [e]) = []" "\<not> is_joined e \<Longrightarrow> scope (es @ [e]) = scope es @ [e]"
  by (simp_all add: scope_def)

lemma scope_no_join: "\<forall>y. K_joined y \<notin> set es \<Longrightarrow> scope es = es"
proof -
  assume "\<forall>y. K_joined y \<notin> set es"
  then have "\<not> is_joined e" if "e \<in> set (rev es)" for e using that by (cases e) auto
  then have "takeWhile (\<lambda>e. \<not> is_joined e) (rev es) = rev es" by (simp only: takeWhile_eq_all_conv) blast
  then show ?thesis unfolding scope_def by (metis rev_rev_ident)
qed

lemma first_snoc:
  "(case xs @ [y] of [] \<Rightarrow> None | e # _ \<Rightarrow> Some e) =
   (case (case xs of [] \<Rightarrow> None | e # _ \<Rightarrow> Some e) of None \<Rightarrow> Some y | Some z \<Rightarrow> Some z)"
  by (cases xs) auto

lemma scope_exn_snoc:
  "scope_exn [] = None" "is_joined e \<Longrightarrow> scope_exn (es @ [e]) = None"
  "scope_exn (es @ [K_throw y]) = (case scope_exn es of None \<Rightarrow> Some y | Some z \<Rightarrow> Some z)"
  "\<not> is_joined e \<Longrightarrow> thrown e = [] \<Longrightarrow> scope_exn (es @ [e]) = scope_exn es"
  by (simp_all add: scope_exn_def scope_snoc first_snoc)

lemma scope_steals_snoc:
  "scope_steals [] = 0" "is_joined e \<Longrightarrow> scope_steals (es @ [e]) = 0"
  "\<not> is_joined e \<Longrightarrow> scope_steals (es @ [e]) = scope_steals es + (if is_steal e then 1 else 0)"
  by (auto simp: scope_steals_def scope_snoc)

lemmas scope_snocs = scope_exn_snoc scope_steals_snoc

lemma steals_bounded_snoc: "steals_bounded (es @ [e]) \<Longrightarrow> steals_bounded es \<and> scope_steals es < 65535"
proof -
  assume b: "steals_bounded (es @ [e])"
  have "scope_steals (take k es) < 65535" if "k \<le> length es" for k
  proof -
    from that have "k \<le> length (es @ [e])" by simp
    from b [unfolded steals_bounded_def, rule_format, OF this] that show ?thesis by simp
  qed
  then show ?thesis unfolding steals_bounded_def by (metis order_refl take_all)
qed

lemma fj_run_inv:
  assumes "fj_run s es t" "fj_inv 0 None s" "steals_bounded es"
  shows "fj_inv (scope_steals es) (scope_exn es) t"
  using assms
proof (induction rule: fj_run.induct)
  case (fj_run_nil s)
  then show ?case by (simp add: scope_snocs)
next
  case (fj_run_step s es t e u)
  from steals_bounded_snoc [OF fj_run_step.prems(2)] fj_run_step.IH fj_run_step.prems(1)
  have inv: "fj_inv (scope_steals es) (scope_exn es) t" and b: "scope_steals es < 65535" by auto
  from fj_run_step.hyps(2) consider "task_step t e u" | "child_step t e u" unfolding fj_step_def by blast
  then show ?case
  proof cases
    case 1
    from task_step_inv [OF 1 inv b] show ?thesis by (auto simp: scope_snocs)
  next
    case 2
    from child_step_inv [OF 2 inv b] show ?thesis by (auto simp: scope_snocs)
  qed
qed

section \<open>Progress\<close>

text \<open>How far the task's strand is from passing its join, if nobody steals.\<close>

fun join_rank :: "join_pc \<Rightarrow> nat" where
  "join_rank J_forked = 6" | "join_rank J_stolen = 6" | "join_rank J_run = 5" | "join_rank J_suspend = 4"
| "join_rank J_suspended = 3" | "join_rank J_reset = 2" | "join_rank J_child_reset = 2" | "join_rank J_resume = 1"

definition join_distance :: "'e fj_sys \<Rightarrow> nat" where
  "join_distance s = fj_out s + join_rank (fj_pc s)"

text \<open>A step towards the join: of the task, or, when it is suspended, of a child.\<close>

definition approaches :: "'e fj_sys \<Rightarrow> 'e fj_event \<Rightarrow> 'e fj_sys \<Rightarrow> bool" where
  "approaches s e s' \<longleftrightarrow> (if fj_pc s = J_suspended then child_step s e s' else task_step s e s')
     \<and> ((\<exists>y. e = K_joined y) \<or> e \<in> {K_tau, K_child_wins} \<and> join_distance s' < join_distance s)"

lemma task_approaches:
  "task_step s e s' \<Longrightarrow> fj_pc s \<noteq> J_suspended \<Longrightarrow> (\<exists>y. e = K_joined y) \<or> e = K_tau \<and> join_distance s' < join_distance s
     \<Longrightarrow> \<exists>e s'. approaches s e s'"
  unfolding approaches_def by auto

lemma fj_progress:
  assumes inv: "fj_inv n x s"
  shows "\<exists>e s'. approaches s e s'"
proof -
  from inv obtain j where ok: "counters_ok (fj_pc s) n j (fj_out s) (fj_frame s)"
    and ex: "eptr_ok (fj_frame s)" by (auto simp: fj_inv_def)
  show ?thesis
  proof (cases "fj_pc s")
    case J_resume
    with ok rethrow_if_ok [OF ex] obtain r f where "load_steals (fj_frame s) = 0"
      "load_joins (fj_frame s) = k_u16_max" "unsafe_rethrow_if_exception (fj_frame s) = Some (r, f)"
      by (auto simp: load_steals_def load_joins_def) fastforce
    from task_approaches [OF task_step.task_resume [OF J_resume this]] J_resume show ?thesis by auto
  next
    case J_run
    then show ?thesis
      using task_approaches [OF task_step.task_join_no_steals [OF J_run]] task_approaches [OF task_step.task_join_ready [OF J_run]]
        task_approaches [OF task_step.task_join_not_ready [OF J_run]]
      by (cases "load_steals (fj_frame s) = 0"; cases "join_await_ready (fj_frame s)") (simp_all add: join_distance_def)
  next
    case J_forked
    with task_approaches [OF task_step.task_popped [OF J_forked]] show ?thesis by (simp add: join_distance_def)
  next
    case J_stolen
    with task_approaches [OF task_step.task_resume_stolen [OF J_stolen prod.collapse [symmetric]]] show ?thesis
      by (simp add: join_distance_def)
  next
    case J_suspend
    with task_approaches [OF task_step.task_suspend [OF J_suspend refl prod.collapse [symmetric]]] show ?thesis
      by (simp add: join_distance_def)
  next
    case J_reset
    with task_approaches [OF task_step.task_reset [OF J_reset]] show ?thesis by (simp add: join_distance_def)
  next
    case J_child_reset
    with task_approaches [OF task_step.task_child_reset [OF J_child_reset]] show ?thesis by (simp add: join_distance_def)
  next
    case J_suspended
    with ok have out: "0 < fj_out s" by simp
    obtain prev f where pf: "fetch_sub_joins 1 (fj_frame s) = (prev, f)" by fastforce
    show ?thesis
      using child_step.child_last [OF out pf] child_step.child_not_last [OF out pf] out J_suspended
      by (cases "prev = 1") (force simp: approaches_def join_distance_def)+
  qed
qed

lemma fj_run_Cons: "fj_run t es u \<Longrightarrow> fj_step s e t \<Longrightarrow> fj_run s (e # es) u"
proof (induction rule: fj_run.induct)
  case (fj_run_nil s')
  then show ?case using fj_run_step [OF fj_run.fj_run_nil] by fastforce
next
  case (fj_run_step s' es t e' u)
  from fj_run.fj_run_step [OF fj_run_step.IH [OF fj_run_step.prems] fj_run_step.hyps(2)] show ?case by simp
qed

text \<open>With no further steals and forks the join is passed, whatever has happened before.\<close>

lemma fj_reaches_join:
  assumes "fj_inv n x s" "n < 65535"
  shows "\<exists>ds y u. fj_run s (ds @ [K_joined y]) u \<and> set ds \<subseteq> {K_tau, K_child_wins}"
  using assms
proof (induction "join_distance s" arbitrary: s rule: less_induct)
  case less
  from fj_progress [OF less.prems(1)] obtain e s' where e: "approaches s e s'" by blast
  then have step: "fj_step s e s'" by (auto simp: approaches_def fj_step_def split: if_splits)
  show ?case
  proof (cases "\<exists>y. e = K_joined y")
    case True
    with fj_run_step [OF fj_run_nil step] show ?thesis by (metis append_Nil empty_subsetI set_empty2)
  next
    case False
    with e have d: "e \<in> {K_tau, K_child_wins}" "join_distance s' < join_distance s" by (auto simp: approaches_def)
    from step have "fj_inv n x s'"
      using task_step_inv [OF _ less.prems] child_step_inv [OF _ less.prems] d(1) unfolding fj_step_def by fastforce
    from less.hyps [OF d(2) this less.prems(2)] obtain ds y u where
      "fj_run s' (ds @ [K_joined y]) u" "set ds \<subseteq> {K_tau, K_child_wins}" by blast
    with fj_run_Cons [OF this(1) step] d(1) show ?thesis by (intro exI [of _ "e # ds"]) auto
  qed
qed

section \<open>Properties\<close>

text \<open>
  Property C2. The join is passed exactly when all children are done, once, by exactly one
  strand: in any interleaving with fewer than 65535 steals per fork-join scope, whenever the task
  is between winning the join and its body no child is outstanding; a child that takes the task
  over finds it suspended at the join and is the last one outstanding; and a task suspended at
  the join always has an outstanding child, so it is not forgotten.
\<close>

theorem join_exactly_once:
  assumes "fj_run (fj_init c st) es s" "steals_bounded es"
  shows "(fj_pc s \<in> {J_reset, J_child_reset, J_resume} \<longrightarrow> fj_out s = 0)
     \<and> (\<forall>s'. child_step s K_child_wins s' \<longrightarrow> fj_pc s = J_suspended \<and> fj_out s = 1)
     \<and> (fj_pc s = J_suspended \<longrightarrow> 0 < fj_out s)"
proof -
  note inv = fj_run_inv [OF assms(1) fj_inv_init assms(2)]
  have b: "scope_steals es < 65535" using assms(2) by (metis order_refl steals_bounded_def take_all)
  have "fj_pc s = J_suspended \<and> fj_out s = 1" if "child_step s K_child_wins s'" for s'
    using child_step_inv [OF that inv b] by auto
  moreover have "fj_pc s \<in> {J_reset, J_child_reset, J_resume} \<longrightarrow> fj_out s = 0" "fj_pc s = J_suspended \<longrightarrow> 0 < fj_out s"
    using inv by (auto simp: fj_inv_def)
  ultimately show ?thesis by blast
qed

text \<open>
  Property C17. With fewer than 65535 steals per scope the protocol never blocks: in every reachable
  state the task or, while it is suspended at the join, a child can take a step, and the join can be
  passed by steps of the task and ends of children alone, with no help from a thief.  Whenever
  \<open>await_resume\<close> is reached its assertions on the counters (no steals, the join counter reset)
  hold.  The assertion on the worker's stack is the subject of \<open>join_ready_resumes\<close> in \<open>Awaitables\<close>.
\<close>

theorem join_never_stuck:
  assumes "fj_run (fj_init c st) es s" "steals_bounded es"
  shows "(\<exists>e s'. if fj_pc s = J_suspended then child_step s e s' else task_step s e s')
     \<and> (\<exists>ds y u. fj_run s (ds @ [K_joined y]) u \<and> set ds \<subseteq> {K_tau, K_child_wins})
     \<and> (fj_pc s = J_resume \<longrightarrow> load_steals (fj_frame s) = 0 \<and> load_joins (fj_frame s) = k_u16_max)"
proof (intro conjI)
  have b: "scope_steals es < 65535" using assms(2) by (metis order_refl steals_bounded_def take_all)
  note inv = fj_run_inv [OF assms(1) fj_inv_init assms(2)]
  from fj_progress [OF inv] show "\<exists>e s'. if fj_pc s = J_suspended then child_step s e s' else task_step s e s'"
    unfolding approaches_def by blast
  from fj_reaches_join [OF inv b] show "\<exists>ds y u. fj_run s (ds @ [K_joined y]) u \<and> set ds \<subseteq> {K_tau, K_child_wins}" .
  from inv show "fj_pc s = J_resume \<longrightarrow> load_steals (fj_frame s) = 0 \<and> load_joins (fj_frame s) = k_u16_max"
    by (auto simp: fj_inv_def load_steals_def load_joins_def)
qed

text \<open>
  Property C10. With fewer than 65535 steals per scope, passing a join throws the exception that was
  captured first in this fork-join scope, if any child threw, and leaves the frame without one and
  its counters reset: the next scope starts clean.
\<close>

theorem join_rethrows_first:
  assumes "fj_run (fj_init c st) es s" "steals_bounded es" "fj_step s (K_joined y) s'"
  shows "y = scope_exn es \<and> \<not> m_except (fj_frame s') \<and> m_steal (fj_frame s') = 0
     \<and> m_join (fj_frame s') = k_u16_max \<and> fj_out s' = 0"
proof -
  have b: "scope_steals es < 65535" using assms(2) by (metis order_refl steals_bounded_def take_all)
  note inv = fj_run_inv [OF assms(1) fj_inv_init assms(2)]
  from assms(3) have "task_step s (K_joined y) s'"
    unfolding fj_step_def by (auto elim: child_step.cases)
  from task_step_inv [OF this inv b] have y: "y = scope_exn es" and inv': "fj_inv 0 None s'" by auto
  from \<open>task_step s (K_joined y) s'\<close> have "fj_pc s' = J_run" by (cases rule: task_step.cases) auto
  with inv' y show ?thesis
    by (auto simp: fj_inv_def eptr_ok_def pending_exn_def k_u16_max_def split: option.splits if_splits)
qed

text \<open>A run to a suspended join, and one of a child that throws; used by the witnesses.\<close>

definition fj_at :: "u16 \<Rightarrow> u16 \<Rightarrow> nat \<Rightarrow> join_pc \<Rightarrow> nat fj_sys" where
  "fj_at steals joins k pc =
     \<lparr>fj_frame = (frame_new 0 0)\<lparr>m_steal := steals, m_join := joins\<rparr>, fj_out = k, fj_pc = pc\<rparr>"

lemma fj_at_init: "fj_init 0 0 = fj_at 0 k_u16_max 0 J_run"
  by (simp add: fj_init_def fj_at_def frame_new_def)

lemma fj_at_steps:
  "fj_step (fj_at i j k J_run) K_tau (fj_at i j k J_forked)"
  "fj_step (fj_at i j k J_forked) K_steal (fj_at i j (Suc k) J_stolen)"
  "fj_step (fj_at i j k J_stolen) K_tau (fj_at (i + 1) j k J_run)"
  using task_step.task_fork [of "fj_at i j k J_run"] task_step.task_stolen [of "fj_at i j k J_forked"]
    task_step.task_resume_stolen [of "fj_at i j k J_stolen"]
  by (simp_all add: fj_step_def fj_at_def fetch_add_steal_def frame_new_def)

lemma fj_at_child: "j \<noteq> 1 \<Longrightarrow> fj_step (fj_at i j (Suc k) pc) K_tau (fj_at i (j - 1) k pc)"
  using child_step.child_not_last [of "fj_at i j (Suc k) pc"]
  by (simp add: fj_step_def fj_at_def fetch_sub_joins_def)

lemmas fj_run_1 = fj_run_step [OF fj_run_nil]

lemma fj_at_stolen: "fj_run (fj_at i j k J_run) [K_tau, K_steal, K_tau] (fj_at (i + 1) j (Suc k) J_run)"
  using fj_run_step [OF fj_run_step [OF fj_run_1 [OF fj_at_steps(1)] fj_at_steps(2)] fj_at_steps(3)] by simp

lemma fj_demo_run:
  "fj_run (fj_init 0 0) [K_tau, K_steal, K_tau, K_tau, K_tau] (fj_at 1 1 1 J_suspended)"
proof -
  have 1: "fj_step (fj_at 1 k_u16_max 1 J_run) K_tau (fj_at 1 k_u16_max 1 J_suspend)"
    using task_step.task_join_not_ready [of "fj_at 1 k_u16_max 1 J_run"]
    by (simp add: fj_step_def fj_at_def load_steals_def join_await_ready_def load_joins_def)
  have 2: "fj_step (fj_at 1 k_u16_max 1 J_suspend) K_tau (fj_at 1 1 1 J_suspended)"
    using task_step.task_suspend [of "fj_at 1 k_u16_max 1 J_suspend" 1]
    by (simp add: fj_step_def fj_at_def load_steals_def fetch_sub_joins_def join_wins_def k_u16_max_def)
  have 0: "fj_run (fj_init 0 0) [K_tau, K_steal, K_tau] (fj_at 1 k_u16_max 1 J_run)"
    using fj_at_stolen [of 0 k_u16_max 0] by (simp add: fj_at_init)
  show ?thesis using fj_run_step [OF fj_run_step [OF 0 1] 2] by simp
qed

lemma fj_demo_bounded: "steals_bounded [K_tau, K_steal, K_tau, K_tau, K_tau]"
  by (auto simp: steals_bounded_def scope_steals_def scope_def le_Suc_eq)

theorem join_exactly_once_witness:
  "fj_run (fj_init 0 0) [K_tau, K_steal, K_tau, K_tau, K_tau] (fj_at 1 1 1 J_suspended)
   \<and> steals_bounded [K_tau, K_steal, K_tau, K_tau, K_tau :: nat fj_event]
   \<and> fj_pc (fj_at 1 1 1 J_suspended) = J_suspended \<and> 0 < fj_out (fj_at 1 1 1 J_suspended)"
proof -
  have "fj_pc (fj_at 1 1 1 J_suspended) = J_suspended" by (simp add: fj_at_def)
  with fj_demo_run fj_demo_bounded join_exactly_once [OF fj_demo_run fj_demo_bounded] show ?thesis by blast
qed

theorem join_never_stuck_witness:
  "(\<exists>e s'. child_step (fj_at 1 1 1 J_suspended) e s')
   \<and> (\<exists>ds y u. fj_run (fj_at 1 1 1 J_suspended) (ds @ [K_joined y]) u \<and> set ds \<subseteq> {K_tau, K_child_wins})"
  using join_never_stuck [OF fj_demo_run fj_demo_bounded] by (simp add: fj_at_def)

theorem join_rethrows_first_witness:
  "\<exists>s s'. fj_run (fj_init 0 0) [K_tau, K_throw 7, K_throw 8, K_tau, K_tau] s
     \<and> fj_step s (K_joined (Some (7::nat))) s' \<and> \<not> m_except (fj_frame s')"
proof -
  let ?f = "capture_exception 8 (capture_exception 7 (frame_new 0 0)) :: nat frame"
  let ?s = "\<lambda>f pc. \<lparr>fj_frame = f, fj_out = 0, fj_pc = pc\<rparr> :: nat fj_sys"
  have 1: "fj_step (fj_init 0 0) K_tau (?s (frame_new 0 0) J_forked)"
    using task_step.task_fork [of "fj_init 0 0 :: nat fj_sys"] by (simp add: fj_step_def fj_init_def)
  have 2: "fj_step (?s f J_forked) (K_throw y) (?s (capture_exception y f) J_forked)" for f y
    using child_step.child_throws [of "?s f J_forked" y] by (simp add: fj_step_def)
  have 3: "fj_step (?s f J_forked) K_tau (?s f J_run)" for f
    using task_step.task_popped [of "?s f J_forked"] by (simp add: fj_step_def)
  have 4: "fj_step (?s ?f J_run) K_tau (?s ?f J_resume)"
    using task_step.task_join_no_steals [of "?s ?f J_run"] by (simp add: fj_step_def load_steals_def frame_new_def)
  have run: "fj_run (fj_init 0 0) [K_tau, K_throw 7, K_throw 8, K_tau, K_tau] (?s ?f J_resume)"
    using fj_run_step [OF fj_run_step [OF fj_run_step [OF fj_run_step [OF fj_run_1 [OF 1] 2] 2] 3] 4] by simp
  have bnd: "steals_bounded [K_tau, K_throw (7::nat), K_throw 8, K_tau, K_tau]"
    by (auto simp: steals_bounded_def scope_steals_def scope_def le_Suc_eq)
  have "unsafe_rethrow_if_exception ?f = Some (Inl 7, ?f\<lparr>m_eptr := None, m_except := False\<rparr>)"
    using rethrow_if_ok [of ?f] capture_exception_ok [of "capture_exception 7 (frame_new 0 0) :: nat frame" 8]
      capture_exception_ok [of "frame_new 0 0 :: nat frame" 7] by simp
  then have 5: "fj_step (?s ?f J_resume) (K_joined (Some 7)) (?s (?f\<lparr>m_eptr := None, m_except := False\<rparr>) J_run)"
    using task_step.task_resume [of "?s ?f J_resume" "Inl 7"]
    by (simp add: fj_step_def load_steals_def load_joins_def frame_new_def)
  from join_rethrows_first [OF run bnd 5] run 5 show ?thesis by blast
qed

text \<open>
  Property C36. The bound is needed: there is a run with no join passed, so within one scope, in which
  the task is stolen 65535 times, 65534 children have ended and the last one finds the 16-bit join
  counter at 1, although the task's body is still running: its end counts as the winning one and it
  takes the task over.
\<close>

theorem join_counter_overflow:
  "\<exists>es s s'. fj_run (fj_init 0 0 :: nat fj_sys) es s \<and> (\<forall>y. K_joined y \<notin> set es) \<and> scope_steals es = 65535
     \<and> fj_pc s = J_run \<and> fj_out s = 1 \<and> load_steals (fj_frame s) = 65535 \<and> load_joins (fj_frame s) = 1
     \<and> child_step s K_child_wins s' \<and> fj_pc s' = J_child_reset"
proof -
  have round: "\<exists>es. fj_run (fj_init 0 0) es (fj_at (of_nat n) (of_nat (65535 - n)) 0 J_run)
      \<and> (\<forall>y. K_joined y \<notin> set es) \<and> length (filter is_steal es) = n" if "n \<le> 65534" for n
    using that
  proof (induction n)
    case 0
    show ?case using fj_run_nil by (intro exI [of _ "[]"]) (simp add: fj_at_init k_u16_max_def)
  next
    case (Suc n)
    then obtain es where es: "fj_run (fj_init 0 0) es (fj_at (of_nat n) (of_nat (65535 - n)) 0 J_run)"
      "\<forall>y. K_joined y \<notin> set es" "length (filter is_steal es) = n" by auto
    have ne: "(of_nat (65535 - n) :: u16) \<noteq> 1"
      using u16_eq_1 [of "65535 - n"] Suc.prems by (simp del: of_nat_diff)
    have dec: "(of_nat (65535 - n) :: u16) - 1 = of_nat (65535 - Suc n)"
      using u16_sub [of 1 "65535 - n"] Suc.prems by (simp del: of_nat_diff)
    let ?es = "(((es @ [K_tau]) @ [K_steal]) @ [K_tau]) @ [K_tau]"
    from fj_run_step [OF fj_run_step [OF fj_run_step [OF fj_run_step [OF es(1) fj_at_steps(1)] fj_at_steps(2)]
          fj_at_steps(3)] fj_at_child [OF ne]]
    have "fj_run (fj_init 0 0) ?es (fj_at (of_nat (Suc n)) (of_nat (65535 - Suc n)) 0 J_run)"
      by (simp only: dec of_nat_Suc add.commute)
    moreover have "(\<forall>y. K_joined y \<notin> set ?es) \<and> length (filter is_steal ?es) = Suc n" using es(2,3) by auto
    ultimately show ?case by blast
  qed
  from round [OF order_refl] obtain es where es: "fj_run (fj_init 0 0) es (fj_at (of_nat 65534) (of_nat (65535 - 65534)) 0 J_run)"
    "\<forall>y. K_joined y \<notin> set es" "length (filter is_steal es) = 65534" by blast
  let ?s = "fj_at (of_nat 65534 + 1) 1 1 J_run" and ?es = "((es @ [K_tau]) @ [K_steal]) @ [K_tau]"
  have run: "fj_run (fj_init 0 0) ?es ?s"
    using fj_run_step [OF fj_run_step [OF fj_run_step [OF es(1) fj_at_steps(1)] fj_at_steps(2)] fj_at_steps(3)]
    by simp
  have none: "\<forall>y. K_joined y \<notin> set ?es" using es(2) by auto
  have "scope_steals ?es = 65535" using es(3) scope_no_join [OF none] by (simp add: scope_steals_def)
  moreover have "child_step ?s K_child_wins (fj_at (of_nat 65534 + 1) 0 0 J_child_reset)"
    using child_step.child_last [of ?s 1] by (simp add: fj_at_def fetch_sub_joins_def)
  moreover have "fj_pc ?s = J_run" "fj_out ?s = 1" "load_steals (fj_frame ?s) = 65535" "load_joins (fj_frame ?s) = 1"
    "fj_pc (fj_at (of_nat 65534 + 1) 0 0 J_child_reset :: nat fj_sys) = J_child_reset"
    by (simp_all add: fj_at_def load_steals_def load_joins_def)
  ultimately show ?thesis using run none by (intro exI conjI)
qed

end
