(* ===== verification/Intrusive_List.thy ===== *)
theory Intrusive_List
  imports Prelude
begin

text \<open>
  \<open>intrusive_list\<close> of \<open>include/libfork/core/ext/list.hpp\<close>: the multi-producer, single-consumer list
  through which tasks are submitted to a worker. Nodes live in a heap, a map from addresses to
  nodes; dereferencing an address that holds no node gives \<open>None\<close>.

  First the operations as functions of one thread, then their interleaving, one step per access
  to the shared head or to a node.
\<close>

record 'a node =
  m_data :: 'a
  m_next :: "nat option"

type_synonym 'a nheap = "nat \<rightharpoonup> 'a node"

definition node_new :: "'a \<Rightarrow> 'a node" where
  "node_new d = \<lparr>m_data = d, m_next = None\<rparr>"

definition unwrap :: "'a nheap \<Rightarrow> nat option \<Rightarrow> 'a option" where
  "unwrap h ptr = do { p \<leftarrow> ptr; nd \<leftarrow> h p; Some (m_data nd) }"

text \<open>
  \<open>for_each_elem\<close>: \<open>func\<close> gets the address of the element and may destroy its node; \<open>s\<close> is what
  else it changes.
\<close>

partial_function (option) for_each_elem ::
  "(nat \<Rightarrow> 'a nheap \<times> 's \<Rightarrow> ('a nheap \<times> 's) option) \<Rightarrow> nat option \<Rightarrow> 'a nheap \<times> 's \<Rightarrow> ('a nheap \<times> 's) option" where
  "for_each_elem func root hs =
     (case root of None \<Rightarrow> Some hs
      | Some p \<Rightarrow> do { nd \<leftarrow> fst hs p; hs' \<leftarrow> func p hs; for_each_elem func (m_next nd) hs' })"

text \<open>
  \<open>push\<close> alone in the system: the compare-exchange is a weak one and may fail \<open>spurious\<close> times
  before it succeeds.
\<close>

fun il_push_loop :: "nat \<Rightarrow> 'a nheap \<Rightarrow> nat option \<Rightarrow> nat option \<Rightarrow> nat \<Rightarrow> ('a nheap \<times> nat option) option" where
  "il_push_loop spurious h head stale n = do {
     nd \<leftarrow> h n;
     (let h' = h(n \<mapsto> nd\<lparr>m_next := stale\<rparr>) in
      case spurious of 0 \<Rightarrow> Some (h', Some n) | Suc k \<Rightarrow> il_push_loop k h' head head n) }"

definition il_push :: "nat \<Rightarrow> 'a nheap \<Rightarrow> nat option \<Rightarrow> nat \<Rightarrow> ('a nheap \<times> nat option) option" where
  "il_push spurious h head n = do {
     nd \<leftarrow> h n;
     lf_assert (m_next nd = None);
     il_push_loop spurious h head head n }"

partial_function (option) il_reverse ::
  "'a nheap \<Rightarrow> nat option \<Rightarrow> nat option \<Rightarrow> ('a nheap \<times> nat option) option" where
  "il_reverse h lst first =
     (case lst of None \<Rightarrow> Some (h, first)
      | Some p \<Rightarrow> do { nd \<leftarrow> h p; il_reverse (h(p \<mapsto> nd\<lparr>m_next := first\<rparr>)) (m_next nd) (Some p) })"

text \<open>\<open>try_pop_all\<close> returns the root, the heap and the new head.\<close>

definition il_try_pop_all :: "'a nheap \<Rightarrow> nat option \<Rightarrow> (nat option \<times> 'a nheap \<times> nat option) option" where
  "il_try_pop_all h head = do { (h', first) \<leftarrow> il_reverse h head None; Some (first, h', None) }"

section \<open>Interleaving of producers and the consumer\<close>

datatype prod_pc = P_idle | P_load nat | P_store nat "nat option" | P_cas nat "nat option"

datatype cons_pc = C_idle | C_rev "nat option" "nat option" | C_own "nat option"

record 'a il_sys =
  il_heap :: "'a nheap"
  il_head :: "nat option"
  il_prod :: "nat \<Rightarrow> prod_pc"
  il_cons :: cons_pc

datatype 'a il_event = L_tau | L_push 'a | L_consume 'a

definition il_init :: "'a il_sys" where
  "il_init = \<lparr>il_heap = Map.empty, il_head = None, il_prod = (\<lambda>_. P_idle), il_cons = C_idle\<rparr>"

definition set_prod :: "'a il_sys \<Rightarrow> nat \<Rightarrow> prod_pc \<Rightarrow> 'a il_sys" where
  "set_prod s i pc = s\<lparr>il_prod := (il_prod s)(i := pc)\<rparr>"

text \<open>
  \<open>push\<close> in thread \<open>i\<close>, called with a node just constructed at a free address (addresses may be
  reused). \<open>compare_exchange_weak\<close> may fail at any time, and then reloads \<open>stale_head\<close>.
\<close>

inductive prod_step :: "nat \<Rightarrow> 'a il_sys \<Rightarrow> 'a il_event \<Rightarrow> 'a il_sys \<Rightarrow> bool" where
  prod_call: "il_prod s i = P_idle \<Longrightarrow> il_heap s n = None \<Longrightarrow>
     prod_step i s L_tau ((set_prod s i (P_load n))\<lparr>il_heap := (il_heap s)(n \<mapsto> node_new d)\<rparr>)"
| prod_load: "il_prod s i = P_load n \<Longrightarrow>
     prod_step i s L_tau (set_prod s i (P_store n (il_head s)))"
| prod_store: "il_prod s i = P_store n st \<Longrightarrow> il_heap s n = Some nd \<Longrightarrow>
     prod_step i s L_tau ((set_prod s i (P_cas n st))\<lparr>il_heap := (il_heap s)(n \<mapsto> nd\<lparr>m_next := st\<rparr>)\<rparr>)"
| prod_cas_wins: "il_prod s i = P_cas n st \<Longrightarrow> il_head s = st \<Longrightarrow> il_heap s n = Some nd \<Longrightarrow>
     prod_step i s (L_push (m_data nd)) ((set_prod s i P_idle)\<lparr>il_head := Some n\<rparr>)"
| prod_cas_fails: "il_prod s i = P_cas n st \<Longrightarrow>
     prod_step i s L_tau (set_prod s i (P_store n (il_head s)))"

text \<open>
  The consumer: \<open>try_pop_all\<close> (the exchange, one step per turn of the reversing loop, the return),
  then \<open>for_each_elem\<close> over the result, with a function that destroys each node.
\<close>

inductive cons_step :: "'a il_sys \<Rightarrow> 'a il_event \<Rightarrow> 'a il_sys \<Rightarrow> bool" where
  cons_exchange: "il_cons s = C_idle \<Longrightarrow>
     cons_step s L_tau (s\<lparr>il_head := None, il_cons := C_rev (il_head s) None\<rparr>)"
| cons_reverse: "il_cons s = C_rev (Some p) first \<Longrightarrow> il_heap s p = Some nd \<Longrightarrow>
     cons_step s L_tau (s\<lparr>il_heap := (il_heap s)(p \<mapsto> nd\<lparr>m_next := first\<rparr>), il_cons := C_rev (m_next nd) (Some p)\<rparr>)"
| cons_return: "il_cons s = C_rev None first \<Longrightarrow>
     cons_step s L_tau (s\<lparr>il_cons := C_own first\<rparr>)"
| cons_visit: "il_cons s = C_own (Some p) \<Longrightarrow> il_heap s p = Some nd \<Longrightarrow>
     cons_step s (L_consume (m_data nd)) (s\<lparr>il_heap := (il_heap s)(p := None), il_cons := C_own (m_next nd)\<rparr>)"
| cons_done: "il_cons s = C_own None \<Longrightarrow>
     cons_step s L_tau (s\<lparr>il_cons := C_idle\<rparr>)"

definition il_step :: "'a il_sys \<Rightarrow> 'a il_event \<Rightarrow> 'a il_sys \<Rightarrow> bool" where
  "il_step s e s' \<longleftrightarrow> (\<exists>i. prod_step i s e s') \<or> cons_step s e s'"

inductive il_run :: "'a il_sys \<Rightarrow> 'a il_event list \<Rightarrow> 'a il_sys \<Rightarrow> bool" where
  il_run_nil: "il_run s [] s"
| il_run_step: "il_run s es t \<Longrightarrow> il_step t e u \<Longrightarrow> il_run s (es @ [e]) u"

fun il_pushed :: "'a il_event \<Rightarrow> 'a list" where
  "il_pushed (L_push d) = [d]" | "il_pushed _ = []"

fun il_consumed :: "'a il_event \<Rightarrow> 'a list" where
  "il_consumed (L_consume d) = [d]" | "il_consumed _ = []"

section \<open>Chains\<close>

fun chain :: "'a nheap \<Rightarrow> nat option \<Rightarrow> nat list \<Rightarrow> bool" where
  "chain h r [] \<longleftrightarrow> r = None"
| "chain h r (p # ps) \<longleftrightarrow> r = Some p \<and> (case h p of None \<Rightarrow> False | Some nd \<Rightarrow> chain h (m_next nd) ps)"

lemma chain_upd [simp]: "p \<notin> set ps \<Longrightarrow> chain (h(p := v)) r ps = chain h r ps"
  by (induction ps arbitrary: r) (auto split: option.splits)

lemma chain_None [simp]: "chain h None ps \<longleftrightarrow> ps = []"
  by (cases ps) auto

lemma chain_Some: "chain h (Some p) ps \<longleftrightarrow> (\<exists>qs nd. ps = p # qs \<and> h p = Some nd \<and> chain h (m_next nd) qs)"
  by (cases ps) (auto split: option.splits)

lemma chain_dom: "chain h r ps \<Longrightarrow> p \<in> set ps \<Longrightarrow> \<exists>nd. h p = Some nd"
  by (induction ps arbitrary: r) (auto split: option.splits)

definition data_at :: "'a nheap \<Rightarrow> nat \<Rightarrow> 'a" where
  "data_at h p = m_data (the (h p))"

lemma data_at_upd [simp]: "p \<notin> set ps \<Longrightarrow> map (data_at (h(p := v))) ps = map (data_at h) ps"
  by (auto simp: data_at_def)

lemma data_at_relink [simp]:
  "h p = Some nd \<Longrightarrow> data_at (h(p \<mapsto> nd\<lparr>m_next := r\<rparr>)) = data_at h"
  by (auto simp: data_at_def fun_eq_iff)

lemma il_reverse_chain:
  "chain h lst ps \<Longrightarrow> chain h first qs \<Longrightarrow> distinct (ps @ qs) \<Longrightarrow>
     \<exists>h' r. il_reverse h lst first = Some (h', r) \<and> chain h' r (rev ps @ qs) \<and> data_at h' = data_at h
       \<and> (\<forall>p. p \<notin> set ps \<longrightarrow> h' p = h p)"
proof (induction ps arbitrary: h lst first qs)
  case Nil
  then show ?case by (subst il_reverse.simps) simp
next
  case (Cons p ps)
  then obtain nd where nd: "lst = Some p" "h p = Some nd" "chain h (m_next nd) ps"
    by (auto split: option.splits)
  let ?h = "h(p \<mapsto> nd\<lparr>m_next := first\<rparr>)"
  have "chain ?h (m_next nd) ps" "chain ?h (Some p) (p # qs)" "distinct (ps @ p # qs)"
    using Cons.prems nd by auto
  then obtain h' r where "il_reverse ?h (m_next nd) (Some p) = Some (h', r)" "chain h' r (rev ps @ p # qs)"
    "data_at h' = data_at ?h" "\<forall>q. q \<notin> set ps \<longrightarrow> h' q = ?h q"
    using Cons.IH [of ?h "m_next nd" "Some p" "p # qs"] by metis
  then show ?case using nd by (subst il_reverse.simps) auto
qed

lemma il_push_loop_ok:
  "h n = Some nd \<Longrightarrow> stale = head \<Longrightarrow>
     il_push_loop k h head stale n = Some (h(n \<mapsto> nd\<lparr>m_next := head\<rparr>), Some n)"
  by (induction k arbitrary: h nd) auto

text \<open>\<open>for_each_elem\<close> reads a node before it calls \<open>func\<close>, so \<open>func\<close> may destroy it.\<close>

lemma for_each_elem_visits:
  assumes local_func: "\<And>p h s. h p \<noteq> None \<Longrightarrow> func p (h, s) = Some (h(p := None), s @ [data_at h p])"
  shows "chain h r ps \<Longrightarrow> distinct ps \<Longrightarrow>
     \<exists>h'. for_each_elem func r (h, s) = Some (h', s @ map (data_at h) ps) \<and> (\<forall>p\<in>set ps. h' p = None)
       \<and> (\<forall>p. p \<notin> set ps \<longrightarrow> h' p = h p)"
proof (induction ps arbitrary: h r s)
  case Nil
  then show ?case by (subst for_each_elem.simps) simp
next
  case (Cons p ps)
  then obtain nd where nd: "r = Some p" "h p = Some nd" "chain h (m_next nd) ps"
    by (auto split: option.splits)
  let ?h = "h(p := None)"
  have ps: "chain ?h (m_next nd) ps" "distinct ps" "p \<notin> set ps" using Cons.prems nd by auto
  then obtain h' where "for_each_elem func (m_next nd) (?h, s @ [data_at h p])
      = Some (h', (s @ [data_at h p]) @ map (data_at ?h) ps)"
    "\<forall>q\<in>set ps. h' q = None" "\<forall>q. q \<notin> set ps \<longrightarrow> h' q = ?h q"
    using Cons.IH [of ?h "m_next nd" "s @ [data_at h p]"] by metis
  with ps(3) nd local_func [of h p s] show ?case
    by (subst for_each_elem.simps) auto
qed

section \<open>Invariant of the concurrent list\<close>

fun prod_node :: "prod_pc \<Rightarrow> nat option" where
  "prod_node P_idle = None"
| "prod_node (P_load n) = Some n"
| "prod_node (P_store n _) = Some n"
| "prod_node (P_cas n _) = Some n"

text \<open>\<open>ps\<close> hangs on the head, newest first; \<open>qs\<close> is still to be reversed, \<open>rs\<close> already is.\<close>

fun cons_ok :: "'a nheap \<Rightarrow> cons_pc \<Rightarrow> nat list \<Rightarrow> nat list \<Rightarrow> bool" where
  "cons_ok h C_idle qs rs \<longleftrightarrow> qs = [] \<and> rs = []"
| "cons_ok h (C_rev l f) qs rs \<longleftrightarrow> chain h l qs \<and> chain h f rs"
| "cons_ok h (C_own f) qs rs \<longleftrightarrow> qs = [] \<and> chain h f rs"

definition il_inv :: "'a il_sys \<Rightarrow> nat list \<Rightarrow> nat list \<Rightarrow> nat list \<Rightarrow> bool" where
  "il_inv s ps qs rs \<longleftrightarrow> chain (il_heap s) (il_head s) ps \<and> cons_ok (il_heap s) (il_cons s) qs rs
     \<and> distinct (ps @ qs @ rs)
     \<and> (\<forall>i n. prod_node (il_prod s i) = Some n \<longrightarrow> n \<notin> set (ps @ qs @ rs) \<and> il_heap s n \<noteq> None)
     \<and> (\<forall>i j n. prod_node (il_prod s i) = Some n \<longrightarrow> prod_node (il_prod s j) = Some n \<longrightarrow> i = j)
     \<and> (\<forall>i n st. il_prod s i = P_cas n st \<longrightarrow> m_next (the (il_heap s n)) = st)"

definition il_pending :: "'a il_sys \<Rightarrow> nat list \<Rightarrow> nat list \<Rightarrow> nat list \<Rightarrow> 'a list" where
  "il_pending s ps qs rs = map (data_at (il_heap s)) (rev qs @ rs @ rev ps)"

lemma il_inv_init: "il_inv il_init [] [] []"
  by (simp add: il_inv_def il_init_def)

lemma cons_ok_upd [simp]: "p \<notin> set (qs @ rs) \<Longrightarrow> cons_ok (h(p := v)) c qs rs = cons_ok h c qs rs"
  by (cases c) auto

lemma cons_ok_dom: "cons_ok h c qs rs \<Longrightarrow> p \<in> set (qs @ rs) \<Longrightarrow> h p \<noteq> None"
  by (cases c) (auto dest: chain_dom)

lemma il_inv_dom:
  assumes "il_inv s ps qs rs" "p \<in> set (ps @ qs @ rs)"
  shows "il_heap s p \<noteq> None"
  using assms chain_dom [of "il_heap s" "il_head s" ps p] cons_ok_dom [of "il_heap s" "il_cons s" qs rs p]
  by (auto simp: il_inv_def)

lemma il_inv_owned:
  "il_inv s ps qs rs \<Longrightarrow> p \<in> set (ps @ qs @ rs) \<Longrightarrow> prod_node (il_prod s i) \<noteq> Some p"
  by (auto simp: il_inv_def)

lemma il_inv_flight:
  "il_inv s ps qs rs \<Longrightarrow> prod_node (il_prod s i) = Some n \<Longrightarrow> \<exists>nd. il_heap s n = Some nd"
  by (auto simp: il_inv_def)

text \<open>A producer that moves on with the same node, possibly after relinking it.\<close>

lemma il_inv_move:
  assumes inv: "il_inv s ps qs rs" and pc: "prod_node (il_prod s i) = Some n" "prod_node pc = Some n"
    and h: "h = (il_heap s)(n \<mapsto> nd)" and cas: "\<And>m st. pc = P_cas m st \<Longrightarrow> m_next nd = st"
  shows "il_inv ((set_prod s i pc)\<lparr>il_heap := h\<rparr>) ps qs rs"
proof -
  from inv pc have notin: "n \<notin> set (ps @ qs @ rs)" unfolding il_inv_def by blast
  have owner: "j = i" if "prod_node (il_prod s j) = Some n" for j
    using inv pc that unfolding il_inv_def by blast
  show ?thesis
    unfolding il_inv_def set_prod_def h
  proof (intro conjI allI impI, goal_cases)
    case (7 j m st)
    show ?case
    proof (cases "j = i")
      case True
      with 7 pc(2) cas [of m st] show ?thesis by auto
    next
      case False
      with 7 have p: "il_prod s j = P_cas m st" by simp
      with owner [of j] False have "m \<noteq> n" by auto
      with p inv show ?thesis by (auto simp: il_inv_def)
    qed
  qed (use inv pc notin in \<open>auto simp: il_inv_def split: if_splits\<close>)
qed

lemma prod_step_inv:
  assumes "prod_step i s e s'" "il_inv s ps qs rs"
  shows "\<exists>ps'. il_inv s' ps' qs rs \<and> il_consumed e = []
     \<and> il_pending s' ps' qs rs = il_pending s ps qs rs @ il_pushed e"
  using assms
proof (cases rule: prod_step.cases)
  case (prod_call n d)
  from il_inv_dom [OF assms(2)] prod_call(4) have new: "n \<notin> set (ps @ qs @ rs)" by blast
  have unused: "prod_node (il_prod s j) \<noteq> Some n" for j
    using assms(2) prod_call(4) unfolding il_inv_def by blast
  then have no_cas: "il_prod s j \<noteq> P_cas n st" for j st by (metis prod_node.simps(4))
  have "il_inv s' ps qs rs"
    using assms(2) prod_call new unused no_cas
    by (simp add: il_inv_def set_prod_def split: if_splits) metis
  with prod_call new show ?thesis by (auto simp: il_pending_def set_prod_def)
next
  case (prod_load n)
  then obtain nd where nd: "il_heap s n = Some nd" using il_inv_flight [OF assms(2), of i n] by auto
  with prod_load il_inv_move [OF assms(2), of i n "P_store n (il_head s)" "il_heap s" nd] show ?thesis
    by (auto simp: il_pending_def set_prod_def map_upd_triv)
next
  case (prod_store n st nd)
  with il_inv_move [OF assms(2), of i n "P_cas n st" "(il_heap s)(n \<mapsto> nd\<lparr>m_next := st\<rparr>)" "nd\<lparr>m_next := st\<rparr>"]
  show ?thesis by (auto simp: il_pending_def set_prod_def)
next
  case (prod_cas_wins n st nd)
  have "m_next (the (il_heap s n)) = st" using assms(2) prod_cas_wins(3) unfolding il_inv_def by metis
  then have next_st: "m_next nd = st" using prod_cas_wins by simp
  have node: "prod_node (il_prod s i) = Some n" using prod_cas_wins by simp
  with assms(2) have new: "n \<notin> set (ps @ qs @ rs)" unfolding il_inv_def by blast
  have other: "prod_node (il_prod s j) \<noteq> Some n" if "j \<noteq> i" for j
    using assms(2) node that unfolding il_inv_def by blast
  have "il_inv s' (n # ps) qs rs"
    using assms(2) prod_cas_wins next_st new other
    by (auto simp: il_inv_def set_prod_def split: if_splits)
  with prod_cas_wins show ?thesis
    by (intro exI [of _ "n # ps"]) (auto simp: il_pending_def set_prod_def data_at_def)
next
  case (prod_cas_fails n st)
  then obtain nd where nd: "il_heap s n = Some nd" using il_inv_flight [OF assms(2), of i n] by auto
  with prod_cas_fails il_inv_move [OF assms(2), of i n "P_store n (il_head s)" "il_heap s" nd] show ?thesis
    by (auto simp: il_pending_def set_prod_def map_upd_triv)
qed

lemma cons_step_inv:
  assumes "cons_step s e s'" "il_inv s ps qs rs"
  shows "\<exists>ps' qs' rs'. il_inv s' ps' qs' rs' \<and> il_pushed e = []
     \<and> il_pending s ps qs rs = il_consumed e @ il_pending s' ps' qs' rs'"
  using assms
proof (cases rule: cons_step.cases)
  case cons_exchange
  then have "il_inv s' [] ps []" "qs = [] \<and> rs = []" using assms(2) by (auto simp: il_inv_def)
  with cons_exchange show ?thesis
    by - (rule exI [of _ "[]"], rule exI [of _ ps], rule exI [of _ "[]"], auto simp: il_pending_def)
next
  case (cons_reverse p first nd)
  with assms(2) obtain qs' where qs: "qs = p # qs'" "chain (il_heap s) (m_next nd) qs'"
    by (auto simp: il_inv_def chain_Some)
  have "il_prod s i \<noteq> P_cas p st" for i st using il_inv_owned [OF assms(2), of p i] qs by auto
  then have "il_inv s' ps qs' (p # rs)" using assms(2) cons_reverse qs by (auto simp: il_inv_def)
  with cons_reverse qs show ?thesis
    by - (rule exI [of _ ps], rule exI [of _ qs'], rule exI [of _ "p # rs"], auto simp: il_pending_def)
next
  case (cons_return first)
  then have "il_inv s' ps [] rs" "qs = []" using assms(2) by (auto simp: il_inv_def)
  with cons_return show ?thesis
    by - (rule exI [of _ ps], rule exI [of _ "[]"], rule exI [of _ rs], auto simp: il_pending_def)
next
  case (cons_visit p nd)
  with assms(2) obtain rs' where rs: "rs = p # rs'" "chain (il_heap s) (m_next nd) rs'" "qs = []"
    by (auto simp: il_inv_def chain_Some)
  have "il_prod s i \<noteq> P_cas p st" for i st using il_inv_owned [OF assms(2), of p i] rs by auto
  moreover have "prod_node (il_prod s i) \<noteq> Some p" for i using il_inv_owned [OF assms(2), of p i] rs by auto
  ultimately have "il_inv s' ps [] rs'" using assms(2) cons_visit rs by (auto simp: il_inv_def)
  with cons_visit rs assms(2) show ?thesis
    by - (rule exI [of _ ps], rule exI [of _ "[]"], rule exI [of _ rs'], auto simp: il_pending_def il_inv_def data_at_def)
next
  case cons_done
  then have "il_inv s' ps [] []" "qs = []" "rs = []" using assms(2) by (auto simp: il_inv_def)
  with cons_done show ?thesis
    by - (rule exI [of _ ps], rule exI [of _ "[]"], rule exI [of _ "[]"], auto simp: il_pending_def)
qed

lemma il_run_inv:
  assumes "il_run s es t" "il_inv s [] [] []"
  shows "\<exists>ps qs rs. il_inv t ps qs rs
     \<and> concat (map il_pushed es) = concat (map il_consumed es) @ il_pending t ps qs rs"
  using assms
proof (induction rule: il_run.induct)
  case (il_run_nil s)
  then show ?case by (intro exI [of _ "[]"]) (simp add: il_pending_def)
next
  case (il_run_step s es t e u)
  then obtain ps qs rs where t: "il_inv t ps qs rs"
    "concat (map il_pushed es) = concat (map il_consumed es) @ il_pending t ps qs rs" by blast
  from il_run_step.hyps(2) consider i where "prod_step i t e u" | "cons_step t e u"
    by (auto simp: il_step_def)
  then show ?case
  proof cases
    case 1
    from prod_step_inv [OF this t(1)] t(2) show ?thesis by force
  next
    case 2
    from cons_step_inv [OF this t(1)] t(2) show ?thesis by force
  qed
qed

section \<open>Progress\<close>

lemma prod_progress:
  assumes inv: "il_inv s ps qs rs" and busy: "il_prod s i \<noteq> P_idle"
  shows "\<exists>e s'. prod_step i s e s'"
proof (cases "il_prod s i")
  case (P_store n st)
  with il_inv_flight [OF inv, of i n] obtain nd where "il_heap s n = Some nd" by auto
  with P_store show ?thesis by (auto intro: prod_step.prod_store)
qed (use busy in \<open>auto intro: prod_step.prod_load prod_step.prod_cas_fails\<close>)

lemma cons_progress:
  assumes inv: "il_inv s ps qs rs"
  shows "\<exists>e s'. cons_step s e s'"
proof (cases "il_cons s")
  case (C_rev l f)
  show ?thesis
  proof (cases l)
    case (Some p)
    with inv C_rev obtain nd where "il_heap s p = Some nd" by (auto simp: il_inv_def chain_Some)
    with C_rev Some show ?thesis by (auto intro: cons_step.cons_reverse)
  qed (use C_rev in \<open>auto intro: cons_step.cons_return\<close>)
next
  case (C_own f)
  show ?thesis
  proof (cases f)
    case (Some p)
    with inv C_own obtain nd where "il_heap s p = Some nd" by (auto simp: il_inv_def chain_Some)
    with C_own Some show ?thesis by (auto intro: cons_step.cons_visit)
  qed (use C_own in \<open>auto intro: cons_step.cons_done\<close>)
qed (auto intro: cons_step.cons_exchange)

section \<open>Properties\<close>

text \<open>
  Property C21. Under any interleaving of producers with the consumer, with spurious failures of
  the compare-exchange and reuse of the addresses of destroyed nodes, the list is a FIFO queue:
  the values the consumer visits are a prefix of the values pushed, in the order of the
  successful compare-exchanges, and all of them once the head is null and the consumer idle.
\<close>

theorem list_concurrent_fifo:
  assumes "il_run il_init es s"
  shows "\<exists>left. concat (map il_pushed es) = concat (map il_consumed es) @ left
     \<and> (il_head s = None \<and> il_cons s = C_idle \<longrightarrow> left = [])"
proof -
  from il_run_inv [OF assms il_inv_init] obtain ps qs rs where
    inv: "il_inv s ps qs rs" and
    eq: "concat (map il_pushed es) = concat (map il_consumed es) @ il_pending s ps qs rs" by metis
  have "il_pending s ps qs rs = []" if "il_head s = None" "il_cons s = C_idle"
    using inv that by (simp add: il_inv_def il_pending_def)
  with eq show ?thesis by (intro exI [of _ "il_pending s ps qs rs"]) simp
qed

text \<open>
  No producer and no consumer is ever stuck on a null or dangling node: in every
  reachable state each producer inside \<open>push\<close> and the consumer can take a step.
\<close>

theorem list_never_stuck:
  assumes "il_run il_init es s"
  shows "(\<exists>e s'. cons_step s e s') \<and> (il_prod s i \<noteq> P_idle \<longrightarrow> (\<exists>e s'. prod_step i s e s'))"
proof -
  from il_run_inv [OF assms il_inv_init] obtain ps qs rs where inv: "il_inv s ps qs rs" by metis
  from cons_progress [OF inv] prod_progress [OF inv, of i] show ?thesis by simp
qed

text \<open>
  A producer pushes 7 while the consumer takes an empty list; used by the witnesses.
\<close>

definition il_demo :: "prod_pc \<Rightarrow> nat option \<Rightarrow> nat il_sys" where
  "il_demo pc head = \<lparr>il_heap = [3 \<mapsto> node_new 7], il_head = head, il_prod = (\<lambda>_. P_idle)(0 := pc), il_cons = C_idle\<rparr>"

lemma il_demo_run: "il_run il_init [L_tau, L_tau, L_tau, L_push 7] (il_demo P_idle (Some 3))"
proof -
  have 1: "il_step il_init L_tau (il_demo (P_load 3) None)"
    using prod_step.prod_call [of il_init 0 3 7]
    by (auto simp: il_step_def il_init_def il_demo_def set_prod_def)
  have 2: "il_step (il_demo (P_load 3) None) L_tau (il_demo (P_store 3 None) None)"
    using prod_step.prod_load [of "il_demo (P_load 3) None" 0 3]
    by (auto simp: il_step_def il_demo_def set_prod_def)
  have 3: "il_step (il_demo (P_store 3 None) None) L_tau (il_demo (P_cas 3 None) None)"
    using prod_step.prod_store [of "il_demo (P_store 3 None) None" 0 3 None "node_new 7"]
    by (auto simp: il_step_def il_demo_def set_prod_def node_new_def)
  have 4: "il_step (il_demo (P_cas 3 None) None) (L_push 7) (il_demo P_idle (Some 3))"
    using prod_step.prod_cas_wins [of "il_demo (P_cas 3 None) None" 0 3 None "node_new 7"]
    by (auto simp: il_step_def il_demo_def set_prod_def node_new_def)
  from il_run_step [OF il_run_step [OF il_run_step [OF il_run_step [OF il_run_nil 1] 2] 3] 4]
  show ?thesis by simp
qed

theorem list_concurrent_fifo_witness:
  "il_run il_init [L_tau, L_tau, L_tau, L_push 7] (il_demo P_idle (Some 3))
   \<and> (\<exists>left. [7] = [] @ left)"
  using il_demo_run list_concurrent_fifo [OF il_demo_run] by simp

theorem list_never_stuck_witness:
  "il_run il_init [L_tau, L_tau, L_tau, L_push 7] (il_demo P_idle (Some 3))
   \<and> (\<exists>e s'. cons_step (il_demo P_idle (Some 3)) e s')"
  using il_demo_run list_never_stuck [OF il_demo_run] by blast

text \<open>Pushing nodes one after the other, each with its number of spurious failures.\<close>

fun il_push_all :: "'a nheap \<Rightarrow> nat option \<Rightarrow> (nat \<times> nat) list \<Rightarrow> ('a nheap \<times> nat option) option" where
  "il_push_all h head [] = Some (h, head)"
| "il_push_all h head ((k, n) # ns) = do { (h', head') \<leftarrow> il_push k h head n; il_push_all h' head' ns }"

lemma il_push_all_chain:
  "chain h head ps \<Longrightarrow> distinct (map snd kns) \<Longrightarrow> set (map snd kns) \<inter> set ps = {} \<Longrightarrow> distinct ps \<Longrightarrow>
   \<forall>n\<in>set (map snd kns). \<exists>d. h n = Some (node_new d) \<Longrightarrow>
   \<exists>h' head'. il_push_all h head kns = Some (h', head') \<and> chain h' head' (rev (map snd kns) @ ps)
     \<and> data_at h' = data_at h"
proof (induction kns arbitrary: h head ps)
  case (Cons kn kns)
  obtain k n where kn: "kn = (k, n)" by fastforce
  with Cons.prems obtain d where d: "h n = Some (node_new d)" by auto
  let ?h = "h(n \<mapsto> (node_new d)\<lparr>m_next := head\<rparr>)"
  have push: "il_push k h head n = Some (?h, Some n)"
    using d by (simp add: il_push_def node_new_def il_push_loop_ok del: il_push_loop.simps)
  have "chain ?h (Some n) (n # ps)" "distinct (map snd kns)" "set (map snd kns) \<inter> set (n # ps) = {}"
    "distinct (n # ps)" "\<forall>m\<in>set (map snd kns). \<exists>d. ?h m = Some (node_new d)"
    using Cons.prems kn by auto
  then obtain h' head' where "il_push_all ?h (Some n) kns = Some (h', head')"
    "chain h' head' (rev (map snd kns) @ n # ps)" "data_at h' = data_at ?h"
    using Cons.IH [of ?h "Some n" "n # ps"] by metis
  with push kn d show ?case by simp
qed simp

text \<open>
  One thread at a time: pushing any distinct unlinked nodes, then \<open>try_pop_all\<close>
  and \<open>for_each_elem\<close>, calls the function once per node in the order of the pushes, leaves the
  list empty, and reads no node after the function destroyed it, for a function that does
  destroy the node it is given.
\<close>

theorem list_push_pop_all:
  assumes "distinct (map snd kns)" "\<forall>n\<in>set (map snd kns). \<exists>d. h n = Some (node_new d)"
    and "\<And>p h s. h p \<noteq> None \<Longrightarrow> func p (h, s) = Some (h(p := None), s @ [data_at h p])"
  shows "\<exists>h1 head root h2 h3. il_push_all h None kns = Some (h1, head)
     \<and> il_try_pop_all h1 head = Some (root, h2, None)
     \<and> for_each_elem func root (h2, []) = Some (h3, map (data_at h) (map snd kns))"
proof -
  from il_push_all_chain [of h None "[]" kns] assms(1,2) obtain h1 head where
    1: "il_push_all h None kns = Some (h1, head)" "chain h1 head (rev (map snd kns))" "data_at h1 = data_at h"
    by auto
  from il_reverse_chain [OF 1(2), of None "[]"] assms(1) obtain h2 root where
    2: "il_reverse h1 head None = Some (h2, root)" "chain h2 root (map snd kns)" "data_at h2 = data_at h1"
    by auto
  from for_each_elem_visits [of func, OF assms(3) 2(2) assms(1), of "[]"] obtain h3 where
    "for_each_elem func root (h2, []) = Some (h3, [] @ map (data_at h2) (map snd kns))" by blast
  with 1 2 show ?thesis by (simp add: il_try_pop_all_def)
qed

theorem list_push_pop_all_witness:
  "\<exists>h1 head root h2 h3. il_push_all [1 \<mapsto> node_new (10::nat), 2 \<mapsto> node_new 20] None [(0, 1), (3, 2)] = Some (h1, head)
     \<and> il_try_pop_all h1 head = Some (root, h2, None)
     \<and> for_each_elem (\<lambda>p (h, s). Some (h(p := None), s @ [data_at h p])) root (h2, []) = Some (h3, [10, 20])"
  using list_push_pop_all [of "[(0, 1), (3, 2)]" "[1 \<mapsto> node_new (10::nat), 2 \<mapsto> node_new 20]"
      "\<lambda>p (h, s). Some (h(p := None), s @ [data_at h p])"]
  by (simp add: data_at_def node_new_def)

end
