(* ===== verification/Seg_Stack.thy ===== *)
theory Seg_Stack
  imports Utility
begin

text \<open>
  \<open>impl::stack\<close> of \<open>include/libfork/core/impl/stack.hpp\<close>: the geometric segmented stack on which a
  worker allocates coroutine frames. A stack is the pointer to its top stacklet; stacklets are
  doubly linked, and at most one empty stacklet is cached above the top.

  Addresses are natural numbers and stacklets live in a heap. \<open>malloc\<close> and \<open>free\<close> are parameters
  that act on an allocator state of type \<open>'m\<close>; what the stack needs of them is \<open>alloc_ok\<close> below.
  Sizes are 64-bit words. A failed assertion or a dangling pointer gives \<open>None\<close>.
\<close>

definition page_size :: u64 where "page_size = 4096"
definition malloc_meta_data_size :: u64 where "malloc_meta_data_size = 6 * 8"
definition sizeof_stacklet :: nat where "sizeof_stacklet = 48"
definition fibre_init_size :: u64 where "fibre_init_size = 1"

definition round_up_to_page_size :: "u64 \<Rightarrow> u64 option" where
  "round_up_to_page_size sz =
     (let minimum = sz + malloc_meta_data_size;
          rounded = (minimum + page_size - 1) AND NOT (page_size - 1);
          request = rounded - malloc_meta_data_size in do {
        lf_assert (minimum \<le> rounded);
        lf_assert (rounded mod page_size = 0);
        lf_assert (request \<ge> sz);
        Some request })"

section \<open>Stacklets\<close>

record stacklet =
  st_lo :: nat
  st_sp :: nat
  st_hi :: nat
  st_prev :: "nat option"
  st_next :: "nat option"

record 'm smem =
  sm_alloc :: 'm
  sm_heap :: "nat \<rightharpoonup> stacklet"

definition sl_capacity :: "stacklet \<Rightarrow> u64 option" where
  "sl_capacity s = do { lf_assert (st_hi s \<ge> st_lo s); Some (of_nat (st_hi s - st_lo s)) }"

definition sl_unused :: "stacklet \<Rightarrow> u64 option" where
  "sl_unused s = do { lf_assert (st_hi s \<ge> st_sp s); Some (of_nat (st_hi s - st_sp s)) }"

definition sl_empty :: "stacklet \<Rightarrow> bool" where
  "sl_empty s \<longleftrightarrow> st_sp s = st_lo s"

definition sl_is_top :: "(nat \<rightharpoonup> stacklet) \<Rightarrow> stacklet \<Rightarrow> bool option" where
  "sl_is_top h s = (case st_next s of None \<Rightarrow> Some True
     | Some q \<Rightarrow> do { n \<leftarrow> h q; Some (sl_empty n \<and> st_next n = None) })"

text \<open>\<open>std::free\<close> of a stacklet, or of a null pointer.\<close>

definition sl_free :: "('m \<Rightarrow> nat \<Rightarrow> 'm) \<Rightarrow> nat option \<Rightarrow> 'm smem \<Rightarrow> 'm smem" where
  "sl_free free p g = (case p of None \<Rightarrow> g
     | Some q \<Rightarrow> g\<lparr>sm_alloc := free (sm_alloc g) q, sm_heap := (sm_heap g)(q := None)\<rparr>)"

definition sl_set_next :: "('m \<Rightarrow> nat \<Rightarrow> 'm) \<Rightarrow> nat \<Rightarrow> nat option \<Rightarrow> 'm smem \<Rightarrow> 'm smem option" where
  "sl_set_next free p new_next g = do {
     s \<leftarrow> sm_heap g p;
     t \<leftarrow> sl_is_top (sm_heap g) s;
     lf_assert t;
     Some (sl_free free (st_next s) (g\<lparr>sm_heap := (sm_heap g)(p \<mapsto> s\<lparr>st_next := new_next\<rparr>)\<rparr>)) }"

definition next_stacklet :: "('m \<Rightarrow> u64 \<Rightarrow> (nat \<times> 'm) option) \<Rightarrow> ('m \<Rightarrow> nat \<Rightarrow> 'm) \<Rightarrow> u64 \<Rightarrow> nat option
    \<Rightarrow> 'm smem \<Rightarrow> ((exn + nat) \<times> 'm smem) option" where
  "next_stacklet malloc free sz prev g = do {
     (case prev of None \<Rightarrow> Some ()
      | Some p \<Rightarrow> do { s \<leftarrow> sm_heap g p; t \<leftarrow> sl_is_top (sm_heap g) s; lf_assert t });
     request \<leftarrow> round_up_to_page_size (sz + of_nat sizeof_stacklet);
     lf_assert (request \<ge> of_nat sizeof_stacklet + sz);
     (case malloc (sm_alloc g) request of
        None \<Rightarrow> Some (Inl Bad_alloc, g)
      | Some (nxt, m) \<Rightarrow> do {
          g1 \<leftarrow> (case prev of None \<Rightarrow> Some (g\<lparr>sm_alloc := m\<rparr>)
                 | Some p \<Rightarrow> sl_set_next free p (Some nxt) (g\<lparr>sm_alloc := m\<rparr>));
          (let lo = nxt + sizeof_stacklet in
           Some (Inr nxt, g1\<lparr>sm_heap := (sm_heap g1)(nxt \<mapsto> \<lparr>st_lo = lo, st_sp = lo,
             st_hi = nxt + unat request, st_prev = prev, st_next = None\<rparr>)\<rparr>)) }) }"

section \<open>Stacks\<close>

definition stack_new :: "('m \<Rightarrow> u64 \<Rightarrow> (nat \<times> 'm) option) \<Rightarrow> ('m \<Rightarrow> nat \<Rightarrow> 'm) \<Rightarrow> 'm smem
    \<Rightarrow> ((exn + nat) \<times> 'm smem) option" where
  "stack_new malloc free g = next_stacklet malloc free fibre_init_size None g"

definition stack_of_stacklet :: "'m smem \<Rightarrow> nat option \<Rightarrow> nat option" where
  "stack_of_stacklet g frag = do {
     p \<leftarrow> frag; s \<leftarrow> sm_heap g p; t \<leftarrow> sl_is_top (sm_heap g) s; lf_assert t; Some p }"

text \<open>The move assignment swaps the two stacks.\<close>

definition stack_swap :: "nat \<times> nat \<Rightarrow> nat \<times> nat" where
  "stack_swap lr = (snd lr, fst lr)"

definition stack_destroy :: "('m \<Rightarrow> nat \<Rightarrow> 'm) \<Rightarrow> nat \<Rightarrow> 'm smem \<Rightarrow> 'm smem option" where
  "stack_destroy free fib g = do {
     s \<leftarrow> sm_heap g fib;
     lf_assert (st_prev s = None);
     g1 \<leftarrow> sl_set_next free fib None g;
     Some (sl_free free (Some fib) g1) }"

definition stack_empty :: "nat \<Rightarrow> 'm smem \<Rightarrow> bool option" where
  "stack_empty fib g = do {
     s \<leftarrow> sm_heap g fib;
     t \<leftarrow> sl_is_top (sm_heap g) s;
     lf_assert t;
     Some (sl_empty s \<and> st_prev s = None) }"

text \<open>\<open>release\<close>: the stacklet given up, the new top, and the memory.\<close>

definition stack_release :: "('m \<Rightarrow> u64 \<Rightarrow> (nat \<times> 'm) option) \<Rightarrow> ('m \<Rightarrow> nat \<Rightarrow> 'm) \<Rightarrow> nat \<Rightarrow> 'm smem
    \<Rightarrow> ((exn + nat \<times> nat) \<times> 'm smem) option" where
  "stack_release malloc free fib g = do {
     (r, g1) \<leftarrow> next_stacklet malloc free fibre_init_size None g;
     Some (case r of Inl e \<Rightarrow> Inl e | Inr q \<Rightarrow> Inr (fib, q), g1) }"

definition stack_top :: "nat \<Rightarrow> 'm smem \<Rightarrow> nat option" where
  "stack_top fib g = do {
     s \<leftarrow> sm_heap g fib; t \<leftarrow> sl_is_top (sm_heap g) s; lf_assert t; Some fib }"

definition ext_size :: "u64 \<Rightarrow> u64" where
  "ext_size sz = (sz + k_new_align - 1) AND NOT (k_new_align - 1)"

text \<open>\<open>allocate\<close>: the address, or the exception; the new top and the memory.\<close>

definition stack_allocate :: "('m \<Rightarrow> u64 \<Rightarrow> (nat \<times> 'm) option) \<Rightarrow> ('m \<Rightarrow> nat \<Rightarrow> 'm) \<Rightarrow> u64 \<Rightarrow> nat \<Rightarrow> 'm smem
    \<Rightarrow> ((exn + nat) \<times> nat \<times> 'm smem) option" where
  "stack_allocate malloc free sz fib g = do {
     s \<leftarrow> sm_heap g fib;
     t \<leftarrow> sl_is_top (sm_heap g) s;
     lf_assert t;
     unused \<leftarrow> sl_unused s;
     (r, g1) \<leftarrow>
       (if unused < ext_size sz then do {
          reuse \<leftarrow> (case st_next s of None \<Rightarrow> Some False
             | Some q \<Rightarrow> do { n \<leftarrow> sm_heap g q; c \<leftarrow> sl_capacity n; Some (c \<ge> ext_size sz) });
          (if reuse then Some (Inr (the (st_next s)), g)
           else do { c \<leftarrow> sl_capacity s; next_stacklet malloc free (max (2 * c) (ext_size sz)) (Some fib) g }) }
        else Some (Inr fib, g));
     (case r of Inl e \<Rightarrow> Some (Inl e, fib, g1)
      | Inr f \<Rightarrow> do {
          s1 \<leftarrow> sm_heap g1 f;
          t1 \<leftarrow> sl_is_top (sm_heap g1) s1;
          lf_assert t1;
          Some (Inr (st_sp s1), f,
            g1\<lparr>sm_heap := (sm_heap g1)(f \<mapsto> s1\<lparr>st_sp := st_sp s1 + unat (ext_size sz)\<rparr>)\<rparr>) }) }"

text \<open>The guard against over-caching at the end of \<open>deallocate\<close>.\<close>

definition stack_uncache :: "('m \<Rightarrow> nat \<Rightarrow> 'm) \<Rightarrow> nat \<Rightarrow> 'm smem \<Rightarrow> 'm smem option" where
  "stack_uncache free fib g = do {
     s \<leftarrow> sm_heap g fib;
     (case st_next s of None \<Rightarrow> Some g
      | Some q \<Rightarrow> do {
          n \<leftarrow> sm_heap g q;
          cn \<leftarrow> sl_capacity n;
          c \<leftarrow> sl_capacity s;
          (if cn > 8 * c then sl_set_next free fib None g else Some g) }) }"

definition stack_deallocate :: "('m \<Rightarrow> nat \<Rightarrow> 'm) \<Rightarrow> nat \<Rightarrow> nat \<Rightarrow> 'm smem \<Rightarrow> (nat \<times> 'm smem) option" where
  "stack_deallocate free ptr fib g = do {
     s \<leftarrow> sm_heap g fib;
     t \<leftarrow> sl_is_top (sm_heap g) s;
     lf_assert t;
     (let s1 = s\<lparr>st_sp := ptr\<rparr>; g1 = g\<lparr>sm_heap := (sm_heap g)(fib \<mapsto> s1)\<rparr> in do {
        (f, g2) \<leftarrow>
          (if sl_empty s1 then do {
             (f, g2) \<leftarrow> (case st_prev s1 of None \<Rightarrow> Some (fib, g1)
                | Some p \<Rightarrow> do { g2 \<leftarrow> sl_set_next free fib None g1; Some (p, g2) });
             g3 \<leftarrow> stack_uncache free f g2;
             Some (f, g3) }
           else Some (fib, g1));
        s2 \<leftarrow> sm_heap g2 f;
        t2 \<leftarrow> sl_is_top (sm_heap g2) s2;
        lf_assert t2;
        Some (f, g2) }) }"

section \<open>Rounding\<close>

lemma and_not_mask_unat:
  fixes x :: u64
  assumes "k < 64"
  shows "unat (x AND NOT (mask k)) = unat x div 2 ^ k * 2 ^ k"
proof -
  have "x AND NOT (mask k) = push_bit k (drop_bit k x)"
    by (rule bit_word_eqI) (auto simp: bit_simps)
  moreover have "take_bit 64 (unat x) = unat x"
    using unsigned_less [of x] by (intro take_bit_nat_eq_self) simp
  ultimately have "unat (x AND NOT (mask k)) = take_bit 64 (push_bit k (drop_bit k (unat x)))"
    by (simp add: unsigned_push_bit_eq unsigned_drop_bit_eq)
  also have "\<dots> = push_bit k (drop_bit k (unat x))"
  proof (rule take_bit_nat_eq_self)
    have "unat x div 2 ^ k * 2 ^ k \<le> unat x" by (rule div_times_less_eq_dividend)
    also have "unat x < 2 ^ 64" using unsigned_less [of x] by simp
    finally show "push_bit k (drop_bit k (unat x)) < 2 ^ 64" by (simp add: push_bit_eq_mult drop_bit_eq_div)
  qed
  finally show ?thesis by (simp add: push_bit_eq_mult drop_bit_eq_div)
qed

lemma align_up_unat:
  fixes x :: u64
  assumes "k < 64" "unat x + 2 ^ k - 1 < 2 ^ 64"
  shows "unat ((x + 2 ^ k - 1) AND NOT (2 ^ k - 1)) = (unat x + 2 ^ k - 1) div 2 ^ k * 2 ^ k"
proof -
  have "Suc 0 \<le> unat x + 2 ^ k" by (simp add: Suc_leI)
  then have "(x + 2 ^ k - 1) = of_nat (unat x + 2 ^ k - 1)" by (simp add: of_nat_diff)
  then have "unat (x + 2 ^ k - 1) = unat x + 2 ^ k - 1" using assms(2) by (simp add: unat_of_nat)
  then show ?thesis using and_not_mask_unat [OF assms(1), of "x + 2 ^ k - 1"] by (simp add: mask_eq_exp_minus_1)
qed

lemma div_up_bounds:
  fixes n a :: nat
  assumes "0 < a"
  shows "n \<le> (n + a - 1) div a * a" "(n + a - 1) div a * a < n + a"
proof -
  have "(n + a - 1) div a * a + (n + a - 1) mod a = n + a - 1" by simp
  moreover have "(n + a - 1) mod a < a" using assms by simp
  ultimately show "n \<le> (n + a - 1) div a * a" "(n + a - 1) div a * a < n + a" using assms by linarith+
qed

lemma ext_size_unat:
  assumes "unat sz \<le> 2 ^ 62"
  shows "unat (ext_size sz) = (unat sz + 15) div 16 * 16"
  using align_up_unat [of 4 sz] assms by (simp add: ext_size_def k_new_align_def)

lemma ext_size_bounds:
  assumes "unat sz \<le> 2 ^ 62"
  shows "unat sz \<le> unat (ext_size sz) \<and> unat (ext_size sz) < unat sz + 16 \<and> unat (ext_size sz) mod 16 = 0"
  using div_up_bounds [of 16 "unat sz"] by (simp add: ext_size_unat [OF assms] add.commute)

lemma round_up_ok:
  assumes "unat sz + 2 ^ 13 \<le> 2 ^ 64"
  shows "\<exists>r. round_up_to_page_size sz = Some r \<and> unat sz \<le> unat r \<and> unat r < unat sz + 4096
     \<and> (unat r + 48) mod 4096 = 0"
proof -
  let ?min = "sz + malloc_meta_data_size"
  let ?rnd = "(?min + page_size - 1) AND NOT (page_size - 1)"
  have min: "unat ?min = unat sz + 48"
    using assms by (simp add: malloc_meta_data_size_def unat_word_ariths)
  have page: "page_size = 2 ^ 12" by (simp add: page_size_def)
  have rnd: "unat ?rnd = (unat sz + 48 + 4095) div 4096 * 4096"
    using align_up_unat [of 12 ?min] assms by (simp add: page min)
  note b = div_up_bounds [of 4096 "unat sz + 48"]
  have le: "malloc_meta_data_size \<le> ?rnd" using rnd b(1) by (simp add: word_le_nat_alt malloc_meta_data_size_def)
  have req: "unat (?rnd - malloc_meta_data_size) = unat ?rnd - 48"
    using le by (simp add: unat_sub malloc_meta_data_size_def)
  have "unat ?rnd mod 4096 = 0" using rnd by simp
  then have "?rnd mod page_size = 0" by (simp add: page_size_def unat_eq_zero [symmetric] unat_mod del: unat_eq_zero)
  then have "round_up_to_page_size sz = Some (?rnd - malloc_meta_data_size)"
    using b(1) rnd req min by (simp add: round_up_to_page_size_def Let_def word_le_nat_alt)
  then show ?thesis using req rnd b by auto
qed

section \<open>What the stack needs of malloc and free\<close>

text \<open>
  \<open>blocks m\<close> gives the live blocks of the allocator state \<open>m\<close> with their sizes: \<open>malloc\<close> returns
  nothing or the address of a new block of the requested size, \<open>free\<close> ends a block, blocks are
  aligned, do not overlap and lie in the address space.
\<close>

definition alloc_ok :: "('m \<Rightarrow> bool) \<Rightarrow> ('m \<Rightarrow> nat \<rightharpoonup> nat) \<Rightarrow> ('m \<Rightarrow> u64 \<Rightarrow> (nat \<times> 'm) option)
    \<Rightarrow> ('m \<Rightarrow> nat \<Rightarrow> 'm) \<Rightarrow> bool" where
  "alloc_ok good blocks malloc free \<longleftrightarrow>
     (\<forall>m n p m'. good m \<longrightarrow> malloc m n = Some (p, m') \<longrightarrow>
        good m' \<and> blocks m p = None \<and> blocks m' = (blocks m)(p \<mapsto> unat n))
   \<and> (\<forall>m p. good m \<longrightarrow> blocks m p \<noteq> None \<longrightarrow> good (free m p) \<and> blocks (free m p) = (blocks m)(p := None))
   \<and> (\<forall>m p n. good m \<longrightarrow> blocks m p = Some n \<longrightarrow> p mod 16 = 0 \<and> p + n \<le> 2 ^ 62)
   \<and> (\<forall>m p q a b. good m \<longrightarrow> blocks m p = Some a \<longrightarrow> blocks m q = Some b \<longrightarrow> p \<noteq> q \<longrightarrow> p + a \<le> q \<or> q + b \<le> p)"

section \<open>Invariant\<close>

text \<open>The allocations of one stacklet, newest first, tile the space from \<open>lo\<close> to the stack pointer.\<close>

fun covers :: "nat \<Rightarrow> nat \<Rightarrow> (nat \<times> nat) list \<Rightarrow> bool" where
  "covers lo sp [] \<longleftrightarrow> sp = lo"
| "covers lo sp ((a, n) # bs) \<longleftrightarrow> a + n = sp \<and> covers lo a bs"

definition occupied :: "(nat \<times> nat) list \<Rightarrow> bool" where
  "occupied bs \<longleftrightarrow> bs \<noteq> [] \<and> 0 < snd (last bs)"

text \<open>The stacklets below the top, which is \<open>child\<close> for the first of them.\<close>

fun below_ok :: "(nat \<rightharpoonup> stacklet) \<Rightarrow> nat \<Rightarrow> nat option \<Rightarrow> nat list \<Rightarrow> (nat \<times> nat) list list \<Rightarrow> bool" where
  "below_ok h child prev [] [] \<longleftrightarrow> prev = None"
| "below_ok h child prev (q # qs) (bs # bss) \<longleftrightarrow> prev = Some q \<and>
     (case h q of None \<Rightarrow> False | Some s \<Rightarrow> st_next s = Some child \<and> covers (st_lo s) (st_sp s) bs
        \<and> (qs \<noteq> [] \<longrightarrow> occupied bs) \<and> below_ok h q (st_prev s) qs bss)"
| "below_ok h child prev _ _ \<longleftrightarrow> False"

definition node_ok :: "('m \<Rightarrow> nat \<rightharpoonup> nat) \<Rightarrow> 'm smem \<Rightarrow> nat \<Rightarrow> bool" where
  "node_ok blocks g p \<longleftrightarrow> (case sm_heap g p of None \<Rightarrow> False | Some s \<Rightarrow>
     blocks (sm_alloc g) p = Some (st_hi s - p) \<and> st_lo s = p + sizeof_stacklet \<and> st_lo s \<le> st_sp s
     \<and> st_sp s \<le> st_hi s \<and> (st_sp s - st_lo s) mod 16 = 0)"

definition cached_ok :: "(nat \<rightharpoonup> stacklet) \<Rightarrow> nat \<Rightarrow> nat \<Rightarrow> bool" where
  "cached_ok h fib c \<longleftrightarrow> (case h c of None \<Rightarrow> False | Some s \<Rightarrow>
     st_prev s = Some fib \<and> st_next s = None \<and> sl_empty s)"

text \<open>
  A stack with top \<open>fib\<close> holding the allocations \<open>bs\<close>, stacklets \<open>ps\<close> below it holding \<open>bss\<close>, and
  perhaps a cached stacklet. \<open>seg_ok\<close> adds that only the first stacklet may be unoccupied.
\<close>

definition seg_pre :: "('m \<Rightarrow> bool) \<Rightarrow> ('m \<Rightarrow> nat \<rightharpoonup> nat) \<Rightarrow> 'm smem \<Rightarrow> nat \<Rightarrow> (nat \<times> nat) list \<Rightarrow> nat list
    \<Rightarrow> (nat \<times> nat) list list \<Rightarrow> nat option \<Rightarrow> bool" where
  "seg_pre good blocks g fib bs ps bss cache \<longleftrightarrow> good (sm_alloc g) \<and> distinct (fib # ps)
     \<and> (\<forall>p \<in> set (fib # ps). node_ok blocks g p)
     \<and> (case cache of None \<Rightarrow> True | Some c \<Rightarrow> c \<notin> set (fib # ps) \<and> node_ok blocks g c \<and> cached_ok (sm_heap g) fib c)
     \<and> (case sm_heap g fib of None \<Rightarrow> False | Some s \<Rightarrow> st_next s = cache
          \<and> covers (st_lo s) (st_sp s) bs \<and> below_ok (sm_heap g) fib (st_prev s) ps bss)"

definition seg_ok :: "('m \<Rightarrow> bool) \<Rightarrow> ('m \<Rightarrow> nat \<rightharpoonup> nat) \<Rightarrow> 'm smem \<Rightarrow> nat \<Rightarrow> (nat \<times> nat) list \<Rightarrow> nat list
    \<Rightarrow> (nat \<times> nat) list list \<Rightarrow> nat option \<Rightarrow> bool" where
  "seg_ok good blocks g fib bs ps bss cache \<longleftrightarrow>
     seg_pre good blocks g fib bs ps bss cache \<and> (ps \<noteq> [] \<longrightarrow> occupied bs)"

lemma below_ok_upd [simp]: "p \<notin> set ps \<Longrightarrow> below_ok (h(p := v)) c r ps bss = below_ok h c r ps bss"
  by (induction h c r ps bss rule: below_ok.induct) (auto split: option.splits)

lemma below_ok_length: "below_ok h c r ps bss \<Longrightarrow> length bss = length ps"
  by (induction h c r ps bss rule: below_ok.induct) (auto split: option.splits)

lemma node_ok_upd [simp]: "p \<noteq> q \<Longrightarrow> node_ok blocks (g\<lparr>sm_heap := (sm_heap g)(q := v)\<rparr>) p = node_ok blocks g p"
  by (simp add: node_ok_def split: option.split)

lemma cached_ok_upd [simp]: "c \<noteq> q \<Longrightarrow> cached_ok (h(q := v)) fib c = cached_ok h fib c"
  by (simp add: cached_ok_def)

lemma covers_le: "covers lo sp bs \<Longrightarrow> lo \<le> sp"
  by (induction lo sp bs rule: covers.induct) auto

lemma covers_occupied: "covers lo sp bs \<Longrightarrow> occupied bs \<Longrightarrow> lo < sp"
proof (induction lo sp bs rule: covers.induct)
  case (2 lo sp a n bs)
  then show ?case by (cases "bs = []") (auto simp: occupied_def dest: covers_le)
qed (simp add: occupied_def)

lemma seg_pre_top:
  assumes "seg_pre good blocks g fib bs ps bss cache"
  obtains s where "sm_heap g fib = Some s" "st_next s = cache" "covers (st_lo s) (st_sp s) bs"
    "below_ok (sm_heap g) fib (st_prev s) ps bss" "sl_is_top (sm_heap g) s = Some True"
    "blocks (sm_alloc g) fib = Some (st_hi s - fib)" "st_lo s = fib + sizeof_stacklet"
    "st_lo s \<le> st_sp s" "st_sp s \<le> st_hi s" "(st_sp s - st_lo s) mod 16 = 0"
  using assms
  by (auto simp: seg_pre_def node_ok_def cached_ok_def sl_is_top_def split: option.splits)

text \<open>A new allocation on the top stacklet.\<close>

lemma seg_push:
  assumes inv: "seg_pre good blocks g fib bs ps bss cache" and s: "sm_heap g fib = Some s"
    and fits: "st_sp s + e \<le> st_hi s" and e: "e mod 16 = 0"
  shows "seg_pre good blocks (g\<lparr>sm_heap := (sm_heap g)(fib \<mapsto> s\<lparr>st_sp := st_sp s + e\<rparr>)\<rparr>)
     fib ((st_sp s, e) # bs) ps bss cache"
proof -
  have "(st_sp s + e - st_lo s) mod 16 = 0" if "st_lo s \<le> st_sp s" "(st_sp s - st_lo s) mod 16 = 0"
    using that e by (metis Nat.diff_add_assoc2 mod_0 mod_add_eq add_0)
  with inv s fits show ?thesis
    by (auto simp: seg_pre_def node_ok_def cached_ok_def split: option.splits)
qed

lemma seg_pop:
  assumes inv: "seg_pre good blocks g fib ((a, n) # bs) ps bss cache" and s: "sm_heap g fib = Some s"
    and n: "n mod 16 = 0"
  shows "seg_pre good blocks (g\<lparr>sm_heap := (sm_heap g)(fib \<mapsto> s\<lparr>st_sp := a\<rparr>)\<rparr>) fib bs ps bss cache"
proof -
  have "(a - st_lo s) mod 16 = 0" if "covers (st_lo s) a bs" "a + n = st_sp s" "(st_sp s - st_lo s) mod 16 = 0"
    using that n covers_le [OF that(1)] by (metis Nat.diff_add_assoc2 mod_0 mod_add_eq mod_mod_trivial add_0_right)
  with inv s covers_le [of "st_lo s" a bs] show ?thesis
    by (auto simp: seg_pre_def node_ok_def cached_ok_def split: option.splits)
qed

text \<open>Moving up to the cached stacklet, and down from an emptied one, which becomes the cached one.\<close>

lemma seg_enter:
  assumes "seg_ok good blocks g fib bs ps bss (Some c)"
  shows "seg_pre good blocks g c [] (fib # ps) (bs # bss) None"
  using assms by (auto simp: seg_ok_def seg_pre_def cached_ok_def sl_empty_def split: option.splits)

lemma seg_leave:
  assumes "seg_pre good blocks g fib [] (q # ps) (bs # bss) None"
  shows "seg_ok good blocks g q bs ps bss (Some fib)"
  using assms by (auto simp: seg_ok_def seg_pre_def cached_ok_def sl_empty_def split: option.splits)

lemma alloc_free:
  assumes "alloc_ok good blocks malloc free" "good m" "blocks m p = Some n"
  shows "good (free m p) \<and> blocks (free m p) = (blocks m)(p := None)"
  using assms by (auto simp: alloc_ok_def)

lemma alloc_malloc:
  assumes "alloc_ok good blocks malloc free" "good m" "malloc m n = Some (p, m')"
  shows "good m' \<and> blocks m p = None \<and> blocks m' = (blocks m)(p \<mapsto> unat n)"
  using assms unfolding alloc_ok_def by metis

lemma alloc_bound:
  assumes "alloc_ok good blocks malloc free" "good m" "blocks m p = Some n"
  shows "p mod 16 = 0 \<and> p + n \<le> 2 ^ 62"
  using assms unfolding alloc_ok_def by metis

text \<open>\<open>set_next\<close> on the top stacklet replaces the cached one, which is freed.\<close>

lemma seg_set_next:
  assumes al: "alloc_ok good blocks malloc free" and inv: "seg_pre good blocks g fib bs ps bss cache"
    and s: "sm_heap g fib = Some s"
  shows "\<exists>g'. sl_set_next free fib r g = Some g' \<and> good (sm_alloc g')
     \<and> sm_heap g' fib = Some (s\<lparr>st_next := r\<rparr>) \<and> (\<forall>p. p \<noteq> fib \<and> Some p \<noteq> cache \<longrightarrow> sm_heap g' p = sm_heap g p)
     \<and> (\<forall>p. Some p \<noteq> cache \<longrightarrow> blocks (sm_alloc g') p = blocks (sm_alloc g) p)
     \<and> (\<forall>c. cache = Some c \<longrightarrow> sm_heap g' c = None \<and> blocks (sm_alloc g') c = None)"
proof -
  from seg_pre_top [OF inv] s have top: "sl_is_top (sm_heap g) s = Some True" "st_next s = cache"
    by (metis option.inject)+
  from inv have good: "good (sm_alloc g)" by (simp add: seg_pre_def)
  show ?thesis
  proof (cases cache)
    case None
    with top s good show ?thesis by (simp add: sl_set_next_def sl_free_def)
  next
    case (Some c)
    with inv have c: "c \<noteq> fib" "\<exists>n. blocks (sm_alloc g) c = Some n"
      by (auto simp: seg_pre_def node_ok_def split: option.splits)
    then obtain n where "blocks (sm_alloc g) c = Some n" by blast
    from alloc_free [OF al good this] top s Some c(1) show ?thesis
      by (auto simp: sl_set_next_def sl_free_def)
  qed
qed

lemma below_ok_cong:
  "(\<And>p. p \<in> set ps \<Longrightarrow> h p = h' p) \<Longrightarrow> below_ok h c r ps bss = below_ok h' c r ps bss"
  by (induction h c r ps bss rule: below_ok.induct) (auto split: option.splits)

lemma node_ok_cong:
  "sm_heap g p = sm_heap g' p \<Longrightarrow> blocks (sm_alloc g) p = blocks (sm_alloc g') p \<Longrightarrow>
   node_ok blocks g p = node_ok blocks g' p"
  by (simp add: node_ok_def split: option.split)

lemma seg_drop:
  assumes al: "alloc_ok good blocks malloc free" and inv: "seg_pre good blocks g fib bs ps bss cache"
  shows "\<exists>g'. sl_set_next free fib None g = Some g' \<and> seg_pre good blocks g' fib bs ps bss None"
proof -
  from seg_pre_top [OF inv] obtain s where s: "sm_heap g fib = Some s" "covers (st_lo s) (st_sp s) bs"
    "below_ok (sm_heap g) fib (st_prev s) ps bss" by metis
  from seg_set_next [OF al inv s(1), of None] obtain g' where g': "sl_set_next free fib None g = Some g'"
    "good (sm_alloc g')" "sm_heap g' fib = Some (s\<lparr>st_next := None\<rparr>)"
    "\<forall>p. p \<noteq> fib \<and> Some p \<noteq> cache \<longrightarrow> sm_heap g' p = sm_heap g p"
    "\<forall>p. Some p \<noteq> cache \<longrightarrow> blocks (sm_alloc g') p = blocks (sm_alloc g) p" by metis
  have notc: "Some p \<noteq> cache" if "p \<in> set (fib # ps)" for p
    using inv that by (auto simp: seg_pre_def split: option.splits)
  have "node_ok blocks g' p" if "p \<in> set (fib # ps)" for p
  proof (cases "p = fib")
    case True
    with inv g'(3,5) notc [OF that] s(1) show ?thesis by (auto simp: seg_pre_def node_ok_def)
  next
    case False
    with inv g'(4,5) notc [OF that] that node_ok_cong [of g' p g blocks] show ?thesis
      by (auto simp: seg_pre_def)
  qed
  moreover have "below_ok (sm_heap g') fib (st_prev s) ps bss"
  proof -
    have "sm_heap g' p = sm_heap g p" if "p \<in> set ps" for p
      using inv g'(4) notc [of p] that by (auto simp: seg_pre_def)
    with s(3) below_ok_cong [of ps "sm_heap g'" "sm_heap g"] show ?thesis by metis
  qed
  ultimately have "seg_pre good blocks g' fib bs ps bss None"
    using inv g'(2,3) s(2) by (simp add: seg_pre_def)
  with g'(1) show ?thesis by metis
qed

text \<open>A new stacklet above the top.\<close>

lemma seg_grow:
  assumes al: "alloc_ok good blocks malloc free" and inv: "seg_ok good blocks g fib bs ps bss cache"
    and sz: "unat sz + 2 ^ 14 \<le> 2 ^ 64"
  shows "next_stacklet malloc free sz (Some fib) g = Some (Inl Bad_alloc, g)
     \<or> (\<exists>q s g'. next_stacklet malloc free sz (Some fib) g = Some (Inr q, g')
          \<and> seg_pre good blocks g' q [] (fib # ps) (bs # bss) None \<and> sm_heap g' q = Some s
          \<and> st_sp s = st_lo s \<and> unat sz \<le> st_hi s - st_lo s \<and> st_lo s \<le> st_hi s)"
proof -
  from inv have pre: "seg_pre good blocks g fib bs ps bss cache" by (simp add: seg_ok_def)
  from seg_pre_top [OF pre] obtain s where s: "sm_heap g fib = Some s" "covers (st_lo s) (st_sp s) bs"
    "below_ok (sm_heap g) fib (st_prev s) ps bss" "sl_is_top (sm_heap g) s = Some True" by metis
  have sz48: "unat (sz + of_nat sizeof_stacklet) = unat sz + 48"
    using sz by (simp add: sizeof_stacklet_def unat_word_ariths)
  from round_up_ok [of "sz + of_nat sizeof_stacklet"] sz sz48 obtain req where
    req: "round_up_to_page_size (sz + of_nat sizeof_stacklet) = Some req" "unat sz + 48 \<le> unat req" by auto
  have le: "of_nat sizeof_stacklet + sz \<le> req" using req(2) sz48 by (simp add: word_le_nat_alt add.commute)
  from pre have good: "good (sm_alloc g)" by (simp add: seg_pre_def)
  show ?thesis
  proof (cases "malloc (sm_alloc g) req")
    case None
    with s req le show ?thesis by (simp add: next_stacklet_def)
  next
    case (Some qm)
    obtain q m where qm: "qm = (q, m)" by fastforce
    note m = alloc_malloc [OF al good Some [unfolded qm]]
    let ?g = "g\<lparr>sm_alloc := m\<rparr>"
    have fresh: "q \<notin> set (fib # ps)" "Some q \<noteq> cache"
      using pre m by (auto simp: seg_pre_def node_ok_def split: option.splits)
    have nodes: "node_ok blocks ?g p = node_ok blocks g p" if "p \<noteq> q" for p
      using that m by (simp add: node_ok_def split: option.split)
    have "\<forall>p \<in> set (fib # ps). node_ok blocks ?g p"
      using pre fresh(1) nodes unfolding seg_pre_def by metis
    then have pre': "seg_pre good blocks ?g fib bs ps bss cache"
      using pre fresh(2) nodes m by (auto simp: seg_pre_def split: option.splits)
    have s': "sm_heap ?g fib = Some s" using s(1) by simp
    from seg_set_next [OF al pre' s', of "Some q"] obtain g1 where
      g1: "sl_set_next free fib (Some q) ?g = Some g1" "good (sm_alloc g1)"
      "sm_heap g1 fib = Some (s\<lparr>st_next := Some q\<rparr>)"
      "\<forall>p. p \<noteq> fib \<and> Some p \<noteq> cache \<longrightarrow> sm_heap g1 p = sm_heap g p"
      "\<forall>p. Some p \<noteq> cache \<longrightarrow> blocks (sm_alloc g1) p = blocks m p" by auto
    let ?q = "\<lparr>st_lo = q + sizeof_stacklet, st_sp = q + sizeof_stacklet, st_hi = q + unat req,
       st_prev = Some fib, st_next = None\<rparr>"
    let ?g' = "g1\<lparr>sm_heap := (sm_heap g1)(q \<mapsto> ?q)\<rparr>"
    have res: "next_stacklet malloc free sz (Some fib) g = Some (Inr q, ?g')"
      using s(1,4) req le Some g1(1) by (simp add: next_stacklet_def qm Let_def)
    have notc: "Some p \<noteq> cache" if "p \<in> set (fib # ps)" for p
      using pre that by (auto simp: seg_pre_def split: option.splits)
    have "node_ok blocks ?g' p" if p: "p \<in> set (fib # ps)" for p
    proof -
      have "p \<noteq> q" using fresh p by auto
      moreover have "blocks (sm_alloc g1) p = blocks (sm_alloc g) p" using g1(5) notc [OF p] m \<open>p \<noteq> q\<close> by simp
      moreover have "node_ok blocks g p" using pre p by (auto simp: seg_pre_def)
      ultimately show ?thesis
        using g1(3,4) notc [OF p] s(1) by (cases "p = fib") (auto simp: node_ok_def split: option.splits)
    qed
    moreover have "node_ok blocks ?g' q"
      using g1(5) fresh(2) m req(2) by (simp add: node_ok_def sizeof_stacklet_def)
    moreover have "below_ok (sm_heap ?g') q (Some fib) (fib # ps) (bs # bss)"
    proof -
      have "sm_heap ?g' p = sm_heap g p" if "p \<in> set ps" for p
        using pre g1(4) notc [of p] fresh that by (auto simp: seg_pre_def)
      then have "below_ok (sm_heap ?g') fib (st_prev s) ps bss"
        using s(3) below_ok_cong [of ps "sm_heap ?g'" "sm_heap g"] by metis
      with g1(3) s(2) fresh inv show ?thesis by (auto simp: seg_ok_def)
    qed
    ultimately have "seg_pre good blocks ?g' q [] (fib # ps) (bs # bss) None"
      using pre g1(2) fresh(1) by (auto simp: seg_pre_def)
    with res req(2) show ?thesis by (auto simp: sizeof_stacklet_def)
  qed
qed

section \<open>Allocation and deallocation\<close>

lemma sl_sizes:
  assumes al: "alloc_ok good blocks malloc free" and good: "good (sm_alloc g)" and n: "node_ok blocks g p"
    and s: "sm_heap g p = Some s"
  shows "\<exists>c u. sl_capacity s = Some c \<and> sl_unused s = Some u \<and> unat c = st_hi s - st_lo s
     \<and> unat u = st_hi s - st_sp s \<and> st_hi s \<le> 2 ^ 62"
proof -
  from n s have b: "blocks (sm_alloc g) p = Some (st_hi s - p)" "p \<le> st_lo s" "st_lo s \<le> st_sp s" "st_sp s \<le> st_hi s"
    by (auto simp: node_ok_def)
  from alloc_bound [OF al good b(1)] b have hi: "st_hi s \<le> 2 ^ 62" by simp
  then have "st_hi s - st_lo s < 2 ^ 64" "st_hi s - st_sp s < 2 ^ 64" by simp_all
  with b hi show ?thesis by (simp add: sl_capacity_def sl_unused_def unat_of_nat del: of_nat_diff)
qed

lemma seg_ok_node:
  assumes "seg_ok good blocks g fib bs ps bss cache"
  shows "good (sm_alloc g)" "node_ok blocks g fib" "cache = Some c \<Longrightarrow> node_ok blocks g c \<and> cached_ok (sm_heap g) fib c"
  using assms by (auto simp: seg_ok_def seg_pre_def)

text \<open>The last part of \<open>allocate\<close>: the stack pointer of the top stacklet moves up.\<close>

lemma seg_take:
  assumes pre: "seg_pre good blocks g fib bs ps bss cache" and s: "sm_heap g fib = Some s"
    and fits: "unat e \<le> st_hi s - st_sp s" "st_sp s \<le> st_hi s" and e: "unat e mod 16 = 0"
    and occ: "ps \<noteq> [] \<Longrightarrow> occupied bs \<or> bs = [] \<and> 0 < unat e"
  shows "seg_ok good blocks (g\<lparr>sm_heap := (sm_heap g)(fib \<mapsto> s\<lparr>st_sp := st_sp s + unat e\<rparr>)\<rparr>)
     fib ((st_sp s, unat e) # bs) ps bss cache"
  using seg_push [OF pre s, of "unat e"] fits e occ by (auto simp: seg_ok_def occupied_def)

text \<open>The stacklets and their allocations after an allocation: on the top stacklet or on a new one.\<close>

definition pushed :: "nat \<times> nat \<Rightarrow> nat \<Rightarrow> (nat \<times> nat) list \<Rightarrow> nat list \<Rightarrow> (nat \<times> nat) list list
    \<Rightarrow> nat \<Rightarrow> (nat \<times> nat) list \<Rightarrow> nat list \<Rightarrow> (nat \<times> nat) list list \<Rightarrow> bool" where
  "pushed b fib bs ps bss fib' bs' ps' bss' \<longleftrightarrow>
     fib' = fib \<and> bs' = b # bs \<and> ps' = ps \<and> bss' = bss \<or> bs' = [b] \<and> ps' = fib # ps \<and> bss' = bs # bss"

lemma stack_allocate_pushed:
  assumes al: "alloc_ok good blocks malloc free" and inv: "seg_ok good blocks g fib bs ps bss cache"
    and sz: "unat sz \<le> 2 ^ 62"
  shows "stack_allocate malloc free sz fib g = Some (Inl Bad_alloc, fib, g)
     \<or> (\<exists>a f g' bs' ps' bss' cache'. stack_allocate malloc free sz fib g = Some (Inr a, f, g')
          \<and> seg_ok good blocks g' f bs' ps' bss' cache'
          \<and> pushed (a, unat (ext_size sz)) fib bs ps bss f bs' ps' bss')"
proof -
  let ?e = "ext_size sz"
  note e = ext_size_bounds [OF sz]
  from inv have pre: "seg_pre good blocks g fib bs ps bss cache" by (simp add: seg_ok_def)
  from seg_pre_top [OF pre] obtain s where s: "sm_heap g fib = Some s" "st_next s = cache"
    "sl_is_top (sm_heap g) s = Some True" "st_sp s \<le> st_hi s" by metis
  note nodes = seg_ok_node [OF inv]
  from sl_sizes [OF al nodes(1,2) s(1)] obtain c u where cu: "sl_capacity s = Some c" "sl_unused s = Some u"
    "unat c = st_hi s - st_lo s" "unat u = st_hi s - st_sp s" "st_hi s \<le> 2 ^ 62" by auto
  show ?thesis
  proof (cases "u < ?e")
    case False
    then have "unat ?e \<le> st_hi s - st_sp s" using cu by (simp add: word_less_nat_alt)
    from seg_take [OF pre s(1) this s(4), of] inv e have
      "seg_ok good blocks (g\<lparr>sm_heap := (sm_heap g)(fib \<mapsto> s\<lparr>st_sp := st_sp s + unat ?e\<rparr>)\<rparr>)
         fib ((st_sp s, unat ?e) # bs) ps bss cache" by (auto simp: seg_ok_def)
    moreover have "stack_allocate malloc free sz fib g = Some (Inr (st_sp s), fib,
        g\<lparr>sm_heap := (sm_heap g)(fib \<mapsto> s\<lparr>st_sp := st_sp s + unat ?e\<rparr>)\<rparr>)"
      using False s cu by (simp add: stack_allocate_def)
    ultimately show ?thesis unfolding pushed_def by fastforce
  next
    case True
    then have pos: "0 < unat ?e" by (simp add: word_less_nat_alt)
    have fresh: "\<exists>g2 bs2. seg_ok good blocks g2 q bs2 (fib # ps) (bs # bss) None \<and> bs2 = [(st_sp t, unat ?e)]
        \<and> g2 = g1\<lparr>sm_heap := (sm_heap g1)(q \<mapsto> t\<lparr>st_sp := st_sp t + unat ?e\<rparr>)\<rparr>"
      if "seg_pre good blocks g1 q [] (fib # ps) (bs # bss) None" "sm_heap g1 q = Some t" "st_sp t = st_lo t"
        "unat ?e \<le> st_hi t - st_lo t" "st_lo t \<le> st_hi t" for g1 q t
      using seg_take [OF that(1,2), of ?e] that(3-5) pos e by auto
    show ?thesis
    proof (cases "\<exists>q. cache = Some q \<and> ?e \<le> the (sl_capacity (the (sm_heap g q)))")
      case reuse: True
      then obtain q where q: "cache = Some q" "?e \<le> the (sl_capacity (the (sm_heap g q)))" by blast
      with nodes(3) obtain t where t: "sm_heap g q = Some t" "st_prev t = Some fib" "st_next t = None" "st_sp t = st_lo t"
        by (auto simp: cached_ok_def sl_empty_def split: option.splits)
      have nq: "node_ok blocks g q" using nodes(3) q(1) by simp
      from sl_sizes [OF al nodes(1) nq t(1)] obtain cq where cq: "sl_capacity t = Some cq" "unat cq = st_hi t - st_lo t"
        by auto
      have le: "unat ?e \<le> st_hi t - st_lo t" "st_lo t \<le> st_hi t"
        using q(2) t(1) cq nq by (auto simp: word_le_nat_alt node_ok_def)
      from seg_enter [of good blocks g fib bs ps bss q] inv q(1)
      have pre': "seg_pre good blocks g q [] (fib # ps) (bs # bss) None" by simp
      have "stack_allocate malloc free sz fib g = Some (Inr (st_sp t), q,
          g\<lparr>sm_heap := (sm_heap g)(q \<mapsto> t\<lparr>st_sp := st_sp t + unat ?e\<rparr>)\<rparr>)"
        using True s cu q t cq by (simp add: stack_allocate_def sl_is_top_def)
      with fresh [OF pre' t(1,4) le] show ?thesis unfolding pushed_def by fastforce
    next
      case grow: False
      have no: "(case cache of None \<Rightarrow> Some False
          | Some q \<Rightarrow> do { n \<leftarrow> sm_heap g q; c \<leftarrow> sl_capacity n; Some (c \<ge> ?e) }) = Some False"
      proof (cases cache)
        case (Some q)
        with nodes(3) have nq: "node_ok blocks g q" by simp
        then obtain t where t: "sm_heap g q = Some t" by (auto simp: node_ok_def split: option.splits)
        from sl_sizes [OF al nodes(1) nq t] grow Some t show ?thesis by auto
      qed simp
      have "unat (2 * c) = 2 * unat c"
        using cu by (simp add: unat_word_ariths)
      moreover have "unat c \<le> 2 ^ 62" using cu by simp
      ultimately have big: "unat (max (2 * c) ?e) + 2 ^ 14 \<le> 2 ^ 64" using e sz by (auto simp: max_def)
      have alloc: "stack_allocate malloc free sz fib g = (next_stacklet malloc free (max (2 * c) ?e) (Some fib) g \<bind>
         (\<lambda>(r, g1). case r of Inl e \<Rightarrow> Some (Inl e, fib, g1) | Inr f \<Rightarrow> do {
            s1 \<leftarrow> sm_heap g1 f; t1 \<leftarrow> sl_is_top (sm_heap g1) s1; lf_assert t1;
            Some (Inr (st_sp s1), f, g1\<lparr>sm_heap := (sm_heap g1)(f \<mapsto> s1\<lparr>st_sp := st_sp s1 + unat ?e\<rparr>)\<rparr>) }))"
        using True s cu no by (simp add: stack_allocate_def)
      from seg_grow [OF al inv big] consider
          "next_stacklet malloc free (max (2 * c) ?e) (Some fib) g = Some (Inl Bad_alloc, g)"
        | q t g1 where "next_stacklet malloc free (max (2 * c) ?e) (Some fib) g = Some (Inr q, g1)"
          "seg_pre good blocks g1 q [] (fib # ps) (bs # bss) None" "sm_heap g1 q = Some t" "st_sp t = st_lo t"
          "unat (max (2 * c) ?e) \<le> st_hi t - st_lo t" "st_lo t \<le> st_hi t" by metis
      then show ?thesis
      proof cases
        case 1
        with alloc show ?thesis by simp
      next
        case 2
        from seg_pre_top [OF 2(2)] 2(3) have "sl_is_top (sm_heap g1) t = Some True" by (metis option.inject)
        moreover have "unat ?e \<le> st_hi t - st_lo t" using 2(5) by (auto simp: max_def word_le_nat_alt split: if_splits)
        ultimately show ?thesis using fresh [OF 2(2,3,4) _ 2(6)] alloc 2(1,3) unfolding pushed_def by fastforce
      qed
    qed
  qed
qed

lemma stack_allocate_ok:
  assumes al: "alloc_ok good blocks malloc free" and inv: "seg_ok good blocks g fib bs ps bss cache"
    and sz: "unat sz \<le> 2 ^ 62"
  shows "stack_allocate malloc free sz fib g = Some (Inl Bad_alloc, fib, g)
     \<or> (\<exists>a f g' bs' ps' bss' cache'. stack_allocate malloc free sz fib g = Some (Inr a, f, g')
          \<and> seg_ok good blocks g' f bs' ps' bss' cache'
          \<and> concat (bs' # bss') = (a, unat (ext_size sz)) # concat (bs # bss))"
proof -
  have "concat (bs' # bss') = b # concat (bs # bss)" if "pushed b fib bs ps bss f bs' ps' bss'" for b f bs' ps' bss'
    using that by (auto simp: pushed_def)
  with stack_allocate_pushed [OF assms] show ?thesis by metis
qed

lemma seg_uncache:
  assumes al: "alloc_ok good blocks malloc free" and inv: "seg_ok good blocks g fib bs ps bss cache"
  shows "\<exists>g' cache'. stack_uncache free fib g = Some g' \<and> seg_ok good blocks g' fib bs ps bss cache'"
proof -
  from inv have pre: "seg_pre good blocks g fib bs ps bss cache" by (simp add: seg_ok_def)
  from seg_pre_top [OF pre] obtain s where s: "sm_heap g fib = Some s" "st_next s = cache" by metis
  note nodes = seg_ok_node [OF inv]
  show ?thesis
  proof (cases cache)
    case None
    with s inv show ?thesis by (auto simp: stack_uncache_def)
  next
    case (Some q)
    with nodes(3) have nq: "node_ok blocks g q" by simp
    then obtain t where t: "sm_heap g q = Some t" by (auto simp: node_ok_def split: option.splits)
    from sl_sizes [OF al nodes(1,2) s(1)] sl_sizes [OF al nodes(1) nq t] obtain c cq where
      "sl_capacity s = Some c" "sl_capacity t = Some cq" by auto
    then have eq: "stack_uncache free fib g = (if cq > 8 * c then sl_set_next free fib None g else Some g)"
      using s t Some by (simp add: stack_uncache_def)
    from seg_drop [OF al pre] obtain g' where "sl_set_next free fib None g = Some g'"
      "seg_pre good blocks g' fib bs ps bss None" by blast
    with inv eq show ?thesis by (auto simp: seg_ok_def)
  qed
qed

lemma seg_ok_is_top:
  assumes "seg_ok good blocks g fib bs ps bss cache"
  shows "\<exists>s. sm_heap g fib = Some s \<and> sl_is_top (sm_heap g) s = Some True"
  using assms seg_pre_top unfolding seg_ok_def by metis

lemma stack_deallocate_popped:
  assumes al: "alloc_ok good blocks malloc free"
    and inv: "seg_ok good blocks g fib ((a, n) # bs) ps bss cache" and n: "n mod 16 = 0"
  shows "\<exists>f g' bs' ps' bss' cache'. stack_deallocate free a fib g = Some (f, g')
     \<and> seg_ok good blocks g' f bs' ps' bss' cache'
     \<and> (f = fib \<and> bs' = bs \<and> ps' = ps \<and> bss' = bss \<or> bs = [] \<and> f # ps' = ps \<and> bs' # bss' = bss)"
proof -
  from inv have pre: "seg_pre good blocks g fib ((a, n) # bs) ps bss cache" by (simp add: seg_ok_def)
  from seg_pre_top [OF pre] obtain s where s: "sm_heap g fib = Some s" "covers (st_lo s) (st_sp s) ((a, n) # bs)"
    "below_ok (sm_heap g) fib (st_prev s) ps bss" "sl_is_top (sm_heap g) s = Some True" by metis
  let ?s = "s\<lparr>st_sp := a\<rparr>" let ?g = "g\<lparr>sm_heap := (sm_heap g)(fib \<mapsto> ?s)\<rparr>"
  note pre1 = seg_pop [OF pre s(1) n]
  have end_ok: "\<exists>f g' bs' ps' bss' cache'. stack_deallocate free a fib g = Some (f, g')
     \<and> seg_ok good blocks g' f bs' ps' bss' cache'
     \<and> (f = fib \<and> bs' = bs \<and> ps' = ps \<and> bss' = bss \<or> bs = [] \<and> f # ps' = ps \<and> bs' # bss' = bss)"
    if ok: "seg_ok good blocks g2 f bs2 ps2 bss2 cache2" "(f = fib \<and> bs2 = bs \<and> ps2 = ps \<and> bss2 = bss \<or> bs = [] \<and> f # ps2 = ps \<and> bs2 # bss2 = bss)"
      and eq: "stack_deallocate free a fib g = do { s2 \<leftarrow> sm_heap g2 f; t2 \<leftarrow> sl_is_top (sm_heap g2) s2; lf_assert t2; Some (f, g2) }"
    for g2 f bs2 ps2 bss2 cache2
  proof -
    from seg_ok_is_top [OF ok(1)] eq have "stack_deallocate free a fib g = Some (f, g2)" by auto
    with ok show ?thesis by (intro exI conjI)
  qed
  show ?thesis
  proof (cases "a = st_lo s")
    case False
    then have "ps \<noteq> [] \<longrightarrow> occupied bs" using inv s(2) by (cases bs) (auto simp: seg_ok_def occupied_def)
    then have "seg_ok good blocks ?g fib bs ps bss cache" using pre1 by (simp add: seg_ok_def)
    from end_ok [OF this disjI1] show ?thesis
      using False s by (simp add: stack_deallocate_def sl_empty_def Let_def)
  next
    case True
    show ?thesis
    proof (cases ps)
      case Nil
      then have prev: "st_prev s = None" using s(3) by (cases bss) auto
      have "seg_ok good blocks ?g fib bs ps bss cache" using pre1 Nil by (simp add: seg_ok_def)
      from seg_uncache [OF al this] obtain g3 c3 where
        "stack_uncache free fib ?g = Some g3" "seg_ok good blocks g3 fib bs ps bss c3" by blast
      from end_ok [OF this(2) disjI1] this(1) show ?thesis
        using True s prev by (simp add: stack_deallocate_def sl_empty_def Let_def)
    next
      case (Cons q qs)
      then obtain bs1 bss1 where bss: "bss = bs1 # bss1" "st_prev s = Some q"
        using s(3) by (cases bss) auto
      have "\<not> occupied bs" using covers_occupied [of "st_lo s" a bs] s(2) True by auto
      then have bs: "bs = []" using inv Cons by (cases bs) (auto simp: seg_ok_def occupied_def)
      from seg_drop [OF al pre1] obtain g2 where g2: "sl_set_next free fib None ?g = Some g2"
        "seg_pre good blocks g2 fib bs ps bss None" by blast
      from seg_leave [of good blocks g2 fib q qs bs1 bss1] g2(2) bs Cons bss
      have "seg_ok good blocks g2 q bs1 qs bss1 (Some fib)" by simp
      from seg_uncache [OF al this] obtain g3 c3 where
        g3: "stack_uncache free q g2 = Some g3" "seg_ok good blocks g3 q bs1 qs bss1 c3" by blast
      have "bs = [] \<and> q # qs = ps \<and> bs1 # bss1 = bss" using bs bss Cons by simp
      from end_ok [OF g3(2) disjI2 [OF this]] show ?thesis
        using True s bss g2(1) g3(1) by (simp add: stack_deallocate_def sl_empty_def Let_def)
    qed
  qed
qed

lemma stack_deallocate_ok:
  assumes al: "alloc_ok good blocks malloc free"
    and inv: "seg_ok good blocks g fib ((a, n) # bs) ps bss cache" and n: "n mod 16 = 0"
  shows "\<exists>f g' bs' ps' bss' cache'. stack_deallocate free a fib g = Some (f, g')
     \<and> seg_ok good blocks g' f bs' ps' bss' cache' \<and> concat (bs' # bss') = concat (bs # bss)"
proof -
  from stack_deallocate_popped [OF assms] obtain f g' bs' ps' bss' cache' where
    "stack_deallocate free a fib g = Some (f, g')" "seg_ok good blocks g' f bs' ps' bss' cache'"
    "concat (bs' # bss') = concat (bs # bss)" by fastforce
  then show ?thesis by blast
qed

text \<open>Deallocation undoes an allocation, whatever happened above it in between.\<close>

lemma stack_deallocate_pushed:
  assumes al: "alloc_ok good blocks malloc free" and push: "pushed (a, n) fib bs ps bss fib' bs' ps' bss'"
    and old: "seg_ok good blocks g0 fib bs ps bss cache0"
    and inv: "seg_ok good blocks g fib' bs' ps' bss' cache" and n: "n mod 16 = 0"
  shows "\<exists>g' cache'. stack_deallocate free a fib' g = Some (fib, g') \<and> seg_ok good blocks g' fib bs ps bss cache'"
  using push unfolding pushed_def
proof (elim disjE conjE)
  assume eqs: "fib' = fib" "bs' = (a, n) # bs" "ps' = ps" "bss' = bss"
  from stack_deallocate_popped [OF al inv [unfolded eqs] n] obtain f g' bs1 ps1 bss1 c1 where
    r: "stack_deallocate free a fib g = Some (f, g')" "seg_ok good blocks g' f bs1 ps1 bss1 c1"
    "f = fib \<and> bs1 = bs \<and> ps1 = ps \<and> bss1 = bss \<or> bs = [] \<and> f # ps1 = ps \<and> bs1 # bss1 = bss" by blast
  have "ps \<noteq> [] \<longrightarrow> bs \<noteq> []" using old by (auto simp: seg_ok_def occupied_def)
  with r eqs show ?thesis by auto
next
  assume eqs: "bs' = [(a, n)]" "ps' = fib # ps" "bss' = bs # bss"
  from stack_deallocate_popped [OF al inv [unfolded eqs] n] obtain f g' bs1 ps1 bss1 c1 where
    r: "stack_deallocate free a fib' g = Some (f, g')" "seg_ok good blocks g' f bs1 ps1 bss1 c1"
    "f = fib' \<and> bs1 = [] \<and> ps1 = fib # ps \<or> f # ps1 = fib # ps \<and> bs1 # bss1 = bs # bss" by blast
  have "\<not> (bs1 = [] \<and> ps1 = fib # ps)" using r(2) by (auto simp: seg_ok_def occupied_def)
  with r show ?thesis by auto
qed

lemma seg_new:
  assumes al: "alloc_ok good blocks malloc free" and good: "good (sm_alloc g)"
  shows "stack_new malloc free g = Some (Inl Bad_alloc, g)
     \<or> (\<exists>f g'. stack_new malloc free g = Some (Inr f, g') \<and> seg_ok good blocks g' f [] [] [] None)"
proof -
  have one: "unat (fibre_init_size + of_nat sizeof_stacklet) = 49" by (simp add: fibre_init_size_def sizeof_stacklet_def)
  from round_up_ok [of "fibre_init_size + of_nat sizeof_stacklet"] one obtain req where
    req: "round_up_to_page_size (fibre_init_size + of_nat sizeof_stacklet) = Some req" "49 \<le> unat req" by auto
  have le: "of_nat sizeof_stacklet + fibre_init_size \<le> req"
    using req(2) one by (simp add: word_le_nat_alt add.commute)
  show ?thesis
  proof (cases "malloc (sm_alloc g) req")
    case None
    with req le show ?thesis by (simp add: stack_new_def next_stacklet_def)
  next
    case (Some qm)
    obtain q m where qm: "qm = (q, m)" by fastforce
    note m = alloc_malloc [OF al good Some [unfolded qm]]
    let ?q = "\<lparr>st_lo = q + sizeof_stacklet, st_sp = q + sizeof_stacklet, st_hi = q + unat req,
       st_prev = None, st_next = None\<rparr>"
    have "stack_new malloc free g = Some (Inr q, g\<lparr>sm_alloc := m, sm_heap := (sm_heap g)(q \<mapsto> ?q)\<rparr>)"
      using req le Some by (simp add: stack_new_def next_stacklet_def qm Let_def)
    moreover have "seg_ok good blocks (g\<lparr>sm_alloc := m, sm_heap := (sm_heap g)(q \<mapsto> ?q)\<rparr>) q [] [] [] None"
      using m req(2) by (simp add: seg_ok_def seg_pre_def node_ok_def sizeof_stacklet_def)
    ultimately show ?thesis by blast
  qed
qed

section \<open>The allocations do not overlap\<close>

definition apart :: "nat \<times> nat \<Rightarrow> nat \<times> nat \<Rightarrow> bool" where
  "apart x y \<longleftrightarrow> fst x + snd x \<le> fst y \<or> fst y + snd y \<le> fst x"

lemma covers_inside: "covers lo sp bs \<Longrightarrow> (a, n) \<in> set bs \<Longrightarrow> lo \<le> a \<and> a + n \<le> sp"
proof (induction lo sp bs rule: covers.induct)
  case (2 lo sp b k bs)
  then show ?case using covers_le [of lo b bs] by fastforce
qed simp

lemma covers_apart: "covers lo sp bs \<Longrightarrow> sorted_wrt apart bs"
proof (induction lo sp bs rule: covers.induct)
  case (2 lo sp b k bs)
  have "apart (b, k) x" if "x \<in> set bs" for x
    using covers_inside [of lo b bs "fst x" "snd x"] 2(2) that by (simp add: apart_def)
  with 2 show ?case by simp
qed simp

lemma covers_aligned:
  "covers lo sp bs \<Longrightarrow> (a, n) \<in> set bs \<Longrightarrow> \<forall>(b, k) \<in> set bs. k mod 16 = 0 \<Longrightarrow> sp mod 16 = 0 \<Longrightarrow> a mod 16 = 0"
proof (induction lo sp bs rule: covers.induct)
  case (2 lo sp b k bs)
  then have "(b + k) mod 16 = 0" "k mod 16 = 0" by auto
  then have "b mod 16 = 0" by presburger
  with 2 show ?case by auto
qed simp

definition owns :: "(nat \<rightharpoonup> stacklet) \<Rightarrow> nat \<Rightarrow> (nat \<times> nat) list \<Rightarrow> bool" where
  "owns h p bs \<longleftrightarrow> (case h p of None \<Rightarrow> False | Some s \<Rightarrow> covers (st_lo s) (st_sp s) bs)"

lemma below_owns: "below_ok h c r ps bss \<Longrightarrow> list_all2 (owns h) ps bss"
  by (induction h c r ps bss rule: below_ok.induct) (auto simp: owns_def split: option.splits)

lemma seg_owns:
  assumes "seg_ok good blocks g fib bs ps bss cache"
  shows "list_all2 (owns (sm_heap g)) (fib # ps) (bs # bss)"
proof -
  from assms seg_pre_top obtain s where "sm_heap g fib = Some s" "covers (st_lo s) (st_sp s) bs"
    "below_ok (sm_heap g) fib (st_prev s) ps bss" unfolding seg_ok_def by metis
  with below_owns [of "sm_heap g" fib "st_prev s" ps bss] show ?thesis by (simp add: owns_def)
qed

text \<open>A block lies inside the malloc block of its stacklet.\<close>

lemma owns_inside:
  assumes "owns (sm_heap g) p bs" "node_ok blocks g p" "(a, n) \<in> set bs"
  shows "\<exists>k. blocks (sm_alloc g) p = Some k \<and> p \<le> a \<and> a + n \<le> p + k"
  using assms covers_inside [of _ _ bs a n]
  by (fastforce simp: owns_def node_ok_def split: option.splits)

lemma owns_apart:
  assumes al: "alloc_ok good blocks malloc free" and good: "good (sm_alloc g)"
    and pq: "p \<noteq> q" "node_ok blocks g p" "node_ok blocks g q"
    and x: "owns (sm_heap g) p bs" "x \<in> set bs" and y: "owns (sm_heap g) q cs" "y \<in> set cs"
  shows "apart x y"
proof -
  from owns_inside [of g p bs blocks "fst x" "snd x"] x pq obtain k where
    k: "blocks (sm_alloc g) p = Some k" "p \<le> fst x" "fst x + snd x \<le> p + k" by auto
  from owns_inside [of g q cs blocks "fst y" "snd y"] y pq obtain l where
    l: "blocks (sm_alloc g) q = Some l" "q \<le> fst y" "fst y + snd y \<le> q + l" by auto
  have "p + k \<le> q \<or> q + l \<le> p" using al good pq(1) k(1) l(1) unfolding alloc_ok_def by metis
  with k l show ?thesis by (auto simp: apart_def)
qed

lemma owned_apart:
  assumes al: "alloc_ok good blocks malloc free" and good: "good (sm_alloc g)"
  shows "list_all2 (owns (sm_heap g)) ps bss \<Longrightarrow> distinct ps \<Longrightarrow> \<forall>p \<in> set ps. node_ok blocks g p \<Longrightarrow>
     sorted_wrt apart (concat bss)"
proof (induction ps bss rule: list_all2_induct)
  case (Cons p ps bs bss)
  have "sorted_wrt apart bs" using Cons.hyps(1) covers_apart by (auto simp: owns_def split: option.splits)
  moreover have "apart x y" if xy: "x \<in> set bs" "y \<in> set (concat bss)" for x y
  proof -
    from xy(2) obtain cs where "cs \<in> set bss" "y \<in> set cs" by auto
    then obtain i where i: "i < length bss" "y \<in> set (bss ! i)" by (metis in_set_conv_nth)
    with Cons.hyps(2) have q: "i < length ps" "owns (sm_heap g) (ps ! i) (bss ! i)"
      by (auto simp: list_all2_conv_all_nth)
    with Cons.prems have "p \<noteq> ps ! i" "node_ok blocks g p" "node_ok blocks g (ps ! i)" by auto
    from owns_apart [OF al good this Cons.hyps(1) xy(1) q(2) i(2)] show ?thesis .
  qed
  ultimately show ?case using Cons by (simp add: sorted_wrt_append)
qed simp

lemma owned_aligned:
  assumes al: "alloc_ok good blocks malloc free" and good: "good (sm_alloc g)"
    and own: "owns (sm_heap g) p bs" "node_ok blocks g p" and x: "(a, n) \<in> set bs" "\<forall>(b, k) \<in> set bs. k mod 16 = 0"
  shows "a mod 16 = 0"
proof -
  from own obtain s where s: "sm_heap g p = Some s" "covers (st_lo s) (st_sp s) bs" "st_lo s = p + 48"
    "(st_sp s - st_lo s) mod 16 = 0" "st_lo s \<le> st_sp s" "blocks (sm_alloc g) p = Some (st_hi s - p)"
    by (auto simp: owns_def node_ok_def sizeof_stacklet_def split: option.splits)
  have "p mod 16 = 0" using alloc_bound [OF al good s(6)] by simp
  then have "st_sp s mod 16 = 0" using s(3,4,5) by presburger
  with covers_aligned [OF s(2) x] show ?thesis by blast
qed

section \<open>Properties\<close>

text \<open>
  A client that allocates and deallocates first in, last out; a failed allocation changes
  nothing. \<open>live\<close> holds the addresses and requested sizes, newest first.
\<close>

datatype st_op = S_alloc u64 | S_dealloc

fun st_run :: "('m \<Rightarrow> u64 \<Rightarrow> (nat \<times> 'm) option) \<Rightarrow> ('m \<Rightarrow> nat \<Rightarrow> 'm) \<Rightarrow> nat \<Rightarrow> 'm smem \<Rightarrow> (nat \<times> u64) list
    \<Rightarrow> st_op list \<Rightarrow> (nat \<times> 'm smem \<times> (nat \<times> u64) list) option" where
  "st_run malloc free fib g live [] = Some (fib, g, live)"
| "st_run malloc free fib g live (S_alloc sz # ops) = do {
     (r, f, g') \<leftarrow> stack_allocate malloc free sz fib g;
     st_run malloc free f g' (case r of Inl _ \<Rightarrow> live | Inr a \<Rightarrow> (a, sz) # live) ops }"
| "st_run malloc free fib g live (S_dealloc # ops) =
     (case live of [] \<Rightarrow> st_run malloc free fib g live ops
      | (a, sz) # live' \<Rightarrow> do {
          (f, g') \<leftarrow> stack_deallocate free a fib g;
          st_run malloc free f g' live' ops })"

definition small_op :: "st_op \<Rightarrow> bool" where
  "small_op x \<longleftrightarrow> (case x of S_alloc sz \<Rightarrow> unat sz \<le> 2 ^ 62 | S_dealloc \<Rightarrow> True)"

text \<open>The stack holds exactly the live allocations, rounded up to the alignment.\<close>

definition holds :: "('m \<Rightarrow> bool) \<Rightarrow> ('m \<Rightarrow> nat \<rightharpoonup> nat) \<Rightarrow> 'm smem \<Rightarrow> nat \<Rightarrow> (nat \<times> u64) list \<Rightarrow> bool" where
  "holds good blocks g fib live \<longleftrightarrow> (\<exists>bs ps bss cache. seg_ok good blocks g fib bs ps bss cache
     \<and> concat (bs # bss) = map (\<lambda>(a, sz). (a, unat (ext_size sz))) live)
     \<and> (\<forall>(a, sz) \<in> set live. unat sz \<le> 2 ^ 62)"

lemma top_nonempty:
  assumes "seg_ok good blocks g fib bs ps bss cache" "concat (bs # bss) \<noteq> []"
  shows "bs \<noteq> []"
proof -
  have len: "length bss = length ps" using seg_owns [OF assms(1)] by (auto dest: list_all2_lengthD)
  show ?thesis using assms len by (cases ps) (auto simp: seg_ok_def occupied_def)
qed

lemma st_run_ok:
  assumes al: "alloc_ok good blocks malloc free"
  shows "holds good blocks g fib live \<Longrightarrow> list_all small_op ops \<Longrightarrow>
     \<exists>f g' live'. st_run malloc free fib g live ops = Some (f, g', live') \<and> holds good blocks g' f live'"
proof (induction ops arbitrary: fib g live)
  case (Cons x ops)
  from Cons.prems obtain bs ps bss cache where ok: "seg_ok good blocks g fib bs ps bss cache"
    "concat (bs # bss) = map (\<lambda>(a, sz). (a, unat (ext_size sz))) live" "\<forall>(a, sz) \<in> set live. unat sz \<le> 2 ^ 62"
    by (auto simp: holds_def)
  show ?case
  proof (cases x)
    case (S_alloc sz)
    with Cons.prems have sz: "unat sz \<le> 2 ^ 62" by (simp add: small_op_def)
    from stack_allocate_ok [OF al ok(1) sz] consider
        "stack_allocate malloc free sz fib g = Some (Inl Bad_alloc, fib, g)"
      | a f g' bs' ps' bss' cache' where "stack_allocate malloc free sz fib g = Some (Inr a, f, g')"
        "seg_ok good blocks g' f bs' ps' bss' cache'"
        "concat (bs' # bss') = (a, unat (ext_size sz)) # concat (bs # bss)" by metis
    then show ?thesis
    proof cases
      case 1
      with Cons.IH [OF Cons.prems(1)] Cons.prems S_alloc show ?thesis by simp
    next
      case 2
      have "concat (bs' # bss') = map (\<lambda>(a, sz). (a, unat (ext_size sz))) ((a, sz) # live)" using 2(3) ok(2) by simp
      with 2(2) ok(3) sz have "holds good blocks g' f ((a, sz) # live)" unfolding holds_def by fastforce
      with Cons.IH [OF this] Cons.prems S_alloc 2(1) show ?thesis by simp
    qed
  next
    case S_dealloc
    show ?thesis
    proof (cases live)
      case Nil
      with S_dealloc Cons show ?thesis by simp
    next
      case (Cons y live')
      obtain a sz where y: "y = (a, sz)" by fastforce
      have "bs \<noteq> []" by (rule top_nonempty [OF ok(1)]) (use ok(2) Cons in auto)
      then obtain bs' where bs: "bs = (a, unat (ext_size sz)) # bs'" using ok(2) Cons y by (cases bs) auto
      have sz: "unat sz \<le> 2 ^ 62" using ok(3) Cons y by simp
      from stack_deallocate_ok [OF al ok(1) [unfolded bs]] ext_size_bounds [OF sz] obtain f g' bs2 ps2 bss2 c2 where
        d: "stack_deallocate free a fib g = Some (f, g')" "seg_ok good blocks g' f bs2 ps2 bss2 c2"
          "concat (bs2 # bss2) = concat (bs' # bss)" by metis
      have "concat (bs2 # bss2) = map (\<lambda>(a, sz). (a, unat (ext_size sz))) live'" using d(3) ok(2) bs Cons by simp
      with d(2) ok(3) Cons have "holds good blocks g' f live'" unfolding holds_def by fastforce
      with Cons.IH [OF this] Cons.prems S_dealloc Cons y d(1) show ?thesis by simp
    qed
  qed
qed simp

lemma holds_safe:
  assumes al: "alloc_ok good blocks malloc free" and h: "holds good blocks g fib live"
  shows "sorted_wrt (\<lambda>(a, n) (b, k). a + unat n \<le> b \<or> b + unat k \<le> a) live
     \<and> (\<forall>(a, n) \<in> set live. a mod 16 = 0) \<and> (live = [] \<longrightarrow> stack_empty fib g = Some True)"
proof -
  from h obtain bs ps bss cache where ok: "seg_ok good blocks g fib bs ps bss cache"
    and eq: "concat (bs # bss) = map (\<lambda>(a, sz). (a, unat (ext_size sz))) live"
    and small: "\<forall>(a, sz) \<in> set live. unat sz \<le> 2 ^ 62" by (auto simp: holds_def)
  from ok have pre: "seg_pre good blocks g fib bs ps bss cache" by (simp add: seg_ok_def)
  then have good: "good (sm_alloc g)" and d: "distinct (fib # ps)" and nodes: "\<forall>p \<in> set (fib # ps). node_ok blocks g p"
    by (simp_all add: seg_pre_def)
  note own = seg_owns [OF ok]
  have "sorted_wrt apart (map (\<lambda>(a, sz). (a, unat (ext_size sz))) live)"
    using owned_apart [OF al good own d nodes] eq by simp
  then have s1: "sorted_wrt (\<lambda>x y. apart (fst x, unat (ext_size (snd x))) (fst y, unat (ext_size (snd y)))) live"
    by (simp add: sorted_wrt_map case_prod_unfold)
  have "sorted_wrt (\<lambda>(a, n) (b, k). a + unat n \<le> b \<or> b + unat k \<le> a) live"
  proof (rule sorted_wrt_mono_rel [OF _ s1], goal_cases)
    case (1 x y)
    with small have "unat (snd x) \<le> 2 ^ 62" "unat (snd y) \<le> 2 ^ 62" by auto
    with ext_size_bounds [of "snd x"] ext_size_bounds [of "snd y"] 1(3) show ?case
      by (auto simp: apart_def case_prod_unfold)
  qed
  moreover have "a mod 16 = 0" if "(a, sz) \<in> set live" for a sz
  proof -
    from that have "(a, unat (ext_size sz)) \<in> set (concat (bs # bss))" using eq by force
    then obtain cs where cs: "cs \<in> set (bs # bss)" "(a, unat (ext_size sz)) \<in> set cs" by auto
    then obtain i where i: "i < length (bs # bss)" "(bs # bss) ! i = cs" by (metis in_set_conv_nth)
    with own have p: "owns (sm_heap g) ((fib # ps) ! i) cs" "(fib # ps) ! i \<in> set (fib # ps)"
      by (metis list_all2_conv_all_nth, metis list_all2_lengthD nth_mem own i(1))
    have "\<forall>(b, k) \<in> set cs. k mod 16 = 0"
    proof (clarify)
      fix b k assume "(b, k) \<in> set cs"
      then have "(b, k) \<in> set (concat (bs # bss))" using cs(1) by auto
      then obtain z where "(b, z) \<in> set live" "k = unat (ext_size z)" unfolding eq by auto
      with small ext_size_bounds [of z] show "k mod 16 = 0" by auto
    qed
    with owned_aligned [OF al good p(1) _ cs(2)] nodes p(2) show ?thesis by blast
  qed
  moreover have "stack_empty fib g = Some True" if "live = []"
  proof -
    from that eq have bs: "bs = []" by simp
    with ok have ps: "ps = []" by (auto simp: seg_ok_def occupied_def)
    from seg_pre_top [OF pre] obtain s where s: "sm_heap g fib = Some s" "covers (st_lo s) (st_sp s) bs"
      "below_ok (sm_heap g) fib (st_prev s) ps bss" "sl_is_top (sm_heap g) s = Some True" by metis
    with bs ps have "sl_empty s" "st_prev s = None" by (auto simp: sl_empty_def, cases bss) auto
    with s show ?thesis by (simp add: stack_empty_def)
  qed
  ultimately show ?thesis by auto
qed

text \<open>
  Property C9. The segmented stack is a correct stack allocator: from the constructor on, any
  first-in-last-out sequence of allocations and deallocations, with \<open>malloc\<close> failing whenever it
  likes, runs without a failed assertion, a dangling stacklet or a lost link; at every time the
  live allocations do not overlap and are aligned; and when all are gone \<open>empty()\<close> holds.
\<close>

theorem stack_filo:
  assumes "alloc_ok good blocks malloc free" "good (sm_alloc g0)" "stack_new malloc free g0 = Some (Inr f, g)"
    and "list_all small_op ops"
  shows "\<exists>f' g' live. st_run malloc free f g [] ops = Some (f', g', live)
     \<and> sorted_wrt (\<lambda>(a, n) (b, k). a + unat n \<le> b \<or> b + unat k \<le> a) live
     \<and> (\<forall>(a, n) \<in> set live. a mod 16 = 0) \<and> (live = [] \<longrightarrow> stack_empty f' g' = Some True)"
proof -
  from seg_new [OF assms(1,2)] assms(3) have "seg_ok good blocks g f [] [] [] None" by auto
  then have "holds good blocks g f []" unfolding holds_def by force
  from st_run_ok [OF assms(1) this assms(4)] obtain f' g' live where
    run: "st_run malloc free f g [] ops = Some (f', g', live)" "holds good blocks g' f' live" by metis
  from holds_safe [OF assms(1) run(2)] run(1) show ?thesis by blast
qed

text \<open>
  \<open>round_up_to_page_size\<close> adds less than a page, and with the estimate of malloc's
  own data the request fills whole pages; its three assertions hold for every size up to 8 KiB
  below the end of the address space.
\<close>

theorem round_up_bounds:
  assumes "unat sz + 2 ^ 13 \<le> 2 ^ 64"
  shows "\<exists>r. round_up_to_page_size sz = Some r \<and> unat sz \<le> unat r \<and> unat r < unat sz + 4096
     \<and> (unat r + unat malloc_meta_data_size) mod unat page_size = 0"
  using round_up_ok [OF assms] by (simp add: malloc_meta_data_size_def page_size_def)

theorem round_up_bounds_witness:
  "\<exists>r. round_up_to_page_size 100 = Some r \<and> unat (100 :: u64) \<le> unat r \<and> unat r < unat (100 :: u64) + 4096
     \<and> (unat r + unat malloc_meta_data_size) mod unat page_size = 0"
  by (rule round_up_bounds) simp

text \<open>An allocator that never reuses an address, for the witness.\<close>

definition bump_malloc :: "nat \<times> (nat \<rightharpoonup> nat) \<Rightarrow> u64 \<Rightarrow> (nat \<times> nat \<times> (nat \<rightharpoonup> nat)) option" where
  "bump_malloc m n = (let c = fst m; c' = (c + unat n + 16) div 16 * 16 in
     if c' \<le> 2 ^ 62 then Some (c, c', (snd m)(c \<mapsto> unat n)) else None)"

definition bump_free :: "nat \<times> (nat \<rightharpoonup> nat) \<Rightarrow> nat \<Rightarrow> nat \<times> (nat \<rightharpoonup> nat)" where
  "bump_free m p = (fst m, (snd m)(p := None))"

definition bump_good :: "nat \<times> (nat \<rightharpoonup> nat) \<Rightarrow> bool" where
  "bump_good m \<longleftrightarrow> fst m mod 16 = 0 \<and> fst m \<le> 2 ^ 62
     \<and> (\<forall>p n. snd m p = Some n \<longrightarrow> p < fst m \<and> p + n \<le> fst m \<and> p mod 16 = 0)
     \<and> (\<forall>p q a b. snd m p = Some a \<longrightarrow> snd m q = Some b \<longrightarrow> p \<noteq> q \<longrightarrow> p + a \<le> q \<or> q + b \<le> p)"

lemma bump_alloc_ok: "alloc_ok bump_good snd bump_malloc bump_free"
  unfolding alloc_ok_def
proof (intro conjI allI impI, goal_cases)
  case (1 m n p m')
  then have eqs: "p = fst m" "m' = ((fst m + unat n + 16) div 16 * 16, (snd m)(fst m \<mapsto> unat n))"
    "(fst m + unat n + 16) div 16 * 16 \<le> 2 ^ 62" by (auto simp: bump_malloc_def Let_def split: if_splits)
  have gt: "fst m + unat n < (fst m + unat n + 16) div 16 * 16" by presburger
  have old: "q < fst m \<and> q + k \<le> fst m \<and> q mod 16 = 0" if "snd m q = Some k" for q k
    using 1(1) that by (simp add: bump_good_def)
  have new: "q < fst m' \<and> q + k \<le> fst m' \<and> q mod 16 = 0" if "snd m' q = Some k" for q k
  proof (cases "q = fst m")
    case True
    with that eqs(2) gt 1(1) show ?thesis by (simp add: bump_good_def)
  next
    case False
    with that eqs(2) have "snd m q = Some k" by simp
    from old [OF this] gt eqs(2) show ?thesis by simp
  qed
  have "q + a \<le> r \<or> r + b \<le> q" if "snd m' q = Some a" "snd m' r = Some b" "q \<noteq> r" for q r a b
    using that eqs(2) old [of q a] old [of r b] 1(1) unfolding bump_good_def
    by (cases "q = fst m"; cases "r = fst m") auto
  with new eqs show ?case by (auto simp: bump_good_def)
next
  case (2 m n p m')
  then show ?case by (auto simp: bump_malloc_def bump_good_def Let_def split: if_splits) (metis less_irrefl not_None_eq)
next
  case (3 m n p m')
  then show ?case by (auto simp: bump_malloc_def Let_def split: if_splits)
next
  case (4 m p)
  then show ?case by (auto simp: bump_good_def bump_free_def)
next
  case (5 m p)
  then show ?case by (simp add: bump_free_def)
next
  case (6 m p n)
  then show ?case by (simp add: bump_good_def)
next
  case (7 m p n)
  then show ?case by (metis bump_good_def order_trans)
next
  case (8 m p q a b)
  then show ?case by (simp add: bump_good_def)
qed

lemma first_request: "round_up_to_page_size (fibre_init_size + of_nat sizeof_stacklet) = Some 4048"
  by (simp add: round_up_to_page_size_def malloc_meta_data_size_def page_size_def fibre_init_size_def
      sizeof_stacklet_def)

lemma bump_stack_new:
  assumes "fst (sm_alloc g) \<le> 2 ^ 61"
  shows "\<exists>f g'. stack_new bump_malloc bump_free g = Some (Inr f, g') \<and> fst (sm_alloc g') \<le> fst (sm_alloc g) + 8192"
proof -
  let ?c = "(4064 + fst (sm_alloc g)) div 16"
  have "?c * 16 \<le> 4064 + fst (sm_alloc g)" by (rule div_times_less_eq_dividend)
  then have le: "?c * 16 \<le> fst (sm_alloc g) + 8192" "?c * 16 \<le> 2 ^ 62" using assms by simp_all
  then have "?c \<le> 288230376151711744" by simp
  with le(1) show ?thesis
    by (simp add: stack_new_def next_stacklet_def first_request bump_malloc_def Let_def)
      (simp add: fibre_init_size_def sizeof_stacklet_def)
qed

theorem stack_filo_witness:
  "\<exists>f g f' g' live. stack_new bump_malloc bump_free \<lparr>sm_alloc = (16, Map.empty), sm_heap = Map.empty\<rparr> = Some (Inr f, g)
     \<and> st_run bump_malloc bump_free f g [] [S_alloc 100, S_alloc 5000, S_dealloc, S_alloc 9000, S_dealloc, S_dealloc]
       = Some (f', g', live)
     \<and> sorted_wrt (\<lambda>(a, n) (b, k). a + unat n \<le> b \<or> b + unat k \<le> a) live"
proof -
  let ?m = "(16, Map.empty) :: nat \<times> (nat \<rightharpoonup> nat)" let ?g0 = "\<lparr>sm_alloc = ?m, sm_heap = Map.empty\<rparr>"
  have good: "bump_good (sm_alloc ?g0)" by (simp add: bump_good_def)
  from bump_stack_new [of ?g0] obtain f g where new: "stack_new bump_malloc bump_free ?g0 = Some (Inr f, g)" by auto
  have "list_all small_op [S_alloc 100, S_alloc 5000, S_dealloc, S_alloc 9000, S_dealloc, S_dealloc]"
    by (simp add: small_op_def)
  from stack_filo [OF bump_alloc_ok good new this] new show ?thesis by blast
qed

end
