(* ===== verification/Worker_TLS.thy ===== *)
theory Worker_TLS
  imports Chase_Lev Intrusive_List Seg_Stack
begin

text \<open>
  The context of a worker (\<open>include/libfork/core/ext/context.hpp\<close>): its deque of stealable tasks,
  its list of submitted tasks and its notification; and the thread-local variables of a worker
  thread with \<open>worker_init\<close> and \<open>finalize\<close> (\<open>ext/tls.hpp\<close>). A task handle is the address of a
  frame. The deque is the default one, \<open>chase_lev_deque\<close>.
\<close>

section \<open>Contexts\<close>

record worker_context =
  m_tasks :: "nat chase_lev"
  m_submit :: "nat option"

text \<open>\<open>alloc\<close>: whether the allocation of the deque's buffer succeeds.\<close>

definition worker_context_new :: "bool \<Rightarrow> (exn + worker_context) option" where
  "worker_context_new alloc =
     (if \<not> alloc then Some (Inl Bad_alloc)
      else do { d \<leftarrow> chase_lev_default 0; Some (Inr \<lparr>m_tasks = d, m_submit = None\<rparr>) })"

text \<open>
  \<open>schedule\<close>: push the node on the submission list, then call the notification \<open>notify\<close>, which
  changes the outside state \<open>u\<close>. \<open>spurious\<close> is the number of spurious failures of the push.
\<close>

definition ctx_schedule :: "nat \<Rightarrow> ('u \<Rightarrow> 'u) \<Rightarrow> nat nheap \<Rightarrow> nat option \<Rightarrow> worker_context \<Rightarrow> 'u
    \<Rightarrow> (nat nheap \<times> worker_context \<times> 'u) option" where
  "ctx_schedule spurious notify h jobs c u = do {
     n \<leftarrow> non_null jobs;
     (h', head) \<leftarrow> il_push spurious h (m_submit c) n;
     Some (h', c\<lparr>m_submit := head\<rparr>, notify u) }"

definition ctx_try_pop_all :: "nat nheap \<Rightarrow> worker_context \<Rightarrow> (nat option \<times> nat nheap \<times> worker_context) option" where
  "ctx_try_pop_all h c = do { (r, h', head) \<leftarrow> il_try_pop_all h (m_submit c); Some (r, h', c\<lparr>m_submit := head\<rparr>) }"

definition ctx_try_steal :: "worker_context \<Rightarrow> (nat steal_t \<times> worker_context) option" where
  "ctx_try_steal c = do { (r, d) \<leftarrow> cl_steal (m_tasks c); Some (r, c\<lparr>m_tasks := d\<rparr>) }"

definition ctx_push :: "(int \<Rightarrow> bool) \<Rightarrow> nat option \<Rightarrow> worker_context \<Rightarrow> (exn + worker_context) option" where
  "ctx_push alloc task c = do {
     t \<leftarrow> non_null task;
     r \<leftarrow> cl_push 0 alloc (m_tasks c) t;
     Some (case r of Inl e \<Rightarrow> Inl e | Inr d \<Rightarrow> Inr (c\<lparr>m_tasks := d\<rparr>)) }"

text \<open>\<open>pop\<close> with a null pointer when the deque is empty.\<close>

definition ctx_pop :: "worker_context \<Rightarrow> (nat option \<times> worker_context) option" where
  "ctx_pop c = do { (r, d) \<leftarrow> cl_pop (m_tasks c); Some (r, c\<lparr>m_tasks := d\<rparr>) }"

definition ctx_empty :: "worker_context \<Rightarrow> bool" where
  "ctx_empty c = cl_empty (m_tasks c)"

section \<open>Thread-local variables\<close>

text \<open>The stack object is the pointer to its top stacklet.\<close>

record tls =
  has_stack :: bool
  thread_stack :: "nat manual_lifetime"
  has_context :: bool
  thread_context :: "worker_context manual_lifetime"

definition tls_init :: tls where
  "tls_init = \<lparr>has_stack = False, thread_stack = None, has_context = False, thread_context = None\<rparr>"

definition tls_stack :: "tls \<Rightarrow> nat option" where
  "tls_stack t = do { lf_assert (has_stack t); ml_data (thread_stack t) }"

definition tls_context :: "tls \<Rightarrow> worker_context option" where
  "tls_context t = do { lf_assert (has_context t); ml_data (thread_context t) }"

text \<open>\<open>worker_init\<close>: the handler of the exception only ends the context's life; control goes on.\<close>

definition worker_init :: "bool \<Rightarrow> ('m \<Rightarrow> u64 \<Rightarrow> (nat \<times> 'm) option) \<Rightarrow> ('m \<Rightarrow> nat \<Rightarrow> 'm) \<Rightarrow> tls \<Rightarrow> 'm smem
    \<Rightarrow> ((exn + unit) \<times> tls \<times> 'm smem) option" where
  "worker_init alloc malloc free t g =
     (if has_context t \<and> has_stack t then Some (Inl Runtime_error, t, g)
      else do {
        x \<leftarrow> worker_context_new alloc;
        (case x of Inl e \<Rightarrow> Some (Inl e, t, g)
         | Inr c \<Rightarrow>
          (let t1 = t\<lparr>thread_context := ml_construct c (thread_context t)\<rparr> in do {
             (r, g1) \<leftarrow> stack_new malloc free g;
             t2 \<leftarrow> (case r of Inr f \<Rightarrow> Some (t1\<lparr>thread_stack := ml_construct f (thread_stack t1)\<rparr>)
                   | Inl e \<Rightarrow> do { m \<leftarrow> ml_destroy (thread_context t1); Some (t1\<lparr>thread_context := m\<rparr>) });
             Some (Inr (), t2\<lparr>has_stack := True, has_context := True\<rparr>, g1) })) })"

text \<open>\<open>own\<close>: the argument is the address of this thread's context.\<close>

definition tls_finalize :: "('m \<Rightarrow> nat \<Rightarrow> 'm) \<Rightarrow> bool \<Rightarrow> tls \<Rightarrow> 'm smem \<Rightarrow> ((exn + unit) \<times> tls \<times> 'm smem) option" where
  "tls_finalize free own t g =
     (if \<not> own then Some (Inl Runtime_error, t, g)
      else if \<not> has_context t \<or> \<not> has_stack t then Some (Inl Runtime_error, t, g)
      else do {
        mc \<leftarrow> ml_destroy (thread_context t);
        f \<leftarrow> ml_data (thread_stack t);
        g1 \<leftarrow> stack_destroy free f g;
        ms \<leftarrow> ml_destroy (thread_stack t);
        Some (Inr (), t\<lparr>thread_context := mc, thread_stack := ms, has_stack := False, has_context := False\<rparr>, g1) })"

section \<open>Lemmas\<close>

lemma worker_context_new_ok: "\<exists>c. worker_context_new True = Some (Inr c) \<and> cl_inv (m_tasks c) \<and> cl_contents (m_tasks c) = [] \<and> m_submit c = None"
proof -
  have "has_single_bit cl_k_default_capacity"
    using has_single_bit_pow2 [of 10] by (simp add: cl_k_default_capacity_def)
  from chase_lev_new_inv [OF this, of "0 :: nat"] obtain d where
    d: "chase_lev_new (0 :: nat) cl_k_default_capacity = Some d" "cl_inv d" "cl_contents d = []" by blast
  show ?thesis by (simp add: worker_context_new_def chase_lev_default_def d)
qed

lemma ctx_pop_ok:
  assumes "cl_inv (m_tasks c)"
  shows "\<exists>d. ctx_pop c = Some (if cl_contents (m_tasks c) = [] then None else Some (last (cl_contents (m_tasks c))),
       c\<lparr>m_tasks := d\<rparr>) \<and> cl_inv d \<and> cl_contents d = butlast (cl_contents (m_tasks c))"
  using cl.pop_law [OF assms] by (auto simp: ctx_pop_def)

lemma ctx_push_ok:
  assumes "cl_inv (m_tasks c)"
  shows "ctx_push alloc (Some p) c = Some (Inl Bad_alloc)
     \<or> (\<exists>d. ctx_push alloc (Some p) c = Some (Inr (c\<lparr>m_tasks := d\<rparr>)) \<and> cl_inv d \<and> cl_contents d = cl_contents (m_tasks c) @ [p])"
  using chase_lev_push_outcomes [OF assms, of alloc 0 p] by (auto simp: ctx_push_def non_null_def split: if_splits)

text \<open>Ending the life of a stack with no allocations gives its stacklets back to \<open>free\<close>.\<close>

lemma stack_destroy_ok:
  assumes al: "alloc_ok good blocks malloc free" and ok: "seg_ok good blocks g fib [] [] [] cache"
  shows "\<exists>g'. stack_destroy free fib g = Some g' \<and> good (sm_alloc g') \<and> sm_heap g' fib = None
     \<and> blocks (sm_alloc g') fib = None
     \<and> (\<forall>p. p \<noteq> fib \<and> Some p \<noteq> cache \<longrightarrow> sm_heap g' p = sm_heap g p \<and> blocks (sm_alloc g') p = blocks (sm_alloc g) p)"
proof -
  from ok have pre: "seg_pre good blocks g fib [] [] [] cache" by (simp add: seg_ok_def)
  from seg_pre_top [OF pre] obtain s where s: "sm_heap g fib = Some s" "below_ok (sm_heap g) fib (st_prev s) [] []"
    "blocks (sm_alloc g) fib = Some (st_hi s - fib)" by metis
  from seg_set_next [OF al pre s(1), of None] obtain g1 where
    g1: "sl_set_next free fib None g = Some g1" "good (sm_alloc g1)" "sm_heap g1 fib = Some (s\<lparr>st_next := None\<rparr>)"
      "\<forall>p. p \<noteq> fib \<and> Some p \<noteq> cache \<longrightarrow> sm_heap g1 p = sm_heap g p"
      "\<forall>p. Some p \<noteq> cache \<longrightarrow> blocks (sm_alloc g1) p = blocks (sm_alloc g) p" by metis
  have "Some fib \<noteq> cache" using pre by (auto simp: seg_pre_def split: option.splits)
  with g1(5) s(3) have "blocks (sm_alloc g1) fib = Some (st_hi s - fib)" by simp
  note fr = alloc_free [OF al g1(2) this]
  have "stack_destroy free fib g = Some (sl_free free (Some fib) g1)"
    using s(1,2) g1(1) by (simp add: stack_destroy_def)
  with fr g1(4,5) show ?thesis by (auto simp: sl_free_def)
qed

section \<open>Properties\<close>

text \<open>
  The life of a worker: on a thread that is not a worker, with \<open>malloc\<close> giving the
  stack its first stacklet and the deque's buffer allocated, \<open>worker_init\<close> leaves a living context with an empty deque and no
  submitted tasks and an empty stack; a second \<open>worker_init\<close> throws and changes nothing; and
  \<open>finalize\<close> on the same thread gives the stacklet back and restores the thread-local variables,
  after which another \<open>finalize\<close> throws.
\<close>

theorem worker_life_cycle:
  assumes al: "alloc_ok good blocks malloc free" and good: "good (sm_alloc g)"
    and new: "stack_new malloc free g = Some (Inr f, g1)"
  shows "\<exists>t c g2. worker_init True malloc free tls_init g = Some (Inr (), t, g1)
     \<and> tls_context t = Some c \<and> ctx_empty c \<and> m_submit c = None
     \<and> tls_stack t = Some f \<and> stack_empty f g1 = Some True
     \<and> worker_init True malloc free t g1 = Some (Inl Runtime_error, t, g1)
     \<and> tls_finalize free True t g1 = Some (Inr (), tls_init, g2) \<and> blocks (sm_alloc g2) f = None
     \<and> tls_finalize free True tls_init g2 = Some (Inl Runtime_error, tls_init, g2)"
proof -
  from worker_context_new_ok obtain c where c: "worker_context_new True = Some (Inr c)" "cl_inv (m_tasks c)"
    "cl_contents (m_tasks c) = []" "m_submit c = None" by blast
  let ?t = "\<lparr>has_stack = True, thread_stack = Some f, has_context = True, thread_context = Some c\<rparr>"
  have init: "worker_init True malloc free tls_init g = Some (Inr (), ?t, g1)"
    by (simp add: worker_init_def tls_init_def ml_construct_def Let_def c(1) new)
  from seg_new [OF al good] new have ok: "seg_ok good blocks g1 f [] [] [] None" by auto
  then have "holds good blocks g1 f []" unfolding holds_def by force
  from holds_safe [OF al this] have "stack_empty f g1 = Some True" by simp
  moreover from stack_destroy_ok [OF al ok] obtain g2 where
    "stack_destroy free f g1 = Some g2" "blocks (sm_alloc g2) f = None" by blast
  moreover have "ctx_empty c"
    using c(2,3) cl_contents_empty_iff [OF c(2)] by (simp add: ctx_empty_def cl_empty_def)
  ultimately show ?thesis using init c(4)
    by (intro exI [of _ ?t] exI [of _ c] exI [of _ g2])
      (simp add: tls_context_def tls_stack_def worker_init_def tls_finalize_def tls_init_def ml_destroy_def ml_data_def)
qed

theorem worker_life_cycle_witness:
  "\<exists>f g1 t c g2. worker_init True bump_malloc bump_free tls_init \<lparr>sm_alloc = (16, Map.empty), sm_heap = Map.empty\<rparr> = Some (Inr (), t, g1)
     \<and> tls_context t = Some c \<and> ctx_empty c \<and> tls_stack t = Some f
     \<and> tls_finalize bump_free True t g1 = Some (Inr (), tls_init, g2)"
proof -
  let ?g0 = "\<lparr>sm_alloc = (16, Map.empty), sm_heap = Map.empty\<rparr> :: (nat \<times> (nat \<rightharpoonup> nat)) smem"
  have good: "bump_good (sm_alloc ?g0)" by (simp add: bump_good_def)
  from bump_stack_new [of ?g0] obtain f g where new: "stack_new bump_malloc bump_free ?g0 = Some (Inr f, g)" by auto
  from worker_life_cycle [OF bump_alloc_ok good new] show ?thesis by blast
qed

text \<open>
  Property C40. When the allocation of the stack fails, \<open>worker_init\<close> does not report it: it
  returns normally, the context already built, and marks both thread-local objects as alive although neither is, so the
  first access to the worker's stack or context, and \<open>finalize\<close>, use a dead object.
\<close>

theorem worker_init_swallows_bad_alloc:
  assumes "stack_new malloc free g = Some (Inl Bad_alloc, g1)"
  shows "\<exists>t. worker_init True malloc free tls_init g = Some (Inr (), t, g1) \<and> has_stack t \<and> has_context t
     \<and> tls_stack t = None \<and> tls_context t = None \<and> tls_finalize free True t g1 = None"
proof -
  from worker_context_new_ok obtain c where c: "worker_context_new True = Some (Inr c)" by blast
  let ?t = "\<lparr>has_stack = True, thread_stack = None, has_context = True, thread_context = None\<rparr>"
  have "worker_init True malloc free tls_init g = Some (Inr (), ?t, g1)"
    by (simp add: worker_init_def tls_init_def ml_construct_def ml_destroy_def Let_def c assms)
  then show ?thesis
    by (intro exI [of _ ?t]) (simp add: ml_data_def tls_stack_def tls_context_def tls_finalize_def)
qed

theorem worker_init_swallows_bad_alloc_witness:
  "\<exists>t. worker_init True (\<lambda>_ _. None) (\<lambda>m _. m) tls_init \<lparr>sm_alloc = (), sm_heap = Map.empty\<rparr>
       = Some (Inr (), t, \<lparr>sm_alloc = (), sm_heap = Map.empty\<rparr>)
     \<and> has_stack t \<and> tls_stack t = None"
proof -
  have "stack_new (\<lambda>_ _. None) (\<lambda>m _. m) \<lparr>sm_alloc = (), sm_heap = Map.empty\<rparr>
      = Some (Inl Bad_alloc, \<lparr>sm_alloc = (), sm_heap = Map.empty\<rparr>)"
    by (simp add: stack_new_def next_stacklet_def first_request)
      (simp add: fibre_init_size_def sizeof_stacklet_def)
  from worker_init_swallows_bad_alloc [OF this] show ?thesis by blast
qed

end
