(* ===== verification/Awaitables.thy ===== *)
theory Awaitables
  imports Worker_TLS Frame
begin

text \<open>
  What a worker does at each suspension point of a task: the awaitables of
  \<open>include/libfork/core/impl/awaitables.hpp\<close>, the promise of \<open>impl/promise.hpp\<close> and the functions of
  \<open>ext/resume.hpp\<close>, as state transformers of the calling worker's view: the frames, the memory of
  the stacks and its thread-local variables. A frame and its coroutine have the same address,
  the one \<open>operator new\<close> returned. The result \<open>Some h\<close> is the coroutine to transfer to, \<open>None\<close> the
  no-op coroutine, that is a return to the scheduler. The outer option is \<open>None\<close> where an
  assertion fails or the program terminates.
\<close>

record ('e, 'm) world =
  w_frames :: "nat \<rightharpoonup> 'e frame"
  w_mem :: "'m smem"
  w_tls :: tls

type_synonym handle = "nat option"

text \<open>What an awaitable may throw: an exception of a child, the substitute, or a failed allocation.\<close>

datatype 'e throw = Child_exn 'e | Exception_before_join | Lib_exn exn

definition set_frame :: "nat \<Rightarrow> 'e frame \<Rightarrow> ('e, 'm) world \<Rightarrow> ('e, 'm) world" where
  "set_frame p f w = w\<lparr>w_frames := (w_frames w)(p \<mapsto> f)\<rparr>"

definition set_context :: "worker_context \<Rightarrow> ('e, 'm) world \<Rightarrow> ('e, 'm) world" where
  "set_context c w = w\<lparr>w_tls := (w_tls w)\<lparr>thread_context := Some c\<rparr>\<rparr>"

definition set_stack :: "nat \<Rightarrow> 'm smem \<Rightarrow> ('e, 'm) world \<Rightarrow> ('e, 'm) world" where
  "set_stack fib g w = w\<lparr>w_mem := g, w_tls := (w_tls w)\<lparr>thread_stack := Some fib\<rparr>\<rparr>"

text \<open>\<open>*tls::stack() = stack{p}\<close>: the temporary takes the old stack and is destroyed.\<close>

definition assign_stack :: "('m \<Rightarrow> nat \<Rightarrow> 'm) \<Rightarrow> nat \<Rightarrow> ('e, 'm) world \<Rightarrow> ('e, 'm) world option" where
  "assign_stack free p w = do {
     fib \<leftarrow> tls_stack (w_tls w);
     q \<leftarrow> stack_of_stacklet (w_mem w) (Some p);
     (let (mine, temp) = stack_swap (fib, q) in do {
        g \<leftarrow> stack_destroy free temp (w_mem w);
        Some (set_stack mine g w) }) }"

definition tls_top :: "('e, 'm) world \<Rightarrow> nat option" where
  "tls_top w = do { fib \<leftarrow> tls_stack (w_tls w); stack_top fib (w_mem w) }"

definition tls_stack_empty :: "('e, 'm) world \<Rightarrow> bool option" where
  "tls_stack_empty w = do { fib \<leftarrow> tls_stack (w_tls w); stack_empty fib (w_mem w) }"

text \<open>\<open>tls::stack()->release()\<close> in a \<open>noexcept\<close> context: a failed allocation ends the program.\<close>

definition release_stack :: "('m \<Rightarrow> u64 \<Rightarrow> (nat \<times> 'm) option) \<Rightarrow> ('m \<Rightarrow> nat \<Rightarrow> 'm) \<Rightarrow> ('e, 'm) world
    \<Rightarrow> ('e, 'm) world option" where
  "release_stack malloc free w = do {
     fib \<leftarrow> tls_stack (w_tls w);
     (r, g) \<leftarrow> stack_release malloc free fib (w_mem w);
     (case r of Inl e \<Rightarrow> None | Inr (old, new_top) \<Rightarrow> Some (set_stack new_top g w)) }"

section \<open>Creation and destruction of coroutines\<close>

text \<open>\<open>operator new\<close> of \<open>promise_base\<close> and the promise's constructor.\<close>

definition promise_new :: "('m \<Rightarrow> u64 \<Rightarrow> (nat \<times> 'm) option) \<Rightarrow> ('m \<Rightarrow> nat \<Rightarrow> 'm) \<Rightarrow> u64 \<Rightarrow> ('e, 'm) world
    \<Rightarrow> (('e throw + nat) \<times> ('e, 'm) world) option" where
  "promise_new malloc free sz w = do {
     fib \<leftarrow> tls_stack (w_tls w);
     (r, fib', g) \<leftarrow> stack_allocate malloc free sz fib (w_mem w);
     (let w1 = set_stack fib' g w in
      case r of Inl e \<Rightarrow> Some (Inl (Lib_exn e), w1)
      | Inr a \<Rightarrow> do { t \<leftarrow> tls_top w1; Some (Inr a, set_frame a (frame_new a t) w1) }) }"

text \<open>\<open>destroy()\<close> of a coroutine: \<open>~promise_base\<close> and \<open>operator delete\<close>.\<close>

definition coro_destroy :: "('m \<Rightarrow> nat \<Rightarrow> 'm) \<Rightarrow> nat \<Rightarrow> ('e, 'm) world \<Rightarrow> ('e, 'm) world option" where
  "coro_destroy free p w = do {
     f \<leftarrow> w_frames w p;
     t \<leftarrow> tls_top w;
     lf_assert (t = fr_stacklet f);
     fib \<leftarrow> tls_stack (w_tls w);
     (fib', g) \<leftarrow> stack_deallocate free (fr_self f) fib (w_mem w);
     Some ((set_stack fib' g w)\<lparr>w_frames := (w_frames w)(p := None)\<rparr>) }"

section \<open>Self-stealing, fork and call\<close>

definition try_self_stealing :: "('e, 'm) world \<Rightarrow> (handle \<times> ('e, 'm) world) option" where
  "try_self_stealing w = do {
     c \<leftarrow> tls_context (w_tls w);
     (task, c') \<leftarrow> ctx_pop c;
     (case task of None \<Rightarrow> Some (None, set_context c' w)
      | Some p \<Rightarrow> do {
          f \<leftarrow> w_frames w p;
          (let (prev, f') = fetch_add_steal f in Some (Some (fr_self f'), set_frame p f' (set_context c' w))) }) }"

text \<open>
  \<open>fork_awaitable::await_suspend\<close>: when the push throws, the child owned by the local
  \<open>stack_child\<close> is destroyed on the way out.
\<close>

definition fork_await_suspend :: "(int \<Rightarrow> bool) \<Rightarrow> ('m \<Rightarrow> nat \<Rightarrow> 'm) \<Rightarrow> nat \<Rightarrow> nat \<Rightarrow> ('e, 'm) world
    \<Rightarrow> (('e throw + handle) \<times> ('e, 'm) world) option" where
  "fork_await_suspend alloc free self child w = do {
     c \<leftarrow> tls_context (w_tls w);
     r \<leftarrow> ctx_push alloc (Some self) c;
     (case r of
        Inl e \<Rightarrow> do { w' \<leftarrow> coro_destroy free child w; Some (Inl (Lib_exn e), w') }
      | Inr c' \<Rightarrow> do { f \<leftarrow> w_frames w child; Some (Inr (Some (fr_self f)), set_context c' w) }) }"

definition call_await_suspend :: "nat \<Rightarrow> ('e, 'm) world \<Rightarrow> (handle \<times> ('e, 'm) world) option" where
  "call_await_suspend child w = do { f \<leftarrow> w_frames w child; Some (Some (fr_self f), w) }"

definition rethrow_into :: "nat \<Rightarrow> ('e, 'm) world \<Rightarrow> 'a \<Rightarrow> (('e throw + 'a) \<times> ('e, 'm) world) option" where
  "rethrow_into p w x = do {
     f \<leftarrow> w_frames w p;
     (r, f') \<leftarrow> unsafe_rethrow_if_exception f;
     Some (case r of Inl e \<Rightarrow> Inl (Child_exn e) | Inr _ \<Rightarrow> Inr x, set_frame p f' w) }"

datatype region = Unknown | Outside | Inside | Opening_fork

text \<open>\<open>sync_fork_awaitable::await_resume\<close>: whether the child completed synchronously.\<close>

definition sync_fork_await_resume :: "bool \<Rightarrow> region \<Rightarrow> nat \<Rightarrow> u16 \<Rightarrow> ('e, 'm) world
    \<Rightarrow> (('e throw + bool) \<times> ('e, 'm) world) option" where
  "sync_fork_await_resume child_throws r self steals_pre w = do {
     f \<leftarrow> w_frames w self;
     (let steals_post = load_steals f in
      if steals_post = steals_pre then
        (if child_throws then
           (if r = Opening_fork then do { lf_assert (steals_post = 0); rethrow_into self w True }
            else if steals_post = 0 then rethrow_into self w True
            else if atomic_has_exception f then Some (Inl Exception_before_join, w)
            else Some (Inr True, w))
         else Some (Inr True, w))
      else Some (Inr False, w)) }"

definition eager_call_await_resume :: "region \<Rightarrow> nat \<Rightarrow> ('e, 'm) world \<Rightarrow> (('e throw + unit) \<times> ('e, 'm) world) option" where
  "eager_call_await_resume r self w = do {
     f \<leftarrow> w_frames w self;
     (if r = Outside then do { lf_assert (load_steals f = 0); rethrow_into self w () }
      else if load_steals f = 0 then rethrow_into self w ()
      else if atomic_has_exception f then Some (Inl Exception_before_join, w)
      else Some (Inr (), w)) }"

section \<open>Join\<close>

definition take_stack_reset_frame :: "('m \<Rightarrow> nat \<Rightarrow> 'm) \<Rightarrow> nat \<Rightarrow> ('e, 'm) world \<Rightarrow> ('e, 'm) world option" where
  "take_stack_reset_frame free self w = do {
     f \<leftarrow> w_frames w self;
     lf_assert (load_steals f \<noteq> 0);
     e \<leftarrow> tls_stack_empty w;
     lf_assert e;
     w' \<leftarrow> assign_stack free (fr_stacklet f) w;
     Some (set_frame self (fr_reset f) w') }"

definition join_ready :: "('m \<Rightarrow> nat \<Rightarrow> 'm) \<Rightarrow> nat \<Rightarrow> ('e, 'm) world \<Rightarrow> (bool \<times> ('e, 'm) world) option" where
  "join_ready free self w = do {
     f \<leftarrow> w_frames w self;
     (if load_steals f = 0 then Some (True, w)
      else (let joined = uint k_u16_max - uint (load_joins f) in
        if uint (load_steals f) = joined then do { w' \<leftarrow> take_stack_reset_frame free self w; Some (True, w') }
        else Some (False, w))) }"

definition join_suspend :: "('m \<Rightarrow> nat \<Rightarrow> 'm) \<Rightarrow> nat \<Rightarrow> nat \<Rightarrow> ('e, 'm) world \<Rightarrow> (handle \<times> ('e, 'm) world) option" where
  "join_suspend free self task w = do {
     f \<leftarrow> w_frames w self;
     (let steals = load_steals f; (joined, f') = fetch_sub_joins (k_u16_max - steals) f; w1 = set_frame self f' w in
      if uint steals = uint k_u16_max - uint joined
      then do { w2 \<leftarrow> take_stack_reset_frame free self w1; Some (Some task, w2) }
      else try_self_stealing w1) }"

definition join_resume :: "nat \<Rightarrow> ('e, 'm) world \<Rightarrow> (('e throw + unit) \<times> ('e, 'm) world) option" where
  "join_resume self w = do {
     f \<leftarrow> w_frames w self;
     lf_assert (load_steals f = 0);
     lf_assert (load_joins f = k_u16_max);
     t \<leftarrow> tls_top w;
     lf_assert (fr_stacklet f = t);
     rethrow_into self w () }"

section \<open>The end of a task\<close>

definition final_await_suspend :: "('m \<Rightarrow> u64 \<Rightarrow> (nat \<times> 'm) option) \<Rightarrow> ('m \<Rightarrow> nat \<Rightarrow> 'm) \<Rightarrow> nat \<Rightarrow> ('e, 'm) world
    \<Rightarrow> (handle \<times> ('e, 'm) world) option" where
  "final_await_suspend malloc free parent w = do {
     c \<leftarrow> tls_context (w_tls w);
     (task, c') \<leftarrow> ctx_pop c;
     (let w1 = set_context c' w in
      case task of
        Some parent_task \<Rightarrow> do {
          lf_assert (parent_task = parent);
          f \<leftarrow> w_frames w1 parent;
          Some (Some (fr_self f), w1) }
      | None \<Rightarrow> do {
          f \<leftarrow> w_frames w1 parent;
          (let p_stacklet = fr_stacklet f in do {
             c_stacklet \<leftarrow> tls_top w1;
             (let (joins, f1) = fetch_sub_joins 1 f; w2 = set_frame parent f1 w1 in
              if joins = 1 then do {
                w3 \<leftarrow> (if p_stacklet \<noteq> c_stacklet
                       then do { e \<leftarrow> tls_stack_empty w2; lf_assert e; assign_stack free p_stacklet w2 }
                       else Some w2);
                Some (Some (fr_self f1), set_frame parent (fr_reset f1) w3) }
              else do {
                w3 \<leftarrow> (if p_stacklet = c_stacklet then release_stack malloc free w2 else Some w2);
                Some (None, w3) }) }) }) }"

datatype tag = Tag_root | Tag_call | Tag_fork

text \<open>\<open>final_suspend\<close> checks the frame; \<open>sems\<close> counts the releases of the root's semaphore.\<close>

definition final_suspend :: "nat \<Rightarrow> ('e, 'm) world \<Rightarrow> unit option" where
  "final_suspend p w = do {
     f \<leftarrow> w_frames w p;
     lf_assert (load_steals f = 0);
     lf_assert (load_joins f = k_u16_max);
     lf_assert (\<not> unsafe_has_exception f) }"

definition final_awaitable :: "('m \<Rightarrow> u64 \<Rightarrow> (nat \<times> 'm) option) \<Rightarrow> ('m \<Rightarrow> nat \<Rightarrow> 'm) \<Rightarrow> tag \<Rightarrow> nat \<Rightarrow> ('e, 'm) world
    \<Rightarrow> (nat \<Rightarrow> nat) \<Rightarrow> (handle \<times> ('e, 'm) world \<times> (nat \<Rightarrow> nat)) option" where
  "final_awaitable malloc free tg child w sems = do {
     f \<leftarrow> w_frames w child;
     (if tg = Tag_root then do {
        q \<leftarrow> fr_semaphore f;
        (let sems' = sems(q := sems q + 1) in do {
           w1 \<leftarrow> coro_destroy free child w;
           e \<leftarrow> tls_stack_empty w1;
           lf_assert e;
           Some (None, w1, sems') }) }
      else do {
        parent \<leftarrow> fr_parent f;
        w1 \<leftarrow> coro_destroy free child w;
        (if tg = Tag_call then do { pf \<leftarrow> w_frames w1 parent; Some (Some (fr_self pf), w1, sems) }
         else do { (h, w2) \<leftarrow> final_await_suspend malloc free parent w1; Some (h, w2, sems) }) }) }"

text \<open>\<open>unhandled_exception\<close>: stashed in the return object (\<open>stash\<close>), or in the parent's frame.\<close>

definition unhandled_exception :: "('e \<Rightarrow> 'r \<Rightarrow> 'r) option \<Rightarrow> nat \<Rightarrow> 'e \<Rightarrow> ('e, 'm) world \<Rightarrow> 'r \<Rightarrow> (('e, 'm) world \<times> 'r) option" where
  "unhandled_exception stash p e w ret = (case stash of
     Some st \<Rightarrow> Some (w, st e ret)
   | None \<Rightarrow> do {
       f \<leftarrow> w_frames w p;
       q \<leftarrow> fr_parent f;
       pf \<leftarrow> w_frames w q;
       Some (set_frame q (capture_exception e pf) w, ret) })"

section \<open>Switching workers, and memory on the stack\<close>

text \<open>
  \<open>context_switch_awaitable::await_suspend\<close>. \<open>external\<close> is the user's awaitable, which hands the
  task to another worker.
\<close>

definition switch_await_suspend :: "('m \<Rightarrow> u64 \<Rightarrow> (nat \<times> 'm) option) \<Rightarrow> ('m \<Rightarrow> nat \<Rightarrow> 'm) \<Rightarrow> (nat \<Rightarrow> 'u \<Rightarrow> 'u) \<Rightarrow> nat
    \<Rightarrow> ('e, 'm) world \<Rightarrow> 'u \<Rightarrow> (handle \<times> ('e, 'm) world \<times> 'u) option" where
  "switch_await_suspend malloc free external self w u = do {
     f \<leftarrow> w_frames w self;
     (let steals = load_steals f in do {
        t \<leftarrow> tls_top w;
        lf_assert (if steals = 0 then fr_stacklet f = t else fr_stacklet f \<noteq> t);
        (let u' = external self u in do {
           w1 \<leftarrow> (if steals = 0 then release_stack malloc free w else Some w);
           e \<leftarrow> tls_stack_empty w1;
           lf_assert e;
           (h, w2) \<leftarrow> try_self_stealing w1;
           Some (h, w2, u') }) }) }"

text \<open>
  \<open>alloc_awaitable::await_resume\<close>: \<open>construct\<close> tells whether the constructors of the elements
  throw. The result is the address of the span.
\<close>

definition alloc_await_resume :: "('m \<Rightarrow> u64 \<Rightarrow> (nat \<times> 'm) option) \<Rightarrow> ('m \<Rightarrow> nat \<Rightarrow> 'm) \<Rightarrow> u64 \<Rightarrow> u64 \<Rightarrow> 'e option \<Rightarrow> nat
    \<Rightarrow> ('e, 'm) world \<Rightarrow> (('e throw + nat) \<times> ('e, 'm) world) option" where
  "alloc_await_resume malloc free cnt sizeof_T construct self w = do {
     f \<leftarrow> w_frames w self;
     t \<leftarrow> tls_top w;
     lf_assert (t = fr_stacklet f);
     fib \<leftarrow> tls_stack (w_tls w);
     (r, fib', g) \<leftarrow> stack_allocate malloc free (cnt * sizeof_T) fib (w_mem w);
     (let w1 = set_stack fib' g w in
      case r of Inl e \<Rightarrow> Some (Inl (Lib_exn e), w1)
      | Inr ptr \<Rightarrow> (case construct of
          Some e \<Rightarrow> do {
            (fib2, g2) \<leftarrow> stack_deallocate free ptr fib' g;
            Some (Inl (Child_exn e), set_stack fib2 g2 w1) }
        | None \<Rightarrow> do {
            t' \<leftarrow> tls_top w1;
            (old, f') \<leftarrow> reset_stacklet (Some t') f;
            Some (Inr ptr, set_frame self f' w1) })) }"

definition stack_allocated_destroy :: "('m \<Rightarrow> nat \<Rightarrow> 'm) \<Rightarrow> nat \<Rightarrow> nat \<Rightarrow> ('e, 'm) world \<Rightarrow> ('e, 'm) world option" where
  "stack_allocated_destroy free self ptr w = do {
     f \<leftarrow> w_frames w self;
     t \<leftarrow> tls_top w;
     lf_assert (fr_stacklet f = t);
     fib \<leftarrow> tls_stack (w_tls w);
     (fib', g) \<leftarrow> stack_deallocate free ptr fib (w_mem w);
     (let w1 = set_stack fib' g w in do {
        t' \<leftarrow> tls_top w1;
        (old, f') \<leftarrow> reset_stacklet (Some t') f;
        Some (set_frame self f' w1) }) }"

section \<open>Resuming\<close>

text \<open>\<open>run\<close> is the resumption of a coroutine, which runs user code.\<close>

definition resume_task :: "(nat \<Rightarrow> ('e, 'm) world \<Rightarrow> ('e, 'm) world option) \<Rightarrow> nat \<Rightarrow> ('e, 'm) world \<Rightarrow> ('e, 'm) world option" where
  "resume_task run p w = do {
     f \<leftarrow> w_frames w p;
     (let (prev, f') = fetch_add_steal f; w1 = set_frame p f' w in do {
        c \<leftarrow> tls_context (w_tls w1);
        lf_assert (ctx_empty c);
        e \<leftarrow> tls_stack_empty w1;
        lf_assert e;
        w2 \<leftarrow> run (fr_self f') w1;
        c2 \<leftarrow> tls_context (w_tls w2);
        lf_assert (ctx_empty c2);
        e2 \<leftarrow> tls_stack_empty w2;
        lf_assert e2;
        Some w2 }) }"

text \<open>The function that \<open>resume(submit_handle)\<close> applies to every submitted task.\<close>

definition resume_submitted :: "('m \<Rightarrow> nat \<Rightarrow> 'm) \<Rightarrow> (nat \<Rightarrow> ('e, 'm) world \<Rightarrow> ('e, 'm) world option) \<Rightarrow> nat
    \<Rightarrow> ('e, 'm) world \<Rightarrow> ('e, 'm) world option" where
  "resume_submitted free run p w = do {
     f \<leftarrow> w_frames w p;
     e \<leftarrow> tls_stack_empty w;
     lf_assert e;
     w1 \<leftarrow> (if load_steals f = 0 then assign_stack free (fr_stacklet f) w else Some w);
     c \<leftarrow> tls_context (w_tls w1);
     lf_assert (ctx_empty c);
     w2 \<leftarrow> run (fr_self f) w1;
     c2 \<leftarrow> tls_context (w_tls w2);
     lf_assert (ctx_empty c2);
     e2 \<leftarrow> tls_stack_empty w2;
     lf_assert e2;
     Some w2 }"

definition resume_submit_handle :: "('m \<Rightarrow> nat \<Rightarrow> 'm) \<Rightarrow> (nat \<Rightarrow> ('e, 'm) world \<Rightarrow> ('e, 'm) world option) \<Rightarrow> nat option
    \<Rightarrow> nat nheap \<Rightarrow> ('e, 'm) world \<Rightarrow> (nat nheap \<times> ('e, 'm) world) option" where
  "resume_submit_handle free run ptr h w =
     for_each_elem (\<lambda>n (h, w). do {
       raw \<leftarrow> unwrap h (Some n); w' \<leftarrow> resume_submitted free run raw w; Some (h, w') }) ptr (h, w)"

section \<open>Stacks that share the memory\<close>

definition seg_at :: "('m \<Rightarrow> bool) \<Rightarrow> ('m \<Rightarrow> nat \<rightharpoonup> nat) \<Rightarrow> 'm smem \<Rightarrow> nat \<Rightarrow> (nat \<times> nat) list \<Rightarrow> nat set \<Rightarrow> bool" where
  "seg_at good blocks g fib live ps \<longleftrightarrow> (\<exists>bs qs bss cache. seg_ok good blocks g fib bs qs bss cache
     \<and> concat (bs # bss) = live \<and> ps = set (fib # qs) \<union> set_option cache)"

text \<open>A stack is untouched by whatever leaves its own stacklets alone.\<close>

lemma seg_ok_frame:
  assumes ok: "seg_ok good blocks g fib bs qs bss cache" and good: "good (sm_alloc g')"
    and same: "\<And>p. p \<in> set (fib # qs) \<union> set_option cache \<Longrightarrow>
       sm_heap g' p = sm_heap g p \<and> blocks (sm_alloc g') p = blocks (sm_alloc g) p"
  shows "seg_ok good blocks g' fib bs qs bss cache"
proof -
  from ok have pre: "seg_pre good blocks g fib bs qs bss cache" by (simp add: seg_ok_def)
  have node: "node_ok blocks g' p = node_ok blocks g p" if "p \<in> set (fib # qs) \<union> set_option cache" for p
    using same [OF that] by (intro node_ok_cong) auto
  have below: "below_ok (sm_heap g') fib r qs bss = below_ok (sm_heap g) fib r qs bss" for r
    using same by (intro below_ok_cong) auto
  have nodes: "\<forall>p \<in> set (fib # qs). node_ok blocks g' p"
    using pre node unfolding seg_pre_def by (metis UnI1)
  moreover have "case cache of None \<Rightarrow> True | Some c \<Rightarrow> c \<notin> set (fib # qs) \<and> node_ok blocks g' c \<and> cached_ok (sm_heap g') fib c"
  proof (cases cache)
    case (Some c)
    with pre node [of c] same [of c] show ?thesis by (auto simp: seg_pre_def cached_ok_def)
  qed simp
  moreover have "sm_heap g' fib = sm_heap g fib" using same by simp
  ultimately have "seg_pre good blocks g' fib bs qs bss cache"
    using pre good below by (simp add: seg_pre_def split: option.splits)
  with ok show ?thesis by (simp add: seg_ok_def)
qed

lemma seg_at_frame:
  assumes "seg_at good blocks g fib live ps" "good (sm_alloc g')"
    and "\<And>p. p \<in> ps \<Longrightarrow> sm_heap g' p = sm_heap g p \<and> blocks (sm_alloc g') p = blocks (sm_alloc g) p"
  shows "seg_at good blocks g' fib live ps"
  using assms seg_ok_frame unfolding seg_at_def by metis

lemma seg_at_top:
  assumes "seg_at good blocks g fib live ps"
  shows "\<exists>s. sm_heap g fib = Some s \<and> sl_is_top (sm_heap g) s = Some True" "fib \<in> ps" "good (sm_alloc g)"
proof -
  from assms obtain bs qs bss cache where ok: "seg_ok good blocks g fib bs qs bss cache"
    "ps = set (fib # qs) \<union> set_option cache" by (auto simp: seg_at_def)
  from seg_ok_is_top [OF ok(1)] seg_ok_node(1) [OF ok(1)] ok(2)
  show "\<exists>s. sm_heap g fib = Some s \<and> sl_is_top (sm_heap g) s = Some True" "fib \<in> ps" "good (sm_alloc g)"
    by auto
qed

lemma seg_at_stack_top: "seg_at good blocks g fib live ps \<Longrightarrow> stack_top fib g = Some fib"
  using seg_at_top(1) by (fastforce simp: stack_top_def)

lemma seg_at_of_stacklet: "seg_at good blocks g fib live ps \<Longrightarrow> stack_of_stacklet g (Some fib) = Some fib"
  using seg_at_top(1) by (fastforce simp: stack_of_stacklet_def)

lemma seg_at_empty:
  assumes "seg_at good blocks g fib [] ps"
  shows "stack_empty fib g = Some True"
proof -
  from assms obtain bs qs bss cache where ok: "seg_ok good blocks g fib bs qs bss cache" "concat (bs # bss) = []"
    by (auto simp: seg_at_def)
  from ok have bs: "bs = []" by simp
  with ok(1) have qs: "qs = []" by (auto simp: seg_ok_def occupied_def)
  from ok(1) have pre: "seg_pre good blocks g fib bs qs bss cache" by (simp add: seg_ok_def)
  from seg_pre_top [OF pre] obtain s where s: "sm_heap g fib = Some s" "covers (st_lo s) (st_sp s) bs"
    "below_ok (sm_heap g) fib (st_prev s) qs bss" "sl_is_top (sm_heap g) s = Some True" by metis
  with bs qs have "sl_empty s" "st_prev s = None" by (auto simp: sl_empty_def, cases bss) auto
  with s show ?thesis by (simp add: stack_empty_def)
qed

text \<open>Destroying an empty stack leaves every other stack alone.\<close>

lemma seg_at_destroy:
  assumes al: "alloc_ok good blocks malloc free" and mine: "seg_at good blocks g fib [] ps"
    and other: "seg_at good blocks g q live qs" and sep: "ps \<inter> qs = {}"
  shows "\<exists>g'. stack_destroy free fib g = Some g' \<and> seg_at good blocks g' q live qs"
proof -
  from mine obtain bs rs bss cache where ok: "seg_ok good blocks g fib bs rs bss cache" "concat (bs # bss) = []"
    "ps = set (fib # rs) \<union> set_option cache" by (auto simp: seg_at_def)
  have bs: "bs = []" using ok(2) by simp
  with ok(1) have rs: "rs = []" by (auto simp: seg_ok_def occupied_def)
  then have bss: "bss = []" using seg_owns [OF ok(1)] by simp
  from stack_destroy_ok [OF al ok(1) [unfolded bs rs bss]] obtain g' where
    g': "stack_destroy free fib g = Some g'" "good (sm_alloc g')"
    "\<forall>p. p \<noteq> fib \<and> Some p \<noteq> cache \<longrightarrow> sm_heap g' p = sm_heap g p \<and> blocks (sm_alloc g') p = blocks (sm_alloc g) p"
    by metis
  have "seg_at good blocks g' q live qs"
  proof (rule seg_at_frame [OF other g'(2)])
    fix p assume "p \<in> qs"
    with sep ok(3) have "p \<noteq> fib" "Some p \<noteq> cache" by auto
    with g'(3) show "sm_heap g' p = sm_heap g p \<and> blocks (sm_alloc g') p = blocks (sm_alloc g) p" by simp
  qed
  with g'(1) show ?thesis by blast
qed

section \<open>A live worker\<close>

definition worker_at :: "('e, 'm) world \<Rightarrow> nat \<Rightarrow> worker_context \<Rightarrow> bool" where
  "worker_at w fib c \<longleftrightarrow> w_tls w = \<lparr>has_stack = True, thread_stack = Some fib, has_context = True, thread_context = Some c\<rparr>"

lemma worker_at_simps [simp]:
  "worker_at w fib c \<Longrightarrow> tls_stack (w_tls w) = Some fib" "worker_at w fib c \<Longrightarrow> tls_context (w_tls w) = Some c"
  "worker_at w fib c \<Longrightarrow> worker_at (set_context c' w) fib c'"
  "worker_at w fib c \<Longrightarrow> worker_at (set_stack q g w) q c"
  "worker_at (set_frame p f w) fib c = worker_at w fib c"
  "w_mem (set_frame p f w) = w_mem w" "w_mem (set_context c w) = w_mem w" "w_mem (set_stack q g w) = g"
  "w_frames (set_context c w) = w_frames w" "w_frames (set_stack q g w) = w_frames w"
  "w_frames (set_frame p f w) = (w_frames w)(p \<mapsto> f)"
  by (simp_all add: worker_at_def tls_stack_def tls_context_def ml_data_def set_context_def set_stack_def set_frame_def)

lemma worker_tls_top: "worker_at w fib c \<Longrightarrow> tls_top w = stack_top fib (w_mem w)"
  by (simp add: tls_top_def)

lemma worker_stack_empty: "worker_at w fib c \<Longrightarrow> tls_stack_empty w = stack_empty fib (w_mem w)"
  by (simp add: tls_stack_empty_def)

text \<open>Taking over another stack: the worker's own stack has to be empty and is given back.\<close>

lemma assign_stack_ok:
  assumes al: "alloc_ok good blocks malloc free" and w: "worker_at w fib c"
    and mine: "seg_at good blocks (w_mem w) fib [] ps" and other: "seg_at good blocks (w_mem w) q live qs"
    and sep: "ps \<inter> qs = {}"
  shows "\<exists>g. assign_stack free q w = Some (set_stack q g w) \<and> seg_at good blocks g q live qs"
proof -
  from seg_at_destroy [OF al mine other sep] obtain g where
    "stack_destroy free fib (w_mem w) = Some g" "seg_at good blocks g q live qs" by blast
  with w seg_at_of_stacklet [OF other] show ?thesis
    by (intro exI [of _ g]) (simp add: assign_stack_def stack_swap_def)
qed

text \<open>Giving up the stack: with memory for a new one, the worker gets an empty stack.\<close>

lemma release_stack_ok:
  assumes al: "alloc_ok good blocks malloc free" and w: "worker_at w fib c" and good: "good (sm_alloc (w_mem w))"
    and mem: "stack_new malloc free (w_mem w) = Some (Inr q, g)"
  shows "release_stack malloc free w = Some (set_stack q g w) \<and> stack_empty q g = Some True"
proof -
  from seg_new [OF al good] mem have "seg_ok good blocks g q [] [] [] None" by auto
  then have "seg_at good blocks g q [] {q}" unfolding seg_at_def by force
  from seg_at_empty [OF this] w mem show ?thesis
    by (simp add: release_stack_def stack_release_def stack_new_def)
qed

lemma fresh_seg_at:
  assumes "alloc_ok good blocks malloc free" "good (sm_alloc g0)" "stack_new malloc free g0 = Some (Inr f, g)"
  shows "seg_at good blocks g f [] {f}"
  using seg_new [OF assms(1,2)] assms(3) unfolding seg_at_def by force

text \<open>A fresh stack is apart from every other.\<close>

lemma seg_at_nodes:
  assumes "seg_at good blocks g fib live ps" "p \<in> ps"
  shows "blocks (sm_alloc g) p \<noteq> None"
proof -
  from assms obtain bs qs bss cache where
    pre: "seg_pre good blocks g fib bs qs bss cache" and p: "p \<in> set (fib # qs) \<union> set_option cache"
    by (auto simp: seg_at_def seg_ok_def)
  then have "node_ok blocks g p" by (cases cache) (auto simp: seg_pre_def)
  then show ?thesis by (simp add: node_ok_def split: option.splits)
qed

lemma stack_new_apart:
  assumes al: "alloc_ok good blocks malloc free" and seg: "seg_at good blocks g fib live ps"
    and new: "stack_new malloc free g = Some (Inr q, g')"
  shows "seg_at good blocks g' fib live ps \<and> seg_at good blocks g' q [] {q} \<and> q \<notin> ps"
proof -
  have good: "good (sm_alloc g)" by (rule seg_at_top(3) [OF seg])
  from new obtain req m where m: "malloc (sm_alloc g) req = Some (q, m)" "sm_alloc g' = m" "\<forall>p. p \<noteq> q \<longrightarrow> sm_heap g' p = sm_heap g p"
    by (auto simp: stack_new_def next_stacklet_def Let_def Option.bind_eq_Some_conv split: option.splits)
  note b = alloc_malloc [OF al good m(1)]
  have "q \<notin> ps" using seg_at_nodes [OF seg] b by blast
  moreover have "seg_at good blocks g' fib live ps"
    by (rule seg_at_frame [OF seg]) (use b m \<open>q \<notin> ps\<close> in auto)
  ultimately show ?thesis using fresh_seg_at [OF al good new] by simp
qed

section \<open>Properties\<close>

text \<open>
  Property C18. Ownership of stacks at the end of a forked task whose parent was stolen. The worker
  holds either the parent's stack or, with an empty stack of its own, the parent's stack is
  somewhere else in memory. If the child is the last to join, control goes to the parent, whose
  counters are reset, and the worker's stack is the parent's; otherwise control returns to the
  scheduler and the worker is left with an empty stack, so the parent's stack is free for whoever
  resumes the parent.
\<close>

theorem final_suspend_hands_over:
  assumes al: "alloc_ok good blocks malloc free" and w: "worker_at w fib c"
    and none: "cl_inv (m_tasks c)" "cl_contents (m_tasks c) = []" and f: "w_frames w parent = Some f"
    and mine: "seg_at good blocks (w_mem w) fib live ps"
    and stacks: "fr_stacklet f = fib \<or>
       fr_stacklet f \<noteq> fib \<and> live = [] \<and> seg_at good blocks (w_mem w) (fr_stacklet f) plive qs \<and> ps \<inter> qs = {}"
    and mem: "stack_new malloc free (w_mem w) = Some (Inr q, g)"
  shows "\<exists>h w'. final_await_suspend malloc free parent w = Some (h, w')
     \<and> (if m_join f = 1
        then h = Some (fr_self f) \<and> tls_top w' = Some (fr_stacklet f)
          \<and> w_frames w' parent = Some (f\<lparr>m_steal := 0, m_join := k_u16_max\<rparr>)
        else h = None \<and> tls_stack_empty w' = Some True
          \<and> w_frames w' parent = Some (f\<lparr>m_join := m_join f - 1\<rparr>))"
proof -
  from ctx_pop_ok [OF none(1)] none(2) obtain d where pop: "ctx_pop c = Some (None, c\<lparr>m_tasks := d\<rparr>)" by auto
  let ?c = "c\<lparr>m_tasks := d\<rparr>" let ?f = "f\<lparr>m_join := m_join f - 1\<rparr>"
  let ?w = "set_frame parent ?f (set_context ?c w)"
  have w1: "worker_at (set_context ?c w) fib ?c" "worker_at ?w fib ?c" using w by simp_all
  have top: "tls_top (set_context ?c w) = Some fib"
    using worker_tls_top [OF w1(1)] seg_at_stack_top [OF mine] by simp
  have good: "good (sm_alloc (w_mem w))" by (rule seg_at_top(3) [OF mine])
  note body = final_await_suspend_def pop f top fetch_sub_joins_def Let_def
  show ?thesis
  proof (cases "fr_stacklet f = fib")
    case same: True
    show ?thesis
    proof (cases "m_join f = 1")
      case True
      have "final_await_suspend malloc free parent w = Some (Some (fr_self ?f), set_frame parent (fr_reset ?f) ?w)"
        using w same True by (simp add: body)
      moreover have "tls_top (set_frame parent (fr_reset ?f) ?w) = Some fib"
        using worker_tls_top [of "set_frame parent (fr_reset ?f) ?w" fib ?c] w1(2) seg_at_stack_top [OF mine] by simp
      ultimately show ?thesis using True same by (simp add: fr_self_def fr_reset_def)
    next
      case False
      have mem': "stack_new malloc free (w_mem ?w) = Some (Inr q, g)" "good (sm_alloc (w_mem ?w))"
        using mem good by simp_all
      from release_stack_ok [OF al w1(2) mem'(2,1)] have rel: "release_stack malloc free ?w = Some (set_stack q g ?w)"
        "stack_empty q g = Some True" by auto
      have "final_await_suspend malloc free parent w = Some (None, set_stack q g ?w)"
        using w same False rel(1) by (simp add: body)
      moreover have "tls_stack_empty (set_stack q g ?w) = Some True"
        using worker_stack_empty [of "set_stack q g ?w" q ?c] w1(2) rel(2) by simp
      ultimately show ?thesis using False by simp
    qed
  next
    case diff: False
    with stacks have st: "live = []" "seg_at good blocks (w_mem w) (fr_stacklet f) plive qs" "ps \<inter> qs = {}" by auto
    have empty: "tls_stack_empty ?w = Some True"
      using worker_stack_empty [OF w1(2)] seg_at_empty mine st(1) by simp
    show ?thesis
    proof (cases "m_join f = 1")
      case True
      have mine': "seg_at good blocks (w_mem ?w) fib [] ps" and other': "seg_at good blocks (w_mem ?w) (fr_stacklet f) plive qs"
        using mine st by simp_all
      from assign_stack_ok [OF al w1(2) mine' other' st(3)] obtain g' where
        g': "assign_stack free (fr_stacklet f) ?w = Some (set_stack (fr_stacklet f) g' ?w)"
          "seg_at good blocks g' (fr_stacklet f) plive qs" by blast
      let ?r = "set_frame parent (fr_reset ?f) (set_stack (fr_stacklet f) g' ?w)"
      have "final_await_suspend malloc free parent w = Some (Some (fr_self ?f), ?r)"
        using w diff True empty g'(1) by (simp add: body)
      moreover have "tls_top ?r = Some (fr_stacklet f)"
        using worker_tls_top [of ?r "fr_stacklet f" ?c] w1(2) seg_at_stack_top [OF g'(2)] by simp
      ultimately show ?thesis using True by (simp add: fr_self_def fr_reset_def)
    next
      case False
      have "final_await_suspend malloc free parent w = Some (None, ?w)"
        using w diff False by (simp add: body)
      with empty False show ?thesis by simp
    qed
  qed
qed

text \<open>
  The two ends of a fork that nobody steals: the push, which either fails and destroys the child or
  puts the parent on the deque and transfers to the child, and the pop, which finds the parent.
\<close>

lemma fork_pushes:
  assumes w: "worker_at w fib c" and inv: "cl_inv (m_tasks c)" and cf: "w_frames w child = Some cf"
  shows "fork_await_suspend alloc free self child w = map_option (Pair (Inl (Lib_exn Bad_alloc))) (coro_destroy free child w)
     \<or> (\<exists>d. fork_await_suspend alloc free self child w = Some (Inr (Some (fr_self cf)), set_context (c\<lparr>m_tasks := d\<rparr>) w)
          \<and> cl_inv d \<and> cl_contents d = cl_contents (m_tasks c) @ [self])"
  using ctx_push_ok [OF inv, of alloc self] w cf
  by (auto simp: fork_await_suspend_def map_option_case split: option.splits)

lemma final_pops:
  assumes w: "worker_at w fib c" and inv: "cl_inv (m_tasks c)" "cl_contents (m_tasks c) = xs @ [parent]"
    and f: "w_frames w parent = Some f"
  shows "\<exists>d. final_await_suspend malloc free parent w = Some (Some (fr_self f), set_context (c\<lparr>m_tasks := d\<rparr>) w)
     \<and> cl_inv d \<and> cl_contents d = xs"
proof -
  from ctx_pop_ok [OF inv(1)] inv(2) obtain d where "ctx_pop c = Some (Some parent, c\<lparr>m_tasks := d\<rparr>)"
    "cl_inv d" "cl_contents d = xs" by auto
  with w f show ?thesis by (intro exI [of _ d]) (simp add: final_await_suspend_def)
qed

theorem final_suspend_hands_over_witness:
  "\<exists>fib c g h (w' :: (nat, nat \<times> (nat \<rightharpoonup> nat)) world).
     final_await_suspend bump_malloc bump_free 7
       \<lparr>w_frames = [7 \<mapsto> (frame_new 7 fib)\<lparr>m_join := 1, m_steal := 1\<rparr>], w_mem = g,
        w_tls = \<lparr>has_stack = True, thread_stack = Some fib, has_context = True, thread_context = Some c\<rparr>\<rparr> = Some (h, w')
     \<and> h = Some 7 \<and> tls_top w' = Some fib"
proof -
  let ?g0 = "\<lparr>sm_alloc = (16, Map.empty), sm_heap = Map.empty\<rparr> :: (nat \<times> (nat \<rightharpoonup> nat)) smem"
  from bump_stack_new [of ?g0] obtain fib g where g: "stack_new bump_malloc bump_free ?g0 = Some (Inr fib, g)"
    "fst (sm_alloc g) \<le> 16 + 8192" by auto
  from bump_stack_new [of g] g(2) obtain q g2 where mem: "stack_new bump_malloc bump_free g = Some (Inr q, g2)" by auto
  from worker_context_new_ok obtain c :: worker_context where
    c: "cl_inv (m_tasks c)" "cl_contents (m_tasks c) = []" by blast
  let ?f = "(frame_new 7 fib)\<lparr>m_join := 1, m_steal := 1\<rparr> :: nat frame"
  let ?w = "\<lparr>w_frames = [7 \<mapsto> ?f], w_mem = g,
    w_tls = \<lparr>has_stack = True, thread_stack = Some fib, has_context = True, thread_context = Some c\<rparr>\<rparr>"
  have w: "worker_at ?w fib c" by (simp add: worker_at_def)
  have good: "bump_good (sm_alloc ?g0)" by (simp add: bump_good_def)
  have seg: "seg_at bump_good snd (w_mem ?w) fib [] {fib}"
    using fresh_seg_at [OF bump_alloc_ok good g(1)] by simp
  have f: "w_frames ?w 7 = Some ?f" by simp
  have st: "fr_stacklet ?f = fib" by (simp add: fr_stacklet_def frame_new_def)
  have mem': "stack_new bump_malloc bump_free (w_mem ?w) = Some (Inr q, g2)" using mem by simp
  from final_suspend_hands_over [OF bump_alloc_ok w c f seg disjI1 [OF st] mem'] obtain h w' where
    "final_await_suspend bump_malloc bump_free 7 ?w = Some (h, w')" "h = Some (fr_self ?f)"
    "tls_top w' = Some (fr_stacklet ?f)" by auto
  then show ?thesis using st by (intro exI conjI) (simp_all add: fr_self_def frame_new_def)
qed

text \<open>
  Passing a join: either no steal happened and the worker holds the task's stack, or
  all stolen children have joined and the worker, with an empty stack of its own, takes the
  task's stack over. In both cases \<open>await_ready\<close> says yes, and \<open>await_resume\<close> then finds the counters
  reset and the task's stacklet on top of the worker's stack, and throws the exception a child left,
  if any, or returns.
\<close>

theorem join_ready_resumes:
  assumes al: "alloc_ok good blocks malloc free" and w: "worker_at w fib c"
    and f: "w_frames w self = Some f" "eptr_ok f"
    and mine: "seg_at good blocks (w_mem w) fib live ps"
    and joined: "load_steals f = 0 \<and> load_joins f = k_u16_max \<and> fr_stacklet f = fib
       \<or> load_steals f \<noteq> 0 \<and> uint (load_steals f) = uint k_u16_max - uint (load_joins f) \<and> live = []
         \<and> seg_at good blocks (w_mem w) (fr_stacklet f) tlive qs \<and> ps \<inter> qs = {}"
  shows "\<exists>w1 w2. join_ready free self w = Some (True, w1)
     \<and> join_resume self w1 = Some (case pending_exn f of None \<Rightarrow> Inr () | Some e \<Rightarrow> Inl (Child_exn e), w2)"
proof -
  have resume: "\<exists>w2. join_resume self v = Some (case pending_exn f of None \<Rightarrow> Inr () | Some e \<Rightarrow> Inl (Child_exn e), w2)"
    if v: "w_frames v self = Some k" "m_steal k = 0" "m_join k = k_u16_max" "tls_top v = Some (fr_stacklet k)"
      "eptr_ok k" "pending_exn k = pending_exn f" for v k
    using v rethrow_if_ok [OF v(5)]
    by (auto simp: join_resume_def rethrow_into_def load_steals_def load_joins_def split: option.splits)
  show ?thesis
  proof (cases "load_steals f = 0")
    case True
    with joined have j: "load_joins f = k_u16_max" "fr_stacklet f = fib" by auto
    have "tls_top w = Some fib" using worker_tls_top [OF w] seg_at_stack_top [OF mine] by simp
    with resume [of w f] True j f have "\<exists>w2. join_resume self w = Some (case pending_exn f of None \<Rightarrow> Inr () | Some e \<Rightarrow> Inl (Child_exn e), w2)"
      by (simp add: load_steals_def load_joins_def)
    moreover have "join_ready free self w = Some (True, w)" using f True by (simp add: join_ready_def)
    ultimately show ?thesis by blast
  next
    case False
    with joined have st: "uint (load_steals f) = uint k_u16_max - uint (load_joins f)" "live = []"
      "seg_at good blocks (w_mem w) (fr_stacklet f) tlive qs" "ps \<inter> qs = {}" by auto
    from assign_stack_ok [OF al w _ st(3,4)] mine st(2) obtain g where
      g: "assign_stack free (fr_stacklet f) w = Some (set_stack (fr_stacklet f) g w)"
        "seg_at good blocks g (fr_stacklet f) tlive qs" by blast
    have "tls_stack_empty w = Some True" using worker_stack_empty [OF w] seg_at_empty mine st(2) by simp
    with f False g(1) have take: "take_stack_reset_frame free self w
        = Some (set_frame self (fr_reset f) (set_stack (fr_stacklet f) g w))"
      by (simp add: take_stack_reset_frame_def)
    let ?w = "set_frame self (fr_reset f) (set_stack (fr_stacklet f) g w)"
    have "worker_at ?w (fr_stacklet f) c" using w by simp
    then have "tls_top ?w = Some (fr_stacklet f)" using worker_tls_top seg_at_stack_top [OF g(2)] by fastforce
    moreover have "w_frames ?w self = Some (fr_reset f)" "m_steal (fr_reset f) = 0" "m_join (fr_reset f) = k_u16_max"
      "fr_stacklet (fr_reset f) = fr_stacklet f" "eptr_ok (fr_reset f)" "pending_exn (fr_reset f) = pending_exn f"
      using f(2) by (simp_all add: fr_reset_def fr_stacklet_def eptr_ok_def pending_exn_def)
    ultimately obtain w2 where
      "join_resume self ?w = Some (case pending_exn f of None \<Rightarrow> Inr () | Some e \<Rightarrow> Inl (Child_exn e), w2)"
      using resume [of ?w "fr_reset f"] by auto
    moreover have "join_ready free self w = Some (True, ?w)" using f False st(1) take by (simp add: join_ready_def)
    ultimately show ?thesis by blast
  qed
qed

theorem join_ready_resumes_witness:
  "\<exists>fib c g (w1 :: (nat, nat \<times> (nat \<rightharpoonup> nat)) world) w2.
     join_ready bump_free 7
       \<lparr>w_frames = [7 \<mapsto> capture_exception 5 (frame_new 7 fib)], w_mem = g,
        w_tls = \<lparr>has_stack = True, thread_stack = Some fib, has_context = True, thread_context = Some c\<rparr>\<rparr> = Some (True, w1)
     \<and> join_resume 7 w1 = Some (Inl (Child_exn 5), w2)"
proof -
  let ?g0 = "\<lparr>sm_alloc = (16, Map.empty), sm_heap = Map.empty\<rparr> :: (nat \<times> (nat \<rightharpoonup> nat)) smem"
  from bump_stack_new [of ?g0] obtain fib g where g: "stack_new bump_malloc bump_free ?g0 = Some (Inr fib, g)" by auto
  from worker_context_new_ok obtain c :: worker_context where "cl_inv (m_tasks c)" by blast
  let ?f = "capture_exception 5 (frame_new 7 fib) :: nat frame"
  let ?w = "\<lparr>w_frames = [7 \<mapsto> ?f], w_mem = g,
    w_tls = \<lparr>has_stack = True, thread_stack = Some fib, has_context = True, thread_context = Some c\<rparr>\<rparr>"
  have w: "worker_at ?w fib c" by (simp add: worker_at_def)
  have good: "bump_good (sm_alloc ?g0)" by (simp add: bump_good_def)
  have seg: "seg_at bump_good snd (w_mem ?w) fib [] {fib}" using fresh_seg_at [OF bump_alloc_ok good g] by simp
  have f: "w_frames ?w 7 = Some ?f" "eptr_ok ?f" "pending_exn ?f = Some 5"
    using capture_exception_ok [of "frame_new 7 fib :: nat frame" 5] by simp_all
  have j: "load_steals ?f = 0" "load_joins ?f = k_u16_max" "fr_stacklet ?f = fib"
    by (simp_all add: load_steals_def load_joins_def fr_stacklet_def capture_exception_def frame_new_def)
  from join_ready_resumes [OF bump_alloc_ok w f(1,2) seg disjI1 [OF conjI [OF j(1) conjI [OF j(2,3)]]]] f(3)
  obtain w1 w2 where "join_ready bump_free 7 ?w = Some (True, w1)" "join_resume 7 w1 = Some (Inl (Child_exn 5), w2)" by auto
  then show ?thesis by - (rule exI [of _ fib], rule exI [of _ c], rule exI [of _ g], rule exI [of _ w1], rule exI [of _ w2], rule conjI)
qed

end
