(* ===== verification/Switching.thy ===== *)
theory Switching
  imports Awaitables
begin

text \<open>
  \<open>core/scheduler.hpp\<close> and explicit scheduling: a task that awaits \<open>resume_on(dest)\<close> suspends on one
  worker and goes on on another.  Two workers share the frames, the memory of the stacks and the
  submission nodes; \<open>du_here\<close> are the thread-local variables of the worker that suspends the task and
  \<open>du_dest\<close> those of the worker whose context is \<open>dest\<close>.  \<open>context_switch_awaitable::await_suspend\<close>
  (\<open>switch_await_suspend\<close> of \<open>Awaitables\<close>) is split at the call of \<open>external.await_suspend\<close>, after which
  the task may already run on the other worker.
\<close>

section \<open>The awaitable\<close>

definition resume_on :: "nat option \<Rightarrow> nat option" where
  "resume_on dest = non_null dest"

text \<open>The addresses of the context of the calling worker and of the destination.\<close>

definition resume_on_await_ready :: "nat \<Rightarrow> nat \<Rightarrow> bool" where
  "resume_on_await_ready context m_dest \<longleftrightarrow> context = m_dest"

definition resume_on_await_suspend :: "nat \<Rightarrow> ('u \<Rightarrow> 'u) \<Rightarrow> nat option \<Rightarrow> nat nheap \<Rightarrow> worker_context \<Rightarrow> 'u
    \<Rightarrow> (nat nheap \<times> worker_context \<times> 'u) option" where
  "resume_on_await_suspend spurious notify handle h dest u = ctx_schedule spurious notify h handle dest u"

text \<open>\<open>await_transform\<close> of a context switcher: the awaitable holds a node with the task, at the address \<open>n\<close>.\<close>

definition switch_await_transform :: "nat \<Rightarrow> nat \<Rightarrow> nat nheap \<Rightarrow> nat nheap" where
  "switch_await_transform self n h = h(n \<mapsto> node_new self)"

section \<open>Two workers\<close>

record ('e, 'm, 'u) duo =
  du_frames :: "nat \<rightharpoonup> 'e frame"
  du_mem :: "'m smem"
  du_nodes :: "nat nheap"
  du_here :: tls
  du_dest :: tls
  du_out :: 'u

definition at_here :: "('e, 'm, 'u) duo \<Rightarrow> ('e, 'm) world" where
  "at_here d = \<lparr>w_frames = du_frames d, w_mem = du_mem d, w_tls = du_here d\<rparr>"

definition at_dest :: "('e, 'm, 'u) duo \<Rightarrow> ('e, 'm) world" where
  "at_dest d = \<lparr>w_frames = du_frames d, w_mem = du_mem d, w_tls = du_dest d\<rparr>"

definition put_here :: "('e, 'm) world \<Rightarrow> ('e, 'm, 'u) duo \<Rightarrow> ('e, 'm, 'u) duo" where
  "put_here w d = d\<lparr>du_frames := w_frames w, du_mem := w_mem w, du_here := w_tls w\<rparr>"

definition put_dest :: "('e, 'm) world \<Rightarrow> ('e, 'm, 'u) duo \<Rightarrow> ('e, 'm, 'u) duo" where
  "put_dest w d = d\<lparr>du_frames := w_frames w, du_mem := w_mem w, du_dest := w_tls w\<rparr>"

text \<open>\<open>await_suspend\<close> up to the submission, and after it.\<close>

definition switch_submit :: "nat \<Rightarrow> ('u \<Rightarrow> 'u) \<Rightarrow> nat \<Rightarrow> nat \<Rightarrow> ('e, 'm, 'u) duo \<Rightarrow> (u16 \<times> ('e, 'm, 'u) duo) option" where
  "switch_submit spurious notify self n d = do {
     f \<leftarrow> du_frames d self;
     (let steals = load_steals f in do {
        t \<leftarrow> tls_top (at_here d);
        lf_assert (if steals = 0 then fr_stacklet f = t else fr_stacklet f \<noteq> t);
        dest \<leftarrow> tls_context (du_dest d);
        (h, dest', u) \<leftarrow> resume_on_await_suspend spurious notify (Some n) (du_nodes d) dest (du_out d);
        Some (steals, (put_dest (set_context dest' (at_dest d)) d)\<lparr>du_nodes := h, du_out := u\<rparr>) }) }"

text \<open>
  \<open>co_await resume_on(dest)\<close> up to the submission, on a worker whose context is at the address \<open>context\<close>.  \<open>None\<close>
  in the result: the task does not suspend.
\<close>

definition co_await_resume_on :: "nat \<Rightarrow> ('u \<Rightarrow> 'u) \<Rightarrow> nat \<Rightarrow> nat option \<Rightarrow> nat \<Rightarrow> nat \<Rightarrow> ('e, 'm, 'u) duo
    \<Rightarrow> (u16 option \<times> ('e, 'm, 'u) duo) option" where
  "co_await_resume_on spurious notify context dest self n d = do {
     m_dest \<leftarrow> resume_on dest;
     (let d' = d\<lparr>du_nodes := switch_await_transform self n (du_nodes d)\<rparr> in
      if resume_on_await_ready context m_dest then Some (None, d')
      else do { (steals, d1) \<leftarrow> switch_submit spurious notify self n d'; Some (Some steals, d1) }) }"

definition switch_leave :: "('m \<Rightarrow> u64 \<Rightarrow> (nat \<times> 'm) option) \<Rightarrow> ('m \<Rightarrow> nat \<Rightarrow> 'm) \<Rightarrow> u16 \<Rightarrow> ('e, 'm, 'u) duo
    \<Rightarrow> (handle \<times> ('e, 'm, 'u) duo) option" where
  "switch_leave malloc free steals d = do {
     w1 \<leftarrow> (if steals = 0 then release_stack malloc free (at_here d) else Some (at_here d));
     e \<leftarrow> tls_stack_empty w1;
     lf_assert e;
     (h, w2) \<leftarrow> try_self_stealing w1;
     Some (h, put_here w2 d) }"

text \<open>The event loop of the destination: fetch the submissions and resume them, up to the first coroutine.\<close>

definition resume_prepare :: "('m \<Rightarrow> nat \<Rightarrow> 'm) \<Rightarrow> nat \<Rightarrow> ('e, 'm) world \<Rightarrow> (nat \<times> ('e, 'm) world) option" where
  "resume_prepare free p w = do {
     f \<leftarrow> w_frames w p;
     e \<leftarrow> tls_stack_empty w;
     lf_assert e;
     w1 \<leftarrow> (if load_steals f = 0 then assign_stack free (fr_stacklet f) w else Some w);
     c \<leftarrow> tls_context (w_tls w1);
     lf_assert (ctx_empty c);
     Some (fr_self f, w1) }"

definition resume_checks :: "('e, 'm) world \<Rightarrow> ('e, 'm) world option" where
  "resume_checks w = do {
     c \<leftarrow> tls_context (w_tls w);
     lf_assert (ctx_empty c);
     e \<leftarrow> tls_stack_empty w;
     lf_assert e;
     Some w }"

lemma resume_submitted_split:
  "resume_submitted free run p w = do { (q, w1) \<leftarrow> resume_prepare free p w; w2 \<leftarrow> run q w1; resume_checks w2 }"
  by (simp add: resume_submitted_def resume_prepare_def resume_checks_def Option.bind_assoc)

definition dest_arrives :: "('m \<Rightarrow> nat \<Rightarrow> 'm) \<Rightarrow> ('e, 'm, 'u) duo \<Rightarrow> (nat \<times> ('e, 'm, 'u) duo) option" where
  "dest_arrives free d = do {
     c \<leftarrow> tls_context (du_dest d);
     (root, h, c') \<leftarrow> ctx_try_pop_all (du_nodes d) c;
     p \<leftarrow> unwrap h root;
     (q, w) \<leftarrow> resume_prepare free p (set_context c' (at_dest d));
     Some (q, (put_dest w d)\<lparr>du_nodes := h\<rparr>) }"

section \<open>Pieces\<close>

lemma duo_views [simp]:
  "w_frames (at_here d) = du_frames d" "w_mem (at_here d) = du_mem d" "w_tls (at_here d) = du_here d"
  "w_frames (at_dest d) = du_frames d" "w_mem (at_dest d) = du_mem d" "w_tls (at_dest d) = du_dest d"
  "at_here (put_here w d) = w" "at_dest (put_dest w d) = w"
  by (simp_all add: at_here_def at_dest_def put_here_def put_dest_def)

lemma duo_fields [simp]:
  "du_here (put_dest w d) = du_here d" "du_dest (put_here w d) = du_dest d" "du_nodes (put_dest w d) = du_nodes d"
  "du_nodes (put_here w d) = du_nodes d" "du_mem (put_dest w d) = w_mem w" "du_mem (put_here w d) = w_mem w"
  "du_frames (put_dest w d) = w_frames w" "du_frames (put_here w d) = w_frames w"
  "du_dest (put_dest w d) = w_tls w" "du_here (put_here w d) = w_tls w"
  "du_out (put_dest w d) = du_out d" "du_out (put_here w d) = du_out d"
  by (simp_all add: put_here_def put_dest_def)

lemma worker_at_cong: "w_tls w = w_tls v \<Longrightarrow> worker_at w fib c = worker_at v fib c"
  by (simp add: worker_at_def)

lemma ctx_empty_iff: "cl_inv (m_tasks c) \<Longrightarrow> ctx_empty c \<longleftrightarrow> cl_contents (m_tasks c) = []"
  by (auto simp: ctx_empty_def cl_empty_def cl_contents_def)

text \<open>What the worker that is left without a task does next.\<close>

lemma try_self_stealing_ok:
  assumes w: "worker_at w fib c" and inv: "cl_inv (m_tasks c)"
    and frames: "\<forall>p\<in>set (cl_contents (m_tasks c)). w_frames w p \<noteq> None"
  shows "\<exists>w' d. try_self_stealing w = Some (if cl_contents (m_tasks c) = [] then None
       else map_option fr_self (w_frames w (last (cl_contents (m_tasks c)))), w')
     \<and> worker_at w' fib (c\<lparr>m_tasks := d\<rparr>) \<and> w_mem w' = w_mem w
     \<and> (\<forall>p. p \<notin> set (cl_contents (m_tasks c)) \<longrightarrow> w_frames w' p = w_frames w p)"
proof -
  from ctx_pop_ok [OF inv] obtain d where pop: "ctx_pop c = Some (if cl_contents (m_tasks c) = [] then None
      else Some (last (cl_contents (m_tasks c))), c\<lparr>m_tasks := d\<rparr>)" by blast
  show ?thesis
  proof (cases "cl_contents (m_tasks c) = []")
    case True
    with pop w show ?thesis by (intro exI [of _ "set_context (c\<lparr>m_tasks := d\<rparr>) w"] exI [of _ d]) (simp add: try_self_stealing_def)
  next
    case False
    let ?p = "last (cl_contents (m_tasks c))"
    from frames False obtain f where f: "w_frames w ?p = Some f" by fastforce
    let ?w = "set_frame ?p (snd (fetch_add_steal f)) (set_context (c\<lparr>m_tasks := d\<rparr>) w)"
    have "try_self_stealing w = Some (Some (fr_self f), ?w)"
      using pop w False f by (simp add: try_self_stealing_def fetch_add_steal_def fr_self_def)
    with False f w show ?thesis by (intro exI [of _ ?w] exI [of _ d]) auto
  qed
qed

definition next_task :: "worker_context \<Rightarrow> (nat \<rightharpoonup> 'e frame) \<Rightarrow> handle" where
  "next_task c fs = (if cl_contents (m_tasks c) = [] then None else map_option fr_self (fs (last (cl_contents (m_tasks c)))))"

lemma switch_leave_ok:
  assumes al: "alloc_ok good blocks malloc free" and w: "worker_at (at_here d) fib c"
    and good: "good (sm_alloc (du_mem d))" and new: "stack_new malloc free (du_mem d) = Some (Inr q, g)"
    and inv: "cl_inv (m_tasks c)" and frames: "\<forall>p\<in>set (cl_contents (m_tasks c)). du_frames d p \<noteq> None"
  shows "\<exists>b c2. switch_leave malloc free 0 d = Some (next_task c (du_frames d), b) \<and> worker_at (at_here b) q c2
     \<and> du_mem b = g \<and> du_dest b = du_dest d \<and> du_nodes b = du_nodes d
     \<and> (\<forall>p. p \<notin> set (cl_contents (m_tasks c)) \<longrightarrow> du_frames b p = du_frames d p)"
proof -
  from release_stack_ok [OF al w, of q g] good new have
    rel: "release_stack malloc free (at_here d) = Some (set_stack q g (at_here d))" "stack_empty q g = Some True" by auto
  let ?w = "set_stack q g (at_here d)"
  have w1: "worker_at ?w q c" using w by simp
  have "tls_stack_empty ?w = Some True" using worker_stack_empty [OF w1] rel(2) by simp
  moreover from try_self_stealing_ok [OF w1 inv] frames obtain w' e where
    "try_self_stealing ?w = Some (next_task c (du_frames d), w')" "worker_at w' q (c\<lparr>m_tasks := e\<rparr>)" "w_mem w' = g"
    "\<forall>p. p \<notin> set (cl_contents (m_tasks c)) \<longrightarrow> w_frames w' p = du_frames d p"
    by (auto simp: next_task_def)
  ultimately show ?thesis using rel(1)
    by (intro exI [of _ "put_here w' d"] exI [of _ "c\<lparr>m_tasks := e\<rparr>"]) (simp add: switch_leave_def)
qed

lemma dest_arrives_ok:
  assumes al: "alloc_ok good blocks malloc free" and w: "worker_at (at_dest d) fib' c"
    and sub: "m_submit c = Some n" "du_nodes d n = Some nd" "m_next nd = None"
    and f: "du_frames d (m_data nd) = Some f" "load_steals f = 0"
    and stacks: "seg_at good blocks (du_mem d) fib' [] ps'" "seg_at good blocks (du_mem d) (fr_stacklet f) live ps" "ps' \<inter> ps = {}"
    and idle: "cl_inv (m_tasks c)" "cl_contents (m_tasks c) = []"
  shows "\<exists>b. dest_arrives free d = Some (fr_self f, b) \<and> worker_at (at_dest b) (fr_stacklet f) (c\<lparr>m_submit := None\<rparr>)
     \<and> seg_at good blocks (du_mem b) (fr_stacklet f) live ps \<and> du_here b = du_here d \<and> du_frames b = du_frames d
     \<and> du_out b = du_out d
     \<and> (\<forall>q l qs. seg_at good blocks (du_mem d) q l qs \<and> ps' \<inter> qs = {} \<longrightarrow> seg_at good blocks (du_mem b) q l qs)"
proof -
  let ?c = "c\<lparr>m_submit := None\<rparr>" let ?w = "set_context ?c (at_dest d)"
  have w1: "worker_at ?w fib' ?c" using w by simp
  have pop: "ctx_try_pop_all (du_nodes d) c = Some (Some n, du_nodes d, ?c)"
    using sub by (simp add: ctx_try_pop_all_def il_try_pop_all_def il_reverse.simps fun_upd_idem)
  from seg_at_destroy [OF al stacks] obtain g where
    g0: "stack_destroy free fib' (du_mem d) = Some g" "seg_at good blocks g (fr_stacklet f) live ps" by blast
  then have g: "assign_stack free (fr_stacklet f) ?w = Some (set_stack (fr_stacklet f) g ?w)"
    "seg_at good blocks g (fr_stacklet f) live ps"
    using worker_at_simps(1) [OF w1] seg_at_of_stacklet [OF stacks(2)] by (simp_all add: assign_stack_def stack_swap_def)
  have keeps: "seg_at good blocks g q l qs" if "seg_at good blocks (du_mem d) q l qs \<and> ps' \<inter> qs = {}" for q l qs
    using seg_at_destroy [OF al stacks(1)] that g0(1) by force
  have "tls_stack_empty ?w = Some True" using worker_stack_empty [OF w1] seg_at_empty [OF stacks(1)] by simp
  moreover have w2: "worker_at (set_stack (fr_stacklet f) g ?w) (fr_stacklet f) ?c" using w1 by simp
  moreover have "ctx_empty ?c" using ctx_empty_iff [of ?c] idle by simp
  ultimately have "resume_prepare free (m_data nd) ?w = Some (fr_self f, set_stack (fr_stacklet f) g ?w)"
    using f g(1) worker_at_simps(2) [OF w2] by (simp add: resume_prepare_def)
  with pop sub w have "dest_arrives free d = Some (fr_self f, (put_dest (set_stack (fr_stacklet f) g ?w) d)\<lparr>du_nodes := du_nodes d\<rparr>)"
    using worker_at_simps(2) [OF w] by (simp add: dest_arrives_def unwrap_def)
  moreover have "worker_at (at_dest ((put_dest v d)\<lparr>du_nodes := h\<rparr>)) fib2 c2 = worker_at v fib2 c2" for v h fib2 c2
    by (rule worker_at_cong) simp
  ultimately show ?thesis using w2 g(2) keeps by (intro exI conjI) (assumption | simp)+
qed

lemma switch_submit_ok:
  assumes here: "worker_at (at_here d) fib c" and dest: "worker_at (at_dest d) fib' c'"
    and f: "du_frames d self = Some f" "load_steals f = 0" "fr_stacklet f = fib" and top: "stack_top fib (du_mem d) = Some fib"
    and node: "du_nodes d n = Some (node_new self)" and sub: "m_submit c' = None"
  shows "\<exists>d1. switch_submit spurious notify self n d = Some (0, d1) \<and> worker_at (at_here d1) fib c
     \<and> worker_at (at_dest d1) fib' (c'\<lparr>m_submit := Some n\<rparr>) \<and> du_nodes d1 n = Some (node_new self)
     \<and> du_mem d1 = du_mem d \<and> du_frames d1 = du_frames d \<and> du_out d1 = notify (du_out d)"
proof -
  let ?c = "c'\<lparr>m_submit := Some n\<rparr>"
  let ?d = "(put_dest (set_context ?c (at_dest d)) d)\<lparr>du_nodes := du_nodes d, du_out := notify (du_out d)\<rparr>"
  have "tls_top (at_here d) = Some fib" using worker_tls_top [OF here] top by simp
  moreover have "ctx_schedule spurious notify (du_nodes d) (Some n) c' (du_out d) = Some (du_nodes d, ?c, notify (du_out d))"
    using node sub by (simp add: ctx_schedule_def non_null_def il_push_def il_push_loop_ok node_new_def fun_upd_idem del: il_push_loop.simps)
  ultimately have "switch_submit spurious notify self n d = Some (0, ?d)"
    using f worker_at_simps(2) [OF dest] by (simp add: switch_submit_def resume_on_await_suspend_def)
  moreover have "worker_at (at_here ?d) fib c" using here worker_at_cong [of "at_here ?d" "at_here d"] by simp
  moreover have "worker_at (at_dest ?d) fib' ?c"
    using worker_at_simps(3) [OF dest, of ?c] worker_at_cong [of "at_dest ?d" "set_context ?c (at_dest d)"] by simp
  ultimately show ?thesis using node by (intro exI conjI) (assumption | simp)+
qed

text \<open>The two halves are the whole of \<open>await_suspend\<close>.\<close>

lemma switch_await_suspend_halves:
  assumes "switch_submit spurious notify self n d = Some (steals, d1)"
  shows "switch_await_suspend malloc free (\<lambda>_ _. du_out d1) self (at_here d) u
     = map_option (\<lambda>(h, b). (h, at_here b, du_out d1)) (switch_leave malloc free steals d1)"
proof -
  from assms have f: "\<exists>f t. du_frames d self = Some f \<and> steals = load_steals f \<and> tls_top (at_here d) = Some t
      \<and> (if steals = 0 then fr_stacklet f = t else fr_stacklet f \<noteq> t)"
    by (auto simp: switch_submit_def Let_def lf_assert_def Option.bind_eq_Some_conv split: if_splits)
  have "at_here d1 = at_here d"
    using assms by (auto simp: switch_submit_def Let_def Option.bind_eq_Some_conv at_here_def put_dest_def set_context_def at_dest_def)
  with f show ?thesis
    by (auto simp: switch_await_suspend_def switch_leave_def lf_assert_def Let_def map_option_case split: option.splits Option.bind_splits if_splits)
qed

section \<open>Properties\<close>

text \<open>
  The task is on the destination, on its own stack, which is as it was; the worker it left has an
  empty stack and goes on with the newest task of its deque, or with none.
\<close>

definition switched :: "('m \<Rightarrow> bool) \<Rightarrow> ('m \<Rightarrow> nat \<rightharpoonup> nat) \<Rightarrow> nat \<Rightarrow> 'e frame \<Rightarrow> (nat \<times> nat) list \<Rightarrow> nat set
    \<Rightarrow> ('e, 'm, 'u) duo \<Rightarrow> bool" where
  "switched good blocks self f live ps b \<longleftrightarrow> du_frames b self = Some f \<and> tls_top (at_dest b) = Some (fr_stacklet f)
     \<and> seg_at good blocks (du_mem b) (fr_stacklet f) live ps \<and> tls_stack_empty (at_here b) = Some True
     \<and> (\<exists>q. tls_top (at_here b) = Some q \<and> q \<notin> ps)"

text \<open>The two orders in which the workers may go on after the submission.\<close>

lemma switch_halves:
  assumes al: "alloc_ok good blocks malloc free"
    and here: "worker_at (at_here d) fib c" and dest: "worker_at (at_dest d) fib' c'"
    and f: "du_frames d self = Some f" "load_steals f = 0" "fr_stacklet f = fib"
    and stacks: "seg_at good blocks (du_mem d) fib live ps" "seg_at good blocks (du_mem d) fib' [] ps'" "ps' \<inter> ps = {}"
    and tasks: "cl_inv (m_tasks c)" "\<forall>p\<in>set (cl_contents (m_tasks c)). p \<noteq> self \<and> du_frames d p \<noteq> None"
    and idle: "cl_inv (m_tasks c')" "cl_contents (m_tasks c') = []" "m_submit c' = None"
    and node: "du_nodes d n = Some (node_new self)"
  shows "\<exists>d1 a. switch_submit spurious notify self n d = Some (0, d1)
     \<and> dest_arrives free d1 = Some (fr_self f, a)
     \<and> (\<forall>q g. stack_new malloc free (du_mem a) = Some (Inr q, g) \<longrightarrow>
          (\<exists>b. switch_leave malloc free 0 a = Some (next_task c (du_frames d), b) \<and> switched good blocks self f live ps b))
     \<and> (\<forall>q g. stack_new malloc free (du_mem d) = Some (Inr q, g) \<longrightarrow>
          (\<exists>a b. switch_leave malloc free 0 d1 = Some (next_task c (du_frames d), a) \<and> dest_arrives free a = Some (fr_self f, b)
             \<and> switched good blocks self f live ps b))"
proof -
  from switch_submit_ok [OF here dest f seg_at_stack_top [OF stacks(1)] node idle(3), of spurious notify] obtain d1 where
    d1: "switch_submit spurious notify self n d = Some (0, d1)" "worker_at (at_here d1) fib c"
      "worker_at (at_dest d1) fib' (c'\<lparr>m_submit := Some n\<rparr>)" "du_nodes d1 n = Some (node_new self)" "du_mem d1 = du_mem d"
      "du_frames d1 = du_frames d" by blast
  have nd: "m_next (node_new self) = None" "m_data (node_new self) = self" by (simp_all add: node_new_def)
  have frames: "\<forall>p\<in>set (cl_contents (m_tasks c)). du_frames d p \<noteq> None" "self \<notin> set (cl_contents (m_tasks c))" using tasks(2) by auto
  have fin: "switched good blocks self f live ps b"
    if "du_frames b self = Some f" "worker_at (at_dest b) fib e" "worker_at (at_here b) q e'"
      "seg_at good blocks (du_mem b) fib live ps" "seg_at good blocks (du_mem b) q [] {q}" "q \<notin> ps" for b e e' q
    using that worker_tls_top [OF that(2)] worker_tls_top [OF that(3)] worker_stack_empty [OF that(3)] seg_at_stack_top seg_at_empty f(3)
    by (fastforce simp: switched_def)
  from dest_arrives_ok [OF al d1(3), of n "node_new self" f ps' live ps] d1 f stacks idle nd obtain a where
    a: "dest_arrives free d1 = Some (fr_self f, a)" "worker_at (at_dest a) fib (c'\<lparr>m_submit := None\<rparr>)"
      "seg_at good blocks (du_mem a) fib live ps" "du_here a = du_here d1" "du_frames a = du_frames d" by auto
  have late: "\<exists>b. switch_leave malloc free 0 a = Some (next_task c (du_frames d), b) \<and> switched good blocks self f live ps b"
    if new: "stack_new malloc free (du_mem a) = Some (Inr q, g)" for q g
  proof -
    have "worker_at (at_here a) fib c" using worker_at_cong [of "at_here a" "at_here d1"] d1(2) a(4) by simp
    from switch_leave_ok [OF al this seg_at_top(3) [OF a(3)] new tasks(1)] frames(1) a(5) obtain b c2 where
      b: "switch_leave malloc free 0 a = Some (next_task c (du_frames d), b)" "worker_at (at_here b) q c2" "du_mem b = g"
        "du_dest b = du_dest a" "\<forall>p. p \<notin> set (cl_contents (m_tasks c)) \<longrightarrow> du_frames b p = du_frames d p" by auto
    have "worker_at (at_dest b) fib (c'\<lparr>m_submit := None\<rparr>)" using worker_at_cong [of "at_dest b" "at_dest a"] b(4) a(2) by simp
    with fin [of b] b stack_new_apart [OF al a(3) new] f(1) frames(2) show ?thesis by auto
  qed
  have early: "\<exists>a b. switch_leave malloc free 0 d1 = Some (next_task c (du_frames d), a) \<and> dest_arrives free a = Some (fr_self f, b)
      \<and> switched good blocks self f live ps b" if new: "stack_new malloc free (du_mem d) = Some (Inr q, g)" for q g
  proof -
    have good: "good (sm_alloc (du_mem d1))" using seg_at_top(3) [OF stacks(1)] d1(5) by simp
    from switch_leave_ok [OF al d1(2) good, of q g] new tasks(1) frames(1) d1(5,6) obtain x c2 where
      x: "switch_leave malloc free 0 d1 = Some (next_task c (du_frames d), x)" "worker_at (at_here x) q c2" "du_mem x = g"
        "du_dest x = du_dest d1" "du_nodes x = du_nodes d1" "\<forall>p. p \<notin> set (cl_contents (m_tasks c)) \<longrightarrow> du_frames x p = du_frames d p" by auto
    have w: "worker_at (at_dest x) fib' (c'\<lparr>m_submit := Some n\<rparr>)" using worker_at_cong [of "at_dest x" "at_dest d1"] x(4) d1(3) by simp
    note ap = stack_new_apart [OF al stacks(1) new] and ap' = stack_new_apart [OF al stacks(2) new]
    have xf: "du_frames x self = Some f" using x(6) frames(2) f(1) by simp
    have "\<exists>b. dest_arrives free x = Some (fr_self f, b) \<and> worker_at (at_dest b) fib (c'\<lparr>m_submit := None\<rparr>)
        \<and> seg_at good blocks (du_mem b) fib live ps \<and> du_here b = du_here x \<and> du_frames b = du_frames x
        \<and> seg_at good blocks (du_mem b) q [] {q}"
      using dest_arrives_ok [OF al w, of n "node_new self" f ps' live ps] d1(4) x(3,5) f(2,3) idle nd xf ap ap' stacks(3) by fastforce
    then obtain b where b: "dest_arrives free x = Some (fr_self f, b)" "worker_at (at_dest b) fib (c'\<lparr>m_submit := None\<rparr>)"
      "seg_at good blocks (du_mem b) fib live ps" "du_here b = du_here x" "du_frames b = du_frames x"
      "seg_at good blocks (du_mem b) q [] {q}" by blast
    have "worker_at (at_here b) q c2" using worker_at_cong [of "at_here b" "at_here x"] b(4) x(2) by simp
    with fin [of b] b ap xf x(1) show ?thesis by auto
  qed
  show ?thesis using d1(1) a(1) late early by blast
qed

text \<open>
  Property C19. Explicit scheduling moves a task with its stack to an idle worker.  A task none of whose
  children was stolen awaits \<open>resume_on(dest)\<close>, where \<open>dest\<close> is another worker that has nothing to do: its
  deque, its stack and its submission list are empty when the task is submitted.  The task's worker
  submits it and gives its stack up, the worker of \<open>dest\<close> fetches it and takes the stack over.  Whether the destination resumes the task after the first worker has left, or
  already before that worker has given up the stack, no assertion fails, the destination runs exactly
  this task with the task's stack, all its allocations intact, in place of its own, and the
  first worker goes on, with an empty stack apart from it, with the newest task of its deque.  Giving the
  stack up allocates a new one: the property is about runs in which this allocation succeeds
  (\<open>await_suspend\<close> is \<open>noexcept\<close>, a failure terminates the program).  On the
  worker of \<open>dest\<close> itself the task does not suspend.
\<close>

theorem switch_hands_over:
  assumes al: "alloc_ok good blocks malloc free"
    and here: "worker_at (at_here d) fib c" and dest: "worker_at (at_dest d) fib' c'" "context \<noteq> m_dest"
    and f: "du_frames d self = Some f" "load_steals f = 0" "fr_stacklet f = fib"
    and stacks: "seg_at good blocks (du_mem d) fib live ps" "seg_at good blocks (du_mem d) fib' [] ps'" "ps' \<inter> ps = {}"
    and tasks: "cl_inv (m_tasks c)" "\<forall>p\<in>set (cl_contents (m_tasks c)). p \<noteq> self \<and> du_frames d p \<noteq> None"
    and idle: "cl_inv (m_tasks c')" "cl_contents (m_tasks c') = []" "m_submit c' = None"
  shows "(\<exists>d1 a. co_await_resume_on spurious notify context (Some m_dest) self n d = Some (Some 0, d1)
     \<and> dest_arrives free d1 = Some (fr_self f, a)
     \<and> (\<forall>q g. stack_new malloc free (du_mem a) = Some (Inr q, g) \<longrightarrow>
          (\<exists>b. switch_leave malloc free 0 a = Some (next_task c (du_frames d), b) \<and> switched good blocks self f live ps b))
     \<and> (\<forall>q g. stack_new malloc free (du_mem d) = Some (Inr q, g) \<longrightarrow>
          (\<exists>a b. switch_leave malloc free 0 d1 = Some (next_task c (du_frames d), a) \<and> dest_arrives free a = Some (fr_self f, b)
             \<and> switched good blocks self f live ps b)))
   \<and> (\<exists>d'. co_await_resume_on spurious notify context (Some context) self n d = Some (None, d')
       \<and> at_here d' = at_here d \<and> at_dest d' = at_dest d)"
proof -
  let ?d = "d\<lparr>du_nodes := switch_await_transform self n (du_nodes d)\<rparr>"
  have same: "at_here ?d = at_here d" "at_dest ?d = at_dest d" by (simp_all add: at_here_def at_dest_def)
  have node: "du_nodes ?d n = Some (node_new self)" by (simp add: switch_await_transform_def)
  from switch_halves [of good blocks malloc free ?d, unfolded same, OF al here dest(1) _ f(2,3) _ _ stacks(3) tasks(1) _ idle node, of live spurious notify]
    f(1) stacks tasks(2)
  show ?thesis using dest(2) same by (fastforce simp: co_await_resume_on_def resume_on_def non_null_def resume_on_await_ready_def)
qed

theorem switch_hands_over_witness:
  "\<exists>fib fib' c c' g. \<exists>(d1 :: (nat, nat \<times> (nat \<rightharpoonup> nat), nat) duo) a.
     co_await_resume_on 1 Suc 100 (Some 200) 7 5 \<lparr>du_frames = [7 \<mapsto> frame_new 7 fib], du_mem = g, du_nodes = Map.empty,
       du_here = \<lparr>has_stack = True, thread_stack = Some fib, has_context = True, thread_context = Some c\<rparr>,
       du_dest = \<lparr>has_stack = True, thread_stack = Some fib', has_context = True, thread_context = Some c'\<rparr>, du_out = 0\<rparr> = Some (Some 0, d1)
     \<and> dest_arrives bump_free d1 = Some (7, a)"
proof -
  let ?g0 = "\<lparr>sm_alloc = (16, Map.empty), sm_heap = Map.empty\<rparr> :: (nat \<times> (nat \<rightharpoonup> nat)) smem"
  have good: "bump_good (sm_alloc ?g0)" by (simp add: bump_good_def)
  from bump_stack_new [of ?g0] obtain fib g1 where g1: "stack_new bump_malloc bump_free ?g0 = Some (Inr fib, g1)"
    "fst (sm_alloc g1) \<le> 16 + 8192" by auto
  from bump_stack_new [of g1] g1(2) obtain fib' g where g: "stack_new bump_malloc bump_free g1 = Some (Inr fib', g)" by auto
  note s1 = fresh_seg_at [OF bump_alloc_ok good g1(1)]
  note s2 = stack_new_apart [OF bump_alloc_ok s1 g]
  from worker_context_new_ok obtain c :: worker_context where c: "cl_inv (m_tasks c)" "cl_contents (m_tasks c) = []" "m_submit c = None" by blast
  let ?d = "\<lparr>du_frames = [7 \<mapsto> frame_new 7 fib :: nat frame], du_mem = g, du_nodes = Map.empty,
       du_here = \<lparr>has_stack = True, thread_stack = Some fib, has_context = True, thread_context = Some c\<rparr>,
       du_dest = \<lparr>has_stack = True, thread_stack = Some fib', has_context = True, thread_context = Some c\<rparr>, du_out = (0 :: nat)\<rparr>"
  have w: "worker_at (at_here ?d) fib c" "worker_at (at_dest ?d) fib' c" by (simp_all add: worker_at_def)
  have f: "du_frames ?d 7 = Some (frame_new 7 fib)" "load_steals (frame_new 7 fib :: nat frame) = 0"
    "fr_stacklet (frame_new 7 fib :: nat frame) = fib" "fr_self (frame_new 7 fib :: nat frame) = 7"
    by (simp_all add: load_steals_def fr_stacklet_def fr_self_def frame_new_def)
  have st: "seg_at bump_good snd (du_mem ?d) fib [] {fib}" "seg_at bump_good snd (du_mem ?d) fib' [] {fib'}" "{fib'} \<inter> {fib} = {}"
    using s2 by auto
  have ts: "\<forall>p\<in>set (cl_contents (m_tasks c)). p \<noteq> 7 \<and> du_frames ?d p \<noteq> None" "(100 :: nat) \<noteq> 200" using c(2) by simp_all
  from switch_hands_over [OF bump_alloc_ok w ts(2) f(1-3) st c(1) ts(1) c, of 1 Suc 5] f(4)
  obtain d1 a where "co_await_resume_on 1 Suc 100 (Some 200) 7 5 ?d = Some (Some 0, d1)" "dest_arrives bump_free d1 = Some (7, a)" by auto
  then show ?thesis by blast
qed

end
