(* ===== verification/Tasks.thy ===== *)
theory Tasks
  imports Prelude
begin

text \<open>
  The tasks that the algorithms of \<open>include/libfork/algorithm\<close> build with \<open>fork\<close>, \<open>call\<close>, \<open>join\<close>
  and \<open>just\<close> (\<open>core/control_flow.hpp\<close>), on a shared memory, and what it means that every
  schedule of a task ends well. A task is a tree of atomic actions; its steps interleave those of a
  forked child with those of the code up to the join. That a join waits for every child, is
  passed once and throws the exception captured first is the subject of the theory on the join
  protocol; here it is the semantics.
\<close>

section \<open>Tasks and their steps\<close>

text \<open>
  \<^item> \<open>Done x\<close>: the coroutine ended with the exception or value \<open>x\<close>.
  \<^item> \<open>Act f\<close>: an action on the memory, which also decides how to go on.
  \<^item> \<open>Fork_join x l r k\<close>: between \<open>fork(l)\<close> and the join: \<open>l\<close> is the forked child, \<open>r\<close> the task called
    in a \<open>try\<close> block whose handler is \<open>stash_exception\<close>, \<open>x\<close> the exception captured so far and
    \<open>k\<close> what follows the join, with the values of both.
  \<^item> \<open>Sync_fork l kr ke r k\<close>: a fork with the modifier \<open>sync_outside\<close>: while \<open>l\<close> runs the task may be
    stolen, and then goes on with \<open>r\<close> as above; if \<open>l\<close> ends first \<open>kr\<close> follows, with its value, or
    \<open>ke\<close>, with the exception it left in the frame of the task.
  \<^item> \<open>Abort\<close>: a failed assertion.
\<close>

datatype ('s, 'e, 'r) task =
    Done "'e + 'r"
  | Act "'s \<Rightarrow> 's \<times> ('s, 'e, 'r) task"
  | Fork_join "'e option" "('s, 'e, 'r) task" "('s, 'e, 'r) task" "'r \<Rightarrow> 'r \<Rightarrow> ('s, 'e, 'r) task"
  | Sync_fork "('s, 'e, 'r) task" "'r \<Rightarrow> ('s, 'e, 'r) task" "'e \<Rightarrow> ('s, 'e, 'r) task" "('s, 'e, 'r) task"
      "'r \<Rightarrow> 'r \<Rightarrow> ('s, 'e, 'r) task"
  | Abort

text \<open>
  The actions of the algorithms: a call of a function of the user on the element at an address, an
  assignment to an element, a call on an element that may change it, and the result of a call that
  touches no element. A call may throw.
\<close>

definition read_at :: "'k \<Rightarrow> ('v \<Rightarrow> 'e + 'p) \<Rightarrow> ('p \<Rightarrow> ('k \<Rightarrow> 'v, 'e, 'r) task) \<Rightarrow> ('k \<Rightarrow> 'v, 'e, 'r) task" where
  "read_at a g k = Act (\<lambda>s. (s, case g (s a) of Inl e \<Rightarrow> Done (Inl e) | Inr p \<Rightarrow> k p))"

definition write_at :: "'k \<Rightarrow> 'v \<Rightarrow> ('k \<Rightarrow> 'v, 'e, 'r) task \<Rightarrow> ('k \<Rightarrow> 'v, 'e, 'r) task" where
  "write_at a v k = Act (\<lambda>s. (s(a := v), k))"

definition update_at :: "'k \<Rightarrow> ('v \<Rightarrow> 'e option \<times> 'v) \<Rightarrow> ('k \<Rightarrow> 'v, 'e, 'r) task \<Rightarrow> ('k \<Rightarrow> 'v, 'e, 'r) task" where
  "update_at a g k = Act (\<lambda>s. (s(a := snd (g (s a))), case fst (g (s a)) of Some e \<Rightarrow> Done (Inl e) | None \<Rightarrow> k))"

definition call_value :: "'e + 'p \<Rightarrow> ('p \<Rightarrow> ('s, 'e, 'r) task) \<Rightarrow> ('s, 'e, 'r) task" where
  "call_value x k = (case x of Inl e \<Rightarrow> Done (Inl e) | Inr p \<Rightarrow> k p)"

text \<open>
  A binary operation of the user is a regular or an asynchronous function (\<open>async_bop\<close> in the
  algorithms). Where an algorithm calls an asynchronous one with \<open>dispatch<call, eager_throw_outside>\<close>
  and a plain return address, an exception is not thrown but stays in the frame of the caller
  (theory \<open>Invocation\<close>), whose rest runs on a moved-from value and ends in the failed assertion of
  \<open>final_suspend\<close>: \<open>Abort\<close>.
\<close>

datatype ('a, 'e) binop = Sync_bop "'a \<Rightarrow> 'a \<Rightarrow> 'e + 'a" | Async_bop "'a \<Rightarrow> 'a \<Rightarrow> 'e + 'a"

fun is_async :: "('a, 'e) binop \<Rightarrow> bool" where
  "is_async (Sync_bop f) = False" | "is_async (Async_bop f) = True"

fun bop_app :: "('a, 'e) binop \<Rightarrow> 'a \<Rightarrow> 'a \<Rightarrow> 'e + 'a" where
  "bop_app (Sync_bop f) = f" | "bop_app (Async_bop f) = f"

definition eager_call :: "('a, 'e) binop \<Rightarrow> 'a \<Rightarrow> 'a \<Rightarrow> ('a \<Rightarrow> ('s, 'e, 'r) task) \<Rightarrow> ('s, 'e, 'r) task" where
  "eager_call bop a b k = (case bop_app bop a b of
     Inl e \<Rightarrow> if is_async bop then Abort else Done (Inl e) | Inr v \<Rightarrow> k v)"

text \<open>\<open>co_await just(t)\<close> followed by \<open>f\<close>.\<close>

primrec seq_task :: "('s, 'e, 'r) task \<Rightarrow> ('r \<Rightarrow> ('s, 'e, 'r) task) \<Rightarrow> ('s, 'e, 'r) task" where
  "seq_task (Done x) f = (case x of Inl e \<Rightarrow> Done (Inl e) | Inr a \<Rightarrow> f a)"
| "seq_task (Act g) f = Act (\<lambda>s. map_prod id (\<lambda>t. t f) ((map_prod id seq_task \<circ> g) s))"
| "seq_task (Fork_join x l r k) f = Fork_join x l r (\<lambda>a b. seq_task (k a b) f)"
| "seq_task (Sync_fork l kr ke r k) f =
     Sync_fork l (\<lambda>a. seq_task (kr a) f) (\<lambda>e. seq_task (ke e) f) r (\<lambda>a b. seq_task (k a b) f)"
| "seq_task Abort f = Abort"

inductive tstep :: "('s, 'e, 'r) task \<Rightarrow> 's \<Rightarrow> ('s, 'e, 'r) task \<Rightarrow> 's \<Rightarrow> bool" where
  act: "f s = (s', t) \<Longrightarrow> tstep (Act f) s t s'"
| left: "tstep l s l' s' \<Longrightarrow> tstep (Fork_join x l r k) s (Fork_join x l' r k) s'"
| right: "tstep r s r' s' \<Longrightarrow> tstep (Fork_join x l r k) s (Fork_join x l r' k) s'"
| capture_left: "tstep (Fork_join None (Done (Inl e)) r k) s (Fork_join (Some e) (Done (Inl e)) r k) s"
| capture_right: "tstep (Fork_join None l (Done (Inl e)) k) s (Fork_join (Some e) l (Done (Inl e)) k) s"
| join: "tstep (Fork_join None (Done (Inr a)) (Done (Inr b)) k) s (k a b) s"
| join_throw: "tstep (Fork_join (Some e) (Done y) (Done z) k) s (Done (Inl e)) s"
| sync_child: "tstep l s l' s' \<Longrightarrow> tstep (Sync_fork l kr ke r k) s (Sync_fork l' kr ke r k) s'"
| sync_ready: "tstep (Sync_fork (Done (Inr a)) kr ke r k) s (kr a) s"
| sync_throw: "tstep (Sync_fork (Done (Inl e)) kr ke r k) s (ke e) s"
| steal: "tstep (Sync_fork l kr ke r k) s (Fork_join None l r k) s"

inductive_simps tstep_simps [simp]:
  "tstep (Done x) s t s'"
  "tstep (Act f) s t s'"
  "tstep Abort s t s'"

inductive_cases tstep_fork_joinE: "tstep (Fork_join x l r k) s t s'"
inductive_cases tstep_sync_forkE: "tstep (Sync_fork l kr ke r k) s t s'"

text \<open>
  \<open>must Q t s\<close>: from \<open>t\<close> in memory \<open>s\<close> every schedule ends, never in a failed assertion, and the
  outcome and the memory satisfy \<open>Q\<close>.
\<close>

inductive must :: "('e + 'r \<Rightarrow> 's \<Rightarrow> bool) \<Rightarrow> ('s, 'e, 'r) task \<Rightarrow> 's \<Rightarrow> bool" for Q where
  must_done: "Q x s \<Longrightarrow> must Q (Done x) s"
| must_step: "tstep t s t0 s0 \<Longrightarrow> (\<And>t' s'. tstep t s t' s' \<Longrightarrow> must Q t' s') \<Longrightarrow> must Q t s"

section \<open>Footprints\<close>

definition agree :: "'k set \<Rightarrow> ('k \<Rightarrow> 'v) \<Rightarrow> ('k \<Rightarrow> 'v) \<Rightarrow> bool" where
  "agree A s s' \<longleftrightarrow> (\<forall>k\<in>A. s k = s' k)"

text \<open>
  \<open>within R W t\<close>: the actions of \<open>t\<close> read locations of \<open>R\<close> and \<open>W\<close> and write locations of \<open>W\<close>
  only.
\<close>

inductive within :: "'k set \<Rightarrow> 'k set \<Rightarrow> ('k \<Rightarrow> 'v, 'e, 'r) task \<Rightarrow> bool" for R W where
  within_done [intro!, simp]: "within R W (Done x)"
| within_act: "(\<And>s. agree (- W) s (fst (f s))) \<Longrightarrow>
    (\<And>s u. agree (R \<union> W) s u \<Longrightarrow> agree W (fst (f s)) (fst (f u)) \<and> snd (f s) = snd (f u)) \<Longrightarrow>
    (\<And>s. within R W (snd (f s))) \<Longrightarrow> within R W (Act f)"
| within_fork_join: "within R W l \<Longrightarrow> within R W r \<Longrightarrow> (\<And>a b. within R W (k a b)) \<Longrightarrow>
    within R W (Fork_join x l r k)"
| within_sync_fork: "within R W l \<Longrightarrow> (\<And>a. within R W (kr a)) \<Longrightarrow> (\<And>e. within R W (ke e)) \<Longrightarrow> within R W r \<Longrightarrow> (\<And>a b. within R W (k a b)) \<Longrightarrow>
    within R W (Sync_fork l kr ke r k)"
| within_abort [intro!, simp]: "within R W Abort"

inductive_cases within_actE: "within R W (Act f)"
inductive_cases within_fork_joinE: "within R W (Fork_join x l r k)"
inductive_cases within_sync_forkE: "within R W (Sync_fork l kr ke r k)"

text \<open>Neither of two footprints writes what the other one reads or writes.\<close>

definition apart_fp :: "'k set \<Rightarrow> 'k set \<Rightarrow> 'k set \<Rightarrow> 'k set \<Rightarrow> bool" where
  "apart_fp R1 W1 R2 W2 \<longleftrightarrow> W1 \<inter> (R2 \<union> W2) = {} \<and> W2 \<inter> (R1 \<union> W1) = {}"

lemma agree_refl [simp]: "agree A s s"
  by (simp add: agree_def)

lemma agree_mono: "agree A s u \<Longrightarrow> B \<subseteq> A \<Longrightarrow> agree B s u"
  by (auto simp: agree_def)

lemma agree_sym: "agree A s u \<Longrightarrow> agree A u s"
  by (simp add: agree_def)

lemma within_mono:
  assumes "within R W t" "R \<subseteq> R'" "W \<subseteq> W'"
  shows "within R' W' t"
  using assms(1)
proof induction
  case (within_act f)
  have "agree W' (fst (f s)) (fst (f u)) \<and> snd (f s) = snd (f u)" if "agree (R' \<union> W') s u" for s u
  proof -
    have "agree (R \<union> W) s u" using that assms(2,3) by (auto simp: agree_def)
    with within_act(2) have *: "agree W (fst (f s)) (fst (f u))" "snd (f s) = snd (f u)" by auto
    have "fst (f s) k = fst (f u) k" if k: "k \<in> W'" for k
    proof (cases "k \<in> W")
      case True then show ?thesis using * by (simp add: agree_def)
    next
      case False
      then have "fst (f s) k = s k" "fst (f u) k = u k" using within_act(1) by (simp_all add: agree_def)
      with \<open>agree (R' \<union> W') s u\<close> k show ?thesis by (simp add: agree_def)
    qed
    with * show ?thesis by (simp add: agree_def)
  qed
  moreover have "agree (- W') s (fst (f s))" for s
    using agree_mono [OF within_act(1)] assms(3) by blast
  ultimately show ?case using within_act(4) by (intro within.within_act) blast+
qed (auto intro: within.intros)

lemma within_reads: "within (R \<union> W) W t \<longleftrightarrow> within R W t"
proof
  assume "within (R \<union> W) W t"
  then show "within R W t"
  proof induction
    case (within_act f)
    then show ?case by (intro within.within_act) (simp_all add: Un_assoc)
  qed (auto intro: within.intros)
qed (rule within_mono, auto)

lemma within_frame: "tstep t s t' s' \<Longrightarrow> within R W t \<Longrightarrow> agree (- W) s s' \<and> within R W t'"
proof (induction rule: tstep.induct)
  case (act f s s' t)
  from act(2) have "agree (- W) s (fst (f s))" "within R W (snd (f s))" by (auto elim: within_actE)
  with act(1) show ?case by simp
qed (auto elim!: within_fork_joinE within_sync_forkE intro: within.intros)

lemma within_local:
  "tstep t s t' s' \<Longrightarrow> within R W t \<Longrightarrow> agree (R \<union> W) s u \<Longrightarrow> \<exists>u'. tstep t u t' u' \<and> agree W s' u'"
proof (induction rule: tstep.induct)
  case (act f s s' t)
  from act(2,3) have "agree W (fst (f s)) (fst (f u)) \<and> snd (f s) = snd (f u)" by (auto elim: within_actE)
  with act(1) show ?case by (intro exI [of _ "fst (f u)"]) (simp add: prod_eq_iff)
qed (auto elim!: within_fork_joinE within_sync_forkE intro: tstep.intros simp: agree_def)

section \<open>Rules for proving that every schedule ends well\<close>

lemma must_mono: "must Q t s \<Longrightarrow> (\<And>x s. Q x s \<Longrightarrow> Q' x s) \<Longrightarrow> must Q' t s"
  by (induction rule: must.induct) (blast intro: must.intros)+

lemma must_Done [simp]: "must Q (Done x) s \<longleftrightarrow> Q x s"
  by (auto intro: must_done elim: must.cases)

lemma must_next: "must Q t s \<Longrightarrow> tstep t s t' s' \<Longrightarrow> must Q t' s'"
  by (erule must.cases) auto

lemma must_progress: "must Q t s \<Longrightarrow> (\<exists>x. t = Done x) \<or> (\<exists>t' s'. tstep t s t' s')"
  by (erule must.cases) auto

lemma must_Act [simp]: "must Q (Act f) s \<longleftrightarrow> must Q (snd (f s)) (fst (f s))"
proof
  assume "must Q (Act f) s"
  moreover have "tstep (Act f) s (snd (f s)) (fst (f s))" by simp
  ultimately show "must Q (snd (f s)) (fst (f s))" by (rule must_next)
next
  assume *: "must Q (snd (f s)) (fst (f s))"
  have "tstep (Act f) s (snd (f s)) (fst (f s))" by simp
  moreover have "must Q t' s'" if "tstep (Act f) s t' s'" for t' s'
    using that * by (cases "f s") simp
  ultimately show "must Q (Act f) s" by (rule must_step)
qed

lemma not_must_Abort [simp]: "\<not> must Q Abort s"
  by (auto elim: must.cases)

text \<open>The memory that two children, run from the same memory, leave together.\<close>

definition merged :: "'k set \<Rightarrow> 'k set \<Rightarrow> ('k \<Rightarrow> 'v) \<Rightarrow> ('k \<Rightarrow> 'v) \<Rightarrow> ('k \<Rightarrow> 'v) \<Rightarrow> bool" where
  "merged W1 W2 s1 s2 s \<longleftrightarrow> agree (- W2) s1 s \<and> agree (- W1) s2 s"

lemma merged_refl [simp]: "merged W1 W2 s s s"
  by (simp add: merged_def)

lemma merged_reads:
  assumes "apart_fp R1 W1 R2 W2" "merged W1 W2 s1 s2 s"
  shows "agree (R1 \<union> W1) s s1"
proof -
  have "R1 \<union> W1 \<subseteq> - W2" using assms(1) by (auto simp: apart_fp_def)
  moreover from assms(2) have "agree (- W2) s1 s" unfolding merged_def ..
  ultimately have "agree (R1 \<union> W1) s1 s" by (rule agree_mono [rotated])
  then show ?thesis by (rule agree_sym)
qed

lemma merged_left:
  assumes "tstep l s l' s'" "within R1 W1 l" "apart_fp R1 W1 R2 W2" "merged W1 W2 s1 s2 s"
  shows "\<exists>s1'. tstep l s1 l' s1' \<and> merged W1 W2 s1' s2 s'"
proof -
  have "agree (R1 \<union> W1) s s1" using merged_reads [OF assms(3,4)] .
  with within_local [OF assms(1,2)] obtain s1' where s1': "tstep l s1 l' s1'" "agree W1 s' s1'" by blast
  have "agree (- W1) s s'" "agree (- W1) s1 s1'"
    using within_frame [OF assms(1,2)] within_frame [OF s1'(1) assms(2)] by auto
  with s1' assms(4) have "merged W1 W2 s1' s2 s'"
    unfolding merged_def agree_def by (metis ComplI)
  with s1' show ?thesis by blast
qed

lemma merged_sym: "merged W1 W2 s1 s2 s \<longleftrightarrow> merged W2 W1 s2 s1 s"
  unfolding merged_def by (rule conj_commute)

lemma apart_sym: "apart_fp R1 W1 R2 W2 \<longleftrightarrow> apart_fp R2 W2 R1 W1"
  by (auto simp: apart_fp_def)

lemma merged_right:
  assumes "tstep r s r' s'" "within R2 W2 r" "apart_fp R1 W1 R2 W2" "merged W1 W2 s1 s2 s"
  shows "\<exists>s2'. tstep r s2 r' s2' \<and> merged W1 W2 s1 s2' s'"
  using merged_left [OF assms(1,2), of R1 W1 s2 s1] assms(3,4)
  unfolding merged_sym [of W2 W1] apart_sym [of R2 W2] by blast

text \<open>Induction over all interleavings of two tasks that end.\<close>

lemma must_pair_induct:
  assumes "must Ql l s1" "must Qr r s2"
    and step: "\<And>l s1 r s2. must Ql l s1 \<Longrightarrow> must Qr r s2 \<Longrightarrow> (\<And>l' s1'. tstep l s1 l' s1' \<Longrightarrow> P l' s1' r s2) \<Longrightarrow>
       (\<And>r' s2'. tstep r s2 r' s2' \<Longrightarrow> P l s1 r' s2') \<Longrightarrow> P l s1 r s2"
  shows "P l s1 r s2"
  using assms(1,2)
proof (induction l s1 arbitrary: r s2 rule: must.induct)
  case (must_done y s1)
  from must_done(2) show ?case
  proof (induction r s2 rule: must.induct)
    case (must_done z s2)
    show ?case by (rule step) (use \<open>Ql y s1\<close> must_done in auto)
  next
    case (must_step r s2 r0 s0)
    show ?case
    proof (rule step)
      show "must Qr r s2" by (rule must.must_step [OF must_step(1,2)])
    qed (use \<open>Ql y s1\<close> must_step(3) in auto)
  qed
next
  case l: (must_step l s1 l0 s0)
  have ml: "must Ql l s1" by (rule must.must_step [OF l(1,2)])
  from l(4) show ?case
  proof (induction r s2 rule: must.induct)
    case (must_done z s2)
    then show ?case by - (rule step [OF ml], use l(3) in auto)
  next
    case (must_step r s2 r0 s0)
    have mr: "must Qr r s2" by (rule must.must_step [OF must_step(1,2)])
    show ?case by (rule step [OF ml mr l(3) must_step(3)]) (use mr in auto)
  qed
qed

text \<open>
  Both children end, whatever the interleaving, each as it would alone; the outcomes decide what
  happens at the join. First with an exception captured already, then in general.
\<close>

lemma fork_join_can_step:
  assumes "must Ql l s1" "must Qr r s2" "within R1 W1 l" "within R2 W2 r" "apart_fp R1 W1 R2 W2" "merged W1 W2 s1 s2 s"
  shows "\<exists>t' s'. tstep (Fork_join x l r k) s t' s'"
proof -
  consider y z where "l = Done y" "r = Done z" | l' s1' where "tstep l s1 l' s1'" | r' s2' where "tstep r s2 r' s2'"
    using must_progress [OF assms(1)] must_progress [OF assms(2)] by metis
  then show ?thesis
  proof cases
    case 1
    then show ?thesis by (cases x; cases y; cases z) (blast intro: tstep.intros)+
  next
    case 2
    have "agree (R1 \<union> W1) s1 s" using merged_reads [OF assms(5,6)] by (rule agree_sym)
    from within_local [OF 2 assms(3) this] show ?thesis by (blast intro: tstep.intros)
  next
    case 3
    have "agree (R2 \<union> W2) s2 s"
      using merged_reads [OF assms(5) [unfolded apart_sym [of R1 W1]] assms(6) [unfolded merged_sym [of W1 W2]]]
      by (rule agree_sym)
    from within_local [OF 3 assms(4) this] show ?thesis by (blast intro: tstep.intros)
  qed
qed

lemma must_fork_join_gen:
  assumes "must Ql l s1" "must Qr r s2" "within R1 W1 l" "within R2 W2 r" "apart_fp R1 W1 R2 W2" "merged W1 W2 s1 s2 s"
    and thrown: "\<And>e y z s1 s2 s. x = Some e \<Longrightarrow> Ql y s1 \<Longrightarrow> Qr z s2 \<Longrightarrow> merged W1 W2 s1 s2 s \<Longrightarrow> Q (Inl e) s"
    and joined: "\<And>a b s1 s2 s. x = None \<Longrightarrow> Ql (Inr a) s1 \<Longrightarrow> Qr (Inr b) s2 \<Longrightarrow> merged W1 W2 s1 s2 s \<Longrightarrow> must Q (k a b) s"
    and captured: "\<And>e l r s1 s2 s. x = None \<Longrightarrow> must Ql l s1 \<Longrightarrow> must Qr r s2 \<Longrightarrow> within R1 W1 l \<Longrightarrow> within R2 W2 r \<Longrightarrow>
       merged W1 W2 s1 s2 s \<Longrightarrow> l = Done (Inl e) \<or> r = Done (Inl e) \<Longrightarrow> must Q (Fork_join (Some e) l r k) s"
  shows "must Q (Fork_join x l r k) s"
  using assms(3,4,6)
proof (induction arbitrary: s rule: must_pair_induct [OF assms(1,2)])
  case (1 l s1 r s2)
  note m = 1(1,2) and IHl = 1(3) and IHr = 1(4) and w = 1(5,6) and mg = 1(7)
  have "must Q t' s'" if "tstep (Fork_join x l r k) s t' s'" for t' s'
    using that
  proof (cases rule: tstep.cases)
    case (left l')
    from merged_left [OF left(2) w(1) assms(5) mg] obtain s1' where
      "tstep l s1 l' s1'" "merged W1 W2 s1' s2 s'" by metis
    with IHl left(1) w(2) within_frame [OF left(2) w(1)] show ?thesis by simp
  next
    case (right r')
    from merged_right [OF right(2) w(2) assms(5) mg] obtain s2' where
      "tstep r s2 r' s2'" "merged W1 W2 s1 s2' s'" by metis
    with IHr right(1) w(1) within_frame [OF right(2) w(2)] show ?thesis by simp
  next
    case (join a b)
    with joined [of a s1 b s2 s] m mg show ?thesis by simp
  next
    case (join_throw e y z)
    with thrown [of e y s1 z s2 s] m mg show ?thesis by simp
  qed (use captured m w mg in auto)
  moreover have "\<exists>t' s'. tstep (Fork_join x l r k) s t' s'" by (rule fork_join_can_step [OF m w assms(5) mg])
  ultimately show ?case by (blast intro: must.must_step)
qed

lemma must_fork_join_some:
  assumes "must Ql l s1" "must Qr r s2" "within R1 W1 l" "within R2 W2 r" "apart_fp R1 W1 R2 W2" "merged W1 W2 s1 s2 s"
    and "\<And>y z s1 s2 s. Ql y s1 \<Longrightarrow> Qr z s2 \<Longrightarrow> merged W1 W2 s1 s2 s \<Longrightarrow> Q (Inl e) s"
  shows "must Q (Fork_join (Some e) l r k) s"
  by (rule must_fork_join_gen [OF assms(1-6)]) (use assms(7) in auto)

lemma must_fork_join_from:
  assumes "must Ql l s1" "must Qr r s2" "within R1 W1 l" "within R2 W2 r" "apart_fp R1 W1 R2 W2" "merged W1 W2 s1 s2 s"
    and joined: "\<And>a b s1 s2 s. Ql (Inr a) s1 \<Longrightarrow> Qr (Inr b) s2 \<Longrightarrow> merged W1 W2 s1 s2 s \<Longrightarrow> must Q (k a b) s"
    and thrown: "\<And>e y z s1 s2 s. Ql y s1 \<Longrightarrow> Qr z s2 \<Longrightarrow> merged W1 W2 s1 s2 s \<Longrightarrow> y = Inl e \<or> z = Inl e \<Longrightarrow> Q (Inl e) s"
  shows "must Q (Fork_join None l r k) s"
proof (rule must_fork_join_gen [OF assms(1-6)])
  fix e l r s1 s2 s
  assume a: "must Ql l s1" "must Qr r s2" "within R1 W1 l" "within R2 W2 r" "merged W1 W2 s1 s2 s"
    and "l = Done (Inl e) \<or> r = Done (Inl e)"
  then have l: "must (\<lambda>y s. Ql y s \<and> (l = Done (Inl e) \<longrightarrow> y = Inl e)) l s1"
    and r: "must (\<lambda>z s. Qr z s \<and> (r = Done (Inl e) \<longrightarrow> z = Inl e)) r s2"
    by (cases "l = Done (Inl e)"; cases "r = Done (Inl e)"; simp)+
  show "must Q (Fork_join (Some e) l r k) s"
    by (rule must_fork_join_some [OF l r a(3,4) assms(5) a(5)])
      (use thrown \<open>l = Done (Inl e) \<or> r = Done (Inl e)\<close> in blast)
qed (use joined in auto)

lemmas must_fork_join = must_fork_join_from [OF _ _ _ _ _ merged_refl]

lemma must_sync_fork:
  assumes "must Ql l s" "must Qr r s" "within R1 W1 l" "within R2 W2 r" "apart_fp R1 W1 R2 W2"
    and ready: "\<And>a s'. Ql (Inr a) s' \<Longrightarrow> agree (- W1) s s' \<Longrightarrow> must Q (kr a) s'"
    and threw: "\<And>e s'. Ql (Inl e) s' \<Longrightarrow> agree (- W1) s s' \<Longrightarrow> must Q (ke e) s'"
    and joined: "\<And>a b s1 s2 s. Ql (Inr a) s1 \<Longrightarrow> Qr (Inr b) s2 \<Longrightarrow> merged W1 W2 s1 s2 s \<Longrightarrow> must Q (k a b) s"
    and thrown: "\<And>e y z s1 s2 s. Ql y s1 \<Longrightarrow> Qr z s2 \<Longrightarrow> merged W1 W2 s1 s2 s \<Longrightarrow> y = Inl e \<or> z = Inl e \<Longrightarrow> Q (Inl e) s"
  shows "must Q (Sync_fork l kr ke r k) s"
proof -
  have "must Q (Sync_fork l kr ke r k) s'" if "must Ql l s'" "within R1 W1 l" "agree (- W1) s s'" for l s'
    using that
  proof (induction l s' rule: must.induct)
    case (must_done y s')
    have st: "must Q (Fork_join None (Done y) r k) s'"
      by (rule must_fork_join_from [OF _ assms(2) must_done(2) assms(4,5), of Ql s'])
        (use must_done joined thrown in \<open>auto simp: merged_def\<close>)
    have "must Q t' u" if "tstep (Sync_fork (Done y) kr ke r k) s' t' u" for t' u
      using that by (cases rule: tstep.cases) (use ready threw must_done st in auto)
    then show ?case by (rule must.must_step [OF tstep.steal])
  next
    case (must_step l s' l0 s0)
    have st: "must Q (Fork_join None l r k) s'"
      by (rule must_fork_join_from [OF must.must_step [OF must_step(1,2)] assms(2) must_step(4) assms(4,5)])
        (use must_step(5) joined thrown in \<open>auto simp: merged_def\<close>)
    have "must Q t' u" if "tstep (Sync_fork l kr ke r k) s' t' u" for t' u
      using that
    proof (cases rule: tstep.cases)
      case (sync_child l')
      with must_step(3) [OF sync_child(2)] within_frame [OF sync_child(2) must_step(4)] must_step(5)
      show ?thesis by (auto simp: agree_def)
    qed (use must_step(1) st in auto)
    then show ?case by (rule must.must_step [OF tstep.steal])
  qed
  from this [OF assms(1,3) agree_refl] show ?thesis .
qed

lemma seq_Act: "seq_task (Act g) f = Act (\<lambda>s. (fst (g s), seq_task (snd (g s)) f))"
  by (simp add: map_prod_def split_beta)

lemma tstep_seq:
  assumes "tstep t s t' s'"
  shows "tstep (seq_task t f) s (seq_task t' f) s'"
  using assms
proof cases
  case (act g)
  then show ?thesis by simp
qed (auto intro: tstep.intros)

lemma tstep_seqE:
  assumes "tstep (seq_task t f) s u s'" "\<And>x. t \<noteq> Done x"
  shows "\<exists>t'. tstep t s t' s' \<and> u = seq_task t' f"
proof (cases t)
  case (Act g)
  with assms show ?thesis by (cases "g s") auto
next
  case (Fork_join x l r k)
  from assms(1) show ?thesis unfolding Fork_join seq_task.simps
    by (cases rule: tstep.cases) (auto intro: tstep.intros)
next
  case (Sync_fork l kr ke r k)
  from assms(1) show ?thesis unfolding Sync_fork seq_task.simps
    by (cases rule: tstep.cases) (auto intro: tstep.intros)
qed (use assms in auto)

lemma must_seq:
  assumes "must P t s"
    and val: "\<And>a s. P (Inr a) s \<Longrightarrow> must Q (f a) s" and exn: "\<And>e s. P (Inl e) s \<Longrightarrow> Q (Inl e) s"
  shows "must Q (seq_task t f) s"
  using assms(1)
proof (induction rule: must.induct)
  case (must_done x s)
  then show ?case using val exn by (cases x) simp_all
next
  case (must_step t s t0 s0)
  have "\<And>x. t \<noteq> Done x" using must_step(1) by auto
  then have "must Q u s'" if "tstep (seq_task t f) s u s'" for u s'
    using tstep_seqE [OF that] must_step(3) by auto
  then show ?case by (rule must.must_step [OF tstep_seq [OF must_step(1)]])
qed

lemma within_seq: "within R W t \<Longrightarrow> (\<And>a. within R W (f a)) \<Longrightarrow> within R W (seq_task t f)"
proof (induction rule: within.induct)
  case (within_done x)
  then show ?case by (cases x) auto
next
  case (within_act g)
  have "seq_task (snd (g s)) f = seq_task (snd (g u)) f" if "agree (R \<union> W) s u" for s u
    using within_act(2) [OF that] by simp
  with within_act show ?case unfolding seq_Act by (intro within.within_act) simp_all
qed (auto intro: within.intros)

lemma must_steps: "(\<lambda>(t, s) (t', s'). tstep t s t' s')\<^sup>*\<^sup>* (t, s) (t', s') \<Longrightarrow> must Q t s \<Longrightarrow> must Q t' s'"
  by (induction rule: rtranclp_induct2) (auto intro: must_next)

section \<open>Rules for the actions\<close>

lemma must_read_at [simp]:
  "must Q (read_at a g k) s \<longleftrightarrow> (case g (s a) of Inl e \<Rightarrow> Q (Inl e) s | Inr p \<Rightarrow> must Q (k p) s)"
  by (simp add: read_at_def split: sum.splits)

lemma must_write_at [simp]: "must Q (write_at a v k) s \<longleftrightarrow> must Q k (s(a := v))"
  by (simp add: write_at_def)

lemma must_update_at [simp]: "must Q (update_at a g k) s \<longleftrightarrow>
   (case fst (g (s a)) of Some e \<Rightarrow> Q (Inl e) (s(a := snd (g (s a)))) | None \<Rightarrow> must Q k (s(a := snd (g (s a)))))"
  by (simp add: update_at_def split: option.splits)

lemma must_call_value [simp]:
  "must Q (call_value x k) s \<longleftrightarrow> (case x of Inl e \<Rightarrow> Q (Inl e) s | Inr p \<Rightarrow> must Q (k p) s)"
  by (simp add: call_value_def split: sum.splits)

lemma must_eager_call [simp]:
  "must Q (eager_call bop a b k) s \<longleftrightarrow>
     (case bop_app bop a b of Inl e \<Rightarrow> \<not> is_async bop \<and> Q (Inl e) s | Inr v \<Rightarrow> must Q (k v) s)"
  by (simp add: eager_call_def split: sum.splits)

lemma within_read_at: "a \<in> R \<union> W \<Longrightarrow> (\<And>p. within R W (k p)) \<Longrightarrow> within R W (read_at a g k)"
  unfolding read_at_def by (rule within_act) (auto simp: agree_def split: sum.splits)

lemma within_write_at: "a \<in> W \<Longrightarrow> within R W k \<Longrightarrow> within R W (write_at a v k)"
  unfolding write_at_def by (rule within_act) (auto simp: agree_def)

lemma within_update_at: "a \<in> W \<Longrightarrow> within R W k \<Longrightarrow> within R W (update_at a g k)"
  unfolding update_at_def by (rule within_act) (auto simp: agree_def split: option.splits)

lemma within_call_value: "(\<And>p. within R W (k p)) \<Longrightarrow> within R W (call_value x k)"
  by (auto simp: call_value_def split: sum.splits)

lemma within_eager_call: "(\<And>p. within R W (k p)) \<Longrightarrow> within R W (eager_call bop a b k)"
  by (auto simp: eager_call_def split: sum.splits)

lemmas within_intros = within_read_at within_write_at within_update_at within_call_value within_eager_call within_fork_join within_sync_fork

text \<open>What a task does not write keeps its value.\<close>

lemma must_frame: "must Q t s \<Longrightarrow> within R W t \<Longrightarrow> must (\<lambda>x s'. Q x s' \<and> agree (- W) s s') t s"
proof (induction rule: must.induct)
  case (must_step t s t0 s0)
  have "must (\<lambda>x u. Q x u \<and> agree (- W) s u) t' s'" if "tstep t s t' s'" for t' s'
    using must_step(3) [OF that] within_frame [OF that must_step(4)]
    by (auto elim!: must_mono simp: agree_def)
  then show ?case by (rule must.must_step [OF must_step(1)])
qed simp

text \<open>The middle of a range of more than one element splits it properly.\<close>

lemma half_between: "1 < b - a \<Longrightarrow> a < a + (b - a) div 2 \<and> a + (b - a) div 2 < (b :: int)"
  by auto

end
