(* ===== verification/Elementwise.thy ===== *)
theory Elementwise
  imports Tasks
begin

text \<open>
  The algorithms that treat every element of a range once: \<open>for_each\<close>
  (\<open>include/libfork/algorithm/for_each.hpp\<close>) and \<open>map\<close> (\<open>algorithm/map.hpp\<close>). An iterator is an
  address of the shared memory. \<open>proj\<close> and \<open>fn\<close> are the functions of the user and may throw;
  the function of \<open>for_each\<close> gets a reference and may change the element. A frame for a task is
  always found, and a call of a user function on one element is atomic: no other task touches
  that element.
\<close>

section \<open>for\_each\<close>

text \<open>The loop over a chunk, with the number of elements left.\<close>

fun for_each_loop :: "('p \<Rightarrow> 'v \<Rightarrow> 'e option \<times> 'v) \<Rightarrow> ('v \<Rightarrow> 'e + 'p) \<Rightarrow> int \<Rightarrow> nat \<Rightarrow> (int \<Rightarrow> 'v, 'e, unit) task" where
  "for_each_loop fn proj head 0 = Done (Inr ())"
| "for_each_loop fn proj head (Suc m) =
     read_at head proj (\<lambda>p. update_at head (fn p) (for_each_loop fn proj (head + 1) m))"

function for_each_n :: "int \<Rightarrow> ('p \<Rightarrow> 'v \<Rightarrow> 'e option \<times> 'v) \<Rightarrow> ('v \<Rightarrow> 'e + 'p) \<Rightarrow> int \<Rightarrow> int \<Rightarrow> (int \<Rightarrow> 'v, 'e, unit) task" where
  "for_each_n n fn proj head tail =
     (let len = tail - head in
      if \<not> 0 < n then Abort
      else if \<not> 0 \<le> len then Abort
      else if len = 0 then Done (Inr ())
      else if len \<le> n then for_each_loop fn proj head (nat (tail - head))
      else (let mid = head + len div 2 in
        Fork_join None (for_each_n n fn proj head mid) (for_each_n n fn proj mid tail) (\<lambda>_ _. Done (Inr ()))))"
  by auto
termination by (relation "measure (\<lambda>(n, fn, proj, head, tail). nat (tail - head))") auto

function for_each_1 :: "('p \<Rightarrow> 'v \<Rightarrow> 'e option \<times> 'v) \<Rightarrow> ('v \<Rightarrow> 'e + 'p) \<Rightarrow> int \<Rightarrow> int \<Rightarrow> (int \<Rightarrow> 'v, 'e, unit) task" where
  "for_each_1 fn proj head tail =
     (let len = tail - head in
      if \<not> 0 \<le> len then Abort
      else if len = 0 then Done (Inr ())
      else if len = 1 then read_at head proj (\<lambda>p. update_at head (fn p) (Done (Inr ())))
      else (let mid = head + len div 2 in
        Fork_join None (for_each_1 fn proj head mid) (for_each_1 fn proj mid tail) (\<lambda>_ _. Done (Inr ()))))"
  by auto
termination by (relation "measure (\<lambda>(fn, proj, head, tail). nat (tail - head))") auto

definition for_each_range :: "int \<Rightarrow> ('p \<Rightarrow> 'v \<Rightarrow> 'e option \<times> 'v) \<Rightarrow> ('v \<Rightarrow> 'e + 'p) \<Rightarrow> int \<times> int \<Rightarrow> (int \<Rightarrow> 'v, 'e, unit) task" where
  "for_each_range n fn proj rng =
     (if \<not> 0 < n then Abort
      else if n = 1 then for_each_1 fn proj (fst rng) (snd rng)
      else for_each_n n fn proj (fst rng) (snd rng))"

definition for_each_range_1 :: "('p \<Rightarrow> 'v \<Rightarrow> 'e option \<times> 'v) \<Rightarrow> ('v \<Rightarrow> 'e + 'p) \<Rightarrow> int \<times> int \<Rightarrow> (int \<Rightarrow> 'v, 'e, unit) task" where
  "for_each_range_1 fn proj rng = for_each_1 fn proj (fst rng) (snd rng)"

section \<open>map\<close>

fun map_loop :: "('p \<Rightarrow> 'e + 'v) \<Rightarrow> ('v \<Rightarrow> 'e + 'p) \<Rightarrow> int \<Rightarrow> int \<Rightarrow> nat \<Rightarrow> (int \<Rightarrow> 'v, 'e, unit) task" where
  "map_loop fn proj head out 0 = Done (Inr ())"
| "map_loop fn proj head out (Suc m) =
     read_at head proj (\<lambda>p. call_value (fn p) (\<lambda>v. write_at out v (map_loop fn proj (head + 1) (out + 1) m)))"

function map_n :: "int \<Rightarrow> ('p \<Rightarrow> 'e + 'v) \<Rightarrow> ('v \<Rightarrow> 'e + 'p) \<Rightarrow> int \<Rightarrow> int \<Rightarrow> int \<Rightarrow> (int \<Rightarrow> 'v, 'e, unit) task" where
  "map_n n fn proj head tail out =
     (let len = tail - head in
      if \<not> 0 < n then Abort
      else if \<not> 0 \<le> len then Abort
      else if len = 0 then Done (Inr ())
      else if len \<le> n then map_loop fn proj head out (nat (tail - head))
      else (let dif = len div 2; mid = head + dif in
        Fork_join None (map_n n fn proj head mid out) (map_n n fn proj mid tail (out + dif)) (\<lambda>_ _. Done (Inr ()))))"
  by auto
termination by (relation "measure (\<lambda>(n, fn, proj, head, tail, out). nat (tail - head))") auto

function map_1 :: "('p \<Rightarrow> 'e + 'v) \<Rightarrow> ('v \<Rightarrow> 'e + 'p) \<Rightarrow> int \<Rightarrow> int \<Rightarrow> int \<Rightarrow> (int \<Rightarrow> 'v, 'e, unit) task" where
  "map_1 fn proj head tail out =
     (let len = tail - head in
      if \<not> 0 \<le> len then Abort
      else if len = 0 then Done (Inr ())
      else if len = 1 then read_at head proj (\<lambda>p. call_value (fn p) (\<lambda>v. write_at out v (Done (Inr ()))))
      else (let dif = len div 2; mid = head + dif in
        Fork_join None (map_1 fn proj head mid out) (map_1 fn proj mid tail (out + dif)) (\<lambda>_ _. Done (Inr ()))))"
  by auto
termination by (relation "measure (\<lambda>(fn, proj, head, tail, out). nat (tail - head))") auto

definition map_range :: "int \<Rightarrow> ('p \<Rightarrow> 'e + 'v) \<Rightarrow> ('v \<Rightarrow> 'e + 'p) \<Rightarrow> int \<times> int \<Rightarrow> int \<Rightarrow> (int \<Rightarrow> 'v, 'e, unit) task" where
  "map_range n fn proj rng out =
     (if \<not> 0 < n then Abort
      else if n = 1 then map_1 fn proj (fst rng) (snd rng) out
      else map_n n fn proj (fst rng) (snd rng) out)"

definition map_range_1 :: "('p \<Rightarrow> 'e + 'v) \<Rightarrow> ('v \<Rightarrow> 'e + 'p) \<Rightarrow> int \<times> int \<Rightarrow> int \<Rightarrow> (int \<Rightarrow> 'v, 'e, unit) task" where
  "map_range_1 fn proj rng out = map_1 fn proj (fst rng) (snd rng) out"

declare for_each_n.simps [simp del] for_each_1.simps [simp del] map_n.simps [simp del] map_1.simps [simp del]

section \<open>What treating every element once means\<close>

text \<open>
  \<open>eff v w\<close> is the effect of one call: the exception it throws, if any, and the new value of the
  target, from the values \<open>v\<close> of the element and \<open>w\<close> of the target before. The target of element
  \<open>i\<close> is \<open>i + d\<close>.
\<close>

definition elem_post :: "int \<Rightarrow> ('v \<Rightarrow> 'v \<Rightarrow> 'e option \<times> 'v) \<Rightarrow> int \<Rightarrow> int \<Rightarrow> (int \<Rightarrow> 'v) \<Rightarrow> 'e + unit \<Rightarrow> (int \<Rightarrow> 'v) \<Rightarrow> bool" where
  "elem_post d eff lo hi s x s' \<longleftrightarrow>
     (\<forall>a. a - d \<notin> {lo..<hi} \<longrightarrow> s' a = s a)
   \<and> (\<forall>i\<in>{lo..<hi}. s' (i + d) = s (i + d) \<or> s' (i + d) = snd (eff (s i) (s (i + d))))
   \<and> (case x of
        Inr _ \<Rightarrow> \<forall>i\<in>{lo..<hi}. fst (eff (s i) (s (i + d))) = None \<and> s' (i + d) = snd (eff (s i) (s (i + d)))
      | Inl e \<Rightarrow> \<exists>i\<in>{lo..<hi}. fst (eff (s i) (s (i + d))) = Some e)"

definition for_each_eff :: "('p \<Rightarrow> 'v \<Rightarrow> 'e option \<times> 'v) \<Rightarrow> ('v \<Rightarrow> 'e + 'p) \<Rightarrow> 'v \<Rightarrow> 'v \<Rightarrow> 'e option \<times> 'v" where
  "for_each_eff fn proj v w = (case proj v of Inl e \<Rightarrow> (Some e, w) | Inr p \<Rightarrow> fn p w)"

definition map_eff :: "('p \<Rightarrow> 'e + 'v) \<Rightarrow> ('v \<Rightarrow> 'e + 'p) \<Rightarrow> 'v \<Rightarrow> 'v \<Rightarrow> 'e option \<times> 'v" where
  "map_eff fn proj v w = (case proj v of Inl e \<Rightarrow> (Some e, w)
     | Inr p \<Rightarrow> (case fn p of Inl e \<Rightarrow> (Some e, w) | Inr y \<Rightarrow> (None, y)))"

text \<open>The target range is the source range or disjoint from it.\<close>

definition in_place_or_apart :: "int \<Rightarrow> int \<Rightarrow> int \<Rightarrow> bool" where
  "in_place_or_apart d lo hi \<longleftrightarrow> d = 0 \<or> hi - lo \<le> \<bar>d\<bar>"

lemma elem_post_nil: "elem_post d eff lo lo s (Inr ()) s"
  by (simp add: elem_post_def)

lemma elem_post_throw:
  assumes "lo < hi" "eff (s lo) (s (lo + d)) = (Some e, w)"
  shows "elem_post d eff lo hi s (Inl e) (s(lo + d := w))"
proof -
  have "\<exists>i\<in>{lo..<hi}. fst (eff (s i) (s (i + d))) = Some e"
    by (rule bexI [of _ lo]) (use assms in auto)
  then show ?thesis using assms by (auto simp: elem_post_def)
qed

text \<open>Two consecutive ranges, treated one after the other or side by side.\<close>

lemma elem_post_append:
  assumes le: "lo \<le> mid" "mid \<le> hi"
    and l: "elem_post d eff lo mid s y s1" and r: "elem_post d eff mid hi u z s2"
    and u: "\<And>i. i \<in> {mid..<hi} \<Longrightarrow> u i = s i \<and> u (i + d) = s (i + d)"
    and m: "\<And>a. a - d \<in> {lo..<mid} \<Longrightarrow> m a = s1 a" "\<And>a. a - d \<in> {mid..<hi} \<Longrightarrow> m a = s2 a"
      "\<And>a. a - d \<notin> {lo..<hi} \<Longrightarrow> m a = s a"
    and x: "case x of Inr _ \<Rightarrow> y = Inr () \<and> z = Inr () | Inl e \<Rightarrow> y = Inl e \<or> z = Inl e"
  shows "elem_post d eff lo hi s x m"
proof -
  have range: "{lo..<hi} = {lo..<mid} \<union> {mid..<hi}" using le by auto
  have ml: "m (i + d) = s1 (i + d)" if "i \<in> {lo..<mid}" for i using m(1) [of "i + d"] that by simp
  have mr: "m (i + d) = s2 (i + d)" if "i \<in> {mid..<hi}" for i using m(2) [of "i + d"] that by simp
  have L: "m (i + d) = s (i + d) \<or> m (i + d) = snd (eff (s i) (s (i + d)))" if "i \<in> {lo..<mid}" for i
    using l ml that by (simp add: elem_post_def)
  have R: "m (i + d) = s (i + d) \<or> m (i + d) = snd (eff (s i) (s (i + d)))" if "i \<in> {mid..<hi}" for i
    using r mr u that by (simp add: elem_post_def)
  have "case x of
      Inr _ \<Rightarrow> \<forall>i\<in>{lo..<hi}. fst (eff (s i) (s (i + d))) = None \<and> m (i + d) = snd (eff (s i) (s (i + d)))
    | Inl e \<Rightarrow> \<exists>i\<in>{lo..<hi}. fst (eff (s i) (s (i + d))) = Some e"
  proof (cases x)
    case (Inl e)
    with x have "y = Inl e \<or> z = Inl e" by simp
    then have "\<exists>i\<in>{lo..<hi}. fst (eff (s i) (s (i + d))) = Some e"
    proof
      assume "y = Inl e"
      with l show ?thesis unfolding range by (auto simp: elem_post_def)
    next
      assume "z = Inl e"
      with r obtain i where "i \<in> {mid..<hi}" "fst (eff (u i) (u (i + d))) = Some e" by (auto simp: elem_post_def)
      with u [of i] show ?thesis unfolding range by (intro bexI [of _ i]) auto
    qed
    with Inl show ?thesis by simp
  next
    case (Inr t)
    with x have "y = Inr ()" "z = Inr ()" by auto
    with l r u ml mr Inr show ?thesis unfolding range elem_post_def by auto
  qed
  then show ?thesis using m(3) L R unfolding elem_post_def range by blast
qed

lemma elem_post_cons:
  assumes "lo < hi" "in_place_or_apart d lo hi" "eff (s lo) (s (lo + d)) = (None, w)"
    and rest: "elem_post d eff (lo + 1) hi (s(lo + d := w)) x s'"
  shows "elem_post d eff lo hi s x s'"
proof (rule elem_post_append [OF _ _ _ rest])
  show "elem_post d eff lo (lo + 1) s (Inr ()) (s(lo + d := w))"
    using assms(3) by (auto simp: elem_post_def)
  show "(s(lo + d := w)) i = s i \<and> (s(lo + d := w)) (i + d) = s (i + d)" if "i \<in> {lo + 1..<hi}" for i
    using that assms(1,2) by (auto simp: in_place_or_apart_def)
  show "s' a = (s(lo + d := w)) a" if "a - d \<in> {lo..<lo + 1}" for a
    using that rest by (auto simp: elem_post_def)
  show "s' a = s a" if "a - d \<notin> {lo..<hi}" for a
  proof -
    have "a - d \<notin> {lo + 1..<hi}" "a \<noteq> lo + d" using that assms(1) by auto
    with rest show ?thesis unfolding elem_post_def by simp
  qed
qed (use assms(1) in \<open>auto split: sum.split\<close>)

text \<open>
  Divide and conquer over a range: below some size a chunk treats its elements, above it the range is
  split and the halves run in parallel.
\<close>

locale elementwise =
  fixes ok :: bool and job :: "int \<Rightarrow> int \<Rightarrow> (int \<Rightarrow> 'v, 'e, unit) task" and d :: int
    and eff :: "'v \<Rightarrow> 'v \<Rightarrow> 'e option \<times> 'v"
  assumes chunk_or_split: "ok \<Longrightarrow> lo \<le> hi \<Longrightarrow>
      (in_place_or_apart d lo hi \<longrightarrow> (\<forall>s. must (elem_post d eff lo hi s) (job lo hi) s))
        \<and> within {lo..<hi} {lo + d..<hi + d} (job lo hi)
    \<or> (\<exists>mid. lo < mid \<and> mid < hi \<and> job lo hi = Fork_join None (job lo mid) (job mid hi) (\<lambda>_ _. Done (Inr ())))"
begin

lemma job_within:
  assumes ok "lo \<le> hi"
  shows "within {lo..<hi} {lo + d..<hi + d} (job lo hi)"
  using assms(2)
proof (induction "nat (hi - lo)" arbitrary: lo hi rule: less_induct)
  case less
  from chunk_or_split [OF assms(1) less.prems] show ?case
  proof (elim disjE exE conjE)
    fix mid assume m: "lo < mid" "mid < hi" "job lo hi = Fork_join None (job lo mid) (job mid hi) (\<lambda>_ _. Done (Inr ()))"
    have "within {lo..<hi} {lo + d..<hi + d} (job lo mid)"
      by (rule within_mono [of "{lo..<mid}" "{lo + d..<mid + d}"]) (use less.hyps [of mid lo] m in auto)
    moreover have "within {lo..<hi} {lo + d..<hi + d} (job mid hi)"
      by (rule within_mono [of "{mid..<hi}" "{mid + d..<hi + d}"]) (use less.hyps [of hi mid] m in auto)
    ultimately show ?case unfolding m(3) by (intro within_fork_join within_done)
  qed
qed

lemma job_treats_all:
  assumes ok "lo \<le> hi" "in_place_or_apart d lo hi"
  shows "must (elem_post d eff lo hi s) (job lo hi) s"
  using assms(2,3)
proof (induction "nat (hi - lo)" arbitrary: lo hi rule: less_induct)
  case less
  from chunk_or_split [OF assms(1) less.prems(1)] show ?case
  proof (elim disjE exE conjE)
    fix mid assume m: "lo < mid" "mid < hi" "job lo hi = Fork_join None (job lo mid) (job mid hi) (\<lambda>_ _. Done (Inr ()))"
    have halves: "must (elem_post d eff lo mid s) (job lo mid) s" "must (elem_post d eff mid hi s) (job mid hi) s"
      using less.hyps [of mid lo] less.hyps [of hi mid] m less.prems(2) by (auto simp: in_place_or_apart_def)
    have fp: "within {lo..<mid} {lo + d..<mid + d} (job lo mid)" "within {mid..<hi} {mid + d..<hi + d} (job mid hi)"
      using job_within [OF assms(1)] m by auto
    have apart: "apart_fp {lo..<mid} {lo + d..<mid + d} {mid..<hi} {mid + d..<hi + d}"
      using less.prems(2) m by (auto simp: apart_fp_def in_place_or_apart_def)
    have both: "elem_post d eff lo hi s x u" if "elem_post d eff lo mid s y s1" "elem_post d eff mid hi s z s2"
        "merged {lo + d..<mid + d} {mid + d..<hi + d} s1 s2 u"
        "case x of Inr _ \<Rightarrow> y = Inr () \<and> z = Inr () | Inl e \<Rightarrow> y = Inl e \<or> z = Inl e" for x y z s1 s2 u
    proof (rule elem_post_append [OF _ _ that(1,2) _ _ _ _ that(4)])
      show "u a = s1 a" if "a - d \<in> {lo..<mid}" for a
        using \<open>merged _ _ s1 s2 u\<close> that by (auto simp: merged_def agree_def)
      show "u a = s2 a" if "a - d \<in> {mid..<hi}" for a
        using \<open>merged _ _ s1 s2 u\<close> that by (auto simp: merged_def agree_def)
      show "u a = s a" if "a - d \<notin> {lo..<hi}" for a
      proof -
        have "a - d \<notin> {lo..<mid}" "a \<notin> {mid + d..<hi + d}" using that m by auto
        then have "s1 a = s a" "s1 a = u a"
          using \<open>merged _ _ s1 s2 u\<close> \<open>elem_post d eff lo mid s y s1\<close> by (auto simp: merged_def agree_def elem_post_def)
        then show ?thesis by simp
      qed
    qed (use m in auto)
    show ?case unfolding m(3)
      by (rule must_fork_join [OF halves fp apart]) (use both in \<open>auto simp: unit_eq\<close>)
  qed (use less.prems in auto)
qed

end

section \<open>The chunks\<close>

lemma for_each_elem_must:
  assumes "lo < hi"
    and "fst (for_each_eff fn proj (s lo) (s lo)) = None \<Longrightarrow>
       must (elem_post 0 (for_each_eff fn proj) (lo + 1) hi (s(lo := snd (for_each_eff fn proj (s lo) (s lo)))))
         k (s(lo := snd (for_each_eff fn proj (s lo) (s lo))))"
  shows "must (elem_post 0 (for_each_eff fn proj) lo hi s) (read_at lo proj (\<lambda>p. update_at lo (fn p) k)) s"
proof (cases "proj (s lo)")
  case (Inl e)
  then have "elem_post 0 (for_each_eff fn proj) lo hi s (Inl e) (s(lo + 0 := s lo))"
    by (intro elem_post_throw [OF assms(1)]) (simp add: for_each_eff_def)
  with Inl show ?thesis by simp
next
  case (Inr p)
  obtain y w where yw: "fn p (s lo) = (y, w)" by fastforce
  with Inr have eff: "for_each_eff fn proj (s lo) (s (lo + 0)) = (y, w)" by (simp add: for_each_eff_def)
  show ?thesis
  proof (cases y)
    case None
    have "elem_post 0 (for_each_eff fn proj) lo hi s x s'"
      if "elem_post 0 (for_each_eff fn proj) (lo + 1) hi (s(lo + 0 := w)) x s'" for x s'
      by (rule elem_post_cons [OF assms(1) _ eff [unfolded None] that]) (simp add: in_place_or_apart_def)
    with assms(2) eff None Inr yw show ?thesis by (auto intro: must_mono)
  next
    case (Some e)
    with elem_post_throw [OF assms(1), of "for_each_eff fn proj" s 0 e w] eff Inr yw show ?thesis by simp
  qed
qed

lemma for_each_loop_must: "must (elem_post 0 (for_each_eff fn proj) lo (lo + int m) s) (for_each_loop fn proj lo m) s"
proof (induction m arbitrary: lo s)
  case 0
  show ?case using elem_post_nil by simp
next
  case (Suc m)
  have "must (elem_post 0 (for_each_eff fn proj) (lo + 1) (lo + int (Suc m)) u) (for_each_loop fn proj (lo + 1) m) u" for u
    using Suc.IH [of "lo + 1" u] by (simp add: add.commute add.left_commute)
  then show ?case unfolding for_each_loop.simps by (intro for_each_elem_must) simp
qed

lemma for_each_loop_within: "within {lo..<lo + int m} {lo..<lo + int m} (for_each_loop fn proj lo m)"
proof (induction m arbitrary: lo)
  case (Suc m)
  have "within {lo..<lo + int (Suc m)} {lo..<lo + int (Suc m)} (for_each_loop fn proj (lo + 1) m)"
    by (rule within_mono [OF Suc.IH]) auto
  then show ?case unfolding for_each_loop.simps by (intro within_intros) auto
qed simp

lemma map_elem_must:
  assumes "lo < hi" "in_place_or_apart d lo hi"
    and "fst (map_eff fn proj (s lo) (s (lo + d))) = None \<Longrightarrow>
       must (elem_post d (map_eff fn proj) (lo + 1) hi (s(lo + d := snd (map_eff fn proj (s lo) (s (lo + d))))))
         k (s(lo + d := snd (map_eff fn proj (s lo) (s (lo + d)))))"
  shows "must (elem_post d (map_eff fn proj) lo hi s) (read_at lo proj (\<lambda>p. call_value (fn p) (\<lambda>v. write_at (lo + d) v k))) s"
proof (cases "map_eff fn proj (s lo) (s (lo + d))")
  case (Pair y w)
  show ?thesis
  proof (cases y)
    case None
    with Pair obtain p where p: "proj (s lo) = Inr p" "fn p = Inr w" by (auto simp: map_eff_def split: sum.splits)
    have "elem_post d (map_eff fn proj) lo hi s x s'"
      if "elem_post d (map_eff fn proj) (lo + 1) hi (s(lo + d := w)) x s'" for x s'
      by (rule elem_post_cons [OF assms(1,2) Pair [unfolded None] that])
    with assms(3) Pair None p show ?thesis by (auto intro: must_mono)
  next
    case (Some e)
    with Pair have "w = s (lo + d)" by (auto simp: map_eff_def split: sum.splits)
    with elem_post_throw [OF assms(1), of "map_eff fn proj" s d e w] Pair Some show ?thesis
      by (auto simp: map_eff_def split: sum.splits)
  qed
qed

lemma map_loop_must:
  assumes "in_place_or_apart d lo (lo + int m)"
  shows "must (elem_post d (map_eff fn proj) lo (lo + int m) s) (map_loop fn proj lo (lo + d) m) s"
  using assms
proof (induction m arbitrary: lo s)
  case 0
  show ?case using elem_post_nil by simp
next
  case (Suc m)
  have "in_place_or_apart d (lo + 1) (lo + 1 + int m)" using Suc.prems by (auto simp: in_place_or_apart_def)
  from Suc.IH [OF this]
  have "must (elem_post d (map_eff fn proj) (lo + 1) (lo + int (Suc m)) u) (map_loop fn proj (lo + 1) (lo + d + 1) m) u" for u
    by (simp add: algebra_simps)
  then show ?case unfolding map_loop.simps using Suc.prems by (intro map_elem_must) simp_all
qed

lemma map_loop_within: "within {lo..<lo + int m} {lo + d..<lo + int m + d} (map_loop fn proj lo (lo + d) m)"
proof (induction m arbitrary: lo)
  case (Suc m)
  have "within {lo..<lo + int (Suc m)} {lo + d..<lo + int (Suc m) + d} (map_loop fn proj (lo + 1) (lo + 1 + d) m)"
    by (rule within_mono [OF Suc.IH]) auto
  then show ?case unfolding map_loop.simps by (intro within_intros) (auto simp: algebra_simps)
qed simp

section \<open>The algorithms\<close>

interpretation fen: elementwise "0 < n" "for_each_n n fn proj" 0 "for_each_eff fn proj" for n fn proj
proof (unfold_locales, goal_cases)
  case (1 lo hi)
  show ?case
  proof (cases "hi - lo \<le> n")
    case True
    have "for_each_n n fn proj lo hi = for_each_loop fn proj lo (nat (hi - lo))"
      using 1 True by (subst for_each_n.simps) (simp add: Let_def)
    with for_each_loop_must [of fn proj lo "nat (hi - lo)"] for_each_loop_within [of lo "nat (hi - lo)" fn proj] 1
    show ?thesis by simp
  next
    case False
    have "for_each_n n fn proj lo hi = Fork_join None (for_each_n n fn proj lo (lo + (hi - lo) div 2))
        (for_each_n n fn proj (lo + (hi - lo) div 2) hi) (\<lambda>_ _. Done (Inr ()))"
      using False 1 by (subst for_each_n.simps) (simp add: Let_def)
    moreover have "1 < hi - lo" using False 1 by simp
    ultimately show ?thesis using half_between by blast
  qed
qed

interpretation fe1: elementwise True "for_each_1 fn proj" 0 "for_each_eff fn proj" for fn proj
proof (unfold_locales, goal_cases)
  case (1 lo hi)
  show ?case
  proof (cases "hi - lo \<le> 1")
    case True
    with 1 have "hi = lo \<or> hi = lo + 1" by auto
    then have "for_each_1 fn proj lo hi = for_each_loop fn proj lo (nat (hi - lo))"
      by (subst for_each_1.simps) (auto simp: Let_def numeral_eq_Suc)
    with for_each_loop_must [of fn proj lo "nat (hi - lo)"] for_each_loop_within [of lo "nat (hi - lo)" fn proj] 1
    show ?thesis by simp
  next
    case False
    have "for_each_1 fn proj lo hi = Fork_join None (for_each_1 fn proj lo (lo + (hi - lo) div 2))
        (for_each_1 fn proj (lo + (hi - lo) div 2) hi) (\<lambda>_ _. Done (Inr ()))"
      using False by (subst for_each_1.simps) (simp add: Let_def)
    moreover have "1 < hi - lo" using False by simp
    ultimately show ?thesis using half_between by blast
  qed
qed

interpretation mpn: elementwise "0 < n" "\<lambda>lo hi. map_n n fn proj lo hi (lo + d)" d "map_eff fn proj" for n fn proj d
proof (unfold_locales, goal_cases)
  case (1 lo hi)
  show ?case
  proof (cases "hi - lo \<le> n")
    case True
    have "map_n n fn proj lo hi (lo + d) = map_loop fn proj lo (lo + d) (nat (hi - lo))"
      using 1 True by (subst map_n.simps) (simp add: Let_def)
    with map_loop_must [of d lo "nat (hi - lo)" fn proj] map_loop_within [of lo "nat (hi - lo)" d fn proj] 1
    show ?thesis by simp
  next
    case False
    have "map_n n fn proj lo hi (lo + d) = Fork_join None (map_n n fn proj lo (lo + (hi - lo) div 2) (lo + d))
        (map_n n fn proj (lo + (hi - lo) div 2) hi (lo + (hi - lo) div 2 + d)) (\<lambda>_ _. Done (Inr ()))"
      using False 1 by (subst map_n.simps) (simp add: Let_def add_ac)
    moreover have "1 < hi - lo" using False 1 by simp
    ultimately show ?thesis using half_between by blast
  qed
qed

interpretation mp1: elementwise True "\<lambda>lo hi. map_1 fn proj lo hi (lo + d)" d "map_eff fn proj" for fn proj d
proof (unfold_locales, goal_cases)
  case (1 lo hi)
  show ?case
  proof (cases "hi - lo \<le> 1")
    case True
    with 1 have "hi = lo \<or> hi = lo + 1" by auto
    then have "map_1 fn proj lo hi (lo + d) = map_loop fn proj lo (lo + d) (nat (hi - lo))"
      by (subst map_1.simps) (auto simp: Let_def numeral_eq_Suc)
    with map_loop_must [of d lo "nat (hi - lo)" fn proj] map_loop_within [of lo "nat (hi - lo)" d fn proj] 1
    show ?thesis by simp
  next
    case False
    have "map_1 fn proj lo hi (lo + d) = Fork_join None (map_1 fn proj lo (lo + (hi - lo) div 2) (lo + d))
        (map_1 fn proj (lo + (hi - lo) div 2) hi (lo + (hi - lo) div 2 + d)) (\<lambda>_ _. Done (Inr ()))"
      using False by (subst map_1.simps) (simp add: Let_def add_ac)
    moreover have "1 < hi - lo" using False by simp
    ultimately show ?thesis using half_between by blast
  qed
qed

text \<open>
  Property C25. \<open>for_each\<close> treats every element of the range exactly once: on every schedule the
  call ends; nothing outside the range changes; without an exception every element has been given
  to the function once; otherwise the exception thrown is one that the function or the projection
  throws for an element of the range, and every element was treated once or not at all.
\<close>

theorem for_each_treats_once:
  assumes "0 < n" "head \<le> tail"
  shows "must (elem_post 0 (for_each_eff fn proj) head tail s) (for_each_range n fn proj (head, tail)) s"
  using fen.job_treats_all [OF assms(1,2), of fn proj s] fe1.job_treats_all [OF TrueI assms(2), of fn proj s] assms(1)
  by (simp add: for_each_range_def in_place_or_apart_def)

theorem for_each_treats_once_witness:
  "must (\<lambda>x s'. x = Inr () \<and> s' 0 = 0 \<and> s' 3 = 6 \<and> s' 4 = 8) (for_each_range 2 (\<lambda>p v. (None :: nat option, v + p)) Inr (0, 5)) (\<lambda>a. a)"
  by (rule must_mono [OF for_each_treats_once]) (auto simp: elem_post_def for_each_eff_def split: sum.splits)

text \<open>
  Property C26. \<open>map\<close> writes to every position of the output range the function's value for the
  element at the same position of the input range, for an output range that is the input range
  or disjoint from it: on every schedule the call ends; nothing outside the output range
  changes; without an exception every value is written; otherwise the exception is one that is
  thrown for an element of the range, and every position holds its old or its new value.
\<close>

theorem map_writes_all:
  assumes "0 < n" "head \<le> tail" "out = head \<or> tail - head \<le> \<bar>out - head\<bar>"
  shows "must (elem_post (out - head) (map_eff fn proj) head tail s) (map_range n fn proj (head, tail) out) s"
proof -
  have apart: "in_place_or_apart (out - head) head tail" using assms(3) by (auto simp: in_place_or_apart_def)
  show ?thesis
    using mpn.job_treats_all [OF assms(1,2) apart, of fn proj s] mp1.job_treats_all [OF TrueI assms(2) apart, of fn proj s] assms(1)
    by (simp add: map_range_def)
qed

theorem map_writes_all_witness:
  "must (\<lambda>x s'. x = Inr () \<and> s' 10 = 0 \<and> s' 13 = 9 \<and> s' 14 = 16)
     (map_range 1 (\<lambda>v. Inr (v * v) :: nat + int) Inr (0, 5) 10) (\<lambda>a. a)"
  by (rule must_mono [OF map_writes_all])
    (auto simp: elem_post_def map_eff_def split: sum.splits dest: bspec [where x = 0] bspec [where x = 3] bspec [where x = 4])

end
