(* ===== verification/Fold.thy ===== *)
theory Fold
  imports Tasks
begin

text \<open>
  \<open>fold\<close> (\<open>include/libfork/algorithm/fold.hpp\<close>), a parallel reduction with a binary operation of the
  user. \<open>bop\<close> and \<open>proj\<close> may throw; they are regular or asynchronous functions. For the calls with
  \<open>just\<close> that makes no difference; the chunk's loop calls an asynchronous \<open>bop\<close> with
  \<open>eager_throw_outside\<close>, see \<open>eager_call\<close>. The variables \<open>lhs\<close> and \<open>rhs\<close> of the
  parent (\<open>eventually\<close> objects) are read after the join only and appear as the values that the
  continuation gets.
\<close>

section \<open>The algorithm\<close>

text \<open>The loop over the rest of a chunk, with the number of elements left.\<close>

fun fold_loop :: "('a, 'e) binop \<Rightarrow> ('v \<Rightarrow> 'e + 'a) \<Rightarrow> 'a \<Rightarrow> int \<Rightarrow> nat \<Rightarrow> (int \<Rightarrow> 'v, 'e, 'a) task" where
  "fold_loop bop proj lhs head 0 = Done (Inr lhs)"
| "fold_loop bop proj lhs head (Suc m) =
     read_at head proj (\<lambda>p. eager_call bop lhs p (\<lambda>v. fold_loop bop proj v (head + 1) m))"

function fold_n :: "int \<Rightarrow> ('a, 'e) binop \<Rightarrow> ('v \<Rightarrow> 'e + 'a) \<Rightarrow> int \<Rightarrow> int \<Rightarrow> (int \<Rightarrow> 'v, 'e, 'a) task" where
  "fold_n n bop proj head tail =
     (let len = tail - head in
      if \<not> 1 < n then Abort
      else if \<not> 0 < len then Abort
      else if len \<le> n then read_at head proj (\<lambda>p. fold_loop bop proj p (head + 1) (nat (tail - (head + 1))))
      else (let mid = head + len div 2 in
        if \<not> 0 < mid - head \<or> \<not> 0 < tail - mid then Abort
        else Fork_join None (fold_n n bop proj head mid) (fold_n n bop proj mid tail)
          (\<lambda>lhs rhs. call_value (bop_app bop lhs rhs) (\<lambda>v. Done (Inr v)))))"
  by auto
termination by (relation "measure (\<lambda>(n, bop, proj, head, tail). nat (tail - head))") auto

function fold_1 :: "('a, 'e) binop \<Rightarrow> ('v \<Rightarrow> 'e + 'a) \<Rightarrow> int \<Rightarrow> int \<Rightarrow> (int \<Rightarrow> 'v, 'e, 'a) task" where
  "fold_1 bop proj head tail =
     (let len = tail - head in
      if \<not> 0 \<le> len then Abort
      else if len = 0 then Abort
      else if len = 1 then read_at head proj (\<lambda>p. Done (Inr p))
      else (let mid = head + len div 2 in
        if \<not> 0 < mid - head \<or> \<not> 0 < tail - mid then Abort
        else Fork_join None (fold_1 bop proj head mid) (fold_1 bop proj mid tail)
          (\<lambda>lhs rhs. call_value (bop_app bop lhs rhs) (\<lambda>v. Done (Inr v)))))"
  by auto
termination by (relation "measure (\<lambda>(bop, proj, head, tail). nat (tail - head))") auto

text \<open>The overloads: \<open>None\<close> is the empty result of an empty range, \<open>Some\<close> the task that computes it.\<close>

definition fold_overload_1 :: "('a, 'e) binop \<Rightarrow> ('v \<Rightarrow> 'e + 'a) \<Rightarrow> int \<Rightarrow> int \<Rightarrow> (int \<Rightarrow> 'v, 'e, 'a) task option" where
  "fold_overload_1 bop proj head tail = (if head = tail then None else Some (fold_1 bop proj head tail))"

definition fold_overload_n :: "int \<Rightarrow> ('a, 'e) binop \<Rightarrow> ('v \<Rightarrow> 'e + 'a) \<Rightarrow> int \<Rightarrow> int \<Rightarrow> (int \<Rightarrow> 'v, 'e, 'a) task option" where
  "fold_overload_n n bop proj head tail =
     (if head = tail then None
      else if n = 1 then Some (fold_1 bop proj head tail)
      else Some (fold_n n bop proj head tail))"

definition fold_range_1 :: "('a, 'e) binop \<Rightarrow> ('v \<Rightarrow> 'e + 'a) \<Rightarrow> int \<times> int \<Rightarrow> (int \<Rightarrow> 'v, 'e, 'a) task option" where
  "fold_range_1 bop proj rng = (if fst rng = snd rng then None else Some (fold_1 bop proj (fst rng) (snd rng)))"

definition fold_range_n :: "int \<Rightarrow> ('a, 'e) binop \<Rightarrow> ('v \<Rightarrow> 'e + 'a) \<Rightarrow> int \<times> int \<Rightarrow> (int \<Rightarrow> 'v, 'e, 'a) task option" where
  "fold_range_n n bop proj rng =
     (if fst rng = snd rng then None
      else if n = 1 then Some (fold_1 bop proj (fst rng) (snd rng))
      else Some (fold_n n bop proj (fst rng) (snd rng)))"

declare fold_n.simps [simp del] fold_1.simps [simp del]

section \<open>Correctness\<close>

text \<open>The reduction of a range from left to right, and what the functions of the user compute.\<close>

definition fold_val :: "('a \<Rightarrow> 'a \<Rightarrow> 'a) \<Rightarrow> ('v \<Rightarrow> 'a) \<Rightarrow> (int \<Rightarrow> 'v) \<Rightarrow> int \<Rightarrow> int \<Rightarrow> 'a" where
  "fold_val f g s lo hi = foldl f (g (s lo)) (map (\<lambda>i. g (s i)) [lo + 1..hi - 1])"

definition computes :: "('a, 'e) binop \<Rightarrow> ('v \<Rightarrow> 'e + 'a) \<Rightarrow> ('a \<Rightarrow> 'a \<Rightarrow> 'a) \<Rightarrow> ('v \<Rightarrow> 'a) \<Rightarrow> bool" where
  "computes bop proj f g \<longleftrightarrow> semigroup f \<and> (\<forall>a b v. bop_app bop a b = Inr v \<longrightarrow> v = f a b) \<and>
     (is_async bop \<longrightarrow> (\<forall>a b e. bop_app bop a b \<noteq> Inl e)) \<and> (\<forall>v p. proj v = Inr p \<longrightarrow> p = g v)"

definition fold_post :: "('a, 'e) binop \<Rightarrow> ('v \<Rightarrow> 'e + 'a) \<Rightarrow> ('a \<Rightarrow> 'a \<Rightarrow> 'a) \<Rightarrow> ('v \<Rightarrow> 'a) \<Rightarrow> int \<Rightarrow> int \<Rightarrow> (int \<Rightarrow> 'v)
    \<Rightarrow> 'e + 'a \<Rightarrow> (int \<Rightarrow> 'v) \<Rightarrow> bool" where
  "fold_post bop proj f g lo hi s x s' \<longleftrightarrow> s' = s \<and> (case x of
      Inr v \<Rightarrow> v = fold_val f g s lo hi \<and> (\<forall>i\<in>{lo..<hi}. proj (s i) = Inr (g (s i)))
    | Inl e \<Rightarrow> (\<exists>i\<in>{lo..<hi}. proj (s i) = Inl e) \<or> (\<exists>a b. bop_app bop a b = Inl e))"

lemma foldl_assoc: "semigroup f \<Longrightarrow> foldl f (f a b) xs = f a (foldl f b xs)"
  by (induction xs arbitrary: b) (auto simp: semigroup.assoc)

lemma fold_val_split:
  assumes "semigroup f" "lo < mid" "mid < hi"
  shows "fold_val f g s lo hi = f (fold_val f g s lo mid) (fold_val f g s mid hi)"
proof -
  have "[lo + 1..hi - 1] = [lo + 1..mid - 1] @ mid # [mid + 1..hi - 1]"
    using assms(2,3) upto_split3 [of "lo + 1" mid "hi - 1"] by simp
  then show ?thesis using foldl_assoc [OF assms(1)] by (simp add: fold_val_def)
qed

lemma fold_val_one [simp]: "fold_val f g s lo (lo + 1) = g (s lo)"
  by (simp add: fold_val_def)

lemma fold_post_throw:
  assumes "fold_post bop proj f g lo' hi' s (Inl e) s'" "lo \<le> lo'" "hi' \<le> hi"
  shows "fold_post bop proj f g lo hi s (Inl e) s"
proof (cases "\<exists>a b. bop_app bop a b = Inl e")
  case False
  with assms(1) obtain i where "i \<in> {lo'..<hi'}" "proj (s i) = Inl e" by (auto simp: fold_post_def)
  moreover from this assms(2,3) have "i \<in> {lo..<hi}" by simp
  ultimately show ?thesis unfolding fold_post_def by auto
qed (simp add: fold_post_def)

text \<open>
  Divide and conquer: a chunk is reduced in a loop, a longer range is split and the reductions of its
  halves are combined after the join.
\<close>

locale reduction =
  fixes ok :: bool and job :: "int \<Rightarrow> int \<Rightarrow> (int \<Rightarrow> 'v, 'e, 'a) task"
    and bop :: "('a, 'e) binop" and proj :: "'v \<Rightarrow> 'e + 'a"
  assumes chunk_or_split: "ok \<Longrightarrow> lo < hi \<Longrightarrow>
      (\<forall>f g s. computes bop proj f g \<longrightarrow> must (fold_post bop proj f g lo hi s) (job lo hi) s) \<and> within {lo..<hi} {} (job lo hi)
    \<or> (\<exists>mid. lo < mid \<and> mid < hi
        \<and> job lo hi = Fork_join None (job lo mid) (job mid hi) (\<lambda>a b. call_value (bop_app bop a b) (\<lambda>v. Done (Inr v))))"
begin

lemma reduction_within:
  assumes ok "lo < hi"
  shows "within {lo..<hi} {} (job lo hi)"
  using assms(2)
proof (induction "nat (hi - lo)" arbitrary: lo hi rule: less_induct)
  case less
  from chunk_or_split [OF assms(1) less.prems] show ?case
  proof (elim disjE exE conjE)
    fix mid assume m: "lo < mid" "mid < hi"
      "job lo hi = Fork_join None (job lo mid) (job mid hi) (\<lambda>a b. call_value (bop_app bop a b) (\<lambda>v. Done (Inr v)))"
    have "within {lo..<hi} {} (job lo mid)"
      by (rule within_mono [of "{lo..<mid}" "{}"]) (use less.hyps [of mid lo] m in auto)
    moreover have "within {lo..<hi} {} (job mid hi)"
      by (rule within_mono [of "{mid..<hi}" "{}"]) (use less.hyps [of hi mid] m in auto)
    ultimately show ?case unfolding m(3) by (intro within_intros within_done)
  qed
qed

lemma reduction_correct:
  assumes ok "lo < hi" and fg: "computes bop proj f g"
  shows "must (fold_post bop proj f g lo hi s) (job lo hi) s"
  using assms(2)
proof (induction "nat (hi - lo)" arbitrary: lo hi rule: less_induct)
  case less
  from chunk_or_split [OF assms(1) less.prems] show ?case
  proof (elim disjE exE conjE)
    fix mid assume m: "lo < mid" "mid < hi"
      "job lo hi = Fork_join None (job lo mid) (job mid hi) (\<lambda>a b. call_value (bop_app bop a b) (\<lambda>v. Done (Inr v)))"
    have halves: "must (fold_post bop proj f g lo mid s) (job lo mid) s" "must (fold_post bop proj f g mid hi s) (job mid hi) s"
      using less.hyps [of mid lo] less.hyps [of hi mid] m by auto
    have fp: "within {lo..<mid} {} (job lo mid)" "within {mid..<hi} {} (job mid hi)"
      using reduction_within [OF assms(1)] m by auto
    have same: "u = s" if "fold_post bop proj f g lo mid s y s1" "merged {} {} s1 s2 u" for y s1 s2 u
      using that by (simp add: fold_post_def merged_def agree_def fun_eq_iff)
    have range: "{lo..<hi} = {lo..<mid} \<union> {mid..<hi}" using m by auto
    have split: "fold_val f g s lo hi = f (fold_val f g s lo mid) (fold_val f g s mid hi)"
      using fg m fold_val_split unfolding computes_def by blast
    show ?case unfolding m(3)
    proof (rule must_fork_join [OF halves fp])
      fix a b s1 s2 u
      assume *: "fold_post bop proj f g lo mid s (Inr a) s1" "fold_post bop proj f g mid hi s (Inr b) s2" "merged {} {} s1 s2 u"
      have ab: "a = fold_val f g s lo mid" "b = fold_val f g s mid hi" "\<forall>i\<in>{lo..<hi}. proj (s i) = Inr (g (s i))"
        using *(1,2) unfolding range by (auto simp: fold_post_def)
      show "must (fold_post bop proj f g lo hi s) (call_value (bop_app bop a b) (\<lambda>v. Done (Inr v))) u"
      proof (cases "bop_app bop a b")
        case (Inl e)
        then show ?thesis using same [OF *(1,3)] by (auto simp: fold_post_def)
      next
        case (Inr v)
        then have "v = f a b" using fg unfolding computes_def by blast
        with Inr ab split same [OF *(1,3)] show ?thesis by (simp add: fold_post_def)
      qed
    next
      fix e y z s1 s2 u
      assume *: "fold_post bop proj f g lo mid s y s1" "fold_post bop proj f g mid hi s z s2" "merged {} {} s1 s2 u"
        "y = Inl e \<or> z = Inl e"
      from *(1,2,4) have "fold_post bop proj f g lo hi s (Inl e) s"
        using fold_post_throw [of bop proj f g lo mid s e _ lo hi] fold_post_throw [of bop proj f g mid hi s e _ lo hi] m
        by auto
      with same [OF *(1,3)] show "fold_post bop proj f g lo hi s (Inl e) u" by simp
    qed (simp add: apart_fp_def)
  qed (use fg in auto)
qed

end

lemma fold_loop_must:
  assumes "computes bop proj f g" "lo < hi" "acc = fold_val f g s lo hi" "\<forall>i\<in>{lo..<hi}. proj (s i) = Inr (g (s i))"
  shows "must (fold_post bop proj f g lo (hi + int m) s) (fold_loop bop proj acc hi m) s"
  using assms(2-)
proof (induction m arbitrary: acc hi)
  case 0
  then show ?case by (simp add: fold_post_def)
next
  case (Suc m)
  have hi: "hi \<in> {lo..<hi + int (Suc m)}" using Suc.prems(1) by simp
  show ?case
  proof (cases "proj (s hi)")
    case (Inl e)
    with hi show ?thesis by (auto simp: fold_post_def)
  next
    case (Inr p)
    with assms(1) have p: "p = g (s hi)" by (auto simp: computes_def)
    show ?thesis
    proof (cases "bop_app bop acc p")
      case (Inl e)
      then have "\<not> is_async bop" using assms(1) by (auto simp: computes_def)
      with Inl Inr show ?thesis by (auto simp: fold_post_def)
    next
      case (Inr v)
      have "v = fold_val f g s lo (hi + 1)"
        using Inr p assms(1) Suc.prems(1,2) fold_val_split [of f lo hi "hi + 1" g s] by (auto simp: computes_def)
      moreover have "\<forall>i\<in>{lo..<hi + 1}. proj (s i) = Inr (g (s i))"
        using Suc.prems(3) \<open>proj (s hi) = Inr p\<close> p by (auto simp: less_le)
      ultimately have "must (fold_post bop proj f g lo (hi + 1 + int m) s) (fold_loop bop proj v (hi + 1) m) s"
        using Suc.IH [of "hi + 1" v] Suc.prems(1) by simp
      with \<open>proj (s hi) = Inr p\<close> Inr show ?thesis by (simp add: algebra_simps)
    qed
  qed
qed

lemma fold_loop_within: "within {lo..<lo + int m} {} (fold_loop bop proj acc lo m)"
proof (induction m arbitrary: lo acc)
  case (Suc m)
  have "within {lo..<lo + int (Suc m)} {} (fold_loop bop proj v (lo + 1) m)" for v
    by (rule within_mono [OF Suc.IH]) auto
  then show ?case unfolding fold_loop.simps by (intro within_intros) auto
qed simp

lemma fold_chunk_must:
  assumes "computes bop proj f g" "lo < hi"
  shows "must (fold_post bop proj f g lo hi s) (read_at lo proj (\<lambda>p. fold_loop bop proj p (lo + 1) (nat (hi - (lo + 1))))) s"
proof (cases "proj (s lo)")
  case (Inl e)
  then show ?thesis using assms(2) by (auto simp: fold_post_def intro!: bexI [of _ lo])
next
  case (Inr p)
  with assms(1) have "p = g (s lo)" by (auto simp: computes_def)
  moreover from this Inr have "\<forall>i\<in>{lo..<lo + 1}. proj (s i) = Inr (g (s i))" by (metis atLeastLessThan_iff zless_add1_eq order_less_le linorder_not_less)
  ultimately show ?thesis using fold_loop_must [OF assms(1), of lo "lo + 1" p s "nat (hi - (lo + 1))"] Inr assms(2) by simp
qed

lemma fold_chunk_within:
  assumes "lo < hi"
  shows "within {lo..<hi} {} (read_at lo proj (\<lambda>p. fold_loop bop proj p (lo + 1) (nat (hi - (lo + 1)))))"
proof -
  have "within {lo..<hi} {} (fold_loop bop proj p (lo + 1) (nat (hi - (lo + 1))))" for p
    by (rule within_mono [OF fold_loop_within]) (use assms in auto)
  then show ?thesis by (intro within_intros) (use assms in auto)
qed

interpretation rdn: reduction "1 < n" "fold_n n bop proj" bop proj for n bop proj
proof (unfold_locales, goal_cases)
  case (1 lo hi)
  show ?case
  proof (cases "hi - lo \<le> n")
    case True
    have "fold_n n bop proj lo hi = read_at lo proj (\<lambda>p. fold_loop bop proj p (lo + 1) (nat (hi - (lo + 1))))"
      using 1 True by (subst fold_n.simps) (simp add: Let_def)
    with fold_chunk_must [of bop proj _ _ lo hi] fold_chunk_within [of lo hi proj bop] 1 show ?thesis by simp
  next
    case False
    with 1 have b: "lo < lo + (hi - lo) div 2 \<and> lo + (hi - lo) div 2 < hi" by (intro half_between) simp
    have "fold_n n bop proj lo hi = Fork_join None (fold_n n bop proj lo (lo + (hi - lo) div 2))
        (fold_n n bop proj (lo + (hi - lo) div 2) hi) (\<lambda>a b. call_value (bop_app bop a b) (\<lambda>v. Done (Inr v)))"
      using False 1 b by (subst fold_n.simps) (simp add: Let_def)
    with b show ?thesis by blast
  qed
qed

interpretation rd1: reduction True "fold_1 bop proj" bop proj for bop proj
proof (unfold_locales, goal_cases)
  case (1 lo hi)
  show ?case
  proof (cases "hi - lo \<le> 1")
    case True
    with 1 have hi: "hi = lo + 1" by simp
    then have "fold_1 bop proj lo hi = read_at lo proj (\<lambda>p. fold_loop bop proj p (lo + 1) (nat (hi - (lo + 1))))"
      by (subst fold_1.simps) (simp add: Let_def)
    with fold_chunk_must [of bop proj _ _ lo hi] fold_chunk_within [of lo hi proj bop] 1 show ?thesis by simp
  next
    case False
    with 1 have b: "lo < lo + (hi - lo) div 2 \<and> lo + (hi - lo) div 2 < hi" by (intro half_between) simp
    have "fold_1 bop proj lo hi = Fork_join None (fold_1 bop proj lo (lo + (hi - lo) div 2))
        (fold_1 bop proj (lo + (hi - lo) div 2) hi) (\<lambda>a b. call_value (bop_app bop a b) (\<lambda>v. Done (Inr v)))"
      using False 1 b by (subst fold_1.simps) (simp add: Let_def)
    with b show ?thesis by blast
  qed
qed

text \<open>
  Property C27. \<open>fold\<close> with an associative operation is the reduction of the range from left to right:
  it returns nothing exactly for an empty range; otherwise every schedule ends, changes nothing, and
  either returns the reduction, or throws an exception that the projection throws for an element of
  the range or that the operation throws. An asynchronous operation must not throw.
\<close>

theorem fold_is_reduction:
  assumes "computes bop proj f g" "head \<le> tail" "0 < n"
  shows "case fold_overload_n n bop proj head tail of
       None \<Rightarrow> head = tail
     | Some t \<Rightarrow> head < tail \<and> must (fold_post bop proj f g head tail s) t s"
  using rdn.reduction_correct [of n head tail bop proj f g s] rd1.reduction_correct [of head tail bop proj f g s] assms
  by (auto simp: fold_overload_n_def)

theorem fold_is_reduction_witness:
  "\<exists>t. fold_overload_n 2 (Sync_bop (\<lambda>a b. Inr (a + b))) (\<lambda>v. if 0 \<le> v then Inr v else Inl ()) 0 5 = Some t
     \<and> must (\<lambda>x s'. x = Inr 20 \<and> s' = (\<lambda>a. 2 * a)) t (\<lambda>a :: int. 2 * a)"
proof -
  let ?proj = "\<lambda>v :: int. if 0 \<le> v then Inr v else Inl ()"
  have "computes (Sync_bop (\<lambda>a b. Inr (a + b))) ?proj (+) (\<lambda>v. v)"
    by (auto simp: computes_def split: if_splits intro!: semigroup.intro)
  from fold_is_reduction [OF this, of 0 5 2 "\<lambda>a. 2 * a"] obtain t where
    t: "fold_overload_n 2 (Sync_bop (\<lambda>a b. Inr (a + b))) ?proj 0 5 = Some t"
      "must (fold_post (Sync_bop (\<lambda>a b. Inr (a + b))) ?proj (+) (\<lambda>v. v) 0 5 (\<lambda>a. 2 * a)) t (\<lambda>a. 2 * a)"
    by (auto split: option.splits)
  have "fold_val (+) (\<lambda>v. v) (\<lambda>a :: int. 2 * a) 0 5 = 20" by (simp add: fold_val_def upto.simps)
  with t(2) have "must (\<lambda>x s'. x = Inr 20 \<and> s' = (\<lambda>a. 2 * a)) t (\<lambda>a :: int. 2 * a)"
    by (elim must_mono) (auto simp: fold_post_def split: sum.splits if_splits)
  with t(1) show ?thesis by blast
qed

end
