(* ===== verification/Scan.thy ===== *)
theory Scan
  imports Elementwise Fold
begin

text \<open>
  \<open>scan\<close> (\<open>include/libfork/algorithm/scan.hpp\<close>), a parallel inclusive scan in two sweeps. The rising
  sweep scans as much of the range as it can while its left parts complete without being
  stolen, and reduces the rest; the falling sweep completes the part that was only reduced. How far
  the rising sweep scans depends on the schedule. Input and output are addresses of one memory:
  \<open>out = beg\<close> is the scan in place. The value of a task is the end of the scanned range, or \<open>None\<close>
  for a task without a result.
\<close>

section \<open>The algorithm\<close>

datatype op = Op_scan | Op_fold

datatype interval = I_all | I_lhs | I_mid | I_rhs

fun l_child_of :: "interval \<Rightarrow> interval" where
  "l_child_of I_all = I_lhs" | "l_child_of I_lhs = I_lhs" | "l_child_of I_mid = I_mid" | "l_child_of I_rhs = I_mid"

fun r_child_of :: "interval \<Rightarrow> interval" where
  "r_child_of I_all = I_rhs" | "r_child_of I_rhs = I_rhs" | "r_child_of I_lhs = I_mid" | "r_child_of I_mid = I_mid"

type_synonym ('v, 'e) sweep = "(int \<Rightarrow> 'v, 'e, int option) task"

text \<open>The two loops over a chunk, with the number of elements left: one writes the scan, one only reduces.\<close>

fun scan_loop :: "('v, 'e) binop \<Rightarrow> ('v \<Rightarrow> 'e + 'v) \<Rightarrow> int option \<Rightarrow> 'v \<Rightarrow> int \<Rightarrow> int \<Rightarrow> nat \<Rightarrow> ('v, 'e) sweep" where
  "scan_loop bop proj r acc beg out 0 = Done (Inr r)"
| "scan_loop bop proj r acc beg out (Suc m) =
     read_at beg proj (\<lambda>p. eager_call bop acc p (\<lambda>v. write_at out v (scan_loop bop proj r v (beg + 1) (out + 1) m)))"

fun reduce_loop :: "('v, 'e) binop \<Rightarrow> ('v \<Rightarrow> 'e + 'v) \<Rightarrow> 'v \<Rightarrow> int \<Rightarrow> nat \<Rightarrow> ('v \<Rightarrow> ('v, 'e) sweep) \<Rightarrow> ('v, 'e) sweep" where
  "reduce_loop bop proj acc beg 0 k = k acc"
| "reduce_loop bop proj acc beg (Suc m) k =
     read_at beg proj (\<lambda>p. eager_call bop acc p (\<lambda>v. reduce_loop bop proj v (beg + 1) m k))"

text \<open>\<open>*r_child = bop(*l_child, *r_child)\<close>, used by both sweeps.\<close>

definition combine_into :: "('v, 'e) binop \<Rightarrow> int \<Rightarrow> int \<Rightarrow> ('v, 'e) sweep \<Rightarrow> ('v, 'e) sweep" where
  "combine_into bop l_child r_child k =
     read_at l_child Inr (\<lambda>l. read_at r_child Inr (\<lambda>r. eager_call bop l r (\<lambda>v. write_at r_child v k)))"

text \<open>What the rising sweep does with a chunk, by the operation and the place of the chunk.\<close>

definition rise_chunk :: "interval \<Rightarrow> op \<Rightarrow> ('v, 'e) binop \<Rightarrow> ('v \<Rightarrow> 'e + 'v) \<Rightarrow> int \<Rightarrow> int \<Rightarrow> int \<Rightarrow> ('v, 'e) sweep" where
  "rise_chunk ival op bop proj beg end out =
     (let sz = end - beg in
      if op = Op_fold then
        (if ival = I_mid then
           read_at beg proj (\<lambda>acc. reduce_loop bop proj acc (beg + 1) (nat (end - (beg + 1)))
             (\<lambda>acc. write_at (out + sz - 1) acc (Done (Inr None))))
         else if ival = I_rhs then Done (Inr None)
         else Abort)
      else if ival = I_mid \<or> ival = I_rhs then
        read_at (out - 1) Inr (\<lambda>acc. scan_loop bop proj (Some end) acc beg out (nat (end - beg)))
      else
        read_at beg proj (\<lambda>acc. write_at out acc
          (scan_loop bop proj (Some end) acc (beg + 1) (out + 1) (nat (end - (beg + 1))))))"

text \<open>After the join: the reduction goes to the right sibling, if there is one.\<close>

definition rise_after :: "interval \<Rightarrow> op \<Rightarrow> ('v, 'e) binop \<Rightarrow> int \<Rightarrow> int \<Rightarrow> int \<Rightarrow> int option \<Rightarrow> ('v, 'e) sweep" where
  "rise_after ival op bop sz mid out left_out =
     (let k = Done (Inr (if op = Op_scan then left_out else None)) in
      if ival = I_lhs \<or> ival = I_mid then combine_into bop (out + mid - 1) (out + sz - 1) k else k)"

text \<open>
  With a chunk size below one the left half of a single element is empty and fails its
  assertion; the test of \<open>mid\<close> is that failure.

  \<open>left0 beg end\<close> is the value that the uninitialised variable \<open>left_out\<close> happens to hold in the frame
  of the task for this range. It matters when
  the left child throws without being stolen: the fork with a plain return address does not
  rethrow its exception, so \<open>ready\<close> is true and \<open>left_out\<close> is compared although nothing was stored.
  If it differs from \<open>beg + mid\<close> the exception is thrown at the join; if not, the task goes on as
  a scan, never joins, and fails the assertion of \<open>final_suspend\<close>.
\<close>

function rise_sweep :: "interval \<Rightarrow> op \<Rightarrow> (int \<Rightarrow> int \<Rightarrow> int) \<Rightarrow> int \<Rightarrow> ('v, 'e) binop \<Rightarrow> ('v \<Rightarrow> 'e + 'v) \<Rightarrow> int \<Rightarrow> int \<Rightarrow> int \<Rightarrow> ('v, 'e) sweep" where
  "rise_sweep ival op left0 n bop proj beg end out =
     (let sz = end - beg in
      if \<not> 1 \<le> sz then Abort
      else if sz \<le> n then rise_chunk ival op bop proj beg end out
      else (let mid = sz div 2 in
        if \<not> 1 \<le> mid then Abort
        else if op = Op_scan then
          Sync_fork (rise_sweep (l_child_of ival) Op_scan left0 n bop proj beg (beg + mid) out)
            (\<lambda>left_out. if left_out = Some (beg + mid)
               then rise_sweep (r_child_of ival) Op_scan left0 n bop proj (beg + mid) end (out + mid)
               else Fork_join None (Done (Inr left_out))
                 (rise_sweep (r_child_of ival) Op_fold left0 n bop proj (beg + mid) end (out + mid))
                 (\<lambda>l _. rise_after ival op bop sz mid out l))
            (\<lambda>e. if left0 beg end = beg + mid then Abort
               else Fork_join (Some e) (Done (Inr (Some (left0 beg end))))
                 (rise_sweep (r_child_of ival) Op_fold left0 n bop proj (beg + mid) end (out + mid))
                 (\<lambda>l _. rise_after ival op bop sz mid out l))
            (rise_sweep (r_child_of ival) Op_fold left0 n bop proj (beg + mid) end (out + mid))
            (\<lambda>l _. rise_after ival op bop sz mid out l)
        else
          Fork_join None (rise_sweep (l_child_of ival) op left0 n bop proj beg (beg + mid) out)
            (rise_sweep (r_child_of ival) Op_fold left0 n bop proj (beg + mid) end (out + mid))
            (\<lambda>l _. rise_after ival op bop sz mid out l)))"
  by auto
termination by (relation "measure (\<lambda>(ival, op, left0, n, bop, proj, beg, end, out). nat (end - beg))") auto

function fall_sweep_impl :: "interval \<Rightarrow> int \<Rightarrow> ('v, 'e) binop \<Rightarrow> ('v \<Rightarrow> 'e + 'v) \<Rightarrow> int \<Rightarrow> int \<Rightarrow> int \<Rightarrow> ('v, 'e) sweep" where
  "fall_sweep_impl ival n bop proj beg end out =
     (let sz = end - beg in
      if \<not> 0 < sz then Abort
      else if sz \<le> n then
        (let last = (if ival = I_rhs then end else beg + sz - 1) in
         read_at (out - 1) Inr (\<lambda>acc. scan_loop bop proj None acc beg out (nat (last - beg))))
      else (let mid = sz div 2 in
        if \<not> 1 \<le> mid then Abort
        else combine_into bop (out - 1) (out + mid - 1)
          (Fork_join None (fall_sweep_impl (l_child_of ival) n bop proj beg (beg + mid) out)
             (fall_sweep_impl (r_child_of ival) n bop proj (beg + mid) end (out + mid))
             (\<lambda>_ _. Done (Inr None)))))"
  by auto
termination by (relation "measure (\<lambda>(ival, n, bop, proj, beg, end, out). nat (end - beg))") auto

text \<open>
  \<open>fall_sweep\<close> follows the end of the scanned range down the tree. Nothing in it bounds the
  recursion when that end is not inside the range: \<open>None\<close> is a sweep that never ends. The loop of
  the source and its recursion to the right differ in the template instance only.
\<close>

partial_function (option) fall_sweep :: "interval \<Rightarrow> int \<Rightarrow> ('v, 'e) binop \<Rightarrow> ('v \<Rightarrow> 'e + 'v) \<Rightarrow> int \<Rightarrow> int \<Rightarrow> int \<Rightarrow> int
    \<Rightarrow> ('v, 'e) sweep option" where
  "fall_sweep ival n bop proj beg end out scan_end =
     (if \<not> scan_end < end then Some Abort
      else (let sz = end - beg; mid = sz div 2; split = beg + mid in
        if scan_end < split then do {
          l \<leftarrow> fall_sweep (l_child_of ival) n bop proj beg (beg + mid) out scan_end;
          Some (Fork_join None l (fall_sweep_impl (r_child_of ival) n bop proj (beg + mid) end (out + mid))
            (\<lambda>_ _. Done (Inr None))) }
        else if scan_end = split then
          Some (fall_sweep_impl (r_child_of ival) n bop proj (beg + mid) end (out + mid))
        else fall_sweep (r_child_of ival) n bop proj (beg + mid) end (out + mid) scan_end))"

definition scan_impl :: "(int \<Rightarrow> int \<Rightarrow> int) \<Rightarrow> int \<Rightarrow> ('v, 'e) binop \<Rightarrow> ('v \<Rightarrow> 'e + 'v) \<Rightarrow> int \<Rightarrow> int \<Rightarrow> int \<Rightarrow> ('v, 'e) sweep" where
  "scan_impl left0 n bop proj beg end out =
     (if end = beg then Done (Inr None)
      else seq_task (rise_sweep I_all Op_scan left0 n bop proj beg end out) (\<lambda>r. case r of
         None \<Rightarrow> Abort
       | Some scan_end \<Rightarrow>
           (if scan_end \<noteq> end
            then (case fall_sweep I_all n bop proj beg end out scan_end of None \<Rightarrow> Abort | Some t \<Rightarrow> t)
            else Done (Inr None))))"

text \<open>The eight overloads: with an iterator pair or a range, with an output or in place, with a chunk size or one.\<close>

definition scan_out_n :: "(int \<Rightarrow> int \<Rightarrow> int) \<Rightarrow> int \<Rightarrow> ('v, 'e) binop \<Rightarrow> ('v \<Rightarrow> 'e + 'v) \<Rightarrow> int \<Rightarrow> int \<Rightarrow> int \<Rightarrow> ('v, 'e) sweep" where
  "scan_out_n left0 n bop proj beg end out = scan_impl left0 n bop proj beg end out"

definition scan_out :: "(int \<Rightarrow> int \<Rightarrow> int) \<Rightarrow> ('v, 'e) binop \<Rightarrow> ('v \<Rightarrow> 'e + 'v) \<Rightarrow> int \<Rightarrow> int \<Rightarrow> int \<Rightarrow> ('v, 'e) sweep" where
  "scan_out left0 bop proj beg end out = scan_impl left0 1 bop proj beg end out"

definition scan_in_place_n :: "(int \<Rightarrow> int \<Rightarrow> int) \<Rightarrow> int \<Rightarrow> ('v, 'e) binop \<Rightarrow> ('v \<Rightarrow> 'e + 'v) \<Rightarrow> int \<Rightarrow> int \<Rightarrow> ('v, 'e) sweep" where
  "scan_in_place_n left0 n bop proj beg end = scan_impl left0 n bop proj beg end beg"

definition scan_in_place :: "(int \<Rightarrow> int \<Rightarrow> int) \<Rightarrow> ('v, 'e) binop \<Rightarrow> ('v \<Rightarrow> 'e + 'v) \<Rightarrow> int \<Rightarrow> int \<Rightarrow> ('v, 'e) sweep" where
  "scan_in_place left0 bop proj beg end = scan_impl left0 1 bop proj beg end beg"

definition scan_range_out_n :: "(int \<Rightarrow> int \<Rightarrow> int) \<Rightarrow> int \<Rightarrow> ('v, 'e) binop \<Rightarrow> ('v \<Rightarrow> 'e + 'v) \<Rightarrow> int \<times> int \<Rightarrow> int \<Rightarrow> ('v, 'e) sweep" where
  "scan_range_out_n left0 n bop proj rng out = scan_impl left0 n bop proj (fst rng) (snd rng) out"

definition scan_range_out :: "(int \<Rightarrow> int \<Rightarrow> int) \<Rightarrow> ('v, 'e) binop \<Rightarrow> ('v \<Rightarrow> 'e + 'v) \<Rightarrow> int \<times> int \<Rightarrow> int \<Rightarrow> ('v, 'e) sweep" where
  "scan_range_out left0 bop proj rng out = scan_impl left0 1 bop proj (fst rng) (snd rng) out"

definition scan_range_in_place_n :: "(int \<Rightarrow> int \<Rightarrow> int) \<Rightarrow> int \<Rightarrow> ('v, 'e) binop \<Rightarrow> ('v \<Rightarrow> 'e + 'v) \<Rightarrow> int \<times> int \<Rightarrow> ('v, 'e) sweep" where
  "scan_range_in_place_n left0 n bop proj rng = scan_impl left0 n bop proj (fst rng) (snd rng) (fst rng)"

definition scan_range_in_place :: "(int \<Rightarrow> int \<Rightarrow> int) \<Rightarrow> ('v, 'e) binop \<Rightarrow> ('v \<Rightarrow> 'e + 'v) \<Rightarrow> int \<times> int \<Rightarrow> ('v, 'e) sweep" where
  "scan_range_in_place left0 bop proj rng = scan_impl left0 1 bop proj (fst rng) (snd rng) (fst rng)"

declare rise_sweep.simps [simp del] fall_sweep_impl.simps [simp del]

section \<open>Footprints\<close>

text \<open>The last output of a part with a right sibling belongs to that sibling.\<close>

definition lim :: "interval \<Rightarrow> int \<Rightarrow> int" where
  "lim ival e = (if ival = I_all \<or> ival = I_rhs then e else e - 1)"

lemma lim_children [simp]: "lim (r_child_of ival) e = lim ival e" "lim (l_child_of ival) e = e - 1"
  by (cases ival; simp add: lim_def)+

lemma within_combine_into:
  "l \<in> R \<union> W \<Longrightarrow> r \<in> W \<Longrightarrow> within R W k \<Longrightarrow> within R W (combine_into bop l r k)"
  unfolding combine_into_def by (intro within_intros) auto

lemma scan_loop_within: "within {b..<b + int m} {c..<c + int m} (scan_loop bop proj r acc b c m)"
proof (induction m arbitrary: b c acc)
  case (Suc m)
  have "within {b..<b + int (Suc m)} {c..<c + int (Suc m)} (scan_loop bop proj r v (b + 1) (c + 1) m)" for v
    by (rule within_mono [OF Suc.IH]) auto
  then show ?case unfolding scan_loop.simps by (intro within_intros) auto
qed simp

lemma reduce_loop_within:
  assumes "\<And>v. within R W (k v)" "{b..<b + int m} \<subseteq> R"
  shows "within R W (reduce_loop bop proj acc b m k)"
  using assms(2)
proof (induction m arbitrary: b acc)
  case 0
  show ?case using assms(1) by simp
next
  case (Suc m)
  have "{b + 1..<b + 1 + int m} \<subseteq> R" "b \<in> R" using Suc.prems by auto
  then show ?case unfolding reduce_loop.simps using Suc.IH by (intro within_intros) auto
qed

end
