(* ===== verification/Scan_Correct.thy ===== *)
theory Scan_Correct
  imports Scan
begin

text \<open>
  Why the two sweeps of \<open>scan\<close> compute the inclusive scan on every schedule. The output of input
  address \<open>i\<close> is at \<open>i + d\<close>; \<open>d = 0\<close> is the scan in place. Between the sweeps the memory holds
  the scan up to some address, the tail is described by the predicates \<open>body\<close> and \<open>tail\<close>.
\<close>

section \<open>Footprints of the sweeps\<close>

definition reads_left :: "interval \<Rightarrow> op \<Rightarrow> int \<Rightarrow> int set" where
  "reads_left ival op c = (if op = Op_scan \<and> (ival = I_mid \<or> ival = I_rhs) then {c - 1} else {})"

lemma rise_chunk_within:
  assumes "b < e"
  shows "within ({b..<e} \<union> reads_left ival op (b + d)) {b + d..<e + d} (rise_chunk ival op bop proj b e (b + d))"
proof -
  let ?R = "{b..<e} \<union> reads_left ival op (b + d)" and ?W = "{b + d..<e + d}"
  have "within ?R ?W (scan_loop bop proj r acc b (b + d) (nat (e - b)))"
    "within ?R ?W (scan_loop bop proj r acc (b + 1) (b + d + 1) (nat (e - (b + 1))))" for r acc
    by (rule within_mono [OF scan_loop_within]; use assms in auto)+
  moreover have "within ?R ?W (reduce_loop bop proj acc (b + 1) (nat (e - (b + 1)))
      (\<lambda>acc. write_at (b + d + (e - b) - 1) acc (Done (Inr None))))" for acc
    by (rule reduce_loop_within) (use assms in \<open>auto intro!: within_write_at\<close>)
  ultimately show ?thesis using assms unfolding rise_chunk_def Let_def
    by (cases op) (auto intro!: within_intros simp: reads_left_def)
qed

lemma rise_after_within:
  assumes "0 < mid" "mid < sz"
  shows "within R {c..<c + sz} (rise_after ival op bop sz mid c l)"
  unfolding rise_after_def Let_def using assms by (auto intro!: within_combine_into)

lemma rise_node:
  assumes "\<not> e - b \<le> n" "m = b + (e - b) div 2" "b < m" "m < e"
  shows "rise_sweep ival Op_scan left0 n bop proj b e (b + d) =
      Sync_fork (rise_sweep (l_child_of ival) Op_scan left0 n bop proj b m (b + d))
        (\<lambda>l. if l = Some m then rise_sweep (r_child_of ival) Op_scan left0 n bop proj m e (m + d)
          else Fork_join None (Done (Inr l)) (rise_sweep (r_child_of ival) Op_fold left0 n bop proj m e (m + d))
            (\<lambda>l _. rise_after ival Op_scan bop (e - b) (m - b) (b + d) l))
        (\<lambda>er. if left0 b e = m then Abort
          else Fork_join (Some er) (Done (Inr (Some (left0 b e)))) (rise_sweep (r_child_of ival) Op_fold left0 n bop proj m e (m + d))
            (\<lambda>l _. rise_after ival Op_scan bop (e - b) (m - b) (b + d) l))
        (rise_sweep (r_child_of ival) Op_fold left0 n bop proj m e (m + d))
        (\<lambda>l _. rise_after ival Op_scan bop (e - b) (m - b) (b + d) l)"
    and "rise_sweep ival Op_fold left0 n bop proj b e (b + d) =
      Fork_join None (rise_sweep (l_child_of ival) Op_fold left0 n bop proj b m (b + d))
        (rise_sweep (r_child_of ival) Op_fold left0 n bop proj m e (m + d))
        (\<lambda>l _. rise_after ival Op_fold bop (e - b) (m - b) (b + d) l)"
proof -
  have h: "(e - b) div 2 = m - b" "b + (m - b) = m" "b + d + (m - b) = m + d" using assms by auto
  have c: "(1 \<le> e - b) = True" "(e - b \<le> n) = False" "(1 \<le> m - b) = True" using assms by auto
  note eqs = h c Let_def if_True if_False not_True_eq_False op.distinct simp_thms
  show "rise_sweep ival Op_scan left0 n bop proj b e (b + d) =
      Sync_fork (rise_sweep (l_child_of ival) Op_scan left0 n bop proj b m (b + d))
        (\<lambda>l. if l = Some m then rise_sweep (r_child_of ival) Op_scan left0 n bop proj m e (m + d)
          else Fork_join None (Done (Inr l)) (rise_sweep (r_child_of ival) Op_fold left0 n bop proj m e (m + d))
            (\<lambda>l _. rise_after ival Op_scan bop (e - b) (m - b) (b + d) l))
        (\<lambda>er. if left0 b e = m then Abort
          else Fork_join (Some er) (Done (Inr (Some (left0 b e)))) (rise_sweep (r_child_of ival) Op_fold left0 n bop proj m e (m + d))
            (\<lambda>l _. rise_after ival Op_scan bop (e - b) (m - b) (b + d) l))
        (rise_sweep (r_child_of ival) Op_fold left0 n bop proj m e (m + d))
        (\<lambda>l _. rise_after ival Op_scan bop (e - b) (m - b) (b + d) l)"
    unfolding rise_sweep.simps [of ival Op_scan left0 n bop proj b e "b + d"] by (simp only: eqs)
  show "rise_sweep ival Op_fold left0 n bop proj b e (b + d) =
      Fork_join None (rise_sweep (l_child_of ival) Op_fold left0 n bop proj b m (b + d))
        (rise_sweep (r_child_of ival) Op_fold left0 n bop proj m e (m + d))
        (\<lambda>l _. rise_after ival Op_fold bop (e - b) (m - b) (b + d) l)"
    unfolding rise_sweep.simps [of ival Op_fold left0 n bop proj b e "b + d"] by (simp only: eqs)
qed

lemma rise_within:
  "within ({b..<e} \<union> reads_left ival op (b + d)) {b + d..<e + d} (rise_sweep ival op left0 n bop proj b e (b + d))"
proof (induction "nat (e - b)" arbitrary: ival op b e rule: less_induct)
  case less
  let ?m = "b + (e - b) div 2"
  let ?R = "{b..<e} \<union> reads_left ival op (b + d)" and ?W = "{b + d..<e + d}"
  show ?case
  proof (cases "1 \<le> e - b \<and> \<not> e - b \<le> n \<and> 1 \<le> (e - b) div 2")
    case False
    then show ?thesis using rise_chunk_within [of b e ival op d bop proj]
      by (subst rise_sweep.simps) (auto simp: Let_def)
  next
    case True
    then have m: "b < ?m" "?m < e" "0 < ?m - b" "?m - b < e - b" by auto
    have L: "within ?R ?W (rise_sweep (l_child_of ival) op left0 n bop proj b ?m (b + d))"
    proof (rule within_mono [OF less.hyps])
      show "{b..<?m} \<union> reads_left (l_child_of ival) op (b + d) \<subseteq> ?R"
        using m by (cases ival) (auto simp: reads_left_def)
    qed (use m in auto)
    have R: "within ?R ?W (rise_sweep (r_child_of ival) o' left0 n bop proj ?m e (?m + d))" for o'
    proof -
      have "within (?R \<union> ?W) ?W (rise_sweep (r_child_of ival) o' left0 n bop proj ?m e (?m + d))"
        by (rule within_mono [OF less.hyps]) (use m in \<open>auto simp: reads_left_def\<close>)
      then show ?thesis unfolding within_reads .
    qed
    have A: "within ?R ?W (rise_after ival op bop (e - b) (?m - b) (b + d) l)" for l
      using rise_after_within [OF m(3,4), of ?R "b + d"] by (simp add: add_ac)
    have n: "\<not> e - b \<le> n" using True by simp
    show ?thesis
    proof (cases op)
      case Op_scan
      have "within ?R ?W (if l = Some ?m then rise_sweep (r_child_of ival) Op_scan left0 n bop proj ?m e (?m + d)
          else Fork_join None (Done (Inr l)) (rise_sweep (r_child_of ival) Op_fold left0 n bop proj ?m e (?m + d))
            (\<lambda>l _. rise_after ival Op_scan bop (e - b) (?m - b) (b + d) l))" for l
        using R A Op_scan by (simp add: within_fork_join)
      moreover have "within ?R ?W (if left0 b e = ?m then Abort
          else Fork_join (Some er) (Done (Inr (Some (left0 b e)))) (rise_sweep (r_child_of ival) Op_fold left0 n bop proj ?m e (?m + d))
            (\<lambda>l _. rise_after ival Op_scan bop (e - b) (?m - b) (b + d) l))" for er
        using R A Op_scan by (simp add: within_fork_join)
      ultimately show ?thesis using L R A unfolding Op_scan rise_node(1) [OF n refl m(1,2)]
        by (intro within_sync_fork) auto
    next
      case Op_fold
      then show ?thesis using L R A unfolding Op_fold rise_node(2) [OF n refl m(1,2)]
        by (intro within_fork_join) auto
    qed
  qed
qed

lemma fall_impl_within:
  "within ({b..<lim ival e} \<union> {b + d - 1}) {b + d..<lim ival e + d} (fall_sweep_impl ival n bop proj b e (b + d))"
proof (induction "nat (e - b)" arbitrary: ival b e rule: less_induct)
  case less
  let ?m = "b + (e - b) div 2" and ?l = "lim ival e"
  let ?R = "{b..<?l} \<union> {b + d - 1}" and ?W = "{b + d..<?l + d}"
  have l: "e - 1 \<le> ?l" "?l \<le> e" by (auto simp: lim_def)
  show ?case
  proof (cases "0 < e - b \<and> \<not> e - b \<le> n \<and> 1 \<le> (e - b) div 2")
    case False
    have "within ?R ?W (scan_loop bop proj None acc b (b + d) (nat (e - b)))" if "ival = I_rhs" for acc
      by (rule within_mono [OF scan_loop_within]) (use that in \<open>auto simp: lim_def\<close>)
    moreover have "within ?R ?W (scan_loop bop proj None acc b (b + d) (nat (e - 1 - b)))" for acc
      by (rule within_mono [OF scan_loop_within]) (use l in auto)
    ultimately show ?thesis using False
      by (subst fall_sweep_impl.simps) (auto simp: Let_def algebra_simps intro!: within_intros)
  next
    case True
    then have m: "b < ?m" "?m < e" by auto
    have L: "within ?R ?W (fall_sweep_impl (l_child_of ival) n bop proj b ?m (b + d))"
      by (rule within_mono [OF less.hyps]) (use m l in auto)
    have "within (?R \<union> ?W) ?W (fall_sweep_impl (r_child_of ival) n bop proj ?m e (?m + d))"
      by (rule within_mono [OF less.hyps]) (use m l in auto)
    then have R: "within ?R ?W (fall_sweep_impl (r_child_of ival) n bop proj ?m e (b + d + (e - b) div 2))"
      unfolding within_reads by (simp add: add_ac)
    show ?thesis using True L R m l
      by (subst fall_sweep_impl.simps) (auto simp: Let_def intro!: within_combine_into within_fork_join)
  qed
qed

lemma fall_node:
  assumes "\<not> e - b \<le> n" "m = b + (e - b) div 2" "b < m" "m < e"
  shows "fall_sweep_impl ival n bop proj b e (b + d) =
      combine_into bop (b - 1 + d) (m - 1 + d)
        (Fork_join None (fall_sweep_impl (l_child_of ival) n bop proj b m (b + d))
          (fall_sweep_impl (r_child_of ival) n bop proj m e (m + d)) (\<lambda>_ _. Done (Inr None)))"
proof -
  have h: "(e - b) div 2 = m - b" "b + (m - b) = m" "b + d + (m - b) = m + d" "b + d - 1 = b - 1 + d" "m + d - 1 = m - 1 + d"
    using assms by auto
  have c: "(0 < e - b) = True" "(e - b \<le> n) = False" "(1 \<le> m - b) = True" using assms by auto
  show ?thesis unfolding fall_sweep_impl.simps [of ival n bop proj b e "b + d"]
    by (simp only: h c Let_def if_True if_False not_True_eq_False)
qed

section \<open>The memory between the sweeps\<close>

text \<open>
  The functions of the user compute an associative operation and a projection, where they do not
  throw; the output is the input or disjoint from it; the chunk size is positive. \<open>s0\<close> is the
  memory at the start, \<open>T\<close> and \<open>E\<close> are the ends of the input.
\<close>

locale sweep =
  fixes ok :: bool and left0 :: "int \<Rightarrow> int \<Rightarrow> int" and n d T E :: int and bop :: "('v, 'e) binop" and proj :: "'v \<Rightarrow> 'e + 'v"
    and f :: "'v \<Rightarrow> 'v \<Rightarrow> 'v" and g :: "'v \<Rightarrow> 'v" and s0 :: "int \<Rightarrow> 'v"
  assumes fns: "ok \<Longrightarrow> computes bop proj f g" and places: "ok \<Longrightarrow> in_place_or_apart d T E" and chunk: "ok \<Longrightarrow> 0 < n"
    and outside: "ok \<Longrightarrow> \<forall>b e. left0 b e \<notin> {T<..<E}"
begin

definition red :: "int \<Rightarrow> int \<Rightarrow> 'v" where
  "red a b = fold_val f g s0 a b"

definition pre :: "int \<Rightarrow> 'v" where
  "pre i = fold_val f g s0 T (i + 1)"

definition threw :: "'e \<Rightarrow> bool" where
  "threw er \<longleftrightarrow> (\<exists>i\<in>{T..<E}. proj (s0 i) = Inl er) \<or> (\<exists>a b. bop_app bop a b = Inl er)"

definition intact :: "(int \<Rightarrow> 'v) \<Rightarrow> int \<Rightarrow> int \<Rightarrow> bool" where
  "intact s b e \<longleftrightarrow> (\<forall>i\<in>{b..<e}. s i = s0 i)"

definition scanned :: "(int \<Rightarrow> 'v) \<Rightarrow> int \<Rightarrow> int \<Rightarrow> bool" where
  "scanned s b e \<longleftrightarrow> (\<forall>i\<in>{b..<e}. s (i + d) = pre i)"

text \<open>A part that was reduced: chunks keep their inputs, the end of each left half holds its reduction.\<close>

inductive body :: "interval \<Rightarrow> (int \<Rightarrow> 'v) \<Rightarrow> int \<Rightarrow> int \<Rightarrow> bool" where
  body_chunk: "b < e \<Longrightarrow> e - b \<le> n \<Longrightarrow> intact s b (lim ival e) \<Longrightarrow> body ival s b e"
| body_node: "\<not> e - b \<le> n \<Longrightarrow> m = b + (e - b) div 2 \<Longrightarrow> b < m \<Longrightarrow> m < e \<Longrightarrow> body I_mid s b m \<Longrightarrow> s (m - 1 + d) = red b m \<Longrightarrow>
    body (r_child_of ival) s m e \<Longrightarrow> body ival s b e"

text \<open>A part that was scanned up to \<open>se\<close>: the rest of it.\<close>

inductive tail :: "interval \<Rightarrow> (int \<Rightarrow> 'v) \<Rightarrow> int \<Rightarrow> int \<Rightarrow> int \<Rightarrow> bool" where
  tail_left: "m = b + (e - b) div 2 \<Longrightarrow> m < e \<Longrightarrow> tail (l_child_of ival) s b m se \<Longrightarrow> s (m - 1 + d) = pre (m - 1) \<Longrightarrow>
    body (r_child_of ival) s m e \<Longrightarrow> tail ival s b e se"
| tail_mid: "m = b + (e - b) div 2 \<Longrightarrow> b < m \<Longrightarrow> m < e \<Longrightarrow> body (r_child_of ival) s m e \<Longrightarrow> tail ival s b e m"
| tail_right: "m = b + (e - b) div 2 \<Longrightarrow> b < m \<Longrightarrow> tail (r_child_of ival) s m e se \<Longrightarrow> tail ival s b e se"

definition cells :: "interval \<Rightarrow> int \<Rightarrow> int \<Rightarrow> int set" where
  "cells ival b e = {b..<lim ival e} \<union> {b + d..<lim ival e + d}"

lemma lim_bounds: "e - 1 \<le> lim ival e" "lim ival e \<le> e"
  by (auto simp: lim_def)

lemma body_nonempty: "body ival s b e \<Longrightarrow> b < e"
  by (erule body.cases) auto

lemma tail_bounds: "tail ival s b e se \<Longrightarrow> b < se \<and> se < e"
  by (induction rule: tail.induct) auto

lemma cells_halves:
  assumes "b < m" "m < e"
  shows "cells I_mid b m \<subseteq> cells ival b e" "cells (l_child_of ival) b m \<subseteq> cells ival b e"
    "cells (r_child_of ival) m e \<subseteq> cells ival b e" "m - 1 + d \<in> cells ival b e"
  using assms lim_bounds [where e = e and ival = ival] by (auto simp: cells_def) (auto simp: lim_def)

lemma body_cong: "body ival s b e \<Longrightarrow> agree (cells ival b e) s u \<Longrightarrow> body ival u b e"
proof (induction rule: body.induct)
  case (body_chunk b e s ival)
  then have "intact u b (lim ival e)" by (auto simp: intact_def cells_def agree_def)
  then show ?case by (rule body.body_chunk [OF body_chunk(1,2)])
next
  case (body_node e b m s ival)
  note c = cells_halves [OF body_node(3,4), where ival = ival]
  have "body I_mid u b m" using body_node(8) agree_mono [OF body_node(10) c(1)] by blast
  moreover have "u (m - 1 + d) = red b m" using body_node(6,10) c(4) by (simp add: agree_def)
  moreover have "body (r_child_of ival) u m e" using body_node(9) agree_mono [OF body_node(10) c(3)] by blast
  ultimately show ?case by (rule body.body_node [OF body_node(1-4) _ _ _])
qed

lemma tail_cong: "tail ival s b e se \<Longrightarrow> agree (cells ival b e) s u \<Longrightarrow> tail ival u b e se"
proof (induction rule: tail.induct)
  case (tail_left m b e ival s se)
  from tail_bounds [OF tail_left(3)] have "b < m" by simp
  note c = cells_halves [OF this tail_left(2), where ival = ival]
  have "tail (l_child_of ival) u b m se" using tail_left(6) agree_mono [OF tail_left(7) c(2)] by blast
  moreover have "u (m - 1 + d) = pre (m - 1)" using tail_left(4,7) c(4) by (simp add: agree_def)
  moreover have "body (r_child_of ival) u m e" using body_cong [OF tail_left(5)] agree_mono [OF tail_left(7) c(3)] by blast
  ultimately show ?case by (rule tail.tail_left [OF tail_left(1,2)])
next
  case (tail_mid m b e ival s)
  note c = cells_halves [OF tail_mid(2,3), where ival = ival]
  have "body (r_child_of ival) u m e" using body_cong [OF tail_mid(4)] agree_mono [OF tail_mid(5) c(3)] by blast
  then show ?case by (rule tail.tail_mid [OF tail_mid(1-3)])
next
  case (tail_right m b e ival s se)
  from tail_bounds [OF tail_right(3)] have "m < e" by simp
  note c = cells_halves [OF tail_right(2) this, where ival = ival]
  have "tail (r_child_of ival) u m e se" using tail_right(4) agree_mono [OF tail_right(5) c(3)] by blast
  then show ?case by (rule tail.tail_right [OF tail_right(1,2)])
qed

lemma sep: "ok \<Longrightarrow> i \<in> {T..<E} \<Longrightarrow> j \<in> {T..<E} \<Longrightarrow> i = j + d \<Longrightarrow> i = j"
  using places by (auto simp: in_place_or_apart_def)

lemma red_split: "ok \<Longrightarrow> a < m \<Longrightarrow> m < b \<Longrightarrow> f (red a m) (red m b) = red a b"
  unfolding red_def using fns fold_val_split computes_def by metis

lemma pre_split: "ok \<Longrightarrow> T < b \<Longrightarrow> b < e \<Longrightarrow> f (pre (b - 1)) (red b e) = pre (e - 1)"
  using red_split [of T b e] by (simp add: pre_def red_def)

lemma red_one [simp]: "red b (b + 1) = g (s0 b)"
  by (simp add: red_def)

lemma pre_T [simp]: "pre T = g (s0 T)"
  by (simp add: pre_def)

lemma bop_ok: "ok \<Longrightarrow> bop_app bop a b = Inr v \<Longrightarrow> v = f a b"
  using fns by (auto simp: computes_def)

lemma proj_ok: "ok \<Longrightarrow> proj v = Inr p \<Longrightarrow> p = g v"
  using fns by (auto simp: computes_def)

lemma threw_proj: "i \<in> {T..<E} \<Longrightarrow> proj (s0 i) = Inl er \<Longrightarrow> threw er"
  by (auto simp: threw_def)

lemma threw_bop: "bop_app bop a b = Inl er \<Longrightarrow> threw er"
  by (auto simp: threw_def)

lemma bop_sync: "ok \<Longrightarrow> bop_app bop a b = Inl er \<Longrightarrow> \<not> is_async bop"
  using fns by (auto simp: computes_def)

lemma scanned_append: "scanned s b m \<Longrightarrow> scanned s m e \<Longrightarrow> scanned s b e"
  by (auto simp: scanned_def)

lemma scanned_one: "scanned s b (b + 1) \<longleftrightarrow> s (b + d) = pre b"
proof -
  have "{b..<b + 1} = {b}" by auto
  then show ?thesis by (simp add: scanned_def)
qed

text \<open>The loops over a chunk.\<close>

lemma scan_loop_must:
  assumes ok "T < b" "b + int m \<le> E" "acc = pre (b - 1)" "intact s b (b + int m)"
  shows "must (\<lambda>x s'. case x of Inl er \<Rightarrow> threw er | Inr r' \<Rightarrow> r' = r \<and> scanned s' b (b + int m))
     (scan_loop bop proj r acc b (b + d) m) s"
  using assms(2-)
proof (induction m arbitrary: b acc s)
  case 0
  then show ?case by (simp add: scanned_def)
next
  case (Suc m)
  have b: "b \<in> {T..<E}" and sb: "s b = s0 b" using Suc.prems by (auto simp: intact_def)
  show ?case
  proof (cases "proj (s0 b)")
    case (Inl er)
    with sb threw_proj [OF b] show ?thesis by simp
  next
    case (Inr p)
    with proj_ok [OF assms(1)] have p: "p = g (s0 b)" by blast
    show ?thesis
    proof (cases "bop_app bop acc p")
      case (Inl er)
      with Inr sb bop_sync [OF assms(1)] threw_bop show ?thesis by simp
    next
      case v: (Inr v)
      let ?s = "s(b + d := v)"
      have vp: "v = pre b"
        using bop_ok [OF assms(1) v] pre_split [OF assms(1), of b "b + 1"] Suc.prems(1,3) p by simp
      have rest: "intact ?s (b + 1) (b + 1 + int m)"
        unfolding intact_def
      proof
        fix i assume i: "i \<in> {b + 1..<b + 1 + int m}"
        then have "i \<in> {T..<E}" "i \<noteq> b" using Suc.prems(1,2) by auto
        with sep [OF assms(1) _ b] have "i \<noteq> b + d" by blast
        then show "?s i = s0 i" using Suc.prems(4) i by (simp add: intact_def)
      qed
      have "must (\<lambda>x s'. case x of Inl er \<Rightarrow> threw er | Inr r' \<Rightarrow> r' = r \<and> scanned s' (b + 1) (b + 1 + int m))
          (scan_loop bop proj r v (b + 1) (b + 1 + d) m) ?s"
        by (rule Suc.IH [OF _ _ _ rest]) (use Suc.prems(1,2) vp in auto)
      from must_frame [OF this scan_loop_within]
      have "must (\<lambda>x s'. case x of Inl er \<Rightarrow> threw er | Inr r' \<Rightarrow> r' = r \<and> scanned s' b (b + int (Suc m)))
          (scan_loop bop proj r v (b + 1) (b + 1 + d) m) ?s"
      proof (rule must_mono, goal_cases)
        case (1 x s')
        then have "agree (- {b + 1 + d..<b + 1 + d + int m}) ?s s'" by simp
        then have "?s (b + d) = s' (b + d)" unfolding agree_def by (rule bspec) simp
        then have "s' (b + d) = v" by simp
        then have "scanned s' b (b + 1)" by (simp add: scanned_one vp)
        with 1 scanned_append [of s' b "b + 1" "b + 1 + int m"] show ?case by (auto simp: add_ac split: sum.splits)
      qed
      with Inr v sb show ?thesis by (simp add: add_ac)
    qed
  qed
qed

lemma reduce_loop_must:
  assumes ok "T \<le> a" "a < b" "b + int m \<le> E" "acc = red a b" "intact s b (b + int m)"
    and ends: "\<And>v. v = red a (b + int m) \<Longrightarrow> must Q (k v) s" and exn: "\<And>er. threw er \<Longrightarrow> Q (Inl er) s"
  shows "must Q (reduce_loop bop proj acc b m k) s"
  using assms(3-7)
proof (induction m arbitrary: b acc)
  case 0
  then show ?case by simp
next
  case (Suc m)
  have b: "b \<in> {T..<E}" and sb: "s b = s0 b" using Suc.prems assms(2) by (auto simp: intact_def)
  show ?case
  proof (cases "proj (s0 b)")
    case (Inl er)
    with sb threw_proj [OF b] exn show ?thesis by simp
  next
    case (Inr p)
    with proj_ok [OF assms(1)] have p: "p = g (s0 b)" by blast
    show ?thesis
    proof (cases "bop_app bop acc p")
      case (Inl er)
      with Inr sb bop_sync [OF assms(1)] threw_bop exn show ?thesis by simp
    next
      case v: (Inr v)
      have "v = red a (b + 1)"
        using bop_ok [OF assms(1) v] red_split [OF assms(1), of a b "b + 1"] Suc.prems(1,3) p by simp
      moreover have "intact s (b + 1) (b + 1 + int m)" using Suc.prems(4) by (auto simp: intact_def)
      ultimately have "must Q (reduce_loop bop proj v (b + 1) m k) s"
        using Suc.IH [of "b + 1" v] Suc.prems by (simp add: add_ac)
      with Inr v sb show ?thesis by simp
    qed
  qed
qed

section \<open>The rising sweep\<close>

definition rise_pre :: "interval \<Rightarrow> op \<Rightarrow> int \<Rightarrow> int \<Rightarrow> (int \<Rightarrow> 'v) \<Rightarrow> bool" where
  "rise_pre ival op b e s \<longleftrightarrow> T \<le> b \<and> b < e \<and> e \<le> E \<and> intact s b e
     \<and> (if ival = I_mid \<or> ival = I_rhs then T < b \<and> (op = Op_scan \<longrightarrow> s (b - 1 + d) = pre (b - 1))
        else b = T \<and> op = Op_scan)"

definition rise_post :: "interval \<Rightarrow> op \<Rightarrow> int \<Rightarrow> int \<Rightarrow> 'e + int option \<Rightarrow> (int \<Rightarrow> 'v) \<Rightarrow> bool" where
  "rise_post ival op b e x s \<longleftrightarrow> (case x of
      Inl er \<Rightarrow> threw er
    | Inr r \<Rightarrow>
        if op = Op_fold then r = None \<and> body ival s b e \<and> (ival = I_mid \<longrightarrow> s (e - 1 + d) = red b e)
        else (\<exists>se. r = Some se \<and> b < se \<and> se \<le> e \<and> scanned s b se
          \<and> (se < e \<longrightarrow> tail ival s b e se \<and> (ival = I_lhs \<or> ival = I_mid \<longrightarrow> s (e - 1 + d) = pre (e - 1)))))"

lemma rise_post_throw [simp]: "rise_post ival op b e (Inl er) s \<longleftrightarrow> threw er"
  by (simp add: rise_post_def)

lemma rise_chunk_must:
  assumes ok and pre: "rise_pre ival op b e s" and sz: "e - b \<le> n"
  shows "must (rise_post ival op b e) (rise_chunk ival op bop proj b e (b + d)) s"
proof -
  have be: "T \<le> b" "b < e" "e \<le> E" and inp: "intact s b e" using pre by (auto simp: rise_pre_def)
  have b: "b \<in> {T..<E}" "s b = s0 b" using be inp by (auto simp: intact_def)
  show ?thesis
  proof (cases op)
    case Op_fold
    then consider "ival = I_mid" | "ival = I_rhs" using pre by (auto simp: rise_pre_def split: if_splits)
    then show ?thesis
    proof cases
      case 1
      have fin: "must (rise_post I_mid Op_fold b e) (write_at (b + d + (e - b) - 1) v (Done (Inr None))) s" if "v = red b e" for v
      proof -
        have "intact (s(e - 1 + d := v)) b (e - 1)"
          unfolding intact_def
        proof
          fix i assume i: "i \<in> {b..<e - 1}"
          then have "i \<noteq> e - 1 + d" using sep [OF assms(1), of i "e - 1"] be by auto
          with i inp show "(s(e - 1 + d := v)) i = s0 i" by (simp add: intact_def)
        qed
        then have "body I_mid (s(e - 1 + d := v)) b e" by (intro body_chunk be(2) sz) (simp add: lim_def)
        with that show ?thesis by (simp add: rise_post_def algebra_simps)
      qed
      show ?thesis
      proof (cases "proj (s0 b)")
        case (Inl er)
        with threw_proj [OF b(1)] b(2) 1 Op_fold show ?thesis by (simp add: rise_chunk_def Let_def)
      next
        case (Inr p)
        with proj_ok [OF assms(1)] have p: "p = red b (b + 1)" by simp
        have e: "b + 1 + int (nat (e - (b + 1))) = e" using be by simp
        have "must (rise_post I_mid Op_fold b e) (reduce_loop bop proj p (b + 1) (nat (e - (b + 1)))
            (\<lambda>acc. write_at (b + d + (e - b) - 1) acc (Done (Inr None)))) s"
        proof (rule reduce_loop_must [OF assms(1) be(1) _ _ p])
          show "intact s (b + 1) (b + 1 + int (nat (e - (b + 1))))" unfolding e using inp by (auto simp: intact_def)
        qed (use be e fin in auto)
        with Inr b(2) 1 Op_fold show ?thesis by (simp add: rise_chunk_def Let_def)
      qed
    next
      case 2
      then have "body I_rhs s b e" using be(2) sz inp by (intro body_chunk) (auto simp: lim_def)
      with 2 Op_fold show ?thesis by (simp add: rise_chunk_def rise_post_def Let_def)
    qed
  next
    case Op_scan
    have scan_all: "must (rise_post ival Op_scan b e) (scan_loop bop proj (Some e) acc (b + k) (b + k + d) (nat (e - (b + k)))) u"
      if "T < b + k" "0 \<le> k" "b + k \<le> e" "acc = pre (b + k - 1)" "intact u (b + k) e" "scanned u b (b + k)" for k u acc
    proof -
      have e: "b + k + int (nat (e - (b + k))) = e" using that by simp
      have "must (\<lambda>x s'. case x of Inl er \<Rightarrow> threw er | Inr r' \<Rightarrow> r' = Some e \<and> scanned s' (b + k) e)
          (scan_loop bop proj (Some e) acc (b + k) (b + k + d) (nat (e - (b + k)))) u"
        using scan_loop_must [OF assms(1) that(1) _ that(4), of "nat (e - (b + k))" u "Some e"] that(5) be(3) unfolding e by simp
      from must_frame [OF this scan_loop_within] show ?thesis
      proof (rule must_mono, goal_cases)
        case (1 x s')
        then have "scanned s' b (b + k)" using that(6) by (auto simp: scanned_def agree_def)
        with 1 be(2) that(2,3) show ?case
          by (auto simp: rise_post_def scanned_def split: sum.splits)
      qed
    qed
    consider "ival = I_mid \<or> ival = I_rhs" | "\<not> (ival = I_mid \<or> ival = I_rhs)" "b = T" using pre by (auto simp: rise_pre_def)
    then show ?thesis
    proof cases
      case 1
      then have "T < b" "s (b - 1 + d) = pre (b - 1)" using pre Op_scan by (auto simp: rise_pre_def)
      with scan_all [of 0 "s (b - 1 + d)" s] be inp 1 Op_scan show ?thesis
        by (simp add: rise_chunk_def Let_def scanned_def algebra_simps)
    next
      case 2
      show ?thesis
      proof (cases "proj (s0 b)")
        case (Inl er)
        with threw_proj [OF b(1)] b(2) 2 Op_scan show ?thesis by (simp add: rise_chunk_def Let_def)
      next
        case (Inr p)
        with proj_ok [OF assms(1)] 2 have p: "p = pre b" by simp
        let ?u = "s(b + d := p)"
        have "intact ?u (b + 1) e"
          unfolding intact_def
        proof
          fix i assume i: "i \<in> {b + 1..<e}"
          then have "i \<noteq> b + d" using sep [OF assms(1) _ b(1), of i] be by auto
          with i inp show "?u i = s0 i" by (simp add: intact_def)
        qed
        moreover have "scanned ?u b (b + 1)" by (simp add: scanned_one p)
        ultimately have "must (rise_post ival Op_scan b e) (scan_loop bop proj (Some e) p (b + 1) (b + 1 + d) (nat (e - (b + 1)))) ?u"
          using scan_all [of 1 p ?u] be p 2 by simp
        with Inr b(2) 2 Op_scan show ?thesis by (simp add: rise_chunk_def Let_def add_ac)
      qed
    qed
  qed
qed

text \<open>After the join of a node.\<close>

lemma combine_must:
  assumes ok "s l = x" "s r = y" "must Q k (s(r := f x y))" "\<And>er. threw er \<Longrightarrow> Q (Inl er) s"
  shows "must Q (combine_into bop l r k) s"
proof (cases "bop_app bop x y")
  case (Inl er)
  with assms bop_sync threw_bop show ?thesis by (simp add: combine_into_def)
next
  case (Inr v)
  with bop_ok [OF assms(1)] have "v = f x y" by blast
  with assms Inr show ?thesis by (simp add: combine_into_def)
qed

lemma cells_last:
  assumes ok "T \<le> b" "e \<le> E" "b < e" "lim ival e = e - 1"
  shows "agree (cells ival b e) s (s(e - 1 + d := v))"
  unfolding agree_def
proof
  fix k assume k: "k \<in> cells ival b e"
  have "k \<noteq> e - 1 + d"
  proof
    assume "k = e - 1 + d"
    with k assms(5) have "k \<in> {b..<e - 1}" by (auto simp: cells_def)
    with sep [OF assms(1), of k "e - 1"] \<open>k = e - 1 + d\<close> assms(2-4) show False by auto
  qed
  then show "s k = (s(e - 1 + d := v)) k" by simp
qed

lemma after_scan_must:
  assumes ok and T: "T \<le> b" "e \<le> E" and m: "m = b + (e - b) div 2" "b < m" "m < e"
    and se: "b < se" "se \<le> m" "scanned s b se" "se < m \<longrightarrow> tail (l_child_of ival) s b m se" "s (m - 1 + d) = pre (m - 1)"
    and r: "body (r_child_of ival) s m e" "r_child_of ival = I_mid \<longrightarrow> s (e - 1 + d) = red m e"
  shows "must (rise_post ival Op_scan b e) (rise_after ival Op_scan bop (e - b) (m - b) (b + d) (Some se)) s"
proof -
  have tl: "tail ival u b e se" if "agree (cells ival b e) s u" for u
  proof (cases "se = m")
    case True
    have "tail ival s b e m" by (rule tail_mid [OF m r(1)])
    with True that tail_cong show ?thesis by blast
  next
    case False
    with se have "tail ival s b e se" using tail_left [OF m(1,3) _ se(5) r(1)] by simp
    with that tail_cong show ?thesis by blast
  qed
  show ?thesis
  proof (cases "ival = I_lhs \<or> ival = I_mid")
    case False
    then have "rise_post ival Op_scan b e (Inr (Some se)) s"
      using se(1-3) m(3) tl [of s] by (auto simp: rise_post_def)
    with False show ?thesis by (simp add: rise_after_def Let_def)
  next
    case True
    then have mid: "r_child_of ival = I_mid" "lim ival e = e - 1" by (auto simp: lim_def)
    let ?v = "f (pre (m - 1)) (red m e)"
    let ?u = "s(e - 1 + d := ?v)"
    have "scanned ?u b se" using se(2,3) m(3) by (auto simp: scanned_def)
    moreover have "tail ival ?u b e se" by (rule tl [OF cells_last]) (use assms(1) T m mid in auto)
    moreover have "?v = pre (e - 1)" using pre_split [OF assms(1), of m e] T m by simp
    ultimately have "rise_post ival Op_scan b e (Inr (Some se)) ?u"
      using se(1,2) m(3) by (auto simp: rise_post_def)
    then have "must (rise_post ival Op_scan b e) (combine_into bop (m - 1 + d) (e - 1 + d) (Done (Inr (Some se)))) s"
      by (intro combine_must [where x = "pre (m - 1)" and y = "red m e", OF assms(1)]) (use se(5) r(2) mid in auto)
    with True show ?thesis by (simp add: rise_after_def Let_def algebra_simps)
  qed
qed

lemma after_fold_must:
  assumes ok and T: "T \<le> b" "e \<le> E" and ival: "ival = I_mid \<or> ival = I_rhs" and n: "\<not> e - b \<le> n"
    and m: "m = b + (e - b) div 2" "b < m" "m < e"
    and l: "body I_mid s b m" "s (m - 1 + d) = red b m"
    and r: "body (r_child_of ival) s m e" "r_child_of ival = I_mid \<longrightarrow> s (e - 1 + d) = red m e"
  shows "must (rise_post ival Op_fold b e) (rise_after ival Op_fold bop (e - b) (m - b) (b + d) z) s"
proof -
  have bd: "body ival s b e" by (rule body_node [OF n m l r(1)])
  show ?thesis
  proof (cases "ival = I_mid")
    case False
    with ival bd show ?thesis by (auto simp: rise_after_def Let_def rise_post_def)
  next
    case True
    let ?v = "f (red b m) (red m e)"
    have "body ival (s(e - 1 + d := ?v)) b e"
      by (rule body_cong [OF bd cells_last]) (use assms(1) T m True in \<open>auto simp: lim_def\<close>)
    then have "rise_post ival Op_fold b e (Inr None) (s(e - 1 + d := ?v))"
      using red_split [OF assms(1), of b m e] m True by (simp add: rise_post_def)
    then have "must (rise_post ival Op_fold b e) (combine_into bop (m - 1 + d) (e - 1 + d) (Done (Inr None))) s"
      by (intro combine_must [where x = "red b m" and y = "red m e", OF assms(1)]) (use l(2) r(2) True in auto)
    with True show ?thesis by (simp add: rise_after_def Let_def algebra_simps)
  qed
qed

text \<open>The halves of a node do not disturb each other.\<close>

lemma apart_halves:
  assumes ok "T \<le> b" "b < m" "m < e" "e \<le> E" "X \<subseteq> {b + d - 1}"
  shows "apart_fp ({b..<m} \<union> X) {b + d..<m + d} {m..<e} {m + d..<e + d}"
proof -
  have "{b + d..<m + d} \<inter> {m..<e} = {}"
  proof (safe, goal_cases)
    case (1 k)
    then have "k \<in> {T..<E}" "k - d \<in> {T..<E}" "k - d < m" "m \<le> k" using assms by auto
    with sep [OF assms(1), of k "k - d"] show ?case by auto
  qed
  moreover have "{m + d..<e + d} \<inter> {b..<m} = {}"
  proof (safe, goal_cases)
    case (1 k)
    then have "k \<in> {T..<E}" "k - d \<in> {T..<E}" "m \<le> k - d" "k < m" using assms by auto
    with sep [OF assms(1), of k "k - d"] show ?case by auto
  qed
  moreover have "{b + d..<m + d} \<inter> {m + d..<e + d} = {}" "{m + d..<e + d} \<inter> X = {}" using assms by auto
  ultimately show ?thesis unfolding apart_fp_def by blast
qed

lemma cells_whole: "b \<le> e \<Longrightarrow> cells ival b e \<subseteq> {b..<e} \<union> {b + d..<e + d}"
  using lim_bounds [where e = e and ival = ival] by (auto simp: cells_def)

lemma rise_post_cong:
  assumes "agree ({b..<e} \<union> {b + d..<e + d}) s u" "b < e" "rise_post ival op b e x s"
  shows "rise_post ival op b e x u"
proof -
  have c: "agree (cells ival b e) s u" using agree_mono [OF assms(1) cells_whole] assms(2) by simp
  have last: "u (e - 1 + d) = s (e - 1 + d)" using assms(1,2) by (simp add: agree_def)
  have sc: "scanned u b se" if "scanned s b se" "se \<le> e" for se
    using that assms(1) by (auto simp: scanned_def agree_def)
  show ?thesis
  proof (cases x)
    case (Inr r)
    show ?thesis
    proof (cases op)
      case Op_fold
      with assms(3) Inr body_cong [OF _ c] last show ?thesis by (auto simp: rise_post_def)
    next
      case Op_scan
      with assms(3) Inr obtain se where "r = Some se" "b < se" "se \<le> e" "scanned s b se"
        "se < e \<longrightarrow> tail ival s b e se \<and> (ival = I_lhs \<or> ival = I_mid \<longrightarrow> s (e - 1 + d) = pre (e - 1))"
        by (auto simp: rise_post_def)
      with Op_scan Inr sc tail_cong [OF _ c] last show ?thesis by (auto simp: rise_post_def)
    qed
  qed (use assms(3) in simp)
qed

lemma scan_post_last:
  assumes "rise_post ival Op_scan b e (Inr r) s" "ival = I_lhs \<or> ival = I_mid"
  shows "s (e - 1 + d) = pre (e - 1)"
proof -
  from assms obtain se where "b < se" "se \<le> e" "scanned s b se" "se < e \<longrightarrow> s (e - 1 + d) = pre (e - 1)"
    by (auto simp: rise_post_def)
  then show ?thesis by (cases "se = e") (auto simp: scanned_def)
qed

lemma rise_fused:
  assumes m: "m = b + (e - b) div 2" "b < m" "scanned s b m" and r: "rise_post (r_child_of ival) Op_scan m e x s"
  shows "rise_post ival Op_scan b e x s"
proof (cases x)
  case (Inr z)
  with r obtain se where se: "z = Some se" "m < se" "se \<le> e" "scanned s m se" and
    tl: "se < e \<longrightarrow> tail (r_child_of ival) s m e se \<and> (r_child_of ival = I_lhs \<or> r_child_of ival = I_mid \<longrightarrow> s (e - 1 + d) = pre (e - 1))"
    by (auto simp: rise_post_def)
  have "scanned s b se" by (rule scanned_append [OF m(3) se(4)])
  moreover have "se < e \<longrightarrow> tail ival s b e se" using tail_right [OF m(1,2)] tl by blast
  moreover have "ival = I_lhs \<or> ival = I_mid \<longrightarrow> r_child_of ival = I_mid" by auto
  ultimately show ?thesis using Inr se m(2) tl by (auto simp: rise_post_def)
qed (use r in simp)

lemma rise_joined:
  assumes ok and T: "T \<le> b" "e \<le> E" and n: "\<not> e - b \<le> n" and m: "m = b + (e - b) div 2" "b < m" "m < e"
    and ival: "op = Op_fold \<Longrightarrow> ival = I_mid \<or> ival = I_rhs"
    and l: "rise_post (l_child_of ival) op b m (Inr a) s1" and r: "rise_post (r_child_of ival) Op_fold m e (Inr z) s2"
    and mg: "merged {b + d..<m + d} {m + d..<e + d} s1 s2 u"
  shows "must (rise_post ival op b e) (rise_after ival op bop (e - b) (m - b) (b + d) a) u"
proof -
  have ap: "apart_fp ({b..<m} \<union> {}) {b + d..<m + d} {m..<e} {m + d..<e + d}"
    by (rule apart_halves) (use assms(1) T m in auto)
  have "agree ({b..<m} \<union> {b + d..<m + d}) s1 u" "agree ({m..<e} \<union> {m + d..<e + d}) s2 u"
    using merged_reads [OF ap mg] merged_reads [OF ap [unfolded apart_sym [of "{b..<m} \<union> {}"]] mg [unfolded merged_sym [of "{b + d..<m + d}"]]]
    by (simp_all add: agree_def)
  then have L: "rise_post (l_child_of ival) op b m (Inr a) u" and R: "rise_post (r_child_of ival) Op_fold m e (Inr z) u"
    using rise_post_cong l r m by blast+
  from R have rb: "body (r_child_of ival) u m e" "r_child_of ival = I_mid \<longrightarrow> u (e - 1 + d) = red m e" by (auto simp: rise_post_def)
  have lc: "l_child_of ival = I_lhs \<or> l_child_of ival = I_mid" by (cases ival) auto
  show ?thesis
  proof (cases op)
    case Op_scan
    with L obtain se where se: "a = Some se" "b < se" "se \<le> m" "scanned u b se" "se < m \<longrightarrow> tail (l_child_of ival) u b m se"
      by (auto simp: rise_post_def)
    have "u (m - 1 + d) = pre (m - 1)" using scan_post_last [OF L [unfolded Op_scan]] lc by blast
    from after_scan_must [OF assms(1) T m se(2-5) this rb] se(1) Op_scan show ?thesis by simp
  next
    case Op_fold
    with ival have iv: "ival = I_mid \<or> ival = I_rhs" by blast
    then have "l_child_of ival = I_mid" by auto
    with L Op_fold have "body I_mid u b m" "u (m - 1 + d) = red b m" by (auto simp: rise_post_def)
    from after_fold_must [OF assms(1) T iv n m this rb] Op_fold show ?thesis by simp
  qed
qed

lemma intact_frame:
  assumes ok "T \<le> b" "b < m" "m < e" "e \<le> E" "intact s b e" "agree (- {b + d..<m + d}) s u"
  shows "intact u m e"
  unfolding intact_def
proof
  fix i assume i: "i \<in> {m..<e}"
  have "apart_fp ({b..<m} \<union> {}) {b + d..<m + d} {m..<e} {m + d..<e + d}"
    by (rule apart_halves) (use assms in auto)
  with i have "i \<notin> {b + d..<m + d}" unfolding apart_fp_def by blast
  with assms(7) have "u i = s i" by (simp add: agree_def)
  with assms(3,6) i show "u i = s0 i" by (simp add: intact_def)
qed

lemma rise_must:
  assumes ok "rise_pre ival op b e s"
  shows "must (rise_post ival op b e) (rise_sweep ival op left0 n bop proj b e (b + d)) s"
  using assms(2)
proof (induction "nat (e - b)" arbitrary: ival op b e s rule: less_induct)
  case less
  define m where "m = b + (e - b) div 2"
  have be: "T \<le> b" "b < e" "e \<le> E" "intact s b e" using less.prems by (auto simp: rise_pre_def)
  show ?case
  proof (cases "e - b \<le> n")
    case True
    have "rise_sweep ival op left0 n bop proj b e (b + d) = rise_chunk ival op bop proj b e (b + d)"
      using be True by (subst rise_sweep.simps) (simp add: Let_def)
    with rise_chunk_must [OF assms(1) less.prems True] show ?thesis by simp
  next
    case n: False
    then have m: "b < m" "m < e" using half_between [of b e] chunk [OF assms(1)] by (auto simp: m_def)
    let ?L = "rise_sweep (l_child_of ival) op left0 n bop proj b m (b + d)"
    let ?R = "rise_sweep (r_child_of ival) Op_fold left0 n bop proj m e (m + d)"
    let ?k = "\<lambda>l _. rise_after ival op bop (e - b) (m - b) (b + d) l"
    have rc: "r_child_of ival = I_mid \<or> r_child_of ival = I_rhs" by (cases ival) auto
    have iv: "ival = I_mid \<or> ival = I_rhs" if "op = Op_fold" using less.prems that by (auto simp: rise_pre_def split: if_splits)
    have L: "must (rise_post (l_child_of ival) op b m) ?L s"
      by (rule less.hyps) (use m be less.prems in \<open>cases ival; auto simp: rise_pre_def intact_def\<close>)+
    have R: "must (rise_post (r_child_of ival) o' m e) (rise_sweep (r_child_of ival) o' left0 n bop proj m e (m + d)) u"
      if "agree (- {b + d..<m + d}) s u" "o' = Op_scan \<Longrightarrow> u (m - 1 + d) = pre (m - 1)" for u o'
      by (rule less.hyps) (use m be rc that intact_frame [OF assms(1) be(1) m be(3,4) that(1)] in \<open>auto simp: rise_pre_def\<close>)
    have wL: "within ({b..<m} \<union> reads_left (l_child_of ival) op (b + d)) {b + d..<m + d} ?L" by (rule rise_within)
    have wR: "within {m..<e} {m + d..<e + d} ?R" using rise_within [of m e "r_child_of ival" Op_fold d] by (simp add: reads_left_def)
    have ap: "apart_fp ({b..<m} \<union> reads_left (l_child_of ival) op (b + d)) {b + d..<m + d} {m..<e} {m + d..<e + d}"
      by (rule apart_halves) (use assms(1) be m in \<open>auto simp: reads_left_def\<close>)
    have joined: "must (rise_post ival op b e) (rise_after ival op bop (e - b) (m - b) (b + d) a) u"
      if "rise_post (l_child_of ival) op b m (Inr a) s1" "rise_post (r_child_of ival) Op_fold m e (Inr z) s2"
        "merged {b + d..<m + d} {m + d..<e + d} s1 s2 u" for a z s1 s2 u
      by (rule rise_joined [OF assms(1) be(1,3) n m_def m iv that])
    show ?thesis
    proof (cases op)
      case Op_fold
      show ?thesis unfolding Op_fold rise_node(2) [OF n m_def m]
        by (rule must_fork_join [OF L [unfolded Op_fold] R [OF agree_refl] wL [unfolded Op_fold] wR ap [unfolded Op_fold]])
          (use joined [unfolded Op_fold] Op_fold in auto)
    next
      case Op_scan
      have ready: "must (rise_post ival Op_scan b e)
          (if a = Some m then rise_sweep (r_child_of ival) Op_scan left0 n bop proj m e (m + d)
           else Fork_join None (Done (Inr a)) ?R (\<lambda>l _. rise_after ival Op_scan bop (e - b) (m - b) (b + d) l)) u"
        if a: "rise_post (l_child_of ival) Op_scan b m (Inr a) u" "agree (- {b + d..<m + d}) s u" for a u
      proof (cases "a = Some m")
        case True
        with a(1) have sc: "scanned u b m" by (auto simp: rise_post_def)
        then have "u (m - 1 + d) = pre (m - 1)" using m by (auto simp: scanned_def)
        from must_frame [OF R [OF a(2) this] rise_within]
        have "must (rise_post ival Op_scan b e) (rise_sweep (r_child_of ival) Op_scan left0 n bop proj m e (m + d)) u"
        proof (rule must_mono, goal_cases)
          case (1 x u')
          then have "scanned u' b m" using sc by (auto simp: scanned_def agree_def)
          with 1 rise_fused [OF m_def m(1)] show ?case by blast
        qed
        with True show ?thesis by simp
      next
        case False
        have D: "must (\<lambda>y v. y = Inr a \<and> v = u) (Done (Inr a)) u" by simp
        have "must (rise_post ival Op_scan b e) (Fork_join None (Done (Inr a)) ?R
            (\<lambda>l _. rise_after ival Op_scan bop (e - b) (m - b) (b + d) l)) u"
          by (rule must_fork_join [OF D R [OF a(2)] within_done wR ap]) (use joined [unfolded Op_scan] a(1) in auto)
        with False show ?thesis by simp
      qed
      have lost: "must (rise_post ival Op_scan b e)
          (if left0 b e = m then Abort else Fork_join (Some er) (Done (Inr (Some (left0 b e)))) ?R
            (\<lambda>l _. rise_after ival Op_scan bop (e - b) (m - b) (b + d) l)) u"
        if er: "rise_post (l_child_of ival) Op_scan b m (Inl er) u" "agree (- {b + d..<m + d}) s u" for er u
      proof -
        have "left0 b e \<noteq> m" using outside [OF assms(1), rule_format, of b e] be(1,3) m by auto
        have D: "must (\<lambda>y v. True) (Done (Inr (Some (left0 b e)))) u" by simp
        have "must (rise_post ival Op_scan b e) (Fork_join (Some er) (Done (Inr (Some (left0 b e)))) ?R
            (\<lambda>l _. rise_after ival Op_scan bop (e - b) (m - b) (b + d) l)) u"
          by (rule must_fork_join_some [OF D R [OF er(2)] within_done wR ap merged_refl])
            (use er(1) in \<open>auto simp: rise_post_def\<close>)
        with \<open>left0 b e \<noteq> m\<close> show ?thesis by simp
      qed
      show ?thesis unfolding Op_scan rise_node(1) [OF n m_def m]
        by (rule must_sync_fork [OF L [unfolded Op_scan] R [OF agree_refl] wL [unfolded Op_scan] wR ap [unfolded Op_scan]])
          (use ready lost joined [unfolded Op_scan] in auto)
    qed
  qed
qed

section \<open>The falling sweep\<close>

definition fall_post :: "interval \<Rightarrow> int \<Rightarrow> int \<Rightarrow> 'e + int option \<Rightarrow> (int \<Rightarrow> 'v) \<Rightarrow> bool" where
  "fall_post ival b e x s \<longleftrightarrow> (case x of Inl er \<Rightarrow> threw er | Inr _ \<Rightarrow> scanned s b (lim ival e))"

lemma fall_apart:
  assumes ok "T \<le> b" "b < m" "m < e" "e \<le> E" "L \<le> e" "W1 \<subseteq> {b + d..<m - 1 + d}"
  shows "apart_fp ({b..<m - 1} \<union> {b + d - 1..<m - 1 + d}) W1 ({m..<L} \<union> {m + d - 1}) {m + d..<L + d}"
proof -
  have "apart_fp ({b..<m} \<union> {}) {b + d..<m + d} {m..<e} {m + d..<e + d}"
    by (rule apart_halves) (use assms in auto)
  then have "{b + d..<m + d} \<inter> {m..<e} = {}" "{m + d..<e + d} \<inter> {b..<m} = {}" unfolding apart_fp_def by blast+
  moreover have "{m..<L} \<subseteq> {m..<e}" "{m + d..<L + d} \<subseteq> {m + d..<e + d}" "{b..<m - 1} \<subseteq> {b..<m}"
    "{b + d..<m - 1 + d} \<subseteq> {b + d..<m + d}" using assms by auto
  moreover have "{b + d..<m - 1 + d} \<inter> ({m + d - 1} \<union> {m + d..<L + d}) = {}" "{m + d..<L + d} \<inter> {b + d - 1..<m - 1 + d} = {}"
    by auto
  ultimately show ?thesis using assms(7) unfolding apart_fp_def by blast
qed

lemma fall_joined:
  assumes "W1 \<subseteq> {b + d..<m - 1 + d}" "merged W1 {m + d..<L + d} s1 s2 v"
    and "scanned s1 b (m - 1)" "s1 (m - 1 + d) = pre (m - 1)" "scanned s2 m L"
  shows "scanned v b L"
  unfolding scanned_def
proof
  fix i assume i: "i \<in> {b..<L}"
  consider "i < m - 1" | "i = m - 1" | "m \<le> i" by linarith
  then show "v (i + d) = pre i"
  proof cases
    case 3
    then have "i + d \<notin> W1" using assms(1) by auto
    with assms(2) have "v (i + d) = s2 (i + d)" by (simp add: merged_def agree_def)
    with 3 i assms(5) show ?thesis by (simp add: scanned_def)
  qed (use i assms(2-4) in \<open>auto simp: merged_def agree_def scanned_def\<close>)
qed

lemma fall_impl_must:
  assumes ok "ival = I_mid \<or> ival = I_rhs" "T < b" "e \<le> E" "body ival s b e" "s (b - 1 + d) = pre (b - 1)"
  shows "must (fall_post ival b e) (fall_sweep_impl ival n bop proj b e (b + d)) s"
  using assms(2-)
proof (induction "nat (e - b)" arbitrary: ival b e s rule: less_induct)
  case less
  note T = less.prems(2,3) and iv = less.prems(1) and left = less.prems(5)
  have be: "b < e" by (rule body_nonempty [OF less.prems(4)])
  from less.prems(4) show ?case
  proof cases
    case body_chunk
    have L: "(if ival = I_rhs then e else b + (e - b) - 1) = lim ival e" "b \<le> lim ival e"
      using iv be by (auto simp: lim_def)
    have eq: "fall_sweep_impl ival n bop proj b e (b + d) =
        read_at (b + d - 1) Inr (\<lambda>acc. scan_loop bop proj None acc b (b + d) (nat (lim ival e - b)))"
      using be body_chunk(2) by (subst fall_sweep_impl.simps) (simp add: Let_def L(1))
    have "must (\<lambda>x s'. case x of Inl er \<Rightarrow> threw er | Inr r \<Rightarrow> r = None \<and> scanned s' b (b + int (nat (lim ival e - b))))
        (scan_loop bop proj None (s (b - 1 + d)) b (b + d) (nat (lim ival e - b))) s"
      by (rule scan_loop_must [OF assms(1) T(1) _ left]) (use L(2) body_chunk(3) T(2) lim_bounds(2) [of ival e] in auto)
    then have "must (fall_post ival b e) (scan_loop bop proj None (s (b - 1 + d)) b (b + d) (nat (lim ival e - b))) s"
      by (rule must_mono) (use L(2) in \<open>auto simp: fall_post_def split: sum.splits\<close>)
    then show ?thesis unfolding eq by (simp add: algebra_simps)
  next
    case (body_node m)
    note m = body_node(3,4)
    let ?u = "s(m - 1 + d := f (pre (b - 1)) (red b m))"
    let ?L = "fall_sweep_impl (l_child_of ival) n bop proj b m (b + d)"
    let ?R = "fall_sweep_impl (r_child_of ival) n bop proj m e (m + d)"
    have lc: "l_child_of ival = I_mid" and rc: "r_child_of ival = I_mid \<or> r_child_of ival = I_rhs" using iv by auto
    have um: "?u (m - 1 + d) = pre (m - 1)" using pre_split [OF assms(1) T(1) m(1)] by simp
    have "body I_mid ?u b m"
      by (rule body_cong [OF body_node(5) cells_last]) (use assms(1) T m in \<open>auto simp: lim_def\<close>)
    then have HL: "must (fall_post I_mid b m) ?L ?u"
      unfolding lc by (intro less.hyps) (use m T left in auto)
    have "agree (cells (r_child_of ival) m e) s ?u"
      unfolding agree_def
    proof
      fix k assume k: "k \<in> cells (r_child_of ival) m e"
      have "k \<noteq> m - 1 + d"
      proof
        assume eq: "k = m - 1 + d"
        with k have "k \<in> {m..<e}" using lim_bounds [where e = e and ival = ival] by (auto simp: cells_def)
        with sep [OF assms(1), of k "m - 1"] eq T m show False by auto
      qed
      then show "s k = ?u k" by simp
    qed
    then have "body (r_child_of ival) ?u m e" by (rule body_cong [OF body_node(7)])
    then have HR: "must (fall_post (r_child_of ival) m e) ?R ?u"
      by (intro less.hyps) (use m T um rc in auto)
    have wL: "within ({b..<m - 1} \<union> {b + d - 1..<m - 1 + d}) {b + d..<m - 1 + d} ?L"
      by (rule within_mono [OF fall_impl_within]) (use m in auto)
    have wR: "within ({m..<lim ival e} \<union> {m + d - 1}) {m + d..<lim ival e + d} ?R"
      using fall_impl_within [of m "r_child_of ival" e d] by simp
    have ap: "apart_fp ({b..<m - 1} \<union> {b + d - 1..<m - 1 + d}) {b + d..<m - 1 + d} ({m..<lim ival e} \<union> {m + d - 1}) {m + d..<lim ival e + d}"
      by (rule fall_apart [of b m e]) (use assms(1) T m lim_bounds in auto)
    have "must (fall_post ival b e) (Fork_join None ?L ?R (\<lambda>_ _. Done (Inr None))) ?u"
    proof (rule must_fork_join [OF must_frame [OF HL wL] HR wL wR ap], goal_cases)
      case (1 a z s1 s2 v)
      have "lim I_mid m = m - 1" by (simp add: lim_def)
      with 1 have "scanned s1 b (m - 1)" "scanned s2 m (lim ival e)" by (auto simp: fall_post_def)
      moreover from 1 have "agree (- {b + d..<m - 1 + d}) ?u s1" by simp
      then have "?u (m - 1 + d) = s1 (m - 1 + d)" unfolding agree_def by (rule bspec) simp
      with um have "s1 (m - 1 + d) = pre (m - 1)" by simp
      ultimately show ?case using fall_joined [OF order_refl 1(3)] by (simp add: fall_post_def)
    next
      case (2 er y z s1 s2 v)
      then show ?case by (auto simp: fall_post_def)
    qed
    then have "must (fall_post ival b e) (combine_into bop (b - 1 + d) (m - 1 + d) (Fork_join None ?L ?R (\<lambda>_ _. Done (Inr None)))) s"
      by (intro combine_must [where x = "pre (b - 1)" and y = "red b m", OF assms(1)])
        (use left body_node(6) in \<open>auto simp: fall_post_def\<close>)
    then show ?thesis unfolding fall_node [OF body_node(1-4)] .
  qed
qed

lemma fall_must:
  assumes ok "tail ival s b e se" "scanned s b se" "T \<le> b" "e \<le> E"
  shows "\<exists>t. fall_sweep ival n bop proj b e (b + d) se = Some t
     \<and> within ({b..<lim ival e} \<union> {b + d..<lim ival e + d}) {se + d..<lim ival e + d} t \<and> must (fall_post ival b e) t s"
  using assms(2-)
proof (induction rule: tail.induct)
  case (tail_left m b e ival s se)
  from tail_bounds [OF tail_left(3)] have se: "b < se" "se < m" by auto
  with tail_left obtain t where t: "fall_sweep (l_child_of ival) n bop proj b m (b + d) se = Some t"
    "within ({b..<m - 1} \<union> {b + d..<m - 1 + d}) {se + d..<m - 1 + d} t" "must (fall_post (l_child_of ival) b m) t s" by auto
  let ?R = "fall_sweep_impl (r_child_of ival) n bop proj m e (m + d)"
  have rc: "r_child_of ival = I_mid \<or> r_child_of ival = I_rhs" by (cases ival) auto
  have HR: "must (fall_post (r_child_of ival) m e) ?R s"
    by (rule fall_impl_must [OF assms(1) rc _ _ tail_left(5,4)]) (use se tail_left in auto)
  have wL: "within ({b..<m - 1} \<union> {b + d - 1..<m - 1 + d}) {se + d..<m - 1 + d} t"
    by (rule within_mono [OF t(2)]) auto
  have wR: "within ({m..<lim ival e} \<union> {m + d - 1}) {m + d..<lim ival e + d} ?R"
    using fall_impl_within [of m "r_child_of ival" e d] by simp
  have ap: "apart_fp ({b..<m - 1} \<union> {b + d - 1..<m - 1 + d}) {se + d..<m - 1 + d} ({m..<lim ival e} \<union> {m + d - 1}) {m + d..<lim ival e + d}"
    by (rule fall_apart [of b m e]) (use assms(1) se tail_left lim_bounds in auto)
  let ?t = "Fork_join None t ?R (\<lambda>_ _. Done (Inr None))"
  have "must (fall_post ival b e) ?t s"
  proof (rule must_fork_join [OF must_frame [OF t(3) wL] HR wL wR ap], goal_cases)
    case (1 a z s1 s2 v)
    then have "s1 (m - 1 + d) = pre (m - 1)" "scanned s1 b (m - 1)" "scanned s2 m (lim ival e)"
      using tail_left(4) by (auto simp: agree_def fall_post_def)
    moreover have "{se + d..<m - 1 + d} \<subseteq> {b + d..<m - 1 + d}" using se by auto
    ultimately show ?case using fall_joined [OF _ 1(3)] by (simp add: fall_post_def)
  next
    case (2 er y z s1 s2 v)
    then show ?case by (auto simp: fall_post_def)
  qed
  moreover have "fall_sweep ival n bop proj b e (b + d) se = Some ?t"
    using t(1) tail_left(1,2) se by (subst fall_sweep.simps) (simp add: Let_def add_ac)
  moreover have "within ({b..<lim ival e} \<union> {b + d..<lim ival e + d}) {se + d..<lim ival e + d} ?t"
  proof (intro within_fork_join within_done)
    show "within ({b..<lim ival e} \<union> {b + d..<lim ival e + d}) {se + d..<lim ival e + d} t"
      by (rule within_mono [OF t(2)]) (use tail_left(2) lim_bounds(1) [of e ival] in auto)
    show "within ({b..<lim ival e} \<union> {b + d..<lim ival e + d}) {se + d..<lim ival e + d} ?R"
      by (rule within_mono [OF wR]) (use se tail_left(2) lim_bounds(1) [of e ival] in auto)
  qed
  ultimately show ?case by blast
next
  case (tail_mid m b e ival s)
  let ?R = "fall_sweep_impl (r_child_of ival) n bop proj m e (m + d)"
  have rc: "r_child_of ival = I_mid \<or> r_child_of ival = I_rhs" by (cases ival) auto
  have m: "s (m - 1 + d) = pre (m - 1)" using tail_mid(2,5) by (auto simp: scanned_def)
  have wR: "within ({m..<lim ival e} \<union> {m + d - 1}) {m + d..<lim ival e + d} ?R"
    using fall_impl_within [of m "r_child_of ival" e d] by simp
  have "must (fall_post (r_child_of ival) m e) ?R s"
    by (rule fall_impl_must [OF assms(1) rc _ _ tail_mid(4) m]) (use tail_mid in auto)
  from must_frame [OF this wR] have "must (fall_post ival b e) ?R s"
  proof (rule must_mono, goal_cases)
    case (1 x s')
    then have "scanned s' b m" using tail_mid(5) by (auto simp: scanned_def agree_def)
    with 1 scanned_append show ?case by (auto simp: fall_post_def split: sum.splits)
  qed
  moreover have "fall_sweep ival n bop proj b e (b + d) m = Some ?R"
    using tail_mid(1,3) by (subst fall_sweep.simps) (simp add: Let_def add_ac)
  moreover have "within ({b..<lim ival e} \<union> {b + d..<lim ival e + d}) {m + d..<lim ival e + d} ?R"
    by (rule within_mono [OF wR]) (use tail_mid(2,3) lim_bounds(1) [of e ival] in auto)
  ultimately show ?case by blast
next
  case (tail_right m b e ival s se)
  from tail_bounds [OF tail_right(3)] have se: "m < se" "se < e" by auto
  have "scanned s m se" using tail_right(2,5) by (auto simp: scanned_def)
  with tail_right obtain t where t: "fall_sweep (r_child_of ival) n bop proj m e (m + d) se = Some t"
    "within ({m..<lim ival e} \<union> {m + d..<lim ival e + d}) {se + d..<lim ival e + d} t" "must (fall_post (r_child_of ival) m e) t s" by auto
  from must_frame [OF t(3,2)] have "must (fall_post ival b e) t s"
  proof (rule must_mono, goal_cases)
    case (1 x s')
    then have "scanned s' b m" using tail_right(5) se by (auto simp: scanned_def agree_def)
    with 1 scanned_append show ?case by (auto simp: fall_post_def split: sum.splits)
  qed
  moreover have "fall_sweep ival n bop proj b e (b + d) se = Some t"
    using t(1) tail_right(1) se by (subst fall_sweep.simps) (simp add: Let_def add_ac)
  moreover have "within ({b..<lim ival e} \<union> {b + d..<lim ival e + d}) {se + d..<lim ival e + d} t"
    by (rule within_mono [OF t(2)]) (use tail_right(2) in auto)
  ultimately show ?case by blast
qed

lemma scan_must:
  assumes ok "T < E"
  shows "must (\<lambda>x s'. agree (- {T + d..<E + d}) s0 s' \<and> (case x of Inl er \<Rightarrow> threw er | Inr _ \<Rightarrow> scanned s' T E))
     (scan_impl left0 n bop proj T E (T + d)) s0"
proof -
  have "rise_pre I_all Op_scan T E s0" using assms(2) by (simp add: rise_pre_def intact_def)
  note rise = must_frame [OF rise_must [OF assms(1) this] rise_within]
  have "must (\<lambda>x s'. agree (- {T + d..<E + d}) s0 s' \<and> (case x of Inl er \<Rightarrow> threw er | Inr _ \<Rightarrow> scanned s' T E))
      (seq_task (rise_sweep I_all Op_scan left0 n bop proj T E (T + d)) (\<lambda>r. case r of None \<Rightarrow> Abort
        | Some scan_end \<Rightarrow> if scan_end \<noteq> E
            then (case fall_sweep I_all n bop proj T E (T + d) scan_end of None \<Rightarrow> Abort | Some t \<Rightarrow> t)
            else Done (Inr None))) s0"
  proof (rule must_seq [OF rise], goal_cases)
    case (1 a s)
    then obtain se where se: "a = Some se" "T < se" "se \<le> E" "scanned s T se" "se < E \<longrightarrow> tail I_all s T E se"
      by (auto simp: rise_post_def)
    show ?case
    proof (cases "se = E")
      case True
      with se 1 show ?thesis by simp
    next
      case False
      with se have tl: "tail I_all s T E se" by simp
      have "lim I_all E = E" by (simp add: lim_def)
      with fall_must [OF assms(1) tl se(4) order_refl order_refl] obtain t where
        t: "fall_sweep I_all n bop proj T E (T + d) se = Some t" "within ({T..<E} \<union> {T + d..<E + d}) {se + d..<E + d} t"
          "must (fall_post I_all T E) t s" by auto
      from must_frame [OF t(3,2)] have "must (\<lambda>x s'. agree (- {T + d..<E + d}) s0 s' \<and>
          (case x of Inl er \<Rightarrow> threw er | Inr _ \<Rightarrow> scanned s' T E)) t s"
        by (rule must_mono) (use 1 se(2) in \<open>auto simp: agree_def fall_post_def lim_def split: sum.splits\<close>)
      with t(1) se(1) False show ?thesis by simp
    qed
  qed simp
  then show ?thesis unfolding scan_impl_def using assms(2) by simp
qed

end

interpretation sw: sweep "computes bop proj f g \<and> in_place_or_apart d T E \<and> 0 < n \<and> (\<forall>b e. left0 b e \<notin> {T<..<E})" left0 n d T E bop proj f g s0
  for left0 n d T E bop proj f g s0
  by unfold_locales auto

text \<open>
  Property C8. \<open>scan\<close> with an associative operation is the inclusive scan, in place or into a disjoint
  range, on every schedule and with every chunk size: it ends; without an exception the output at
  each position is the reduction of the input up to that position; an exception is one that the
  projection throws for an element of the input or that the operation throws; nothing outside the
  output changes. How far the rising sweep gets, which part is only reduced and what the falling
  sweep has to complete depends on which forks are stolen. An asynchronous operation must not
  throw, and the values \<open>left0\<close> in the uninitialised \<open>left_out\<close> of the frames must not point into the input.
\<close>

theorem scan_is_inclusive_scan:
  assumes "computes bop proj f g" "beg \<le> end" "0 < n" "out = beg \<or> end - beg \<le> \<bar>out - beg\<bar>"
    and "\<forall>b e. left0 b e \<notin> {beg<..<end}"
  shows "must (\<lambda>x s'. agree (- {out..<out + (end - beg)}) s s' \<and> (case x of
        Inl er \<Rightarrow> (\<exists>i\<in>{beg..<end}. proj (s i) = Inl er) \<or> (\<exists>a b. bop_app bop a b = Inl er)
      | Inr _ \<Rightarrow> \<forall>i\<in>{beg..<end}. s' (i + (out - beg)) = fold_val f g s beg (i + 1)))
     (scan_out_n left0 n bop proj beg end out) s"
proof (cases "beg = end")
  case True
  then show ?thesis by (simp add: scan_out_n_def scan_impl_def)
next
  case False
  have ok: "computes bop proj f g \<and> in_place_or_apart (out - beg) beg end \<and> 0 < n \<and> (\<forall>b e. left0 b e \<notin> {beg<..<end})"
    using assms by (auto simp: in_place_or_apart_def)
  have "{beg + (out - beg)..<end + (out - beg)} = {out..<out + (end - beg)}" by auto
  with sw.scan_must [OF ok, of s] False assms(2) show ?thesis
    unfolding scan_out_n_def sw.threw_def sw.scanned_def sw.pre_def by simp
qed

theorem scan_is_inclusive_scan_witness:
  "must (\<lambda>x s'. x \<noteq> Inl () \<and> s' 0 = 1 \<and> s' 1 = 3 \<and> s' 4 = 15 \<and> s' 5 = 6) (scan_out_n (\<lambda>_ _. 0) 2 (Sync_bop (\<lambda>a b. Inr (a + b))) Inr 0 5 0) (\<lambda>a. a + 1)"
proof -
  let ?b = "Sync_bop (\<lambda>a b :: int. Inr (a + b) :: unit + int)" and ?p = "Inr :: int \<Rightarrow> unit + int"
  have c: "computes ?b ?p (+) (\<lambda>v. v)" by (auto simp: computes_def intro!: semigroup.intro)
  have v: "fold_val (+) (\<lambda>v. v) (\<lambda>a :: int. a + 1) 0 1 = 1" "fold_val (+) (\<lambda>v. v) (\<lambda>a :: int. a + 1) 0 2 = 3"
    "fold_val (+) (\<lambda>v. v) (\<lambda>a :: int. a + 1) 0 5 = 15" by (simp_all add: fold_val_def upto.simps)
  show ?thesis
    by (rule must_mono [OF scan_is_inclusive_scan [OF c]])
      (use v in \<open>auto simp: agree_def split: sum.splits dest: bspec [where x = 0] bspec [where x = 1] bspec [where x = 4] bspec [where x = 5]\<close>)
qed

text \<open>
  The last hypothesis is needed: \<open>left_out\<close> is compared without having been written when the left
  child of a fork throws and is not stolen. If it happens to hold the middle of the range the task
  goes on as if the left half had been scanned and the exception is lost.
\<close>

theorem scan_reads_uninitialised:
  "\<not> must Q (scan_out_n (\<lambda>_ _. 1) 1 (Sync_bop (\<lambda>a b. Inr (a + b))) (\<lambda>v. Inl ()) 0 2 0) (s :: int \<Rightarrow> int)"
proof
  let ?b = "Sync_bop (\<lambda>a b :: int. Inr (a + b) :: unit + int)" and ?p = "\<lambda>v :: int. Inl () :: unit + int"
  let ?rise = "\<lambda>i b e. rise_sweep i Op_scan (\<lambda>_ _. 1) 1 ?b ?p b e b"
  assume m: "must Q (scan_out_n (\<lambda>_ _. 1) 1 ?b ?p 0 2 0) s"
  have left: "?rise I_lhs 0 1 = Act (\<lambda>s. (s, Done (Inl ())))"
    by (subst rise_sweep.simps) (simp add: Let_def rise_chunk_def read_at_def)
  have "\<exists>kr r k. ?rise I_all 0 2 = Sync_fork (Act (\<lambda>s. (s, Done (Inl ())))) kr (\<lambda>e. Abort) r k"
    by (subst rise_sweep.simps) (simp add: Let_def left)
  then obtain kr r k where node: "?rise I_all 0 2 = Sync_fork (Act (\<lambda>s. (s, Done (Inl ())))) kr (\<lambda>e. Abort) r k" by blast
  let ?fork = "Sync_fork (Done (Inl ())) kr (\<lambda>e. Abort) r k"
  have steps: "tstep (?rise I_all 0 2) s ?fork s" "tstep ?fork s Abort s"
    unfolding node by (intro tstep.sync_child tstep.act tstep.sync_throw; simp)+
  obtain f where f: "scan_out_n (\<lambda>_ _. 1) 1 ?b ?p 0 2 0 = seq_task (?rise I_all 0 2) f"
    by (simp add: scan_out_n_def scan_impl_def)
  have "must Q (seq_task Abort f) s"
    by (rule must_next [OF must_next [OF m [unfolded f] tstep_seq [OF steps(1)]] tstep_seq [OF steps(2)]])
  then show False by simp
qed

end
