(* ===== verification/Pool_Common.thy ===== *)
theory Pool_Common
  imports Prelude
begin

text \<open>
  What the two work-stealing pools share: \<open>busy_vars\<close> of \<open>schedule/busy_pool.hpp\<close> (the start and
  stop latches and the stop flag) and the life cycle the latches impose on the workers'
  contexts.

  The life cycle is stated once, on a view of a pool that keeps only the latches, the phase each
  worker is in and which contexts are initialised.  The locale \<open>latched_pool\<close> asks of a pool that
  every step either leaves that view alone or is one step of the life cycle; it gives that no
  worker is in its event loop while some context is not yet initialised or already finalised, so
  that a thief never touches a dead context.  Both pools interpret it.
\<close>

section \<open>The shared variables\<close>

record busy_vars =
  latch_start :: int
  latch_stop :: int
  stop_flag :: bool

definition busy_vars_new :: "nat \<Rightarrow> busy_vars" where
  "busy_vars_new n = \<lparr>latch_start = int (n + 1), latch_stop = int n, stop_flag = False\<rparr>"

section \<open>The life cycle of the contexts\<close>

datatype phase = P_init | P_start | P_start_wait | P_run | P_stop_wait | P_final | P_over

record latch_view =
  v_start :: int
  v_stop :: int
  v_phase :: "nat \<Rightarrow> phase"
  v_alive :: "nat \<Rightarrow> bool"
  v_master :: bool

text \<open>
  Worker \<open>j\<close> initialises its context, arrives at the start latch, passes it when everybody
  (the master too) has arrived, runs its loop, arrives at the stop latch, passes it when all
  workers have arrived, and finalises its context.
\<close>

inductive latch_step :: "nat \<Rightarrow> latch_view \<Rightarrow> latch_view \<Rightarrow> bool" for n where
  ls_init: "j < n \<Longrightarrow> v_phase v j = P_init \<Longrightarrow>
     latch_step n v (v\<lparr>v_phase := (v_phase v)(j := P_start), v_alive := (v_alive v)(j := True)\<rparr>)"
| ls_arrive: "j < n \<Longrightarrow> v_phase v j = P_start \<Longrightarrow>
     latch_step n v (v\<lparr>v_start := v_start v - 1, v_phase := (v_phase v)(j := P_start_wait)\<rparr>)"
| ls_master: "\<not> v_master v \<Longrightarrow>
     latch_step n v (v\<lparr>v_start := v_start v - 1, v_master := True\<rparr>)"
| ls_go: "j < n \<Longrightarrow> v_phase v j = P_start_wait \<Longrightarrow> v_start v = 0 \<Longrightarrow>
     latch_step n v (v\<lparr>v_phase := (v_phase v)(j := P_run)\<rparr>)"
| ls_stop: "j < n \<Longrightarrow> v_phase v j = P_run \<Longrightarrow>
     latch_step n v (v\<lparr>v_stop := v_stop v - 1, v_phase := (v_phase v)(j := P_stop_wait)\<rparr>)"
| ls_pass: "j < n \<Longrightarrow> v_phase v j = P_stop_wait \<Longrightarrow> v_stop v = 0 \<Longrightarrow>
     latch_step n v (v\<lparr>v_phase := (v_phase v)(j := P_final)\<rparr>)"
| ls_finish: "j < n \<Longrightarrow> v_phase v j = P_final \<Longrightarrow>
     latch_step n v (v\<lparr>v_phase := (v_phase v)(j := P_over), v_alive := (v_alive v)(j := False)\<rparr>)"

definition before_start :: "phase \<Rightarrow> bool" where
  "before_start p \<longleftrightarrow> p = P_init \<or> p = P_start"

definition before_stop :: "phase \<Rightarrow> bool" where
  "before_stop p \<longleftrightarrow> p \<noteq> P_stop_wait \<and> p \<noteq> P_final \<and> p \<noteq> P_over"

text \<open>The number of workers in a phase with a property.\<close>

definition tally :: "nat \<Rightarrow> (nat \<Rightarrow> 'a) \<Rightarrow> (nat \<Rightarrow> 'a \<Rightarrow> bool) \<Rightarrow> nat" where
  "tally n f P = (\<Sum>j<n. of_bool (P j (f j)))"

lemma tally_upd:
  assumes "j < n"
  shows "tally n (f(j := x)) P + of_bool (P j (f j)) = tally n f P + of_bool (P j x)"
proof -
  have "tally n g P = of_bool (P j (g j)) + (\<Sum>i\<in>{..<n} - {j}. of_bool (P i (g i)))" for g :: "nat \<Rightarrow> 'a"
    unfolding tally_def by (rule sum.remove) (use assms in auto)
  from this [of "f(j := x)"] this [of f] show ?thesis
    by (simp add: sum.cong)
qed

lemma tally_zero: "tally n f P = 0 \<longleftrightarrow> (\<forall>j<n. \<not> P j (f j))"
  by (auto simp: tally_def)

lemma tally_pos: "j < n \<Longrightarrow> P j (f j) \<Longrightarrow> 0 < tally n f P"
  using tally_zero [of n f P] by auto

lemma tally_le: "tally n f P \<le> n"
proof -
  have "tally n f P \<le> (\<Sum>j<n. 1)" unfolding tally_def by (rule sum_mono) auto
  then show ?thesis by simp
qed

lemma tally_same: "P j x = P j (f j) \<Longrightarrow> tally n (f(j := x)) P = tally n f P"
  unfolding tally_def by (rule sum.cong) auto

lemma tally_cong: "(\<And>j. j < n \<Longrightarrow> P j (f j) = P j (g j)) \<Longrightarrow> tally n f P = tally n g P"
  unfolding tally_def by (rule sum.cong) auto

lemma tally_outside: "n \<le> j \<Longrightarrow> tally n (f(j := x)) P = tally n f P"
  unfolding tally_def by (rule sum.cong) auto

lemma tally_leave: "j < n \<Longrightarrow> P j (f j) \<Longrightarrow> \<not> P j x \<Longrightarrow> tally n (f(j := x)) P = tally n f P - 1"
  using tally_upd [of j n f x P] by simp

lemma tally_enter: "j < n \<Longrightarrow> \<not> P j (f j) \<Longrightarrow> P j x \<Longrightarrow> tally n (f(j := x)) P = Suc (tally n f P)"
  using tally_upd [of j n f x P] by simp

definition latch_inv :: "nat \<Rightarrow> latch_view \<Rightarrow> bool" where
  "latch_inv n v \<longleftrightarrow>
     v_start v = int (tally n (v_phase v) (\<lambda>_. before_start)) + of_bool (\<not> v_master v) \<and>
     v_stop v = int (tally n (v_phase v) (\<lambda>_. before_stop)) \<and>
     (\<forall>j<n. v_alive v j \<longleftrightarrow> v_phase v j \<noteq> P_init \<and> v_phase v j \<noteq> P_over) \<and>
     (\<forall>j<n. \<not> before_start (v_phase v j) \<and> v_phase v j \<noteq> P_start_wait \<longrightarrow> v_start v = 0) \<and>
     (\<forall>j<n. v_phase v j = P_final \<or> v_phase v j = P_over \<longrightarrow> v_stop v = 0)"

lemmas phase_simps = before_start_def before_stop_def

lemma latch_step_inv:
  assumes "latch_step n v v'" "latch_inv n v"
  shows "latch_inv n v'"
  using assms(1)
proof (cases rule: latch_step.cases)
  case (ls_init j)
  with assms(2) show ?thesis
    by (auto simp: latch_inv_def phase_simps tally_same)
next
  case (ls_arrive j)
  with assms(2) tally_pos [of j n "\<lambda>_. before_start" "v_phase v"]
  show ?thesis by (auto simp: latch_inv_def phase_simps tally_same tally_leave of_nat_diff)
next
  case ls_master
  with assms(2) show ?thesis by (auto simp: latch_inv_def phase_simps)
next
  case (ls_go j)
  with assms(2) show ?thesis by (auto simp: latch_inv_def phase_simps tally_same)
next
  case (ls_stop j)
  with assms(2) tally_pos [of j n "\<lambda>_. before_stop" "v_phase v"]
  show ?thesis by (auto simp: latch_inv_def phase_simps tally_same tally_leave of_nat_diff)
next
  case (ls_pass j)
  with assms(2) show ?thesis by (auto simp: latch_inv_def phase_simps tally_same)
next
  case (ls_finish j)
  with assms(2) show ?thesis by (auto simp: latch_inv_def phase_simps tally_same)
qed

lemma latch_inv_run_alive:
  assumes inv: "latch_inv n v" and j: "j < n" "v_phase v j = P_run" and i: "i < n"
  shows "v_alive v i"
proof -
  from inv j have "v_start v = 0" unfolding latch_inv_def phase_simps by (metis phase.distinct)
  with inv have "int (tally n (v_phase v) (\<lambda>_. before_start)) + of_bool (\<not> v_master v) = 0"
    by (simp add: latch_inv_def)
  then have "tally n (v_phase v) (\<lambda>_. before_start) = 0"
    by (simp add: of_bool_def split: if_splits)
  with i have "v_phase v i \<noteq> P_init" by (auto simp: tally_zero phase_simps)
  moreover have "0 < v_stop v"
    using inv tally_pos [OF j(1), of "\<lambda>_. before_stop" "v_phase v"] j by (auto simp: latch_inv_def phase_simps)
  with inv i have "v_phase v i \<noteq> P_over" by (auto simp: latch_inv_def)
  ultimately show ?thesis using inv i by (auto simp: latch_inv_def)
qed

section \<open>Pools with latches\<close>

text \<open>The runs of a step relation, with the events in order.\<close>

inductive pool_run :: "('s \<Rightarrow> 'e \<Rightarrow> 's \<Rightarrow> bool) \<Rightarrow> 's \<Rightarrow> 'e list \<Rightarrow> 's \<Rightarrow> bool" for pstep where
  run_nil: "pool_run pstep s [] s"
| run_step: "pool_run pstep s es t \<Longrightarrow> pstep t e u \<Longrightarrow> pool_run pstep s (es @ [e]) u"

locale latched_pool =
  fixes workers :: "'s \<Rightarrow> nat"
    and view :: "'s \<Rightarrow> latch_view"
    and pstep :: "'s \<Rightarrow> 'e \<Rightarrow> 's \<Rightarrow> bool"
    and started :: "nat \<Rightarrow> 's \<Rightarrow> bool"
  assumes start_view: "started n s \<Longrightarrow> workers s = n \<and> latch_inv n (view s)"
    and step_workers: "pstep s e s' \<Longrightarrow> workers s' = workers s"
    and step_view: "pstep s e s' \<Longrightarrow> view s' = view s \<or> latch_step (workers s) (view s) (view s')"
begin

lemma run_latch_inv:
  assumes "pool_run pstep s es t" "started n s"
  shows "workers t = n \<and> latch_inv n (view t)"
  using assms
proof (induction rule: pool_run.induct)
  case (run_nil s)
  then show ?case by (rule start_view)
next
  case (run_step s es t e u)
  from run_step.IH [OF run_step.prems] have IH: "workers t = n" "latch_inv n (view t)" by auto
  with step_view [OF run_step.hyps(2)] latch_step_inv [of n "view t" "view u"]
  have "latch_inv n (view u)" by auto
  with step_workers [OF run_step.hyps(2)] IH show ?case by simp
qed

lemma run_contexts_alive:
  assumes "pool_run pstep s es t" "started n s" "j < n" "v_phase (view t) j = P_run" "i < n"
  shows "v_alive (view t) i"
  using run_latch_inv [OF assms(1,2)] latch_inv_run_alive assms(3-) by blast

end

section \<open>Events of a pool\<close>

text \<open>
  A job is submitted to a worker, a worker takes its whole submission list to run it, the
  destructor sets the stop flag, a notifier of a NUMA locality is bumped; anything else.
\<close>

datatype pool_event = E_tau | E_submit nat nat | E_run nat "nat list" | E_stop | E_notify nat

fun submitted :: "nat \<Rightarrow> pool_event list \<Rightarrow> nat list" where
  "submitted x [] = []"
| "submitted x (E_submit y job # es) = (if x = y then [job] else []) @ submitted x es"
| "submitted x (_ # es) = submitted x es"

fun executed :: "nat \<Rightarrow> pool_event list \<Rightarrow> nat list" where
  "executed x [] = []"
| "executed x (E_run y jobs # es) = (if x = y then jobs else []) @ executed x es"
| "executed x (_ # es) = executed x es"

text \<open>Some job was submitted after the destructor had set the stop flag.\<close>

fun late :: "pool_event list \<Rightarrow> bool" where
  "late [] = False"
| "late (E_stop # es) = (\<exists>x job. E_submit x job \<in> set es)"
| "late (_ # es) = late es"

lemma submitted_append [simp]: "submitted x (es @ fs) = submitted x es @ submitted x fs"
  by (induction x es rule: submitted.induct) auto

lemma executed_append [simp]: "executed x (es @ fs) = executed x es @ executed x fs"
  by (induction x es rule: executed.induct) auto

lemma late_snoc: "late (es @ [e]) \<longleftrightarrow> late es \<or> E_stop \<in> set es \<and> (\<exists>x job. e = E_submit x job)"
proof (induction es rule: late.induct)
  case 1
  show ?case by (cases e) auto
qed auto

definition notified :: "nat \<Rightarrow> pool_event list \<Rightarrow> nat" where
  "notified d es = length (filter (\<lambda>e. e = E_notify d) es)"

lemma notified_simps [simp]:
  "notified d [] = 0"
  "notified d (es @ [e]) = notified d es + (if e = E_notify d then 1 else 0)"
  by (simp_all add: notified_def)
end
