(* ===== verification/Busy_Pool.thy ===== *)
theory Busy_Pool
  imports Pool_Common
begin

text \<open>
  \<open>schedule/busy_pool.hpp\<close>: the event loop \<open>busy_work\<close> of a worker and the constructor,
  \<open>schedule\<close> and destructor of \<open>busy_pool\<close>, as the steps of one system: threads \<open>0, \<dots>, n - 1\<close> are
  the workers, thread \<open>n\<close> is the master that owns the pool.

  A submission list is the list of the jobs pushed to it (the intrusive list keeps their order).
  What a resumed task does is arbitrary: it runs for any number of steps and may submit jobs to
  any worker.  Whether \<open>try_steal\<close> finds a task is arbitrary too.
\<close>

datatype bz_pc =
    B_init | B_start | B_start_wait
  | B_test | B_pop | B_steal | B_resume bz_pc | B_drain
  | B_set_stop | B_arrive | B_stop_wait | B_final | B_over
  | B_m_start | B_m_start_wait | B_m_idle | B_m_join | B_m_over

record bz_sys = busy_vars +
  bz_n :: nat
  bz_subs :: "nat \<Rightarrow> nat list"
  bz_alive :: "nat \<Rightarrow> bool"
  bz_pc :: "nat \<Rightarrow> bz_pc"

definition bz_new :: "nat \<Rightarrow> bz_sys" where
  "bz_new n = \<lparr>latch_start = latch_start (busy_vars_new n), latch_stop = latch_stop (busy_vars_new n),
     stop_flag = stop_flag (busy_vars_new n), bz_n = n, bz_subs = (\<lambda>_. []), bz_alive = (\<lambda>_. False),
     bz_pc = (\<lambda>t. if t < n then B_init else B_m_start)\<rparr>"

definition bz_go :: "bz_sys \<Rightarrow> nat \<Rightarrow> bz_pc \<Rightarrow> bz_sys" where
  "bz_go s t pc = s\<lparr>bz_pc := (bz_pc s)(t := pc)\<rparr>"

text \<open>\<open>busy_work\<close> in worker \<open>j\<close>; the last five steps are its deferred block.\<close>

inductive busy_work :: "nat \<Rightarrow> bz_sys \<Rightarrow> pool_event \<Rightarrow> bz_sys \<Rightarrow> bool" where
  bw_init: "bz_pc s j = B_init \<Longrightarrow>
     busy_work j s E_tau ((bz_go s j B_start)\<lparr>bz_alive := (bz_alive s)(j := True)\<rparr>)"
| bw_start: "bz_pc s j = B_start \<Longrightarrow>
     busy_work j s E_tau ((bz_go s j B_start_wait)\<lparr>latch_start := latch_start s - 1\<rparr>)"
| bw_started: "bz_pc s j = B_start_wait \<Longrightarrow> latch_start s = 0 \<Longrightarrow> busy_work j s E_tau (bz_go s j B_test)"
| bw_stopped: "bz_pc s j = B_test \<Longrightarrow> stop_flag s \<Longrightarrow> busy_work j s E_tau (bz_go s j B_drain)"
| bw_running: "bz_pc s j = B_test \<Longrightarrow> \<not> stop_flag s \<Longrightarrow> busy_work j s E_tau (bz_go s j B_pop)"
| bw_pop: "bz_pc s j = B_pop \<Longrightarrow> bz_subs s j \<noteq> [] \<Longrightarrow>
     busy_work j s (E_run j (bz_subs s j))
       ((bz_go s j (B_resume B_test))\<lparr>bz_subs := (bz_subs s)(j := [])\<rparr>)"
| bw_no_pop: "bz_pc s j = B_pop \<Longrightarrow> bz_subs s j = [] \<Longrightarrow> busy_work j s E_tau (bz_go s j B_steal)"
| bw_steal: "bz_pc s j = B_steal \<Longrightarrow> busy_work j s E_tau (bz_go s j (B_resume B_test))"
| bw_no_steal: "bz_pc s j = B_steal \<Longrightarrow> busy_work j s E_tau (bz_go s j B_test)"
| bw_resumed: "bz_pc s j = B_resume pc \<Longrightarrow> busy_work j s E_tau (bz_go s j pc)"
| bw_drain: "bz_pc s j = B_drain \<Longrightarrow> bz_subs s j \<noteq> [] \<Longrightarrow>
     busy_work j s (E_run j (bz_subs s j))
       ((bz_go s j (B_resume B_drain))\<lparr>bz_subs := (bz_subs s)(j := [])\<rparr>)"
| bw_drained: "bz_pc s j = B_drain \<Longrightarrow> bz_subs s j = [] \<Longrightarrow> busy_work j s E_tau (bz_go s j B_set_stop)"
| bw_set_stop: "bz_pc s j = B_set_stop \<Longrightarrow>
     busy_work j s E_tau ((bz_go s j B_arrive)\<lparr>stop_flag := True\<rparr>)"
| bw_arrive: "bz_pc s j = B_arrive \<Longrightarrow>
     busy_work j s E_tau ((bz_go s j B_stop_wait)\<lparr>latch_stop := latch_stop s - 1\<rparr>)"
| bw_pass: "bz_pc s j = B_stop_wait \<Longrightarrow> latch_stop s = 0 \<Longrightarrow> busy_work j s E_tau (bz_go s j B_final)"
| bw_finalize: "bz_pc s j = B_final \<Longrightarrow>
     busy_work j s E_tau ((bz_go s j B_over)\<lparr>bz_alive := (bz_alive s)(j := False)\<rparr>)"

text \<open>The master: the end of the constructor, and the destructor.\<close>

inductive busy_master :: "bz_sys \<Rightarrow> pool_event \<Rightarrow> bz_sys \<Rightarrow> bool" where
  bm_start: "bz_pc s (bz_n s) = B_m_start \<Longrightarrow>
     busy_master s E_tau ((bz_go s (bz_n s) B_m_start_wait)\<lparr>latch_start := latch_start s - 1\<rparr>)"
| bm_started: "bz_pc s (bz_n s) = B_m_start_wait \<Longrightarrow> latch_start s = 0 \<Longrightarrow>
     busy_master s E_tau (bz_go s (bz_n s) B_m_idle)"
| bm_stop: "bz_pc s (bz_n s) = B_m_idle \<Longrightarrow>
     busy_master s E_stop ((bz_go s (bz_n s) B_m_join)\<lparr>stop_flag := True\<rparr>)"
| bm_join: "bz_pc s (bz_n s) = B_m_join \<Longrightarrow> (\<And>j. j < bz_n s \<Longrightarrow> bz_pc s j = B_over) \<Longrightarrow>
     busy_master s E_tau (bz_go s (bz_n s) B_m_over)"

text \<open>\<open>schedule\<close>, called by the master or from a running task.\<close>

inductive busy_schedule :: "nat \<Rightarrow> bz_sys \<Rightarrow> pool_event \<Rightarrow> bz_sys \<Rightarrow> bool" where
  bs_push: "bz_pc s t = B_m_idle \<or> bz_pc s t = B_resume pc \<Longrightarrow> x < bz_n s \<Longrightarrow>
     busy_schedule t s (E_submit x job) (s\<lparr>bz_subs := (bz_subs s)(x := bz_subs s x @ [job])\<rparr>)"

definition bz_step :: "bz_sys \<Rightarrow> pool_event \<Rightarrow> bz_sys \<Rightarrow> bool" where
  "bz_step s e s' \<longleftrightarrow>
     (\<exists>j<bz_n s. busy_work j s e s') \<or> busy_master s e s' \<or> (\<exists>t\<le>bz_n s. busy_schedule t s e s')"

section \<open>The life cycle\<close>

fun bz_phase :: "bz_pc \<Rightarrow> phase" where
  "bz_phase B_init = P_init"
| "bz_phase B_start = P_start"
| "bz_phase B_start_wait = P_start_wait"
| "bz_phase B_stop_wait = P_stop_wait"
| "bz_phase B_final = P_final"
| "bz_phase B_over = P_over"
| "bz_phase (B_resume pc) = bz_phase pc"
| "bz_phase _ = P_run"

definition bz_view :: "bz_sys \<Rightarrow> latch_view" where
  "bz_view s = \<lparr>v_start = latch_start s, v_stop = latch_stop s, v_phase = bz_phase \<circ> bz_pc s,
     v_alive = bz_alive s, v_master = (bz_pc s (bz_n s) \<noteq> B_m_start)\<rparr>"

definition bz_started :: "nat \<Rightarrow> bz_sys \<Rightarrow> bool" where
  "bz_started n s \<longleftrightarrow> s = bz_new n"

lemma bz_go_sel [simp]:
  "bz_pc (bz_go s t pc) = (bz_pc s)(t := pc)" "bz_n (bz_go s t pc) = bz_n s"
  "bz_subs (bz_go s t pc) = bz_subs s" "bz_alive (bz_go s t pc) = bz_alive s"
  "latch_start (bz_go s t pc) = latch_start s" "latch_stop (bz_go s t pc) = latch_stop s"
  "stop_flag (bz_go s t pc) = stop_flag s"
  by (simp_all add: bz_go_def)

lemma bz_view_start: "latch_inv n (bz_view (bz_new n))"
proof -
  have "tally n (bz_phase \<circ> bz_pc (bz_new n)) (\<lambda>_. before_start) = n"
    "tally n (bz_phase \<circ> bz_pc (bz_new n)) (\<lambda>_. before_stop) = n"
    by (simp_all add: tally_def bz_new_def before_start_def before_stop_def)
  then show ?thesis
    by (simp add: latch_inv_def bz_view_def bz_new_def busy_vars_new_def before_start_def)
qed

lemma bz_phase_same: "bz_phase pc = bz_phase (bz_pc s t) \<Longrightarrow>
    bz_phase \<circ> (bz_pc s)(t := pc) = bz_phase \<circ> bz_pc s"
  by auto

lemma bz_step_n: "bz_step s e s' \<Longrightarrow> bz_n s' = bz_n s"
  by (auto simp: bz_step_def elim!: busy_work.cases busy_master.cases busy_schedule.cases)

lemma busy_work_view:
  assumes "busy_work j s e s'" "j < bz_n s"
  shows "bz_view s' = bz_view s \<or> latch_step (bz_n s) (bz_view s) (bz_view s')"
proof -
  let ?v = "bz_view s"
  from assms(1) show ?thesis
  proof (cases rule: busy_work.cases)
    case bw_init
    with assms(2) latch_step.ls_init [of j "bz_n s" ?v] show ?thesis
      by (simp add: bz_view_def fun_upd_comp)
  next
    case bw_start
    with assms(2) latch_step.ls_arrive [of j "bz_n s" ?v] show ?thesis
      by (simp add: bz_view_def fun_upd_comp)
  next
    case bw_started
    with assms(2) latch_step.ls_go [of j "bz_n s" ?v] show ?thesis
      by (simp add: bz_view_def fun_upd_comp)
  next
    case bw_arrive
    with assms(2) latch_step.ls_stop [of j "bz_n s" ?v] show ?thesis
      by (simp add: bz_view_def fun_upd_comp)
  next
    case bw_pass
    with assms(2) latch_step.ls_pass [of j "bz_n s" ?v] show ?thesis
      by (simp add: bz_view_def fun_upd_comp)
  next
    case bw_finalize
    with assms(2) latch_step.ls_finish [of j "bz_n s" ?v] show ?thesis
      by (simp add: bz_view_def fun_upd_comp)
  qed (use assms(2) in \<open>simp_all add: bz_view_def bz_phase_same\<close>)
qed

lemma busy_master_view:
  assumes "busy_master s e s'"
  shows "bz_view s' = bz_view s \<or> latch_step (bz_n s) (bz_view s) (bz_view s')"
proof -
  from assms show ?thesis
  proof (cases rule: busy_master.cases)
    case bm_start
    with latch_step.ls_master [of "bz_view s" "bz_n s"] show ?thesis
      by (simp add: bz_view_def bz_phase_same)
  qed (simp_all add: bz_view_def bz_phase_same)
qed

lemma busy_schedule_view: "busy_schedule t s e s' \<Longrightarrow> bz_view s' = bz_view s"
  by (auto simp: bz_view_def elim!: busy_schedule.cases)

interpretation bz: latched_pool bz_n bz_view bz_step bz_started
proof unfold_locales
  show "bz_n s = n \<and> latch_inv n (bz_view s)" if "bz_started n s" for n s
    using that bz_view_start by (simp add: bz_started_def) (simp add: bz_new_def)
  show "bz_n s' = bz_n s" if "bz_step s e s'" for s e s'
    using that by (rule bz_step_n)
  show "bz_view s' = bz_view s \<or> latch_step (bz_n s) (bz_view s) (bz_view s')"
    if "bz_step s e s'" for s e s'
    using that busy_work_view busy_master_view busy_schedule_view unfolding bz_step_def by metis
qed

section \<open>No submission is lost\<close>

text \<open>The places of a worker that has left its loops, and those it reaches only once stopped.\<close>

fun bz_left :: "bz_pc \<Rightarrow> bool" where
  "bz_left (B_resume pc) = bz_left pc"
| "bz_left pc = (pc \<in> {B_set_stop, B_arrive, B_stop_wait, B_final, B_over})"

fun bz_stopping :: "bz_pc \<Rightarrow> bool" where
  "bz_stopping (B_resume pc) = bz_stopping pc"
| "bz_stopping pc = (pc \<in> {B_drain, B_set_stop, B_arrive, B_stop_wait, B_final, B_over, B_m_join, B_m_over})"

definition bz_inv :: "pool_event list \<Rightarrow> bz_sys \<Rightarrow> bool" where
  "bz_inv es s \<longleftrightarrow>
     (\<forall>x. submitted x es = executed x es @ bz_subs s x) \<and>
     (\<forall>t. bz_stopping (bz_pc s t) \<longrightarrow> stop_flag s) \<and>
     (stop_flag s \<longleftrightarrow> E_stop \<in> set es) \<and>
     (\<not> late es \<longrightarrow> (\<forall>x<bz_n s. bz_left (bz_pc s x) \<longrightarrow> bz_subs s x = [])) \<and>
     (bz_pc s (bz_n s) = B_m_over \<longrightarrow> (\<forall>j<bz_n s. bz_pc s j = B_over))"

lemma bz_left_stopping: "bz_left pc \<Longrightarrow> bz_stopping pc"
  by (induction pc) simp_all

lemma bz_inv_start: "bz_inv [] (bz_new n)"
  by (simp add: bz_inv_def bz_new_def busy_vars_new_def)

lemma bz_inv_stopping: "bz_inv es s \<Longrightarrow> bz_stopping (bz_pc s t) \<Longrightarrow> stop_flag s"
  unfolding bz_inv_def by blast

lemma busy_work_inv:
  assumes "busy_work j s e s'" "j < bz_n s" "bz_inv es s"
  shows "bz_inv (es @ [e]) s'"
proof -
  have stopping: "bz_stopping (bz_pc s t) \<Longrightarrow> stop_flag s" for t
    using bz_inv_stopping [OF assms(3)] .
  from assms(1) show ?thesis
  proof (cases rule: busy_work.cases)
    case (bw_resumed pc)
    with assms(2,3) stopping [of j] show ?thesis by (auto simp: bz_inv_def late_snoc)
  next
    case bw_set_stop
    with assms(2,3) stopping [of j] show ?thesis by (auto simp: bz_inv_def late_snoc)
  qed (use assms(2,3) stopping [of j] in \<open>auto simp: bz_inv_def late_snoc\<close>)
qed

lemma busy_master_inv:
  assumes "busy_master s e s'" "bz_inv es s"
  shows "bz_inv (es @ [e]) s'"
  using assms(1) by (cases rule: busy_master.cases) 
    (use assms(2) bz_inv_stopping [OF assms(2), of "bz_n s"] in \<open>auto simp: bz_inv_def late_snoc\<close>)

lemma busy_schedule_inv:
  assumes "busy_schedule t s e s'" "bz_inv es s"
  shows "bz_inv (es @ [e]) s'"
  using assms(1)
proof (cases rule: busy_schedule.cases)
  case (bs_push pc x job)
  have "E_stop \<in> set es" if "bz_left (bz_pc s y)" for y
    using assms(2) bz_inv_stopping [OF assms(2) bz_left_stopping [OF that]] by (simp add: bz_inv_def)
  with assms(2) bs_push show ?thesis by (auto simp: bz_inv_def late_snoc)
qed

lemma bz_run_inv:
  assumes "pool_run bz_step s es t" "s = bz_new n"
  shows "bz_inv es t"
  using assms
proof (induction rule: pool_run.induct)
  case (run_step s es t e u)
  from run_step.IH [OF run_step.prems] run_step.hyps(2) show ?case
    unfolding bz_step_def using busy_work_inv busy_master_inv busy_schedule_inv by blast
qed (simp add: bz_inv_start)

section \<open>Properties\<close>

text \<open>
  Property C28. No job is lost or run twice by the busy pool: in every run the jobs submitted to a
  worker are, in order, the jobs it has taken to run followed by the jobs still in its list; when
  the destructor has returned and nothing was submitted after it began, every submitted job has
  been run.
\<close>

theorem busy_pool_runs_submissions:
  assumes "pool_run bz_step (bz_new n) es s"
  shows "submitted x es = executed x es @ bz_subs s x \<and>
         (x < n \<and> bz_pc s n = B_m_over \<and> \<not> late es \<longrightarrow> executed x es = submitted x es)"
proof -
  from bz_run_inv [OF assms refl] have inv: "bz_inv es s" .
  from bz.run_latch_inv [OF assms] have n: "bz_n s = n" by (simp add: bz_started_def)
  have "bz_subs s x = []" if "x < n" "bz_pc s n = B_m_over" "\<not> late es"
    using inv that by (simp add: bz_inv_def n)
  with inv show ?thesis by (auto simp: bz_inv_def)
qed

text \<open>
  In the busy pool a worker tests, pops, steals or runs tasks only while the context
  of every worker is initialised and none is finalised: the start latch holds the workers back
  until all contexts exist, the stop latch keeps every context until all have left their loops.
\<close>

theorem busy_pool_contexts_alive:
  assumes "pool_run bz_step (bz_new n) es s" "j < n" "i < n"
    and "bz_phase (bz_pc s j) = P_run"
  shows "bz_alive s i"
proof -
  have "v_phase (bz_view s) j = P_run" using assms(4) by (simp add: bz_view_def)
  with bz.run_contexts_alive [OF assms(1) _ assms(2) _ assms(3)] show ?thesis
    by (simp add: bz_started_def bz_view_def)
qed

text \<open>One worker, one job, and the destructor; used by the witnesses.\<close>

definition bz_demo :: "int \<Rightarrow> int \<Rightarrow> bool \<Rightarrow> nat list \<Rightarrow> bool \<Rightarrow> bz_pc \<Rightarrow> bz_pc \<Rightarrow> bz_sys" where
  "bz_demo a b st q al p m = \<lparr>latch_start = a, latch_stop = b, stop_flag = st, bz_n = 1,
     bz_subs = (\<lambda>_. [])(0 := q), bz_alive = (\<lambda>_. False)(0 := al),
     bz_pc = (\<lambda>_. B_m_start)(0 := p, 1 := m)\<rparr>"

lemma bz_demo_sel [simp]:
  "latch_start (bz_demo a b st q al p m) = a" "latch_stop (bz_demo a b st q al p m) = b"
  "stop_flag (bz_demo a b st q al p m) = st" "bz_n (bz_demo a b st q al p m) = 1"
  "bz_subs (bz_demo a b st q al p m) 0 = q" "bz_alive (bz_demo a b st q al p m) 0 = al"
  "bz_pc (bz_demo a b st q al p m) 0 = p" "bz_pc (bz_demo a b st q al p m) (Suc 0) = m"
  by (simp_all add: bz_demo_def)

lemma bz_demo_run:
  "pool_run bz_step (bz_new 1)
     ([E_tau, E_tau, E_tau, E_tau, E_tau, E_submit 0 7, E_stop, E_tau, E_run 0 [7]]
      @ [E_tau, E_tau, E_tau, E_tau, E_tau, E_tau, E_tau])
     (bz_demo 0 0 True [] False B_over B_m_over)"
  "pool_run bz_step (bz_new 1) [E_tau, E_tau, E_tau, E_tau] (bz_demo 0 1 False [] True B_test B_m_start_wait)"
proof -
  note simps = bz_demo_def bz_go_def fun_eq_iff
  have work: "busy_work 0 s e u \<Longrightarrow> bz_n s = 1 \<Longrightarrow> u = v \<Longrightarrow> bz_step s e v"
    and master: "busy_master s e u \<Longrightarrow> u = v \<Longrightarrow> bz_step s e v"
    and push: "busy_schedule 1 s e u \<Longrightarrow> bz_n s = 1 \<Longrightarrow> u = v \<Longrightarrow> bz_step s e v" for s e u v
    by (auto simp: bz_step_def)
  have 0: "bz_new 1 = bz_demo 2 1 False [] False B_init B_m_start"
    by (simp add: bz_new_def busy_vars_new_def simps)
  have 1: "bz_step (bz_new 1) E_tau (bz_demo 2 1 False [] True B_start B_m_start)"
    unfolding 0 by (rule work [OF bw_init]) (simp_all add: simps)
  have 2: "bz_step (bz_demo 2 1 False [] True B_start B_m_start) E_tau
             (bz_demo 1 1 False [] True B_start_wait B_m_start)"
    by (rule work [OF bw_start]) (simp_all add: simps)
  have 3: "bz_step (bz_demo 1 1 False [] True B_start_wait B_m_start) E_tau
             (bz_demo 0 1 False [] True B_start_wait B_m_start_wait)"
    by (rule master [OF bm_start]) (simp_all add: simps)
  have 4: "bz_step (bz_demo 0 1 False [] True B_start_wait B_m_start_wait) E_tau
             (bz_demo 0 1 False [] True B_test B_m_start_wait)"
    by (rule work [OF bw_started]) (simp_all add: simps)
  have 5: "bz_step (bz_demo 0 1 False [] True B_test B_m_start_wait) E_tau
             (bz_demo 0 1 False [] True B_test B_m_idle)"
    by (rule master [OF bm_started]) (simp_all add: simps)
  have 6: "bz_step (bz_demo 0 1 False [] True B_test B_m_idle) (E_submit 0 7)
             (bz_demo 0 1 False [7] True B_test B_m_idle)"
    by (rule push [OF bs_push]) (simp_all add: simps)
  have 7: "bz_step (bz_demo 0 1 False [7] True B_test B_m_idle) E_stop
             (bz_demo 0 1 True [7] True B_test B_m_join)"
    by (rule master [OF bm_stop]) (simp_all add: simps)
  have 8: "bz_step (bz_demo 0 1 True [7] True B_test B_m_join) E_tau
             (bz_demo 0 1 True [7] True B_drain B_m_join)"
    by (rule work [OF bw_stopped]) (simp_all add: simps)
  have 9: "bz_step (bz_demo 0 1 True [7] True B_drain B_m_join) (E_run 0 [7])
             (bz_demo 0 1 True [] True (B_resume B_drain) B_m_join)"
    using work [OF bw_drain [of "bz_demo 0 1 True [7] True B_drain B_m_join" 0],
        of "bz_demo 0 1 True [] True (B_resume B_drain) B_m_join"] by (simp add: simps)
  have 10: "bz_step (bz_demo 0 1 True [] True (B_resume B_drain) B_m_join) E_tau
             (bz_demo 0 1 True [] True B_drain B_m_join)"
    by (rule work [OF bw_resumed]) (simp_all add: simps)
  have 11: "bz_step (bz_demo 0 1 True [] True B_drain B_m_join) E_tau
             (bz_demo 0 1 True [] True B_set_stop B_m_join)"
    by (rule work [OF bw_drained]) (simp_all add: simps)
  have 12: "bz_step (bz_demo 0 1 True [] True B_set_stop B_m_join) E_tau
             (bz_demo 0 1 True [] True B_arrive B_m_join)"
    by (rule work [OF bw_set_stop]) (simp_all add: simps)
  have 13: "bz_step (bz_demo 0 1 True [] True B_arrive B_m_join) E_tau
             (bz_demo 0 0 True [] True B_stop_wait B_m_join)"
    by (rule work [OF bw_arrive]) (simp_all add: simps)
  have 14: "bz_step (bz_demo 0 0 True [] True B_stop_wait B_m_join) E_tau
             (bz_demo 0 0 True [] True B_final B_m_join)"
    by (rule work [OF bw_pass]) (simp_all add: simps)
  have 15: "bz_step (bz_demo 0 0 True [] True B_final B_m_join) E_tau
             (bz_demo 0 0 True [] False B_over B_m_join)"
    by (rule work [OF bw_finalize]) (simp_all add: simps)
  have 16: "bz_step (bz_demo 0 0 True [] False B_over B_m_join) E_tau
             (bz_demo 0 0 True [] False B_over B_m_over)"
    by (rule master [OF bm_join]) (simp_all add: simps)
  note run_nil = run_nil [of bz_step] and run_step = run_step [where pstep = bz_step]
  note r4 = run_step [OF run_step [OF run_step [OF run_step [OF run_nil 1] 2] 3] 4]
  note r9 = run_step [OF run_step [OF run_step [OF run_step [OF run_step [OF r4 5] 6] 7] 8] 9]
  note r16 = run_step [OF run_step [OF run_step [OF run_step [OF run_step [OF run_step
    [OF run_step [OF r9 10] 11] 12] 13] 14] 15] 16]
  from r4 r16 show
    "pool_run bz_step (bz_new 1)
     ([E_tau, E_tau, E_tau, E_tau, E_tau, E_submit 0 7, E_stop, E_tau, E_run 0 [7]]
      @ [E_tau, E_tau, E_tau, E_tau, E_tau, E_tau, E_tau])
     (bz_demo 0 0 True [] False B_over B_m_over)"
    "pool_run bz_step (bz_new 1) [E_tau, E_tau, E_tau, E_tau] (bz_demo 0 1 False [] True B_test B_m_start_wait)"
    by simp_all
qed

theorem busy_pool_runs_submissions_witness:
  "executed 0 [E_tau, E_tau, E_tau, E_tau, E_tau, E_submit 0 7, E_stop, E_tau, E_run 0 [7],
      E_tau, E_tau, E_tau, E_tau, E_tau, E_tau, E_tau] = [7]"
  using busy_pool_runs_submissions [OF bz_demo_run(1), of 0] by (auto simp: late.simps)

theorem busy_pool_contexts_alive_witness:
  "bz_alive (bz_demo 0 1 False [] True B_test B_m_start_wait) 0"
  by (rule busy_pool_contexts_alive [OF bz_demo_run(2), of 0 0]) simp_all
end
