(* ===== verification/Unit_Pool.thy ===== *)
theory Unit_Pool
  imports Pool_Common
begin

text \<open>
  \<open>schedule/unit_pool.hpp\<close>: a pool with a single worker thread.  The state is the two flags, the
  pointer \<open>m_context\<close>, the worker's submission list and the places of the worker and of the
  master, which constructs, uses and destroys the pool.  A resumed task may submit further jobs.
\<close>

datatype up_worker =
  U_init | U_publish | U_ready | U_test | U_pop | U_resume bool | U_drain | U_final | U_over

datatype up_master = UM_wait | UM_idle | UM_join | UM_over

record up_sys =
  up_stop :: bool
  up_ready :: bool
  up_context :: bool
  up_subs :: "nat list"
  up_worker :: up_worker
  up_master :: up_master

definition up_new :: up_sys where
  "up_new = \<lparr>up_stop = False, up_ready = False, up_context = False, up_subs = [],
     up_worker = U_init, up_master = UM_wait\<rparr>"

text \<open>\<open>work\<close>; \<open>U_resume draining\<close> is inside \<open>resume\<close>, called from the first or from the draining loop.
  \<open>U_final\<close> is the deferred \<open>finalize\<close>.\<close>

inductive unit_work :: "up_sys \<Rightarrow> pool_event \<Rightarrow> up_sys \<Rightarrow> bool" where
  uw_init: "up_worker s = U_init \<Longrightarrow> unit_work s E_tau (s\<lparr>up_worker := U_publish\<rparr>)"
| uw_publish: "up_worker s = U_publish \<Longrightarrow>
     unit_work s E_tau (s\<lparr>up_context := True, up_worker := U_ready\<rparr>)"
| uw_ready: "up_worker s = U_ready \<Longrightarrow> unit_work s E_tau (s\<lparr>up_ready := True, up_worker := U_test\<rparr>)"
| uw_stopped: "up_worker s = U_test \<Longrightarrow> up_stop s \<Longrightarrow> unit_work s E_tau (s\<lparr>up_worker := U_drain\<rparr>)"
| uw_running: "up_worker s = U_test \<Longrightarrow> \<not> up_stop s \<Longrightarrow> unit_work s E_tau (s\<lparr>up_worker := U_pop\<rparr>)"
| uw_pop: "up_worker s = U_pop \<Longrightarrow> up_subs s \<noteq> [] \<Longrightarrow>
     unit_work s (E_run 0 (up_subs s)) (s\<lparr>up_subs := [], up_worker := U_resume False\<rparr>)"
| uw_no_pop: "up_worker s = U_pop \<Longrightarrow> up_subs s = [] \<Longrightarrow> unit_work s E_tau (s\<lparr>up_worker := U_test\<rparr>)"
| uw_resumed: "up_worker s = U_resume draining \<Longrightarrow>
     unit_work s E_tau (s\<lparr>up_worker := if draining then U_drain else U_test\<rparr>)"
| uw_drain: "up_worker s = U_drain \<Longrightarrow> up_subs s \<noteq> [] \<Longrightarrow>
     unit_work s (E_run 0 (up_subs s)) (s\<lparr>up_subs := [], up_worker := U_resume True\<rparr>)"
| uw_drained: "up_worker s = U_drain \<Longrightarrow> up_subs s = [] \<Longrightarrow> unit_work s E_tau (s\<lparr>up_worker := U_final\<rparr>)"
| uw_final: "up_worker s = U_final \<Longrightarrow> unit_work s E_tau (s\<lparr>up_worker := U_over\<rparr>)"

text \<open>The constructor waits for \<open>m_ready\<close>; the destructor sets \<open>m_stop\<close> and joins.\<close>

inductive unit_master :: "up_sys \<Rightarrow> pool_event \<Rightarrow> up_sys \<Rightarrow> bool" where
  um_ready: "up_master s = UM_wait \<Longrightarrow> up_ready s \<Longrightarrow> unit_master s E_tau (s\<lparr>up_master := UM_idle\<rparr>)"
| um_stop: "up_master s = UM_idle \<Longrightarrow> unit_master s E_stop (s\<lparr>up_stop := True, up_master := UM_join\<rparr>)"
| um_join: "up_master s = UM_join \<Longrightarrow> up_worker s = U_over \<Longrightarrow> unit_master s E_tau (s\<lparr>up_master := UM_over\<rparr>)"

text \<open>\<open>schedule\<close>, by the master or from a running task; the pointer must not be null.\<close>

inductive unit_schedule :: "up_sys \<Rightarrow> pool_event \<Rightarrow> up_sys \<Rightarrow> bool" where
  us_push: "up_master s = UM_idle \<or> up_worker s = U_resume draining \<Longrightarrow> up_context s \<Longrightarrow>
     unit_schedule s (E_submit 0 job) (s\<lparr>up_subs := up_subs s @ [job]\<rparr>)"

definition up_step :: "up_sys \<Rightarrow> pool_event \<Rightarrow> up_sys \<Rightarrow> bool" where
  "up_step s e s' \<longleftrightarrow> unit_work s e s' \<or> unit_master s e s' \<or> unit_schedule s e s'"

section \<open>Invariant\<close>

fun up_draining :: "up_worker \<Rightarrow> bool" where
  "up_draining U_drain = True"
| "up_draining (U_resume draining) = draining"
| "up_draining U_final = True"
| "up_draining U_over = True"
| "up_draining _ = False"

definition up_inv :: "pool_event list \<Rightarrow> up_sys \<Rightarrow> bool" where
  "up_inv es s \<longleftrightarrow>
     submitted 0 es = executed 0 es @ up_subs s \<and>
     (up_context s \<longleftrightarrow> up_worker s \<noteq> U_init \<and> up_worker s \<noteq> U_publish) \<and>
     (up_ready s \<longleftrightarrow> up_worker s \<noteq> U_init \<and> up_worker s \<noteq> U_publish \<and> up_worker s \<noteq> U_ready) \<and>
     (up_master s \<noteq> UM_wait \<longrightarrow> up_ready s) \<and>
     (up_stop s \<longleftrightarrow> up_master s = UM_join \<or> up_master s = UM_over) \<and>
     (up_draining (up_worker s) \<longrightarrow> up_stop s) \<and>
     (up_worker s = U_final \<or> up_worker s = U_over \<longrightarrow> up_subs s = []) \<and>
     (up_master s = UM_over \<longrightarrow> up_worker s = U_over)"

lemma up_step_inv:
  assumes "up_step s e s'" "up_inv es s"
  shows "up_inv (es @ [e]) s'"
  using assms(1) unfolding up_step_def
proof (elim disjE)
  assume "unit_work s e s'"
  then show ?thesis
    by (cases rule: unit_work.cases; cases "up_master s")
      (use assms(2) in \<open>simp_all add: up_inv_def\<close>, blast+)
next
  assume "unit_master s e s'"
  then show ?thesis
    by (cases rule: unit_master.cases; cases "up_worker s")
      (use assms(2) in \<open>simp_all add: up_inv_def\<close>, blast+)
next
  assume "unit_schedule s e s'"
  then show ?thesis
    by (cases rule: unit_schedule.cases; cases "up_worker s"; cases "up_master s")
      (use assms(2) in \<open>simp_all add: up_inv_def\<close>, blast+)
qed

lemma up_run_inv:
  assumes "pool_run up_step s es t" "s = up_new"
  shows "up_inv es t"
  using assms
proof (induction rule: pool_run.induct)
  case (run_step s es t e u)
  from up_step_inv [OF run_step.hyps(2) run_step.IH [OF run_step.prems]] show ?case .
qed (simp add: up_inv_def up_new_def)

lemma unit_work_enabled:
  assumes "up_worker s \<noteq> U_over"
  shows "\<exists>e s'. unit_work s e s'"
proof (cases "up_worker s")
  case U_test
  then show ?thesis using uw_stopped [of s] uw_running [of s] by (cases "up_stop s") metis+
next
  case U_pop
  then show ?thesis using uw_pop [of s] uw_no_pop [of s] by (cases "up_subs s = []") metis+
next
  case U_drain
  then show ?thesis using uw_drain [of s] uw_drained [of s] by (cases "up_subs s = []") metis+
qed (use assms uw_init [of s] uw_publish [of s] uw_ready [of s] uw_resumed [of s] uw_final [of s] in metis)+

section \<open>Properties\<close>

text \<open>
  Property C29. The unit pool completes all the work: when its destructor has returned, every job
  that was ever submitted, by the owner or by running jobs and however late, has been run once
  and in order.  Until then the jobs run and the jobs waiting are exactly those submitted, and
  whenever \<open>schedule\<close> is called the pointer to the worker's context is not null.  As long as the
  destructor has not returned, some thread can take a step.
\<close>

theorem unit_pool_completes_all_work:
  assumes "pool_run up_step up_new es s"
  shows "submitted 0 es = executed 0 es @ up_subs s \<and>
     (up_master s = UM_over \<longrightarrow> executed 0 es = submitted 0 es) \<and>
     (up_master s = UM_idle \<or> up_worker s = U_resume draining \<longrightarrow> up_context s) \<and>
     (up_master s = UM_over \<or> (\<exists>e s'. up_step s e s'))"
proof -
  from up_run_inv [OF assms refl] have inv: "up_inv es s" .
  have enabled: "\<exists>e s'. up_step s e s'" if "up_master s \<noteq> UM_over"
  proof (cases "up_worker s = U_over")
    case True
    with that inv have "up_master s = UM_join" by (cases "up_master s") (auto simp: up_inv_def)
    with um_join True show ?thesis unfolding up_step_def by blast
  next
    case False
    then obtain e s' where "unit_work s e s'" using unit_work_enabled by blast
    then show ?thesis unfolding up_step_def by blast
  qed
  have "up_context s" if "up_master s = UM_idle \<or> up_worker s = U_resume draining"
  proof -
    have "up_ready s \<or> up_worker s = U_resume draining" using inv that by (auto simp only: up_inv_def up_master.distinct)
    then have "up_worker s \<noteq> U_init \<and> up_worker s \<noteq> U_publish" using inv unfolding up_inv_def by fastforce
    then show ?thesis using inv unfolding up_inv_def by blast
  qed
  moreover have "executed 0 es = submitted 0 es" if "up_master s = UM_over"
    using inv that by (simp add: up_inv_def)
  moreover have "submitted 0 es = executed 0 es @ up_subs s" using inv by (simp add: up_inv_def)
  ultimately show ?thesis using enabled by metis
qed

theorem unit_pool_completes_all_work_witness:
  "pool_run up_step up_new [E_tau] (up_new\<lparr>up_worker := U_publish\<rparr>) \<and>
   (\<exists>e s'. up_step (up_new\<lparr>up_worker := U_publish\<rparr>) e s')"
proof -
  have "up_step up_new E_tau (up_new\<lparr>up_worker := U_publish\<rparr>)"
    unfolding up_step_def using uw_init [of up_new] by (simp add: up_new_def)
  from run_step [where pstep = up_step, OF run_nil this]
  have run: "pool_run up_step up_new [E_tau] (up_new\<lparr>up_worker := U_publish\<rparr>)" by simp
  with unit_pool_completes_all_work [OF run] show ?thesis by (simp add: up_new_def)
qed
end
