(* ===== verification/Lazy_Pool.thy ===== *)
theory Lazy_Pool
  imports Pool_Common Event_Count
begin

text \<open>
  \<open>schedule/lazy_pool.hpp\<close>: the event loop \<open>lazy_work\<close> of a worker, \<open>thief_work_sleep\<close>, and the
  constructor, \<open>schedule\<close> and destructor of \<open>lazy_pool\<close>, as the steps of one system of threads:
  \<open>0, \<dots>, n - 1\<close> are the workers, \<open>n\<close> is the master that owns the pool, and every later thread may
  submit jobs once the pool is constructed.  One step is one access to a shared variable; the
  notifiers are the 64-bit words of \<open>Event_Count\<close>, with its operations.

  What a resumed task does is arbitrary: it runs for any number of steps and may submit jobs to
  any worker.  Whether \<open>try_steal\<close> finds a task is arbitrary too.  The wait of the standard
  library is the one of \<open>Event_Count\<close>; \<open>notify_one\<close> wakes one of the sleepers whose value has
  changed, if there is one (the standard: at least one of those eligible to be unblocked).
\<close>

section \<open>State\<close>

record fat_counters =
  fc_thief :: u64
  fc_notifier :: u64

record lazy_vars = busy_vars +
  lv_active :: u64
  lv_numa :: "fat_counters list"

text \<open>
  The places of a thread.  \<open>Z_add all d pc\<close> is before the \<open>fetch_add\<close> of \<open>notify_all\<close> or
  \<open>notify_one\<close> on locality \<open>d\<close>, \<open>Z_notify all d pc\<close> before the notification of the atomic; \<open>pc\<close> is
  where the thread goes on.
\<close>

datatype lz_pc =
    Z_init | Z_start | Z_start_wait
  | Z_wake | Z_pop | Z_steal | Z_prep | Z_check u32 | Z_cancel_work
  | Z_stop_test u32 | Z_cancel_exit | Z_exit_dec | Z_dec u32 | Z_load u32 | Z_cancel_wake
  | Z_wait u32 | Z_asleep u32 | Z_leave
  | Z_tws | Z_active_add | Z_loop nat | Z_work | Z_active_sub
  | Z_add bool nat lz_pc | Z_notify bool nat lz_pc
  | Z_set_stop | Z_arrive | Z_stop_wait | Z_final | Z_over
  | Z_m_start | Z_m_start_wait | Z_m_idle | Z_m_loop nat | Z_m_join | Z_m_over | Z_ext

record lz_sys = lazy_vars +
  lz_n :: nat
  lz_dom :: "nat \<Rightarrow> nat"
  lz_subs :: "nat \<Rightarrow> nat list"
  lz_alive :: "nat \<Rightarrow> bool"
  lz_pc :: "nat \<Rightarrow> lz_pc"

text \<open>The pool after the constructor has started the threads; \<open>nodes\<close> are the localities the
  topology gives the workers.\<close>

definition lz_new :: "nat list \<Rightarrow> lz_sys" where
  "lz_new nodes = (let n = length nodes in
     \<lparr>latch_start = latch_start (busy_vars_new n), latch_stop = latch_stop (busy_vars_new n),
      stop_flag = stop_flag (busy_vars_new n), lv_active = 0,
      lv_numa = replicate (1 + Max (set nodes)) \<lparr>fc_thief = 0, fc_notifier = 0\<rparr>,
      lz_n = n, lz_dom = (\<lambda>j. nodes ! j), lz_subs = (\<lambda>_. []), lz_alive = (\<lambda>_. False),
      lz_pc = (\<lambda>t. if t < n then Z_init else if t = n then Z_m_start else Z_ext)\<rparr>)"

definition lz_go :: "lz_sys \<Rightarrow> nat \<Rightarrow> lz_pc \<Rightarrow> lz_sys" where
  "lz_go s t pc = s\<lparr>lz_pc := (lz_pc s)(t := pc)\<rparr>"

definition thief :: "lz_sys \<Rightarrow> nat \<Rightarrow> u64" where
  "thief s d = fc_thief (lv_numa s ! d)"

definition notifier :: "lz_sys \<Rightarrow> nat \<Rightarrow> u64" where
  "notifier s d = fc_notifier (lv_numa s ! d)"

definition set_thief :: "lz_sys \<Rightarrow> nat \<Rightarrow> u64 \<Rightarrow> lz_sys" where
  "set_thief s d v = s\<lparr>lv_numa := (lv_numa s)[d := (lv_numa s ! d)\<lparr>fc_thief := v\<rparr>]\<rparr>"

definition set_notifier :: "lz_sys \<Rightarrow> nat \<Rightarrow> u64 \<Rightarrow> lz_sys" where
  "set_notifier s d v = s\<lparr>lv_numa := (lv_numa s)[d := (lv_numa s ! d)\<lparr>fc_notifier := v\<rparr>]\<rparr>"

section \<open>Workers\<close>

text \<open>\<open>thief_work_sleep\<close> in worker \<open>j\<close>.\<close>

inductive thief_work_sleep :: "nat \<Rightarrow> lz_sys \<Rightarrow> pool_event \<Rightarrow> lz_sys \<Rightarrow> bool" where
  tw_last: "lz_pc s j = Z_tws \<Longrightarrow> d = lz_dom s j \<Longrightarrow> thief s d = 1 \<Longrightarrow>
     thief_work_sleep j s E_tau (lz_go (set_thief s d (thief s d - 1)) j (Z_add False d Z_active_add))"
| tw_more: "lz_pc s j = Z_tws \<Longrightarrow> d = lz_dom s j \<Longrightarrow> thief s d \<noteq> 1 \<Longrightarrow>
     thief_work_sleep j s E_tau (lz_go (set_thief s d (thief s d - 1)) j Z_active_add)"
| tw_first: "lz_pc s j = Z_active_add \<Longrightarrow> lv_active s = 0 \<Longrightarrow>
     thief_work_sleep j s E_tau (lz_go (s\<lparr>lv_active := lv_active s + 1\<rparr>) j (Z_loop 0))"
| tw_active: "lz_pc s j = Z_active_add \<Longrightarrow> lv_active s \<noteq> 0 \<Longrightarrow>
     thief_work_sleep j s E_tau (lz_go (s\<lparr>lv_active := lv_active s + 1\<rparr>) j Z_work)"
| tw_notify: "lz_pc s j = Z_loop i \<Longrightarrow> i < length (lv_numa s) \<Longrightarrow> thief s i = 0 \<Longrightarrow>
     thief_work_sleep j s E_tau (lz_go s j (Z_add False i (Z_loop (Suc i))))"
| tw_skip: "lz_pc s j = Z_loop i \<Longrightarrow> i < length (lv_numa s) \<Longrightarrow> thief s i \<noteq> 0 \<Longrightarrow>
     thief_work_sleep j s E_tau (lz_go s j (Z_loop (Suc i)))"
| tw_end: "lz_pc s j = Z_loop i \<Longrightarrow> length (lv_numa s) \<le> i \<Longrightarrow>
     thief_work_sleep j s E_tau (lz_go s j Z_work)"
| tw_resumed: "lz_pc s j = Z_work \<Longrightarrow> thief_work_sleep j s E_tau (lz_go s j Z_active_sub)"
| tw_sub: "lz_pc s j = Z_active_sub \<Longrightarrow>
     thief_work_sleep j s E_tau (lz_go (s\<lparr>lv_active := lv_active s - 1\<rparr>) j Z_wake)"

text \<open>\<open>lazy_work\<close> in worker \<open>j\<close>; its calls of \<open>thief_work_sleep\<close> and of the notifier are the other
  relations.  The last four steps are the deferred block.\<close>

inductive lazy_work :: "nat \<Rightarrow> lz_sys \<Rightarrow> pool_event \<Rightarrow> lz_sys \<Rightarrow> bool" where
  lw_init: "lz_pc s j = Z_init \<Longrightarrow>
     lazy_work j s E_tau (lz_go (s\<lparr>lz_alive := (lz_alive s)(j := True)\<rparr>) j Z_start)"
| lw_start: "lz_pc s j = Z_start \<Longrightarrow>
     lazy_work j s E_tau (lz_go (s\<lparr>latch_start := latch_start s - 1\<rparr>) j Z_start_wait)"
| lw_started: "lz_pc s j = Z_start_wait \<Longrightarrow> latch_start s = 0 \<Longrightarrow> lazy_work j s E_tau (lz_go s j Z_wake)"
| lw_wake: "lz_pc s j = Z_wake \<Longrightarrow> d = lz_dom s j \<Longrightarrow>
     lazy_work j s E_tau (lz_go (set_thief s d (thief s d + 1)) j Z_pop)"
| lw_pop: "lz_pc s j = Z_pop \<Longrightarrow> lz_subs s j \<noteq> [] \<Longrightarrow>
     lazy_work j s (E_run j (lz_subs s j)) (lz_go (s\<lparr>lz_subs := (lz_subs s)(j := [])\<rparr>) j Z_tws)"
| lw_no_pop: "lz_pc s j = Z_pop \<Longrightarrow> lz_subs s j = [] \<Longrightarrow> lazy_work j s E_tau (lz_go s j Z_steal)"
| lw_steal: "lz_pc s j = Z_steal \<Longrightarrow> lazy_work j s E_tau (lz_go s j Z_tws)"
| lw_no_steal: "lz_pc s j = Z_steal \<Longrightarrow> lazy_work j s E_tau (lz_go s j Z_prep)"
| lw_prepare: "lz_pc s j = Z_prep \<Longrightarrow> d = lz_dom s j \<Longrightarrow> ec_prepare_wait (notifier s d) = (key, v) \<Longrightarrow>
     lazy_work j s E_tau (lz_go (set_notifier s d v) j (Z_check key))"
| lw_check_pop: "lz_pc s j = Z_check key \<Longrightarrow> lz_subs s j \<noteq> [] \<Longrightarrow>
     lazy_work j s (E_run j (lz_subs s j)) (lz_go (s\<lparr>lz_subs := (lz_subs s)(j := [])\<rparr>) j Z_cancel_work)"
| lw_check: "lz_pc s j = Z_check key \<Longrightarrow> lz_subs s j = [] \<Longrightarrow> lazy_work j s E_tau (lz_go s j (Z_stop_test key))"
| lw_cancel_work: "lz_pc s j = Z_cancel_work \<Longrightarrow> d = lz_dom s j \<Longrightarrow> ec_cancel_wait (notifier s d) = Some v \<Longrightarrow>
     lazy_work j s E_tau (lz_go (set_notifier s d v) j Z_tws)"
| lw_stop: "lz_pc s j = Z_stop_test key \<Longrightarrow> stop_flag s \<Longrightarrow> lazy_work j s E_tau (lz_go s j Z_cancel_exit)"
| lw_no_stop: "lz_pc s j = Z_stop_test key \<Longrightarrow> \<not> stop_flag s \<Longrightarrow> lazy_work j s E_tau (lz_go s j (Z_dec key))"
| lw_cancel_exit: "lz_pc s j = Z_cancel_exit \<Longrightarrow> d = lz_dom s j \<Longrightarrow> ec_cancel_wait (notifier s d) = Some v \<Longrightarrow>
     lazy_work j s E_tau (lz_go (set_notifier s d v) j (Z_add True d Z_exit_dec))"
| lw_exit: "lz_pc s j = Z_exit_dec \<Longrightarrow> d = lz_dom s j \<Longrightarrow>
     lazy_work j s E_tau (lz_go (set_thief s d (thief s d - 1)) j Z_set_stop)"
| lw_dec_last: "lz_pc s j = Z_dec key \<Longrightarrow> d = lz_dom s j \<Longrightarrow> thief s d = 1 \<Longrightarrow>
     lazy_work j s E_tau (lz_go (set_thief s d (thief s d - 1)) j (Z_load key))"
| lw_dec: "lz_pc s j = Z_dec key \<Longrightarrow> d = lz_dom s j \<Longrightarrow> thief s d \<noteq> 1 \<Longrightarrow>
     lazy_work j s E_tau (lz_go (set_thief s d (thief s d - 1)) j (Z_wait key))"
| lw_load_active: "lz_pc s j = Z_load key \<Longrightarrow> 0 < lv_active s \<Longrightarrow> lazy_work j s E_tau (lz_go s j Z_cancel_wake)"
| lw_load_idle: "lz_pc s j = Z_load key \<Longrightarrow> \<not> 0 < lv_active s \<Longrightarrow> lazy_work j s E_tau (lz_go s j (Z_wait key))"
| lw_cancel_wake: "lz_pc s j = Z_cancel_wake \<Longrightarrow> d = lz_dom s j \<Longrightarrow> ec_cancel_wait (notifier s d) = Some v \<Longrightarrow>
     lazy_work j s E_tau (lz_go (set_notifier s d v) j Z_wake)"
| lw_changed: "lz_pc s j = Z_wait key \<Longrightarrow> d = lz_dom s j \<Longrightarrow> ec_epoch (notifier s d) \<noteq> key \<Longrightarrow>
     lazy_work j s E_tau (lz_go s j Z_leave)"
| lw_sleep: "lz_pc s j = Z_wait key \<Longrightarrow> d = lz_dom s j \<Longrightarrow> ec_epoch (notifier s d) = key \<Longrightarrow>
     lazy_work j s E_tau (lz_go s j (Z_asleep key))"
| lw_spurious: "lz_pc s j = Z_asleep key \<Longrightarrow> lazy_work j s E_tau (lz_go s j (Z_wait key))"
| lw_leave: "lz_pc s j = Z_leave \<Longrightarrow> d = lz_dom s j \<Longrightarrow> ec_wait_return (notifier s d) = Some v \<Longrightarrow>
     lazy_work j s E_tau (lz_go (set_notifier s d v) j Z_wake)"
| lw_set_stop: "lz_pc s j = Z_set_stop \<Longrightarrow>
     lazy_work j s E_tau (lz_go (s\<lparr>stop_flag := True\<rparr>) j Z_arrive)"
| lw_arrive: "lz_pc s j = Z_arrive \<Longrightarrow>
     lazy_work j s E_tau (lz_go (s\<lparr>latch_stop := latch_stop s - 1\<rparr>) j Z_stop_wait)"
| lw_pass: "lz_pc s j = Z_stop_wait \<Longrightarrow> latch_stop s = 0 \<Longrightarrow> lazy_work j s E_tau (lz_go s j Z_final)"
| lw_finalize: "lz_pc s j = Z_final \<Longrightarrow>
     lazy_work j s E_tau (lz_go (s\<lparr>lz_alive := (lz_alive s)(j := False)\<rparr>) j Z_over)"

section \<open>Notifications, the master and submissions\<close>

fun wake_pc :: "lz_pc \<Rightarrow> lz_pc" where
  "wake_pc (Z_asleep key) = Z_wait key"
| "wake_pc pc = pc"

text \<open>Worker \<open>j\<close> sleeps on the notifier of locality \<open>d\<close> although its value has changed.\<close>

definition stale_sleeper :: "lz_sys \<Rightarrow> nat \<Rightarrow> nat \<Rightarrow> bool" where
  "stale_sleeper s d j \<longleftrightarrow> j < lz_n s \<and> lz_dom s j = d \<and>
     (case lz_pc s j of Z_asleep key \<Rightarrow> key \<noteq> ec_epoch (notifier s d) | _ \<Rightarrow> False)"

text \<open>\<open>notify_one\<close> and \<open>notify_all\<close> in thread \<open>t\<close>.\<close>

inductive lazy_notify :: "nat \<Rightarrow> lz_sys \<Rightarrow> pool_event \<Rightarrow> lz_sys \<Rightarrow> bool" where
  ln_add: "lz_pc s t = Z_add b d pc \<Longrightarrow> ec_notify (notifier s d) = (w, v) \<Longrightarrow>
     lazy_notify t s (E_notify d) (lz_go (set_notifier s d v) t (if w then Z_notify b d pc else pc))"
| ln_all: "lz_pc s t = Z_notify True d pc \<Longrightarrow>
     lazy_notify t s E_tau
       (s\<lparr>lz_pc := (\<lambda>j. if j < lz_n s \<and> lz_dom s j = d then wake_pc (lz_pc s j) else lz_pc s j)(t := pc)\<rparr>)"
| ln_one: "lz_pc s t = Z_notify False d pc \<Longrightarrow> stale_sleeper s d j \<Longrightarrow>
     lazy_notify t s E_tau (s\<lparr>lz_pc := (lz_pc s)(j := wake_pc (lz_pc s j), t := pc)\<rparr>)"
| ln_none: "lz_pc s t = Z_notify False d pc \<Longrightarrow> (\<And>j. \<not> stale_sleeper s d j) \<Longrightarrow>
     lazy_notify t s E_tau (lz_go s t pc)"

text \<open>The master: the end of the constructor, and the destructor.\<close>

inductive lazy_master :: "lz_sys \<Rightarrow> pool_event \<Rightarrow> lz_sys \<Rightarrow> bool" where
  lm_start: "lz_pc s (lz_n s) = Z_m_start \<Longrightarrow>
     lazy_master s E_tau (lz_go (s\<lparr>latch_start := latch_start s - 1\<rparr>) (lz_n s) Z_m_start_wait)"
| lm_started: "lz_pc s (lz_n s) = Z_m_start_wait \<Longrightarrow> latch_start s = 0 \<Longrightarrow>
     lazy_master s E_tau (lz_go s (lz_n s) Z_m_idle)"
| lm_stop: "lz_pc s (lz_n s) = Z_m_idle \<Longrightarrow>
     lazy_master s E_stop (lz_go (s\<lparr>stop_flag := True\<rparr>) (lz_n s) (Z_m_loop 0))"
| lm_loop: "lz_pc s (lz_n s) = Z_m_loop i \<Longrightarrow> i < length (lv_numa s) \<Longrightarrow>
     lazy_master s E_tau (lz_go s (lz_n s) (Z_add True i (Z_m_loop (Suc i))))"
| lm_loop_end: "lz_pc s (lz_n s) = Z_m_loop i \<Longrightarrow> length (lv_numa s) \<le> i \<Longrightarrow>
     lazy_master s E_tau (lz_go s (lz_n s) Z_m_join)"
| lm_join: "lz_pc s (lz_n s) = Z_m_join \<Longrightarrow> (\<And>j. j < lz_n s \<Longrightarrow> lz_pc s j = Z_over) \<Longrightarrow>
     lazy_master s E_tau (lz_go s (lz_n s) Z_m_over)"

text \<open>\<open>schedule\<close>: push the job on the list of worker \<open>x\<close>, then its notification, which is
  \<open>notify_all\<close> on the locality of \<open>x\<close>.\<close>

inductive lazy_schedule :: "nat \<Rightarrow> lz_sys \<Rightarrow> pool_event \<Rightarrow> lz_sys \<Rightarrow> bool" where
  ls_push: "lz_pc s t = Z_m_idle \<or> lz_pc s t = Z_work \<or> lz_pc s t = Z_ext \<and> latch_start s = 0 \<Longrightarrow>
     x < lz_n s \<Longrightarrow>
     lazy_schedule t s (E_submit x job)
       (lz_go (s\<lparr>lz_subs := (lz_subs s)(x := lz_subs s x @ [job])\<rparr>) t (Z_add True (lz_dom s x) (lz_pc s t)))"

definition lz_step :: "lz_sys \<Rightarrow> pool_event \<Rightarrow> lz_sys \<Rightarrow> bool" where
  "lz_step s e s' \<longleftrightarrow>
     (\<exists>j<lz_n s. thief_work_sleep j s e s' \<or> lazy_work j s e s') \<or>
     (\<exists>t. lazy_notify t s e s' \<or> lazy_schedule t s e s') \<or> lazy_master s e s'"

section \<open>The life cycle\<close>

fun lz_phase :: "lz_pc \<Rightarrow> phase" where
  "lz_phase Z_init = P_init"
| "lz_phase Z_start = P_start"
| "lz_phase Z_start_wait = P_start_wait"
| "lz_phase Z_stop_wait = P_stop_wait"
| "lz_phase Z_final = P_final"
| "lz_phase Z_over = P_over"
| "lz_phase (Z_add _ _ pc) = lz_phase pc"
| "lz_phase (Z_notify _ _ pc) = lz_phase pc"
| "lz_phase _ = P_run"

fun lz_arrived :: "lz_pc \<Rightarrow> bool" where
  "lz_arrived Z_m_start = False"
| "lz_arrived (Z_add _ _ pc) = lz_arrived pc"
| "lz_arrived (Z_notify _ _ pc) = lz_arrived pc"
| "lz_arrived _ = True"

definition lz_view :: "lz_sys \<Rightarrow> latch_view" where
  "lz_view s = \<lparr>v_start = latch_start s, v_stop = latch_stop s, v_phase = lz_phase \<circ> lz_pc s,
     v_alive = lz_alive s, v_master = lz_arrived (lz_pc s (lz_n s))\<rparr>"

definition lz_started :: "nat \<Rightarrow> lz_sys \<Rightarrow> bool" where
  "lz_started n s \<longleftrightarrow> (\<exists>nodes. nodes \<noteq> [] \<and> length nodes = n \<and> s = lz_new nodes)"

lemma lz_go_sel [simp]:
  "lz_pc (lz_go s t pc) = (lz_pc s)(t := pc)" "lz_n (lz_go s t pc) = lz_n s"
  "lz_subs (lz_go s t pc) = lz_subs s" "lz_alive (lz_go s t pc) = lz_alive s"
  "lz_dom (lz_go s t pc) = lz_dom s" "lv_active (lz_go s t pc) = lv_active s"
  "lv_numa (lz_go s t pc) = lv_numa s" "latch_start (lz_go s t pc) = latch_start s"
  "latch_stop (lz_go s t pc) = latch_stop s" "stop_flag (lz_go s t pc) = stop_flag s"
  "thief (lz_go s t pc) = thief s" "notifier (lz_go s t pc) = notifier s"
  by (auto simp: lz_go_def thief_def notifier_def)

lemma set_thief_sel [simp]:
  "lz_pc (set_thief s d v) = lz_pc s" "lz_n (set_thief s d v) = lz_n s"
  "lz_subs (set_thief s d v) = lz_subs s" "lz_alive (set_thief s d v) = lz_alive s"
  "lz_dom (set_thief s d v) = lz_dom s" "lv_active (set_thief s d v) = lv_active s"
  "length (lv_numa (set_thief s d v)) = length (lv_numa s)" "latch_start (set_thief s d v) = latch_start s"
  "latch_stop (set_thief s d v) = latch_stop s" "stop_flag (set_thief s d v) = stop_flag s"
  "notifier (set_thief s d v) i = notifier s i"
  "d < length (lv_numa s) \<Longrightarrow> thief (set_thief s d v) i = (if i = d then v else thief s i)"
  by (cases "d < length (lv_numa s)"; cases "i = d"; simp add: set_thief_def thief_def notifier_def list_update_beyond)+

lemma set_notifier_sel [simp]:
  "lz_pc (set_notifier s d v) = lz_pc s" "lz_n (set_notifier s d v) = lz_n s"
  "lz_subs (set_notifier s d v) = lz_subs s" "lz_alive (set_notifier s d v) = lz_alive s"
  "lz_dom (set_notifier s d v) = lz_dom s" "lv_active (set_notifier s d v) = lv_active s"
  "length (lv_numa (set_notifier s d v)) = length (lv_numa s)" "latch_start (set_notifier s d v) = latch_start s"
  "latch_stop (set_notifier s d v) = latch_stop s" "stop_flag (set_notifier s d v) = stop_flag s"
  "thief (set_notifier s d v) i = thief s i"
  "d < length (lv_numa s) \<Longrightarrow> notifier (set_notifier s d v) i = (if i = d then v else notifier s i)"
  by (cases "d < length (lv_numa s)"; cases "i = d"; simp add: set_notifier_def thief_def notifier_def list_update_beyond)+

lemma upd_sel [simp]:
  "thief (s\<lparr>lv_active := a\<rparr>) = thief s" "notifier (s\<lparr>lv_active := a\<rparr>) = notifier s"
  "thief (s\<lparr>lz_subs := q\<rparr>) = thief s" "notifier (s\<lparr>lz_subs := q\<rparr>) = notifier s"
  "thief (s\<lparr>lz_alive := al\<rparr>) = thief s" "notifier (s\<lparr>lz_alive := al\<rparr>) = notifier s"
  "thief (s\<lparr>lz_pc := f\<rparr>) = thief s" "notifier (s\<lparr>lz_pc := f\<rparr>) = notifier s"
  "thief (s\<lparr>latch_start := i\<rparr>) = thief s" "notifier (s\<lparr>latch_start := i\<rparr>) = notifier s"
  "thief (s\<lparr>latch_stop := i\<rparr>) = thief s" "notifier (s\<lparr>latch_stop := i\<rparr>) = notifier s"
  "thief (s\<lparr>stop_flag := b\<rparr>) = thief s" "notifier (s\<lparr>stop_flag := b\<rparr>) = notifier s"
  by (auto simp: thief_def notifier_def)

lemma lz_phase_same: "lz_phase pc = lz_phase (f t) \<Longrightarrow> lz_phase \<circ> f(t := pc) = lz_phase \<circ> f"
  by auto

lemma wake_pc_simps [simp]: "lz_phase (wake_pc pc) = lz_phase pc" "lz_arrived (wake_pc pc) = lz_arrived pc"
  by (cases pc; simp)+

lemma stale_sleeperE:
  assumes "stale_sleeper s d j"
  obtains key where "j < lz_n s" "lz_dom s j = d" "lz_pc s j = Z_asleep key" "key \<noteq> ec_epoch (notifier s d)"
  using assms by (auto simp: stale_sleeper_def split: lz_pc.splits)

lemma lazy_work_view:
  assumes "lazy_work j s e s'" "j < lz_n s"
  shows "lz_view s' = lz_view s \<or> latch_step (lz_n s) (lz_view s) (lz_view s')"
proof -
  let ?v = "lz_view s"
  have other: "j \<noteq> lz_n s" using assms(2) by simp
  from assms(1) show ?thesis
  proof (cases rule: lazy_work.cases)
    case lw_init
    with assms(2) latch_step.ls_init [of j "lz_n s" ?v] show ?thesis
      by (simp add: lz_view_def fun_upd_comp)
  next
    case lw_start
    with assms(2) latch_step.ls_arrive [of j "lz_n s" ?v] show ?thesis
      by (simp add: lz_view_def fun_upd_comp)
  next
    case lw_started
    with assms(2) latch_step.ls_go [of j "lz_n s" ?v] show ?thesis
      by (simp add: lz_view_def fun_upd_comp)
  next
    case lw_arrive
    with assms(2) latch_step.ls_stop [of j "lz_n s" ?v] show ?thesis
      by (simp add: lz_view_def fun_upd_comp)
  next
    case lw_pass
    with assms(2) latch_step.ls_pass [of j "lz_n s" ?v] show ?thesis
      by (simp add: lz_view_def fun_upd_comp)
  next
    case lw_finalize
    with assms(2) latch_step.ls_finish [of j "lz_n s" ?v] show ?thesis
      by (simp add: lz_view_def fun_upd_comp)
  qed (use other in \<open>simp_all add: lz_view_def lz_phase_same\<close>)
qed

lemma thief_work_sleep_view:
  assumes "thief_work_sleep j s e s'" "j < lz_n s"
  shows "lz_view s' = lz_view s"
  using assms(1) by (cases rule: thief_work_sleep.cases) (use assms(2) in \<open>simp_all add: lz_view_def lz_phase_same\<close>)

lemma lazy_notify_view:
  assumes "lazy_notify t s e s'"
  shows "lz_view s' = lz_view s"
  using assms
proof (cases rule: lazy_notify.cases)
  case (ln_one d pc j)
  then have "lz_phase (wake_pc (lz_pc s j)) = lz_phase (lz_pc s j)" by simp
  with ln_one stale_sleeperE [of s d j] show ?thesis
    by (auto simp: lz_view_def fun_eq_iff)
qed (auto simp: lz_view_def fun_eq_iff)

lemma lazy_schedule_view: "lazy_schedule t s e s' \<Longrightarrow> lz_view s' = lz_view s"
  by (auto simp: lz_view_def fun_eq_iff elim!: lazy_schedule.cases split: if_splits)

lemma lazy_master_view:
  assumes "lazy_master s e s'"
  shows "lz_view s' = lz_view s \<or> latch_step (lz_n s) (lz_view s) (lz_view s')"
  using assms
proof (cases rule: lazy_master.cases)
  case lm_start
  with latch_step.ls_master [of "lz_view s" "lz_n s"] show ?thesis
    by (simp add: lz_view_def lz_phase_same)
qed (simp_all add: lz_view_def lz_phase_same)

lemma lz_view_start:
  assumes "lz_started n s"
  shows "lz_n s = n \<and> latch_inv n (lz_view s)"
proof -
  from assms obtain nodes where s: "s = lz_new nodes" "length nodes = n" by (auto simp: lz_started_def)
  have "tally n (lz_phase \<circ> lz_pc s) (\<lambda>_. before_start) = n" "tally n (lz_phase \<circ> lz_pc s) (\<lambda>_. before_stop) = n"
    by (simp_all add: tally_def lz_new_def before_start_def before_stop_def s Let_def)
  then show ?thesis
    by (simp add: latch_inv_def lz_view_def lz_new_def busy_vars_new_def before_start_def s Let_def)
qed

lemma lz_step_n:
  assumes "lz_step s e s'"
  shows "lz_n s' = lz_n s"
  using assms
  by (auto simp: lz_step_def elim: lazy_work.cases thief_work_sleep.cases lazy_notify.cases
      lazy_schedule.cases lazy_master.cases)

interpretation lz: latched_pool lz_n lz_view lz_step lz_started
proof unfold_locales
  show "lz_view s' = lz_view s \<or> latch_step (lz_n s) (lz_view s) (lz_view s')"
    if "lz_step s e s'" for s e s'
    using that lazy_work_view thief_work_sleep_view lazy_notify_view lazy_schedule_view lazy_master_view
    unfolding lz_step_def by metis
qed (simp_all add: lz_view_start lz_step_n)
end
