(* ===== verification/Lazy_Pool_Correct.thy ===== *)
theory Lazy_Pool_Correct
  imports Lazy_Pool
begin

text \<open>
  The invariants of the lazy pool.  First the counters: \<open>thief\<close> of a locality is the number of
  its workers that look for work, \<open>active\<close> the number of workers that run tasks, the notifier
  counts its notifications and the workers between \<open>prepare_wait\<close> and the end of the wait.  Then
  the three promises of the protocol: while a worker runs tasks no locality falls asleep as a
  whole, a submitted job wakes its worker, and the destructor wakes everybody.
\<close>

section \<open>Counters\<close>

fun th :: "lz_pc \<Rightarrow> bool" where
  "th (Z_add _ _ pc) = th pc"
| "th (Z_notify _ _ pc) = th pc"
| "th (Z_check _) = True"
| "th (Z_stop_test _) = True"
| "th (Z_dec _) = True"
| "th pc = (pc \<in> {Z_pop, Z_steal, Z_prep, Z_cancel_work, Z_cancel_exit, Z_exit_dec, Z_tws})"

fun ac :: "lz_pc \<Rightarrow> bool" where
  "ac (Z_add _ _ pc) = ac pc"
| "ac (Z_notify _ _ pc) = ac pc"
| "ac (Z_loop _) = True"
| "ac pc = (pc \<in> {Z_work, Z_active_sub})"

fun pkey :: "lz_pc \<Rightarrow> u32 option" where
  "pkey (Z_check key) = Some key"
| "pkey (Z_stop_test key) = Some key"
| "pkey (Z_dec key) = Some key"
| "pkey (Z_load key) = Some key"
| "pkey (Z_wait key) = Some key"
| "pkey (Z_asleep key) = Some key"
| "pkey _ = None"

fun wt :: "lz_pc \<Rightarrow> bool" where
  "wt Z_cancel_work = True"
| "wt Z_cancel_exit = True"
| "wt Z_cancel_wake = True"
| "wt Z_leave = True"
| "wt pc = (pkey pc \<noteq> None)"

definition thieves :: "lz_sys \<Rightarrow> nat \<Rightarrow> nat" where
  "thieves s d = tally (lz_n s) (lz_pc s) (\<lambda>j pc. lz_dom s j = d \<and> th pc)"

definition actives :: "lz_sys \<Rightarrow> nat" where
  "actives s = tally (lz_n s) (lz_pc s) (\<lambda>j. ac)"

definition lz_waiters :: "lz_sys \<Rightarrow> nat \<Rightarrow> nat" where
  "lz_waiters s d = tally (lz_n s) (lz_pc s) (\<lambda>j pc. lz_dom s j = d \<and> wt pc)"

text \<open>Where a notifying thread goes on.\<close>

fun ok_cont :: "lz_pc \<Rightarrow> bool" where
  "ok_cont (Z_loop _) = True"
| "ok_cont (Z_m_loop _) = True"
| "ok_cont pc = (pc \<in> {Z_exit_dec, Z_active_add, Z_work, Z_m_idle, Z_ext})"

fun ok_pc :: "nat \<Rightarrow> lz_pc \<Rightarrow> bool" where
  "ok_pc nd (Z_add _ d pc) = (d < nd \<and> ok_cont pc)"
| "ok_pc nd (Z_notify _ d pc) = (d < nd \<and> ok_cont pc)"
| "ok_pc nd _ = True"

definition lz_wf :: "lz_sys \<Rightarrow> bool" where
  "lz_wf s \<longleftrightarrow> lz_n s < 2 ^ 32 \<and> (\<forall>j<lz_n s. lz_dom s j < length (lv_numa s))
     \<and> (\<forall>t. ok_pc (length (lv_numa s)) (lz_pc s t))"

definition lz_counts :: "pool_event list \<Rightarrow> lz_sys \<Rightarrow> bool" where
  "lz_counts es s \<longleftrightarrow>
     (\<forall>d<length (lv_numa s). thief s d = of_nat (thieves s d)
        \<and> notifier s d = ec_word (notified d es) (lz_waiters s d))
     \<and> lv_active s = of_nat (actives s)"

lemma tally_word:
  "j < n \<Longrightarrow> (of_nat (tally n (f(j := x)) P) :: u64)
     = of_nat (tally n f P) + of_bool (P j x) - of_bool (P j (f j))"
  using arg_cong [OF tally_upd [of j n f x P], of "of_nat :: nat \<Rightarrow> u64"] by (simp add: eq_diff_eq)

lemma ec_word_tally:
  "j < n \<Longrightarrow> ec_word e (tally n (f(j := x)) P)
     = ec_word e (tally n f P) + of_bool (P j x) - of_bool (P j (f j))"
  using tally_word [of j n f x P] by (simp add: ec_word_def)

lemma ec_ops_add:
  "ec_prepare_wait v = (key, v') \<Longrightarrow> v' = v + 1"
  "ec_cancel_wait v = Some v' \<Longrightarrow> v' = v - 1"
  "ec_wait_return v = Some v' \<Longrightarrow> v' = v - 1"
  by (auto simp: ec_prepare_wait_def ec_cancel_wait_def ec_wait_return_def k_add_waiter_def
      k_sub_waiter_def split: Option.bind_splits)

lemma ec_notify_word: "ec_notify (ec_word e w) = (b, v) \<Longrightarrow> v = ec_word (Suc e) w"
  by (auto simp: ec_notify_def ec_word_def k_add_epoch_def algebra_simps)

lemmas count_defs = thieves_def actives_def lz_waiters_def

lemma ok_cont_ok [simp]: "ok_cont pc \<Longrightarrow> ok_pc nd pc"
  by (cases pc) simp_all

lemma ok_cont_wt [simp]: "ok_cont pc \<Longrightarrow> \<not> wt pc" "ok_cont pc \<Longrightarrow> pkey pc = None"
  by (cases pc; simp)+

lemma wake_pc_counts [simp]:
  "th (wake_pc pc) = th pc" "ac (wake_pc pc) = ac pc" "wt (wake_pc pc) = wt pc"
  "pkey (wake_pc pc) = pkey pc" "ok_pc nd (wake_pc pc) = ok_pc nd pc"
  by (cases pc; simp)+

lemma thief_work_sleep_counts:
  assumes "thief_work_sleep j s e s'" "j < lz_n s" "lz_wf s" "lz_counts es s"
  shows "lz_wf s' \<and> lz_counts (es @ [e]) s'"
  using assms(1)
  by (cases rule: thief_work_sleep.cases)
    (use assms(2-) in \<open>auto simp: lz_wf_def lz_counts_def count_defs tally_word ec_word_tally\<close>)

lemma lazy_work_counts:
  assumes "lazy_work j s e s'" "j < lz_n s" "lz_wf s" "lz_counts es s"
  shows "lz_wf s' \<and> lz_counts (es @ [e]) s'"
  using assms(1)
  by (cases rule: lazy_work.cases)
    (use assms(2-) in \<open>auto simp: lz_wf_def lz_counts_def count_defs tally_word ec_word_tally dest!: ec_ops_add\<close>)

text \<open>Steps that change no counted place.\<close>

lemma lz_counts_same:
  assumes "lz_counts es s" "lz_n s' = lz_n s" "lz_dom s' = lz_dom s" "lv_active s' = lv_active s"
    and "length (lv_numa s') = length (lv_numa s)" "thief s' = thief s"
    and pcs: "\<And>j. th (lz_pc s' j) = th (lz_pc s j) \<and> ac (lz_pc s' j) = ac (lz_pc s j) \<and> wt (lz_pc s' j) = wt (lz_pc s j)"
    and ec: "\<And>d. d < length (lv_numa s) \<Longrightarrow> notifier s d = ec_word (notified d es) (lz_waiters s d) \<Longrightarrow>
       notifier s' d = ec_word (notified d es') (lz_waiters s d)"
  shows "lz_counts es' s'"
proof -
  have "thieves s' d = thieves s d" "lz_waiters s' d = lz_waiters s d" "actives s' = actives s" for d
    unfolding thieves_def lz_waiters_def actives_def assms(2,3) by (rule tally_cong; simp add: pcs)+
  with assms show ?thesis by (simp add: lz_counts_def)
qed

lemma lazy_notify_counts:
  assumes "lazy_notify t s e s'" "lz_wf s" "lz_counts es s"
  shows "lz_wf s' \<and> lz_counts (es @ [e]) s'"
  using assms(1)
proof (cases rule: lazy_notify.cases)
  case (ln_add b d pc w v)
  from assms(2) ln_add have ok: "d < length (lv_numa s)" "ok_cont pc"
    unfolding lz_wf_def by (metis ok_pc.simps(1))+
  have "lz_counts (es @ [e]) s'"
    by (rule lz_counts_same [OF assms(3)]) (use ln_add ok in \<open>auto dest: ec_notify_word\<close>)
  with assms(2) ok ln_add show ?thesis by (auto simp: lz_wf_def)
next
  case (ln_all d pc)
  from assms(2) ln_all have ok: "ok_cont pc"
    unfolding lz_wf_def by (metis ok_pc.simps(2))
  have "lz_counts (es @ [e]) s'"
    by (rule lz_counts_same [OF assms(3)]) (use ln_all ok in \<open>auto\<close>)
  with assms(2) ok ln_all show ?thesis by (auto simp: lz_wf_def)
next
  case (ln_one d pc j)
  from assms(2) ln_one have ok: "ok_cont pc"
    unfolding lz_wf_def by (metis ok_pc.simps(2))
  have "lz_counts (es @ [e]) s'"
    by (rule lz_counts_same [OF assms(3)]) (use ln_one ok in \<open>auto\<close>)
  with assms(2) ok ln_one show ?thesis by (auto simp: lz_wf_def)
next
  case (ln_none d pc)
  from assms(2) ln_none(3) have ok: "ok_cont pc"
    unfolding lz_wf_def by (metis ok_pc.simps(2))
  have "lz_counts (es @ [e]) s'"
    by (rule lz_counts_same [OF assms(3)]) (use ln_none(1-3) ok in \<open>auto\<close>)
  with assms(2) ok ln_none(1-3) show ?thesis by (auto simp: lz_wf_def)
qed

lemma lazy_schedule_counts:
  assumes "lazy_schedule t s e s'" "lz_wf s" "lz_counts es s"
  shows "lz_wf s' \<and> lz_counts (es @ [e]) s'"
  using assms(1)
proof (cases rule: lazy_schedule.cases)
  case (ls_push x job)
  have "lz_counts (es @ [e]) s'"
    by (rule lz_counts_same [OF assms(3)]) (use ls_push in \<open>auto\<close>)
  with assms(2) ls_push show ?thesis by (auto simp: lz_wf_def)
qed

lemma lazy_master_counts:
  assumes "lazy_master s e s'" "lz_wf s" "lz_counts es s"
  shows "lz_wf s' \<and> lz_counts (es @ [e]) s'"
proof
  show "lz_wf s'"
    using assms(1) by (cases rule: lazy_master.cases) (use assms(2) in \<open>auto simp: lz_wf_def\<close>)
  show "lz_counts (es @ [e]) s'"
    using assms(1)
    by (cases rule: lazy_master.cases; intro lz_counts_same [OF assms(3)]) (auto)
qed

lemma lz_step_counts:
  assumes "lz_step s e s'" "lz_wf s" "lz_counts es s"
  shows "lz_wf s' \<and> lz_counts (es @ [e]) s'"
  using assms(1) unfolding lz_step_def
  using thief_work_sleep_counts lazy_work_counts lazy_notify_counts lazy_schedule_counts
    lazy_master_counts assms(2,3) by metis

lemma lz_waiters_lt: "lz_wf s \<Longrightarrow> lz_waiters s d < 2 ^ 32"
  using tally_le [of "lz_n s" "lz_pc s" "\<lambda>j pc. lz_dom s j = d \<and> wt pc"]
  unfolding lz_waiters_def lz_wf_def by linarith

text \<open>The epoch a notifier shows, and what the counters say about it.\<close>

definition epoch :: "pool_event list \<Rightarrow> nat \<Rightarrow> u32" where
  "epoch es d = of_nat (notified d es)"

lemma epoch_snoc [simp]: "e \<noteq> E_notify d \<Longrightarrow> epoch (es @ [e]) d = epoch es d"
  by (simp add: epoch_def)

lemma lz_epoch:
  assumes "lz_wf s" "lz_counts es s" "d < length (lv_numa s)"
  shows "ec_epoch (notifier s d) = epoch es d"
  using ec_word_ops(1) [OF lz_waiters_lt [OF assms(1)], of "notified d es" d] assms(2,3)
  by (simp add: lz_counts_def epoch_def)

lemma of_nat_u64_eq: "a < 2 ^ 32 \<Longrightarrow> b < 2 ^ 32 \<Longrightarrow> (of_nat a :: u64) = of_nat b \<longleftrightarrow> a = b"
  by (simp add: word_of_nat_eq_iff take_bit_nat_eq_self)

lemma lz_thief_one:
  assumes "lz_wf s" "lz_counts es s" "d < length (lv_numa s)"
  shows "thief s d = 1 \<longleftrightarrow> thieves s d = 1" "thief s d = 0 \<longleftrightarrow> thieves s d = 0"
proof -
  have "thieves s d < 2 ^ 32"
    using tally_le [of "lz_n s" "lz_pc s" "\<lambda>j pc. lz_dom s j = d \<and> th pc"] assms(1)
    unfolding thieves_def lz_wf_def by linarith
  with of_nat_u64_eq [of "thieves s d" 1] of_nat_u64_eq [of "thieves s d" 0] assms(2,3)
  show "thief s d = 1 \<longleftrightarrow> thieves s d = 1" "thief s d = 0 \<longleftrightarrow> thieves s d = 0"
    by (simp_all add: lz_counts_def)
qed

lemma lz_active_zero:
  assumes "lz_wf s" "lz_counts es s"
  shows "lv_active s = 0 \<longleftrightarrow> actives s = 0"
proof -
  have "actives s < 2 ^ 32"
    using tally_le [of "lz_n s" "lz_pc s" "\<lambda>_. ac"] assms(1)
    unfolding actives_def lz_wf_def by linarith
  with of_nat_u64_eq [of "actives s" 0] assms(2) show ?thesis by (simp add: lz_counts_def)
qed

section \<open>Keys\<close>

definition lz_keys :: "pool_event list \<Rightarrow> lz_sys \<Rightarrow> bool" where
  "lz_keys es s \<longleftrightarrow> (\<forall>j<lz_n s. \<forall>key. pkey (lz_pc s j) = Some key \<longrightarrow>
     (\<exists>p\<le>notified (lz_dom s j) es. key = of_nat p))"

lemma notified_mono: "p \<le> notified d es \<Longrightarrow> p \<le> notified d (es @ [e])"
  by simp

lemma lz_keys_other:
  assumes "lz_keys es s" "lz_n s' = lz_n s" "lz_dom s' = lz_dom s"
    and "\<And>j key. j < lz_n s \<Longrightarrow> pkey (lz_pc s' j) = Some key \<Longrightarrow>
      pkey (lz_pc s j) = Some key \<or> key = epoch es (lz_dom s j)"
  shows "lz_keys (es @ [e]) s'"
  unfolding lz_keys_def assms(2,3)
proof (intro allI impI)
  fix j key
  assume j: "j < lz_n s" "pkey (lz_pc s' j) = Some key"
  from assms(4) [OF j] show "\<exists>p\<le>notified (lz_dom s j) (es @ [e]). key = of_nat p"
  proof
    assume "pkey (lz_pc s j) = Some key"
    with assms(1) j obtain p where "p \<le> notified (lz_dom s j) es" "key = of_nat p"
      unfolding lz_keys_def by blast
    then show ?thesis by (intro exI [of _ p]) simp
  next
    assume "key = epoch es (lz_dom s j)"
    then show ?thesis by (intro exI [of _ "notified (lz_dom s j) es"]) (simp add: epoch_def)
  qed
qed

lemma prepare_key: "ec_prepare_wait v = (key, v') \<Longrightarrow> key = ec_epoch v"
  by (simp add: ec_prepare_wait_def ec_epoch_def)

lemma lz_step_keys:
  assumes step: "lz_step s e s'" and wf: "lz_wf s" and cnt: "lz_counts es s" and keys: "lz_keys es s"
  shows "lz_keys (es @ [e]) s'"
proof -
  have ep: "ec_epoch (notifier s (lz_dom s j)) = epoch es (lz_dom s j)" if "j < lz_n s" for j
    using lz_epoch [OF wf cnt] wf that by (simp add: lz_wf_def)
  have cont: "pkey pc = None" if "lz_pc s t = Z_add b d pc \<or> lz_pc s t = Z_notify b d pc" for t b d pc
    using that wf unfolding lz_wf_def by (metis ok_cont_wt(2) ok_pc.simps(1,2))
  from step consider
      j where "j < lz_n s" "thief_work_sleep j s e s'" | j where "j < lz_n s" "lazy_work j s e s'"
    | t where "lazy_notify t s e s'" | t where "lazy_schedule t s e s'" | "lazy_master s e s'"
    unfolding lz_step_def by blast
  then show ?thesis
  proof cases
    case 1
    from 1(2) show ?thesis
      by (cases rule: thief_work_sleep.cases; intro lz_keys_other [OF keys]) (auto split: if_splits)
  next
    case 2
    from 2(2) show ?thesis
      by (cases rule: lazy_work.cases; intro lz_keys_other [OF keys])
        (auto split: if_splits simp: ep [OF 2(1)] dest!: prepare_key)
  next
    case 3
    then show ?thesis
      by (cases rule: lazy_notify.cases; intro lz_keys_other [OF keys])
        (auto split: if_splits dest!: cont [OF disjI1] cont [OF disjI2] elim!: stale_sleeperE)
  next
    case 4
    then show ?thesis
      by (cases rule: lazy_schedule.cases; intro lz_keys_other [OF keys]) (auto split: if_splits)
  next
    case 5
    then show ?thesis
      by (cases rule: lazy_master.cases; intro lz_keys_other [OF keys]) (auto split: if_splits)
  qed
qed

section \<open>Stopping\<close>

fun leaving :: "lz_pc \<Rightarrow> bool" where
  "leaving (Z_add _ _ pc) = leaving pc"
| "leaving (Z_notify _ _ pc) = leaving pc"
| "leaving (Z_m_loop _) = True"
| "leaving pc = (pc \<in> {Z_cancel_exit, Z_exit_dec, Z_set_stop, Z_arrive, Z_stop_wait, Z_final, Z_over,
     Z_m_join, Z_m_over})"

definition lz_stops :: "lz_sys \<Rightarrow> bool" where
  "lz_stops s \<longleftrightarrow> (\<forall>t. leaving (lz_pc s t) \<longrightarrow> stop_flag s)"

lemma lz_stops_other:
  assumes "lz_stops s" "stop_flag s \<Longrightarrow> stop_flag s'"
    and "\<And>t. leaving (lz_pc s' t) \<Longrightarrow> leaving (lz_pc s t) \<or> stop_flag s'"
  shows "lz_stops s'"
  using assms unfolding lz_stops_def by blast

lemma leaving_wake [simp]: "leaving (wake_pc pc) = leaving pc"
  by (cases pc) simp_all

lemma lz_step_stops:
  assumes step: "lz_step s e s'" and inv: "lz_stops s"
  shows "lz_stops s'"
proof -
  from step consider
      j where "j < lz_n s" "thief_work_sleep j s e s'" | j where "j < lz_n s" "lazy_work j s e s'"
    | t where "lazy_notify t s e s'" | t where "lazy_schedule t s e s'" | "lazy_master s e s'"
    unfolding lz_step_def by blast
  then show ?thesis
  proof cases
    case 1
    from 1(2) show ?thesis
      by (cases rule: thief_work_sleep.cases; intro lz_stops_other [OF inv]) (auto split: if_splits)
  next
    case 2
    from 2(2) show ?thesis
      by (cases rule: lazy_work.cases; intro lz_stops_other [OF inv]) (auto split: if_splits)
  next
    case 3
    then show ?thesis
      by (cases rule: lazy_notify.cases; intro lz_stops_other [OF inv]) (auto split: if_splits)
  next
    case 4
    then show ?thesis
      by (cases rule: lazy_schedule.cases; intro lz_stops_other [OF inv]) (auto split: if_splits)
  next
    case 5
    then show ?thesis
      by (cases rule: lazy_master.cases; intro lz_stops_other [OF inv]) (auto split: if_splits)
  qed
qed

section \<open>No locality falls asleep while there is work\<close>

text \<open>
  A thread that will bump the notifier of \<open>d\<close> (or look at its thief counter once more), a thread
  that will notify the sleepers of \<open>d\<close>, a worker on its way back to being a thief, and a worker
  that sleeps or is about to.
\<close>

fun coming :: "nat \<Rightarrow> lz_pc \<Rightarrow> bool" where
  "coming d (Z_add _ i pc) = (d = i \<or> coming d pc)"
| "coming d (Z_notify _ i pc) = coming d pc"
| "coming d (Z_loop i) = (i \<le> d)"
| "coming d _ = False"

fun telling :: "nat \<Rightarrow> lz_pc \<Rightarrow> bool" where
  "telling d (Z_notify _ i _) = (d = i)"
| "telling d _ = False"

fun rising :: "u32 \<Rightarrow> lz_pc \<Rightarrow> bool" where
  "rising ep Z_wake = True"
| "rising ep Z_leave = True"
| "rising ep Z_cancel_wake = True"
| "rising ep (Z_load _) = True"
| "rising ep (Z_wait key) = (key \<noteq> ep)"
| "rising ep _ = False"

fun dozing :: "lz_pc \<Rightarrow> bool" where
  "dozing (Z_wait _) = True"
| "dozing (Z_asleep _) = True"
| "dozing _ = False"

definition in_dom :: "lz_sys \<Rightarrow> nat \<Rightarrow> nat \<Rightarrow> bool" where
  "in_dom s d j \<longleftrightarrow> j < lz_n s \<and> lz_dom s j = d"

definition lz_guard :: "pool_event list \<Rightarrow> nat \<Rightarrow> lz_sys \<Rightarrow> bool" where
  "lz_guard es d s \<longleftrightarrow> stop_flag s \<or> actives s = 0
     \<or> (\<exists>j. in_dom s d j \<and> th (lz_pc s j))
     \<or> (\<forall>j. in_dom s d j \<longrightarrow> \<not> dozing (lz_pc s j))
     \<or> (\<exists>j. in_dom s d j \<and> rising (epoch es d) (lz_pc s j))
     \<or> (\<exists>t. coming d (lz_pc s t))
     \<or> (\<exists>t. telling d (lz_pc s t)) \<and> (\<forall>j. in_dom s d j \<longrightarrow> pkey (lz_pc s j) \<noteq> Some (epoch es d))"

lemma thieves_pos: "thieves s d \<noteq> 0 \<longleftrightarrow> (\<exists>j. in_dom s d j \<and> th (lz_pc s j))"
  by (auto simp: thieves_def tally_zero in_dom_def)

lemma actives_pos: "actives s \<noteq> 0 \<longleftrightarrow> (\<exists>j<lz_n s. ac (lz_pc s j))"
  by (auto simp: actives_def tally_zero)

text \<open>One thread moves and keeps what it stands for in \<open>d\<close>.\<close>

lemma lz_guard_quiet:
  assumes inv: "lz_guard es d s" and "lz_n s' = lz_n s" "lz_dom s' = lz_dom s"
    and pc: "lz_pc s' = (lz_pc s)(t := p)" and "stop_flag s \<Longrightarrow> stop_flag s'" "e \<noteq> E_notify d"
    and ac: "ac p \<Longrightarrow> ac (lz_pc s t) \<or> actives s \<noteq> 0"
    and com: "coming d (lz_pc s t) \<Longrightarrow> coming d p" and tel: "telling d (lz_pc s t) \<Longrightarrow> telling d p"
    and dom: "in_dom s d t \<Longrightarrow> (th (lz_pc s t) \<longrightarrow> th p) \<and> (dozing p \<longrightarrow> dozing (lz_pc s t))
        \<and> (rising (epoch es d) (lz_pc s t) \<longrightarrow> rising (epoch es d) p)
        \<and> (pkey p = None \<or> pkey p = pkey (lz_pc s t))"
  shows "lz_guard (es @ [e]) d s'"
proof -
  have in_dom: "in_dom s' d = in_dom s d" by (simp add: in_dom_def fun_eq_iff assms(2,3))
  have ep: "epoch (es @ [e]) d = epoch es d" using assms(6) by simp
  have at: "lz_pc s' t = p" "j \<noteq> t \<Longrightarrow> lz_pc s' j = lz_pc s j" for j by (simp_all add: pc)
  have act: "actives s' = 0" if "actives s = 0"
    using that ac actives_pos [of s] actives_pos [of s'] assms(2) at by metis
  have thi: "\<exists>j. in_dom s d j \<and> th (lz_pc s' j)" if "in_dom s d j" "th (lz_pc s j)" for j
    using that dom at by metis
  have doz: "\<forall>j. in_dom s d j \<longrightarrow> \<not> dozing (lz_pc s' j)" if "\<forall>j. in_dom s d j \<longrightarrow> \<not> dozing (lz_pc s j)"
    using that dom at by metis
  have ris: "\<exists>j. in_dom s d j \<and> rising (epoch es d) (lz_pc s' j)"
    if "in_dom s d j" "rising (epoch es d) (lz_pc s j)" for j
    using that dom at by metis
  have co: "\<exists>t. coming d (lz_pc s' t)" if "coming d (lz_pc s u)" for u
    using that com at by metis
  have te: "\<exists>t. telling d (lz_pc s' t)" if "telling d (lz_pc s u)" for u
    using that tel at by metis
  have ke: "\<forall>j. in_dom s d j \<longrightarrow> pkey (lz_pc s' j) \<noteq> Some (epoch es d)"
    if "\<forall>j. in_dom s d j \<longrightarrow> pkey (lz_pc s j) \<noteq> Some (epoch es d)"
    using that dom at by (metis option.distinct(1))
  from inv show ?thesis
    unfolding lz_guard_def in_dom ep using act thi doz ris co te ke assms(5) by blast
qed

text \<open>The ways a step settles the matter in \<open>d\<close>.\<close>

lemma lz_guard_th: "in_dom s d j \<Longrightarrow> th (lz_pc s j) \<Longrightarrow> lz_guard es d s"
  and lz_guard_coming: "coming d (lz_pc s t) \<Longrightarrow> lz_guard es d s"
  and lz_guard_rising: "in_dom s d j \<Longrightarrow> rising (epoch es d) (lz_pc s j) \<Longrightarrow> lz_guard es d s"
  and lz_guard_stop: "stop_flag s \<Longrightarrow> lz_guard es d s"
  and lz_guard_idle: "actives s = 0 \<Longrightarrow> lz_guard es d s"
  by (auto simp: lz_guard_def)

lemma other_thief:
  assumes "in_dom s d j" "th (lz_pc s j)" "thieves s d \<noteq> 1"
  obtains i where "i \<noteq> j" "in_dom s d i" "th (lz_pc s i)"
proof -
  let ?P = "\<lambda>j pc. lz_dom s j = d \<and> th pc"
  from assms(1) have j: "j < lz_n s" "lz_dom s j = d" by (simp_all add: in_dom_def)
  have "0 < thieves s d"
    unfolding thieves_def by (rule tally_pos [OF j(1)]) (use j assms(2) in simp)
  moreover have "tally (lz_n s) ((lz_pc s)(j := Z_wake)) ?P = thieves s d - 1"
    unfolding thieves_def by (rule tally_leave [OF j(1)]) (use j assms(2) in simp_all)
  ultimately have "tally (lz_n s) ((lz_pc s)(j := Z_wake)) ?P \<noteq> 0" using assms(3) by linarith
  then obtain i where "i < lz_n s" "?P i (((lz_pc s)(j := Z_wake)) i)"
    unfolding tally_zero by blast
  then show ?thesis by (intro that [of i]) (auto simp: in_dom_def split: if_splits)
qed

text \<open>A thief that leaves while another one stays.\<close>

lemma lz_guard_more:
  assumes "lz_wf s" "lz_counts es s" "d < length (lv_numa s)" "in_dom s d j" "th (lz_pc s j)" "thief s d \<noteq> 1"
    and "lz_n s' = lz_n s" "lz_dom s' = lz_dom s" "lz_pc s' = (lz_pc s)(j := p)"
  shows "lz_guard es' d s'"
proof -
  from lz_thief_one(1) [OF assms(1-3)] assms(6) obtain i where "i \<noteq> j" "in_dom s d i" "th (lz_pc s i)"
    using other_thief [OF assms(4,5)] by metis
  with assms(7-) show ?thesis by (intro lz_guard_th [of _ _ i]) (simp_all add: in_dom_def)
qed

lemma thief_work_sleep_guard:
  assumes step: "thief_work_sleep j s e s'" and j: "j < lz_n s" and wf: "lz_wf s" and cnt: "lz_counts es s"
    and d: "d < length (lv_numa s)" and inv: "lz_guard es d s"
  shows "lz_guard (es @ [e]) d s'"
  using step
proof (cases rule: thief_work_sleep.cases)
  case (tw_last i)
  show ?thesis
  proof (cases "i = d")
    case True
    then show ?thesis by (intro lz_guard_coming [of _ _ j]) (simp add: tw_last)
  next
    case False
    then show ?thesis
      by (intro lz_guard_quiet [OF inv, of _ j "lz_pc s' j"]) (use tw_last in \<open>auto simp: in_dom_def\<close>)
  qed
next
  case (tw_more i)
  show ?thesis
  proof (cases "i = d")
    case True
    then show ?thesis
      by (intro lz_guard_more [OF wf cnt d, of j]) (use j tw_more in \<open>simp_all add: in_dom_def\<close>)
  next
    case False
    then show ?thesis
      by (intro lz_guard_quiet [OF inv, of _ j "lz_pc s' j"]) (use tw_more in \<open>auto simp: in_dom_def\<close>)
  qed
next
  case tw_first
  then show ?thesis by (intro lz_guard_coming [of _ _ j]) simp
next
  case tw_active
  then have "actives s \<noteq> 0" using lz_active_zero [OF wf cnt] by simp
  then show ?thesis
    by (intro lz_guard_quiet [OF inv, of _ j "lz_pc s' j"]) (use tw_active in \<open>simp_all\<close>)
next
  case (tw_notify i)
  then show ?thesis
    by (intro lz_guard_quiet [OF inv, of _ j "lz_pc s' j"]) auto
next
  case (tw_skip i)
  show ?thesis
  proof (cases "i = d")
    case True
    with tw_skip lz_thief_one(2) [OF wf cnt d] have "thieves s d \<noteq> 0" by simp
    then obtain i where "in_dom s d i" "th (lz_pc s i)" using thieves_pos by metis
    with tw_skip show ?thesis by (intro lz_guard_th [of _ _ i]) (auto simp: in_dom_def)
  next
    case False
    then show ?thesis
      by (intro lz_guard_quiet [OF inv, of _ j "lz_pc s' j"]) (use tw_skip in \<open>simp_all\<close>)
  qed
next
  case (tw_end i)
  then show ?thesis using d by (intro lz_guard_quiet [OF inv, of _ j "lz_pc s' j"]) simp_all
next
  case tw_resumed
  then show ?thesis by (intro lz_guard_quiet [OF inv, of _ j "lz_pc s' j"]) simp_all
next
  case tw_sub
  then show ?thesis by (intro lz_guard_quiet [OF inv, of _ j "lz_pc s' j"]) simp_all
qed

lemma lazy_work_guard:
  assumes step: "lazy_work j s e s'" and j: "j < lz_n s" and wf: "lz_wf s" and cnt: "lz_counts es s"
    and st: "lz_stops s" and d: "d < length (lv_numa s)" and inv: "lz_guard es d s"
  shows "lz_guard (es @ [e]) d s'"
proof -
  have dom: "in_dom s d j \<longleftrightarrow> lz_dom s j = d" using j by (simp add: in_dom_def)
  have th: "lz_guard (es @ [e]) d s'"
    if "th (lz_pc s' j)" "lz_pc s' = (lz_pc s)(j := p)" "lz_n s' = lz_n s" "lz_dom s' = lz_dom s"
      "stop_flag s' = stop_flag s" "\<And>i. e \<noteq> E_notify i" "th (lz_pc s j) \<or> rising (epoch es d) (lz_pc s j)"
      "\<not> telling d (lz_pc s j)" "\<not> coming d (lz_pc s j)" "\<not> ac p" for p
  proof (cases "lz_dom s j = d")
    case True
    with that j show ?thesis by (intro lz_guard_th [of _ _ j]) (simp_all add: in_dom_def)
  next
    case False
    with that show ?thesis
      by (intro lz_guard_quiet [OF inv, of _ j p]) (simp_all add: dom)
  qed
  show ?thesis
    using step
  proof (cases rule: lazy_work.cases)
    case (lw_exit i)
    then have "stop_flag s" using st unfolding lz_stops_def by (metis leaving.simps insert_iff)
    with lw_exit show ?thesis by (intro lz_guard_stop) simp
  next
    case (lw_dec_last key i)
    show ?thesis
    proof (cases "i = d")
      case True
      with lw_dec_last j show ?thesis by (intro lz_guard_rising [of _ _ j]) (simp_all add: in_dom_def)
    next
      case False
      then show ?thesis
        by (intro lz_guard_quiet [OF inv, of _ j "lz_pc s' j"]) (use lw_dec_last in \<open>auto simp: in_dom_def\<close>)
    qed
  next
    case (lw_dec key i)
    show ?thesis
    proof (cases "i = d")
      case True
      then show ?thesis
        by (intro lz_guard_more [OF wf cnt d, of j]) (use j lw_dec in \<open>simp_all add: in_dom_def\<close>)
    next
      case False
      then show ?thesis
        by (intro lz_guard_quiet [OF inv, of _ j "lz_pc s' j"]) (use lw_dec in \<open>auto simp: in_dom_def\<close>)
    qed
  next
    case (lw_load_idle key)
    then have "lv_active s = 0" by (simp add: word_neq_0_conv [symmetric])
    then have "actives s = 0" using lz_active_zero [OF wf cnt] by simp
    then have "actives s' = 0"
      using actives_pos [of s] actives_pos [of s'] lw_load_idle by (auto split: if_splits)
    then show ?thesis by (rule lz_guard_idle)
  next
    case (lw_sleep key i)
    then have "key = epoch es i" using lz_epoch [OF wf cnt, of i] wf j by (simp add: lz_wf_def)
    with lw_sleep show ?thesis by (intro lz_guard_quiet [OF inv, of _ j "lz_pc s' j"]) (auto simp: in_dom_def)
  next
    case (lw_prepare i key v)
    then show ?thesis by (intro th [of "Z_check key"]) simp_all
  next
    case (lw_wake i)
    then show ?thesis by (intro th [of Z_pop]) simp_all
  qed (intro lz_guard_quiet [OF inv, of _ j "lz_pc s' j"]; simp add: in_dom_def)+
qed

text \<open>Staleness of a key is for good while the epoch does not wrap around.\<close>

lemma key_not_next:
  assumes "lz_keys es s" "in_dom s d j" "pkey (lz_pc s j) = Some key" "Suc (notified d es) < 2 ^ 32"
  shows "key \<noteq> of_nat (Suc (notified d es))" "key \<noteq> epoch es d \<Longrightarrow> key \<noteq> epoch (es @ [e]) d"
proof -
  from assms(1-3) obtain p where p: "p \<le> notified d es" "key = of_nat p"
    unfolding lz_keys_def in_dom_def by blast
  have eq: "(of_nat p :: u32) = of_nat q \<longleftrightarrow> p = q" if "q \<le> Suc (notified d es)" for q
    using that p(1) assms(4) by (simp add: word_of_nat_eq_iff take_bit_nat_eq_self)
  show next_key: "key \<noteq> of_nat (Suc (notified d es))"
    unfolding p(2) using eq [of "Suc (notified d es)"] p(1) by simp
  show "key \<noteq> epoch (es @ [e]) d" if "key \<noteq> epoch es d"
    using that next_key by (cases "e = E_notify d") (simp_all add: epoch_def)
qed

lemma cont_no: "ok_cont pc \<Longrightarrow> \<not> dozing pc" "ok_cont pc \<Longrightarrow> pkey pc = None"
  by (cases pc; simp)+

text \<open>A notification of the sleepers of \<open>i\<close> by thread \<open>t\<close>, whichever it wakes.\<close>

lemma lz_guard_wake:
  assumes inv: "lz_guard es d s" and t: "lz_pc s t = Z_notify b i pc" "ok_cont pc" "lz_pc s' t = pc"
    and same: "lz_n s' = lz_n s" "lz_dom s' = lz_dom s" "stop_flag s' = stop_flag s" "e \<noteq> E_notify d"
    and woken: "\<And>j. j \<noteq> t \<Longrightarrow> lz_pc s' j = lz_pc s j \<or> lz_pc s' j = wake_pc (lz_pc s j)"
    and effect: "\<And>j. \<lbrakk>i = d; in_dom s d j; dozing (lz_pc s j); \<And>j. in_dom s d j \<Longrightarrow> pkey (lz_pc s j) \<noteq> Some (epoch es d)\<rbrakk>
      \<Longrightarrow> \<exists>j. in_dom s d j \<and> rising (epoch es d) (lz_pc s' j)"
  shows "lz_guard (es @ [e]) d s'"
proof -
  have in_dom: "in_dom s' d = in_dom s d" by (simp add: in_dom_def fun_eq_iff same)
  have ep: "epoch (es @ [e]) d = epoch es d" using same(4) by simp
  have keep: "P (lz_pc s' j) = P (lz_pc s j)" if "\<And>q. P (wake_pc q) = P q" "P pc = P (Z_notify b i pc)" for P :: "lz_pc \<Rightarrow> bool" and j
    using that woken [of j] t by metis
  have th: "th (lz_pc s' j) = th (lz_pc s j)" and ac: "ac (lz_pc s' j) = ac (lz_pc s j)"
    and com: "coming d (lz_pc s' j) = coming d (lz_pc s j)"
    and doz: "dozing (lz_pc s' j) = dozing (lz_pc s j)"
    and key: "(pkey (lz_pc s' j) = Some (epoch es d)) = (pkey (lz_pc s j) = Some (epoch es d))" for j
  proof -
    have 1: "coming d (wake_pc q) = coming d q" "dozing (wake_pc q) = dozing q" for q by (cases q; simp)+
    show "th (lz_pc s' j) = th (lz_pc s j)" "ac (lz_pc s' j) = ac (lz_pc s j)"
      "coming d (lz_pc s' j) = coming d (lz_pc s j)" "dozing (lz_pc s' j) = dozing (lz_pc s j)"
      "(pkey (lz_pc s' j) = Some (epoch es d)) = (pkey (lz_pc s j) = Some (epoch es d))"
      using keep [of th j] keep [of ac j] keep [of "coming d" j] keep [of dozing j]
        keep [of "\<lambda>q. pkey q = Some (epoch es d)" j]
      by (simp_all add: 1 cont_no [OF t(2)])
  qed
  have act: "actives s' = actives s"
    unfolding actives_def same(1) by (rule tally_cong) (simp add: ac)
  have ris: "rising (epoch es d) (lz_pc s' j)" if "rising (epoch es d) (lz_pc s j)" for j
  proof -
    have "j \<noteq> t" using that t by auto
    moreover have "wake_pc (lz_pc s j) = lz_pc s j" using that by (cases "lz_pc s j") simp_all
    ultimately show ?thesis using woken [of j] that by simp
  qed
  have tel: "telling d (lz_pc s' u)" if "telling d (lz_pc s u)" "u \<noteq> t" for u
  proof -
    have "wake_pc (lz_pc s u) = lz_pc s u" using that by (cases "lz_pc s u") simp_all
    then show ?thesis using woken [OF that(2)] that by simp
  qed
  show ?thesis
  proof (cases "(\<exists>u. u \<noteq> t \<and> telling d (lz_pc s u)) \<or> \<not> telling d (lz_pc s t)")
    case True
    with inv show ?thesis
      unfolding lz_guard_def in_dom ep act same(3) th com doz key using ris tel by blast
  next
    case False
    then have "i = d" using t by simp
    with inv effect show ?thesis
      unfolding lz_guard_def in_dom ep act same(3) th com doz key using ris by blast
  qed
qed

lemma lazy_notify_guard:
  assumes step: "lazy_notify t s e s'" and wf: "lz_wf s" and cnt: "lz_counts es s" and keys: "lz_keys es s"
    and d: "d < length (lv_numa s)" and inv: "lz_guard es d s" and bound: "Suc (notified d es) < 2 ^ 32"
  shows "lz_guard (es @ [e]) d s'"
proof -
  have cont: "ok_cont pc" if "lz_pc s t = Z_add b i pc \<or> lz_pc s t = Z_notify b i pc" for b i pc
    using that wf unfolding lz_wf_def by (metis ok_pc.simps(1,2))
  show ?thesis
    using step
  proof (cases rule: lazy_notify.cases)
    case (ln_add b i pc w v)
    have pc: "ok_cont pc" using cont ln_add by blast
    have i: "i < length (lv_numa s)" using wf ln_add unfolding lz_wf_def by (metis ok_pc.simps(1))
    show ?thesis
    proof (cases "i = d")
      case False
      then show ?thesis
        by (intro lz_guard_quiet [OF inv, of _ t "if w then Z_notify b i pc else pc"])
            (use ln_add cont_no [OF pc] in \<open>auto split: if_splits\<close>)
    next
      case True
      have in_dom: "in_dom s' d = in_dom s d" by (simp add: ln_add in_dom_def fun_eq_iff)
      from ec_word_ops(2) [OF lz_waiters_lt [OF wf], of "notified d es" d] cnt d ln_add True
      have w: "w \<longleftrightarrow> 0 < lz_waiters s d" by (simp add: lz_counts_def)
      show ?thesis
      proof (cases w)
        case False
        with w have "\<not> wt (lz_pc s j)" if "in_dom s d j" for j
          using that tally_zero [of "lz_n s" "lz_pc s"] by (simp add: lz_waiters_def in_dom_def)
        moreover have "wt q" if "dozing q" for q using that by (cases q) simp_all
        ultimately have "\<not> dozing (lz_pc s' j)" if "in_dom s d j" for j
          using that ln_add cont_no [OF pc] False by auto
        then show ?thesis unfolding lz_guard_def in_dom by blast
      next
        case w: True
        have "telling d (lz_pc s' t)" using ln_add w True by simp
        moreover have "pkey (lz_pc s' j) \<noteq> Some (epoch (es @ [e]) d)" if "in_dom s d j" for j
          using key_not_next(1) [OF keys that _ bound] that ln_add w True
          by (cases "j = t") (auto simp: epoch_def simp del: of_nat_Suc)
        ultimately show ?thesis unfolding lz_guard_def in_dom by blast
      qed
    qed
  next
    case (ln_all i pc)
    have pc: "ok_cont pc" using cont ln_all by blast
    show ?thesis
    proof (rule lz_guard_wake [OF inv ln_all(3) pc])
      fix j
      assume j: "i = d" "in_dom s d j" "dozing (lz_pc s j)"
        "\<And>j. in_dom s d j \<Longrightarrow> pkey (lz_pc s j) \<noteq> Some (epoch es d)"
      have "j \<noteq> t" using j ln_all by auto
      then have "rising (epoch es d) (lz_pc s' j)"
        using j(4) [OF j(2)] j(1-3) ln_all by (cases "lz_pc s j") (auto simp: in_dom_def)
      with j(2) show "\<exists>j. in_dom s d j \<and> rising (epoch es d) (lz_pc s' j)" by blast
    qed (use ln_all in auto)
  next
    case (ln_one i pc k)
    have pc: "ok_cont pc" using cont ln_one by blast
    obtain key where k: "k < lz_n s" "lz_dom s k = i" "lz_pc s k = Z_asleep key" "key \<noteq> ec_epoch (notifier s i)"
      using ln_one(4) by (rule stale_sleeperE)
    show ?thesis
    proof (rule lz_guard_wake [OF inv ln_one(3) pc])
      assume "i = d"
      then have "in_dom s d k" "rising (epoch es d) (lz_pc s' k)"
        using k ln_one lz_epoch [OF wf cnt d] by (auto simp: in_dom_def)
      then show "\<exists>j. in_dom s d j \<and> rising (epoch es d) (lz_pc s' j)" by blast
    qed (use ln_one in auto)
  next
    case (ln_none i pc)
    have pc: "ok_cont pc" using cont ln_none(3) by blast
    show ?thesis
    proof (rule lz_guard_wake [OF inv ln_none(3) pc])
      fix j
      assume j: "i = d" "in_dom s d j" "dozing (lz_pc s j)"
        "\<And>j. in_dom s d j \<Longrightarrow> pkey (lz_pc s j) \<noteq> Some (epoch es d)"
      have "j \<noteq> t" using j ln_none(3) by auto
      moreover have "\<not> stale_sleeper s d j" using ln_none(4) j(1) by simp
      ultimately have "rising (epoch es d) (lz_pc s' j)"
        using j(4) [OF j(2)] j(1-3) ln_none(1,2) lz_epoch [OF wf cnt d]
        by (cases "lz_pc s j") (auto simp: in_dom_def stale_sleeper_def)
      with j(2) show "\<exists>j. in_dom s d j \<and> rising (epoch es d) (lz_pc s' j)" by blast
    qed (use ln_none(1,2) in auto)
  qed
qed

lemma lazy_schedule_guard:
  assumes "lazy_schedule t s e s'" "lz_guard es d s"
  shows "lz_guard (es @ [e]) d s'"
  using assms(1)
proof (cases rule: lazy_schedule.cases)
  case (ls_push x job)
  then show ?thesis
    by (intro lz_guard_quiet [OF assms(2), of _ t "Z_add True (lz_dom s x) (lz_pc s t)"]) auto
qed

lemma lazy_master_guard:
  assumes "lazy_master s e s'" "lz_guard es d s"
  shows "lz_guard (es @ [e]) d s'"
  using assms(1)
  by (cases rule: lazy_master.cases; intro lz_guard_quiet [OF assms(2), of _ "lz_n s" "lz_pc s' (lz_n s)"]) auto

lemma lz_step_guard:
  assumes "lz_step s e s'" "lz_wf s" "lz_counts es s" "lz_keys es s" "lz_stops s"
    and "d < length (lv_numa s)" "lz_guard es d s" "Suc (notified d es) < 2 ^ 32"
  shows "lz_guard (es @ [e]) d s'"
proof -
  from assms(1) consider
      j where "j < lz_n s" "thief_work_sleep j s e s'" | j where "j < lz_n s" "lazy_work j s e s'"
    | t where "lazy_notify t s e s'" | t where "lazy_schedule t s e s'" | "lazy_master s e s'"
    unfolding lz_step_def by blast
  then show ?thesis
  proof cases
    case 1
    then show ?thesis by (intro thief_work_sleep_guard [OF 1(2,1) assms(2,3,6,7)])
  next
    case 2
    then show ?thesis by (intro lazy_work_guard [OF 2(2,1) assms(2,3,5,6,7)])
  next
    case 3
    then show ?thesis by (rule lazy_notify_guard [OF _ assms(2-4,6-8)])
  next
    case 4
    then show ?thesis by (rule lazy_schedule_guard [OF _ assms(7)])
  next
    case 5
    then show ?thesis by (rule lazy_master_guard [OF _ assms(7)])
  qed
qed
end
