(* ===== verification/Lazy_Pool_Wakeups.thy ===== *)
theory Lazy_Pool_Wakeups
  imports Lazy_Pool_Correct
begin

text \<open>
  The two other promises of the lazy pool: a job submitted to a sleeping worker wakes it, and the
  destructor leaves nobody asleep.  Then the properties of the pool.
\<close>

section \<open>A submitted job wakes its worker\<close>

text \<open>The key of a worker that has found its submission list empty and is on its way to sleep.\<close>

fun checked :: "lz_pc \<Rightarrow> u32 option" where
  "checked (Z_stop_test key) = Some key"
| "checked (Z_dec key) = Some key"
| "checked (Z_load key) = Some key"
| "checked (Z_wait key) = Some key"
| "checked (Z_asleep key) = Some key"
| "checked _ = None"

fun add_all :: "nat \<Rightarrow> lz_pc \<Rightarrow> bool" where
  "add_all d (Z_add True i _) = (d = i)"
| "add_all d _ = False"

fun tell_all :: "nat \<Rightarrow> lz_pc \<Rightarrow> bool" where
  "tell_all d (Z_notify True i _) = (d = i)"
| "tell_all d _ = False"

definition lz_served :: "pool_event list \<Rightarrow> lz_sys \<Rightarrow> bool" where
  "lz_served es s \<longleftrightarrow> (\<forall>j<lz_n s. \<forall>key. lz_subs s j \<noteq> [] \<longrightarrow> checked (lz_pc s j) = Some key \<longrightarrow>
     (\<exists>t. add_all (lz_dom s j) (lz_pc s t)) \<or>
     key \<noteq> epoch es (lz_dom s j) \<and> (lz_pc s j = Z_asleep key \<longrightarrow> (\<exists>t. tell_all (lz_dom s j) (lz_pc s t))))"

lemma lz_servedD:
  "lz_served es s \<Longrightarrow> j < lz_n s \<Longrightarrow> lz_subs s j \<noteq> [] \<Longrightarrow> checked (lz_pc s j) = Some key \<Longrightarrow>
     (\<exists>t. add_all (lz_dom s j) (lz_pc s t)) \<or>
     key \<noteq> epoch es (lz_dom s j) \<and> (lz_pc s j = Z_asleep key \<longrightarrow> (\<exists>t. tell_all (lz_dom s j) (lz_pc s t)))"
  unfolding lz_served_def by blast

lemma checked_simps [simp]: "ok_cont pc \<Longrightarrow> checked pc = None" "checked (wake_pc pc) = checked pc"
  by (cases pc; simp)+

lemma checked_pkey: "checked pc = Some key \<Longrightarrow> pkey pc = Some key"
  by (cases pc) simp_all

lemma tell_add_wake [simp]: "add_all d (wake_pc pc) = add_all d pc" "tell_all d (wake_pc pc) = tell_all d pc"
  by (cases pc; simp)+

lemma lz_served_quiet:
  assumes inv: "lz_served es s" and same: "lz_n s' = lz_n s" "lz_dom s' = lz_dom s"
    and ep: "\<And>d. e \<noteq> E_notify d" and pcs: "lz_pc s' = (lz_pc s)(t := p)"
    and subs: "\<And>j. lz_subs s' j \<noteq> [] \<Longrightarrow> lz_subs s j \<noteq> []"
    and at: "\<And>key. \<lbrakk>t < lz_n s; lz_subs s' t \<noteq> []; checked p = Some key\<rbrakk> \<Longrightarrow> checked (lz_pc s t) = Some key
        \<and> (p = Z_asleep key \<longrightarrow> key = epoch es (lz_dom s t))"
    and add: "\<And>d. add_all d (lz_pc s t) \<Longrightarrow> add_all d p" and tell: "\<And>d. tell_all d (lz_pc s t) \<Longrightarrow> tell_all d p"
  shows "lz_served (es @ [e]) s'"
  unfolding lz_served_def
proof (intro allI impI)
  fix j key
  assume j: "j < lz_n s'" "lz_subs s' j \<noteq> []" "checked (lz_pc s' j) = Some key"
  have key: "checked (lz_pc s j) = Some key"
    using j at pcs same by (cases "j = t") auto
  have ex: "\<exists>t. add_all d (lz_pc s' t)" if "add_all d (lz_pc s u)" for d u
    using that add pcs by (cases "u = t") (auto intro: exI [of _ u])
  have ex2: "\<exists>t. tell_all d (lz_pc s' t)" if "tell_all d (lz_pc s u)" for d u
    using that tell pcs by (cases "u = t") (auto intro: exI [of _ u])
  have asleep: "lz_pc s j = Z_asleep key \<or> key = epoch es (lz_dom s j)" if "lz_pc s' j = Z_asleep key"
    using that at [of key] j pcs same by (cases "j = t") auto
  from lz_servedD [OF inv _ subs [OF j(2)] key] j(1) same
  show "(\<exists>t. add_all (lz_dom s' j) (lz_pc s' t)) \<or>
     key \<noteq> epoch (es @ [e]) (lz_dom s' j) \<and> (lz_pc s' j = Z_asleep key \<longrightarrow> (\<exists>t. tell_all (lz_dom s' j) (lz_pc s' t)))"
    using ex ex2 asleep ep by (metis epoch_snoc)
qed

lemma worker_served:
  assumes step: "thief_work_sleep j s e s' \<or> lazy_work j s e s'" and j: "j < lz_n s"
    and wf: "lz_wf s" and cnt: "lz_counts es s" and inv: "lz_served es s"
  shows "lz_served (es @ [e]) s'"
proof -
  have ep: "ec_epoch (notifier s (lz_dom s j)) = epoch es (lz_dom s j)"
    using lz_epoch [OF wf cnt] wf j by (simp add: lz_wf_def)
  from step show ?thesis
  proof
    assume "thief_work_sleep j s e s'"
    then show ?thesis
      by (cases rule: thief_work_sleep.cases; intro lz_served_quiet [OF inv, of _ _ j "lz_pc s' j"]) simp_all
  next
    assume "lazy_work j s e s'"
    then show ?thesis
      by (cases rule: lazy_work.cases; intro lz_served_quiet [OF inv, of _ _ j "lz_pc s' j"])
        (auto simp: ep split: if_splits)
  qed
qed

lemma schedule_served:
  assumes step: "lazy_schedule t s e s'" and inv: "lz_served es s"
  shows "lz_served (es @ [e]) s'"
  using step
proof (cases rule: lazy_schedule.cases)
  case (ls_push x job)
  have none: "\<not> add_all d (lz_pc s t)" "\<not> tell_all d (lz_pc s t)" "checked (lz_pc s t) = None" for d
    using ls_push(3) by auto
  have ex: "\<exists>t. add_all d (lz_pc s' t)" if "add_all d (lz_pc s u)" for d u
    using that none ls_push by (cases "u = t") (auto intro: exI [of _ u])
  have ex2: "\<exists>t. tell_all d (lz_pc s' t)" if "tell_all d (lz_pc s u)" for d u
    using that none ls_push by (cases "u = t") (auto intro: exI [of _ u])
  have new: "add_all (lz_dom s x) (lz_pc s' t)" using ls_push by simp
  show ?thesis
    unfolding lz_served_def
  proof (intro allI impI)
    fix j key
    assume j: "j < lz_n s'" "lz_subs s' j \<noteq> []" "checked (lz_pc s' j) = Some key"
    show "(\<exists>t. add_all (lz_dom s' j) (lz_pc s' t)) \<or>
     key \<noteq> epoch (es @ [e]) (lz_dom s' j) \<and> (lz_pc s' j = Z_asleep key \<longrightarrow> (\<exists>t. tell_all (lz_dom s' j) (lz_pc s' t)))"
    proof (cases "j = x")
      case True
      with new show ?thesis using ls_push by auto
    next
      case False
      have "j \<noteq> t" using j(3) ls_push by auto
      then have "lz_pc s' j = lz_pc s j" "lz_subs s' j = lz_subs s j" using False ls_push by simp_all
      moreover have "lz_dom s' = lz_dom s" "lz_n s' = lz_n s" "\<And>d. epoch (es @ [e]) d = epoch es d"
        using ls_push by simp_all
      ultimately show ?thesis using lz_servedD [OF inv, of j key] j ex ex2 by metis
    qed
  qed
qed

lemma master_served:
  assumes step: "lazy_master s e s'" and inv: "lz_served es s"
  shows "lz_served (es @ [e]) s'"
  using step
  by (cases rule: lazy_master.cases; intro lz_served_quiet [OF inv, of _ _ "lz_n s" "lz_pc s' (lz_n s)"]) simp_all

text \<open>A notification wakes sleepers and changes no other place but the notifier's.\<close>

lemma notify_shape:
  assumes "lazy_notify t s e s'" "lz_wf s" "lz_counts es s"
  shows "lz_n s' = lz_n s \<and> lz_dom s' = lz_dom s \<and> lz_subs s' = lz_subs s \<and> stop_flag s' = stop_flag s"
    and "j \<noteq> t \<Longrightarrow> lz_pc s' j = lz_pc s j \<or> lz_pc s' j = wake_pc (lz_pc s j)"
    and "\<exists>b d pc. ok_cont pc \<and>
      (lz_pc s t = Z_add b d pc \<and> e = E_notify d \<and> lz_pc s' t = (if 0 < lz_waiters s d then Z_notify b d pc else pc)
       \<or> lz_pc s t = Z_notify b d pc \<and> e = E_tau \<and> lz_pc s' t = pc
         \<and> (b \<longrightarrow> (\<forall>j key. in_dom s d j \<longrightarrow> lz_pc s' j \<noteq> Z_asleep key)))"
proof -
  show "lz_n s' = lz_n s \<and> lz_dom s' = lz_dom s \<and> lz_subs s' = lz_subs s \<and> stop_flag s' = stop_flag s"
    using assms(1) by (cases rule: lazy_notify.cases) simp_all
  show "lz_pc s' j = lz_pc s j \<or> lz_pc s' j = wake_pc (lz_pc s j)" if "j \<noteq> t"
    using assms(1) by (cases rule: lazy_notify.cases) (simp_all add: that)
  have cont: "ok_cont pc \<and> d < length (lv_numa s)" if "lz_pc s t = Z_add b d pc \<or> lz_pc s t = Z_notify b d pc" for b d pc
    using that assms(2) unfolding lz_wf_def by (metis ok_pc.simps(1,2))
  have wake: "wake_pc pc \<noteq> Z_asleep key" for pc key by (cases pc) simp_all
  show "\<exists>b d pc. ok_cont pc \<and>
      (lz_pc s t = Z_add b d pc \<and> e = E_notify d \<and> lz_pc s' t = (if 0 < lz_waiters s d then Z_notify b d pc else pc)
       \<or> lz_pc s t = Z_notify b d pc \<and> e = E_tau \<and> lz_pc s' t = pc
         \<and> (b \<longrightarrow> (\<forall>j key. in_dom s d j \<longrightarrow> lz_pc s' j \<noteq> Z_asleep key)))"
    using assms(1)
  proof (cases rule: lazy_notify.cases)
    case (ln_add b d pc w v)
    with cont have d: "ok_cont pc" "d < length (lv_numa s)" by auto
    with ec_word_ops(2) [OF lz_waiters_lt [OF assms(2)], of "notified d es" d] assms(3) ln_add
    have "w \<longleftrightarrow> 0 < lz_waiters s d" by (simp add: lz_counts_def)
    with ln_add d show ?thesis by (intro exI [of _ b] exI [of _ d] exI [of _ pc]) simp
  next
    case (ln_all d pc)
    then have "ok_cont pc" using cont by blast
    then have "pc \<noteq> Z_asleep key" for key by auto
    with ln_all \<open>ok_cont pc\<close> wake show ?thesis
      by (intro exI [of _ True] exI [of _ d] exI [of _ pc]) (simp add: in_dom_def)
  next
    case (ln_one d pc j)
    then show ?thesis using cont by (intro exI [of _ False] exI [of _ d] exI [of _ pc]) auto
  next
    case (ln_none d pc)
    then show ?thesis using cont by (intro exI [of _ False] exI [of _ d] exI [of _ pc]) auto
  qed
qed

lemma wake_asleep [simp]: "wake_pc pc \<noteq> Z_asleep key"
  by (cases pc) simp_all

lemma pkey_waiter: "in_dom s d j \<Longrightarrow> pkey (lz_pc s j) = Some key \<Longrightarrow> 0 < lz_waiters s d"
proof -
  have "wt pc" if "pkey pc = Some key" for pc using that by (cases pc) simp_all
  then show "in_dom s d j \<Longrightarrow> pkey (lz_pc s j) = Some key \<Longrightarrow> 0 < lz_waiters s d"
    unfolding lz_waiters_def by (intro tally_pos [of j]) (auto simp: in_dom_def)
qed

lemma notify_served:
  assumes step: "lazy_notify t s e s'" and wf: "lz_wf s" and cnt: "lz_counts es s" and keys: "lz_keys es s"
    and inv: "lz_served es s" and bound: "\<And>d. Suc (notified d es) < 2 ^ 32"
  shows "lz_served (es @ [e]) s'"
  unfolding lz_served_def
proof (intro allI impI)
  note shape = notify_shape [OF step wf cnt]
  fix j key
  assume j: "j < lz_n s'" "lz_subs s' j \<noteq> []" "checked (lz_pc s' j) = Some key"
  define D where "D = lz_dom s j"
  from shape(1) have same: "lz_n s' = lz_n s" "lz_dom s' = lz_dom s" "lz_subs s' = lz_subs s" by auto
  have dom: "in_dom s D j" using j(1) same by (simp add: in_dom_def D_def)
  obtain b d pc where pc: "ok_cont pc" and t:
      "lz_pc s t = Z_add b d pc \<and> e = E_notify d \<and> lz_pc s' t = (if 0 < lz_waiters s d then Z_notify b d pc else pc)
       \<or> lz_pc s t = Z_notify b d pc \<and> e = E_tau \<and> lz_pc s' t = pc
         \<and> (b \<longrightarrow> (\<forall>j key. in_dom s d j \<longrightarrow> lz_pc s' j \<noteq> Z_asleep key))"
    using shape(3) by blast
  have jt: "j \<noteq> t" using t j(3) pc by (auto split: if_splits)
  have add: "\<exists>u. add_all D (lz_pc s' u)" if "add_all D (lz_pc s u)" "u \<noteq> t" for u
    using shape(2) [OF that(2)] that(1) by (intro exI [of _ u]) auto
  have tell: "\<exists>u. tell_all D (lz_pc s' u)" if "tell_all D (lz_pc s u)" "u \<noteq> t" for u
    using shape(2) [OF that(2)] that(1) by (intro exI [of _ u]) auto
  have key: "checked (lz_pc s j) = Some key" using shape(2) [OF jt] j(3) by auto
  have asleep: "lz_pc s j = Z_asleep key" if "lz_pc s' j = Z_asleep key"
    using shape(2) [OF jt] that by (metis wake_asleep)
  have old: "(\<exists>u. add_all D (lz_pc s u)) \<or>
     key \<noteq> epoch es D \<and> (lz_pc s j = Z_asleep key \<longrightarrow> (\<exists>u. tell_all D (lz_pc s u)))"
    using lz_servedD [OF inv _ _ key] j same unfolding D_def by metis
  note stale = key_not_next [OF keys dom checked_pkey [OF key] bound]
  from t have "(\<exists>u. add_all D (lz_pc s' u)) \<or>
     key \<noteq> epoch (es @ [e]) D \<and> (lz_pc s' j = Z_asleep key \<longrightarrow> (\<exists>u. tell_all D (lz_pc s' u)))"
  proof (elim disjE conjE)
    assume t: "lz_pc s t = Z_add b d pc" "e = E_notify d" "lz_pc s' t = (if 0 < lz_waiters s d then Z_notify b d pc else pc)"
    have not_t: "u \<noteq> t" if "tell_all D (lz_pc s u)" for u using that t by auto
    show ?thesis
    proof (cases "D = d \<and> b")
      case True
      then have "key \<noteq> epoch (es @ [e]) D" using stale(1) t(2) by (simp add: epoch_def)
      moreover have "tell_all D (lz_pc s' t)"
        using True t(3) pkey_waiter [OF dom checked_pkey [OF key]] by simp
      ultimately show ?thesis by blast
    next
      case False
      then have "u \<noteq> t" if "add_all D (lz_pc s u)" for u using that t by (cases b) auto
      moreover have "key \<noteq> epoch (es @ [e]) D" if "key \<noteq> epoch es D" using stale(2) that .
      ultimately show ?thesis using old add tell not_t asleep by blast
    qed
  next
    assume t: "lz_pc s t = Z_notify b d pc" "e = E_tau" "b \<longrightarrow> (\<forall>j key. in_dom s d j \<longrightarrow> lz_pc s' j \<noteq> Z_asleep key)"
    have "u \<noteq> t" if "add_all D (lz_pc s u)" for u using that t by auto
    moreover have "u \<noteq> t" if "tell_all D (lz_pc s u)" "lz_pc s' j = Z_asleep key" for u
      using that t dom by (cases b) auto
    moreover have "epoch (es @ [e]) D = epoch es D" using t(2) by simp
    ultimately show ?thesis using old add tell asleep by metis
  qed
  then show "(\<exists>t. add_all (lz_dom s' j) (lz_pc s' t)) \<or>
     key \<noteq> epoch (es @ [e]) (lz_dom s' j) \<and> (lz_pc s' j = Z_asleep key \<longrightarrow> (\<exists>t. tell_all (lz_dom s' j) (lz_pc s' t)))"
    by (simp add: same D_def)
qed

lemma lz_step_served:
  assumes "lz_step s e s'" "lz_wf s" "lz_counts es s" "lz_keys es s" "lz_served es s"
    and "\<And>d. Suc (notified d es) < 2 ^ 32"
  shows "lz_served (es @ [e]) s'"
  using assms(1) worker_served [OF _ _ assms(2,3,5)] notify_served [OF _ assms(2-6)]
    schedule_served [OF _ assms(5)] master_served [OF _ assms(5)]
  unfolding lz_step_def by metis

section \<open>The destructor wakes everybody\<close>

text \<open>The key of a worker that has seen no stop request and is on its way to sleep.\<close>

fun past_test :: "lz_pc \<Rightarrow> u32 option" where
  "past_test (Z_dec key) = Some key"
| "past_test (Z_load key) = Some key"
| "past_test (Z_wait key) = Some key"
| "past_test (Z_asleep key) = Some key"
| "past_test _ = None"

text \<open>The destructor has bumped the notifier of \<open>d\<close>.\<close>

fun mdone :: "nat \<Rightarrow> lz_pc \<Rightarrow> bool" where
  "mdone d (Z_m_loop i) = (d < i)"
| "mdone d (Z_add _ i (Z_m_loop _)) = (d < i)"
| "mdone d (Z_notify _ i (Z_m_loop _)) = (d \<le> i)"
| "mdone d Z_m_join = True"
| "mdone d Z_m_over = True"
| "mdone d _ = False"

fun mshape :: "lz_pc \<Rightarrow> bool" where
  "mshape (Z_add b i (Z_m_loop m)) = (b \<and> m = Suc i)"
| "mshape (Z_notify b i (Z_m_loop m)) = (b \<and> m = Suc i)"
| "mshape _ = True"

definition lz_shut :: "pool_event list \<Rightarrow> lz_sys \<Rightarrow> bool" where
  "lz_shut es s \<longleftrightarrow> (\<forall>t. mshape (lz_pc s t)) \<and>
     (\<forall>j<lz_n s. \<forall>key. past_test (lz_pc s j) = Some key \<longrightarrow> mdone (lz_dom s j) (lz_pc s (lz_n s)) \<longrightarrow>
        key \<noteq> epoch es (lz_dom s j) \<and>
        (lz_pc s j = Z_asleep key \<longrightarrow> lz_pc s (lz_n s) = Z_notify True (lz_dom s j) (Z_m_loop (Suc (lz_dom s j)))))"

lemma mdone_leaving: "mdone d pc \<Longrightarrow> leaving pc"
  by (cases "(d, pc)" rule: mdone.cases) simp_all

lemma past_simps [simp]: "ok_cont pc \<Longrightarrow> past_test pc = None" "past_test (wake_pc pc) = past_test pc"
  "ok_cont pc \<Longrightarrow> mshape pc" "mshape (wake_pc pc) = mshape pc"
  by (cases pc; simp)+

lemma past_pkey: "past_test pc = Some key \<Longrightarrow> pkey pc = Some key"
  by (cases pc) simp_all

lemma worker_shut:
  assumes step: "thief_work_sleep j s e s' \<or> lazy_work j s e s'" and j: "j < lz_n s"
    and wf: "lz_wf s" and cnt: "lz_counts es s" and st: "lz_stops s" and inv: "lz_shut es s"
  shows "lz_shut (es @ [e]) s'"
proof -
  have ep: "ec_epoch (notifier s (lz_dom s j)) = epoch es (lz_dom s j)"
    using lz_epoch [OF wf cnt] wf j by (simp add: lz_wf_def)
  have stop: "stop_flag s" if "mdone d (lz_pc s (lz_n s))" for d
    using st mdone_leaving [OF that] unfolding lz_stops_def by blast
  have same: "lz_n s' = lz_n s" "lz_dom s' = lz_dom s" "\<And>i. i \<noteq> j \<Longrightarrow> lz_pc s' i = lz_pc s i"
    "\<And>d. e \<noteq> E_notify d" "mshape (lz_pc s' j)"
    using step by (auto elim!: thief_work_sleep.cases lazy_work.cases)
  have new: "past_test (lz_pc s j) = Some key \<and> (lz_pc s' j = Z_asleep key \<longrightarrow> key = epoch es (lz_dom s j))"
    if "past_test (lz_pc s' j) = Some key" "stop_flag s" for key
    using step that by (auto simp: ep elim!: thief_work_sleep.cases lazy_work.cases)
  show ?thesis
    unfolding lz_shut_def
  proof (intro conjI allI impI)
    fix t show "mshape (lz_pc s' t)" using same(3,5) inv by (cases "t = j") (auto simp: lz_shut_def)
  next
    fix i key
    assume i: "i < lz_n s'" "past_test (lz_pc s' i) = Some key" "mdone (lz_dom s' i) (lz_pc s' (lz_n s'))"
    have n: "lz_pc s' (lz_n s') = lz_pc s (lz_n s)" using same j by simp
    have "past_test (lz_pc s i) = Some key \<and> (lz_pc s' i = Z_asleep key \<longrightarrow> lz_pc s i = Z_asleep key \<or> key = epoch es (lz_dom s i))"
      using new [of key] same(3) i stop n by (cases "i = j") (auto simp: same)
    with inv i n same have
      "key \<noteq> epoch es (lz_dom s i) \<and>
        (lz_pc s' i = Z_asleep key \<longrightarrow> lz_pc s (lz_n s) = Z_notify True (lz_dom s i) (Z_m_loop (Suc (lz_dom s i))))"
      unfolding lz_shut_def by metis
    with n same show "key \<noteq> epoch (es @ [e]) (lz_dom s' i)"
      "lz_pc s' i = Z_asleep key \<Longrightarrow> lz_pc s' (lz_n s') = Z_notify True (lz_dom s' i) (Z_m_loop (Suc (lz_dom s' i)))"
      by simp_all
  qed
qed

lemma lz_shutD:
  "lz_shut es s \<Longrightarrow> j < lz_n s \<Longrightarrow> past_test (lz_pc s j) = Some key \<Longrightarrow> mdone (lz_dom s j) (lz_pc s (lz_n s)) \<Longrightarrow>
     key \<noteq> epoch es (lz_dom s j) \<and>
     (lz_pc s j = Z_asleep key \<longrightarrow> lz_pc s (lz_n s) = Z_notify True (lz_dom s j) (Z_m_loop (Suc (lz_dom s j))))"
  unfolding lz_shut_def by blast

lemma lz_shut_shape: "lz_shut es s \<Longrightarrow> mshape (lz_pc s t)"
  unfolding lz_shut_def by blast

lemma mdone_wake: "mdone d (wake_pc pc) = mdone d pc"
  by (cases pc) simp_all

lemma mdone_cont: "ok_cont pc \<Longrightarrow> mdone d (Z_notify b i pc) \<or> mdone d pc \<Longrightarrow> \<exists>m. pc = Z_m_loop m"
  by (cases pc) simp_all

lemma notify_shut:
  assumes step: "lazy_notify t s e s'" and wf: "lz_wf s" and cnt: "lz_counts es s" and keys: "lz_keys es s"
    and inv: "lz_shut es s" and bound: "\<And>d. Suc (notified d es) < 2 ^ 32"
  shows "lz_shut (es @ [e]) s'"
proof -
  note shape = notify_shape [OF step wf cnt]
  from shape(1) have same: "lz_n s' = lz_n s" "lz_dom s' = lz_dom s" by auto
  obtain b d pc where pc: "ok_cont pc" and t:
      "lz_pc s t = Z_add b d pc \<and> e = E_notify d \<and> lz_pc s' t = (if 0 < lz_waiters s d then Z_notify b d pc else pc)
       \<or> lz_pc s t = Z_notify b d pc \<and> e = E_tau \<and> lz_pc s' t = pc
         \<and> (b \<longrightarrow> (\<forall>j key. in_dom s d j \<longrightarrow> lz_pc s' j \<noteq> Z_asleep key))"
    using shape(3) by blast
  have loop: "b \<and> m = Suc d" if "pc = Z_m_loop m" for m
    using t that lz_shut_shape [OF inv, of t] by auto
  have "mshape (lz_pc s' t)"
    using t pc loop by (cases pc) auto
  then have shapes: "mshape (lz_pc s' u)" for u
    using shape(2) [of u] lz_shut_shape [OF inv, of u] by (cases "u = t") auto
  have "key \<noteq> epoch (es @ [e]) (lz_dom s j) \<and>
      (lz_pc s' j = Z_asleep key \<longrightarrow> lz_pc s' (lz_n s) = Z_notify True (lz_dom s j) (Z_m_loop (Suc (lz_dom s j))))"
    if j: "j < lz_n s" "past_test (lz_pc s' j) = Some key" "mdone (lz_dom s j) (lz_pc s' (lz_n s))" for j key
  proof -
    have jt: "j \<noteq> t" using t j(2) pc by (auto split: if_splits)
    have key: "past_test (lz_pc s j) = Some key" using shape(2) [OF jt] j(2) by auto
    have asleep: "lz_pc s j = Z_asleep key" if "lz_pc s' j = Z_asleep key"
      using shape(2) [OF jt] that by (metis wake_asleep)
    have dom: "in_dom s (lz_dom s j) j" using j(1) by (simp add: in_dom_def)
    note stale = key_not_next [OF keys dom past_pkey [OF key] bound]
    note old = lz_shutD [OF inv j(1) key]
    show ?thesis
    proof (cases "t = lz_n s")
      case False
      from shape(2) [of "lz_n s"] False
      have n: "lz_pc s' (lz_n s) = lz_pc s (lz_n s) \<or> lz_pc s' (lz_n s) = wake_pc (lz_pc s (lz_n s))" by auto
      then have "mdone (lz_dom s j) (lz_pc s (lz_n s))" using j(3) mdone_wake by metis
      from old [OF this] stale(2) asleep n show ?thesis by (metis wake_pc.simps(25))
    next
      case True
      have "\<exists>m. pc = Z_m_loop m"
        using t True j(3) mdone_cont [OF pc, of "lz_dom s j" b d] by (auto split: if_splits)
      with loop have m: "pc = Z_m_loop (Suc d)" "b" by auto
      from t show ?thesis
      proof (elim disjE conjE)
        assume t: "lz_pc s t = Z_add b d pc" "e = E_notify d"
          "lz_pc s' t = (if 0 < lz_waiters s d then Z_notify b d pc else pc)"
        have le: "lz_dom s j \<le> d" using j(3) t m True by (auto split: if_splits)
        show ?thesis
        proof (cases "lz_dom s j = d")
          case d: True
          have "0 < lz_waiters s d" using pkey_waiter [OF dom past_pkey [OF key]] d by simp
          then show ?thesis using t True m d stale(1) by (simp add: epoch_def)
        next
          case False
          with le have "lz_dom s j < d" by simp
          then have "mdone (lz_dom s j) (lz_pc s (lz_n s))" using t True m by simp
          from old [OF this] show ?thesis using t True asleep False by auto
        qed
      next
        assume t: "lz_pc s t = Z_notify b d pc" "e = E_tau" "lz_pc s' t = pc"
          "b \<longrightarrow> (\<forall>j key. in_dom s d j \<longrightarrow> lz_pc s' j \<noteq> Z_asleep key)"
        have "mdone (lz_dom s j) (lz_pc s (lz_n s))" using j(3) t True m by simp
        from old [OF this] show ?thesis using t True m asleep dom by auto
      qed
    qed
  qed
  with shapes show ?thesis unfolding lz_shut_def same by blast
qed

lemma schedule_shut:
  assumes step: "lazy_schedule t s e s'" and inv: "lz_shut es s"
  shows "lz_shut (es @ [e]) s'"
  using step
proof (cases rule: lazy_schedule.cases)
  case (ls_push x job)
  have none: "past_test (lz_pc s' t) = None" "\<not> mdone d (lz_pc s' t)" "mshape (lz_pc s' t)" for d
    using ls_push by auto
  have other: "lz_pc s' u = lz_pc s u" if "u \<noteq> t" for u using that ls_push by simp
  have same: "lz_n s' = lz_n s" "lz_dom s' = lz_dom s" "\<And>d. epoch (es @ [e]) d = epoch es d"
    using ls_push by simp_all
  show ?thesis
    unfolding lz_shut_def same
  proof (intro conjI allI impI)
    fix u show "mshape (lz_pc s' u)" using none other lz_shut_shape [OF inv, of u] by (cases "u = t") auto
  next
    fix j key
    assume j: "j < lz_n s" "past_test (lz_pc s' j) = Some key" "mdone (lz_dom s j) (lz_pc s' (lz_n s))"
    then have "j \<noteq> t" "lz_n s \<noteq> t" using none by auto
    with other j lz_shutD [OF inv j(1)] show "key \<noteq> epoch es (lz_dom s j)"
      "lz_pc s' j = Z_asleep key \<Longrightarrow> lz_pc s' (lz_n s) = Z_notify True (lz_dom s j) (Z_m_loop (Suc (lz_dom s j)))"
      by auto
  qed
qed

lemma master_shut:
  assumes step: "lazy_master s e s'" and wf: "lz_wf s" and inv: "lz_shut es s"
  shows "lz_shut (es @ [e]) s'"
proof -
  have same: "lz_n s' = lz_n s" "lz_dom s' = lz_dom s" "\<And>d. epoch (es @ [e]) d = epoch es d"
    "\<And>u. u \<noteq> lz_n s \<Longrightarrow> lz_pc s' u = lz_pc s u" "mshape (lz_pc s' (lz_n s))"
    using step by (auto elim!: lazy_master.cases)
  have done_before: "mdone d (lz_pc s (lz_n s))" if "mdone d (lz_pc s' (lz_n s))" "d < length (lv_numa s)" for d
    using step that by (auto elim!: lazy_master.cases)
  have notify: "lz_pc s (lz_n s) \<noteq> Z_notify b i pc" for b i pc
    using step by (auto elim!: lazy_master.cases)
  show ?thesis
    unfolding lz_shut_def same
  proof (intro conjI allI impI)
    fix u show "mshape (lz_pc s' u)"
      using same lz_shut_shape [OF inv, of u] by (cases "u = lz_n s") auto
  next
    fix j key
    assume j: "j < lz_n s" "past_test (lz_pc s' j) = Some key" "mdone (lz_dom s j) (lz_pc s' (lz_n s))"
    have "mdone (lz_dom s j) (lz_pc s (lz_n s))"
      by (rule done_before [OF j(3)]) (use wf j in \<open>simp add: lz_wf_def\<close>)
    with lz_shutD [OF inv j(1)] j same notify show "key \<noteq> epoch es (lz_dom s j)"
      "lz_pc s' j = Z_asleep key \<Longrightarrow> lz_pc s' (lz_n s) = Z_notify True (lz_dom s j) (Z_m_loop (Suc (lz_dom s j)))"
      by auto
  qed
qed

lemma lz_step_shut:
  assumes "lz_step s e s'" "lz_wf s" "lz_counts es s" "lz_keys es s" "lz_stops s" "lz_shut es s"
    and "\<And>d. Suc (notified d es) < 2 ^ 32"
  shows "lz_shut (es @ [e]) s'"
  using assms(1) worker_shut [OF _ _ assms(2,3,5,6)] notify_shut [OF _ assms(2-4,6,7)]
    schedule_shut [OF _ assms(6)] master_shut [OF _ assms(2,6)]
  unfolding lz_step_def by metis

section \<open>All invariants along a run\<close>

definition lz_inv :: "pool_event list \<Rightarrow> lz_sys \<Rightarrow> bool" where
  "lz_inv es s \<longleftrightarrow> lz_wf s \<and> lz_counts es s \<and> lz_keys es s \<and> lz_stops s
     \<and> (\<forall>d<length (lv_numa s). lz_guard es d s) \<and> lz_served es s \<and> lz_shut es s"

lemma lz_inv_start:
  assumes "nodes \<noteq> []" "length nodes < 2 ^ 32"
  shows "lz_inv [] (lz_new nodes)"
proof -
  let ?s = "lz_new nodes"
  have "nodes ! j \<le> Max (set nodes)" if "j < length nodes" for j
    using that by (intro Max_ge) auto
  then have wf: "lz_wf ?s"
    using assms(2) by (auto simp: lz_wf_def lz_new_def Let_def less_Suc_eq_le)
  have "thieves ?s d = 0" "lz_waiters ?s d = 0" "actives ?s = 0" for d
    by (auto simp: count_defs tally_zero lz_new_def Let_def)
  moreover from this have "lz_counts [] ?s"
    by (auto simp: lz_counts_def lz_new_def Let_def thief_def notifier_def ec_word_def nth_append
        simp del: replicate_Suc)
  ultimately show ?thesis
    using wf by (auto simp: lz_inv_def lz_keys_def lz_stops_def lz_guard_def lz_served_def lz_shut_def)
      (auto simp: lz_new_def Let_def busy_vars_new_def split: if_splits)
qed

lemma lz_step_numa:
  assumes "lz_step s e s'"
  shows "length (lv_numa s') = length (lv_numa s)"
  using assms
  by (auto simp: lz_step_def elim: lazy_work.cases thief_work_sleep.cases lazy_notify.cases
      lazy_schedule.cases lazy_master.cases)

lemma lz_run_inv:
  assumes "pool_run lz_step s es t" "s = lz_new nodes" "nodes \<noteq> []" "length nodes < 2 ^ 32"
    and "\<And>d. Suc (notified d es) < 2 ^ 32"
  shows "lz_inv es t"
  using assms
proof (induction rule: pool_run.induct)
  case (run_nil s)
  then show ?case using lz_inv_start by simp
next
  case (run_step s es t e u)
  have bound: "Suc (notified d es) < 2 ^ 32" for d
    using run_step.prems(4) [of d] by (simp split: if_splits)
  then have inv: "lz_inv es t" using run_step by blast
  note step = run_step.hyps(2) and nd = lz_step_numa [OF run_step.hyps(2)]
  from inv have i: "lz_wf t" "lz_counts es t" "lz_keys es t" "lz_stops t" "lz_served es t" "lz_shut es t"
    "\<And>d. d < length (lv_numa t) \<Longrightarrow> lz_guard es d t" by (auto simp: lz_inv_def)
  show ?case
    unfolding lz_inv_def nd
    using lz_step_counts [OF step i(1,2)] lz_step_keys [OF step i(1-3)] lz_step_stops [OF step i(4)]
      lz_step_guard [OF step i(1-4) _ i(7) bound] lz_step_served [OF step i(1-3,5) bound]
      lz_step_shut [OF step i(1-4,6) bound] by blast
qed

lemma lz_run_history:
  assumes "pool_run lz_step s es t" "s = lz_new nodes"
  shows "submitted x es = executed x es @ lz_subs t x"
  using assms
proof (induction rule: pool_run.induct)
  case (run_step s es t e u)
  from run_step.IH [OF run_step.prems] run_step.hyps(2) show ?case
    unfolding lz_step_def
    by (auto elim!: lazy_work.cases thief_work_sleep.cases lazy_notify.cases lazy_schedule.cases lazy_master.cases)
qed (simp add: lz_new_def Let_def)

section \<open>Properties\<close>

lemma lz_run_size:
  "pool_run lz_step (lz_new nodes) es s \<Longrightarrow> nodes \<noteq> [] \<Longrightarrow> lz_n s = length nodes"
  using lz.run_latch_inv [of "lz_new nodes" es s "length nodes"] by (auto simp: lz_started_def)

text \<open>
  Property C5. No locality falls asleep while there is work.  For fewer than \<open>2\<close> to the power 32
  workers and notifications: in every state of every interleaving, from the construction of the pool
  to its end, the counters \<open>thief\<close> and \<open>active\<close> are exactly the numbers of thieves of the locality and of
  active workers, with no wrap-around; and as long as the pool is not stopped, if some worker is
  active (it runs tasks or is about to), then a worker that sleeps is not alone: in its locality
  another worker is a thief or on its way to become one, or some thread is about to look at the
  locality's thief counter or to notify its sleepers.
\<close>

theorem lazy_pool_keeps_a_thief:
  assumes "pool_run lz_step (lz_new nodes) es s" "nodes \<noteq> []" "length nodes < 2 ^ 32"
    and "\<And>d. Suc (notified d es) < 2 ^ 32"
  shows "(\<forall>d<length (lv_numa s). unat (thief s d) = thieves s d) \<and> unat (lv_active s) = actives s \<and>
     (\<forall>w j key. \<not> stop_flag s \<longrightarrow> w < length nodes \<longrightarrow> ac (lz_pc s w) \<longrightarrow> j < length nodes \<longrightarrow> lz_pc s j = Z_asleep key \<longrightarrow>
        (\<exists>i<length nodes. lz_dom s i = lz_dom s j \<and> (th (lz_pc s i) \<or> rising (epoch es (lz_dom s j)) (lz_pc s i))) \<or>
        (\<exists>t. coming (lz_dom s j) (lz_pc s t) \<or> telling (lz_dom s j) (lz_pc s t)))"
proof (intro conjI allI impI)
  have inv: "lz_inv es s" by (rule lz_run_inv [OF assms(1) refl assms(2-4)])
  have n: "lz_n s = length nodes" by (rule lz_run_size [OF assms(1,2)])
  have "thieves s d < 2 ^ 64" "actives s < 2 ^ 64" for d
    using tally_le [of "lz_n s" "lz_pc s" "\<lambda>j pc. lz_dom s j = d \<and> th pc"] tally_le [of "lz_n s" "lz_pc s" "\<lambda>_. ac"] n assms(3)
    by (simp_all add: thieves_def actives_def)
  then have wrap: "unat (of_nat (thieves s d) :: u64) = thieves s d" "unat (of_nat (actives s) :: u64) = actives s" for d
    by (simp_all add: unat_of_nat)
  from inv have counts: "lz_counts es s" by (simp add: lz_inv_def)
  then show "unat (lv_active s) = actives s" using wrap(2) by (simp add: lz_counts_def)
  show "unat (thief s d) = thieves s d" if "d < length (lv_numa s)" for d
    using that counts wrap(1) [of d] by (simp add: lz_counts_def)
  fix w j key
  assume a: "\<not> stop_flag s" "w < length nodes" "ac (lz_pc s w)" "j < length nodes" "lz_pc s j = Z_asleep key"
  let ?d = "lz_dom s j"
  have "?d < length (lv_numa s)" using inv a(4) n by (auto simp: lz_inv_def lz_wf_def)
  with inv have guard: "lz_guard es ?d s" by (simp add: lz_inv_def)
  moreover have "actives s \<noteq> 0" using actives_pos [of s] a(2,3) n by auto
  moreover have "in_dom s ?d j \<and> dozing (lz_pc s j)" using a(4,5) n by (simp add: in_dom_def)
  ultimately show "(\<exists>i<length nodes. lz_dom s i = ?d \<and> (th (lz_pc s i) \<or> rising (epoch es ?d) (lz_pc s i))) \<or>
        (\<exists>t. coming ?d (lz_pc s t) \<or> telling ?d (lz_pc s t))"
    using a(1) n unfolding lz_guard_def by (fastforce simp: in_dom_def)
qed

text \<open>
  Property C12. The lazy pool loses no submission: at any time the jobs submitted to a worker are,
  in order, those it has taken to run followed by those in its list; and, for fewer than \<open>2\<close> to the
  power 32 workers and notifications, a worker that sleeps with a job in its list is about to be
  woken: the submitting thread (or another one) is inside \<open>notify_all\<close> on its locality.
\<close>

theorem lazy_pool_no_lost_submission:
  assumes "pool_run lz_step (lz_new nodes) es s" "nodes \<noteq> []"
  shows "submitted j es = executed j es @ lz_subs s j \<and>
     (length nodes < 2 ^ 32 \<and> (\<forall>d. Suc (notified d es) < 2 ^ 32) \<and> j < length nodes \<and> lz_pc s j = Z_asleep key \<and> lz_subs s j \<noteq> [] \<longrightarrow>
        (\<exists>t pc. lz_pc s t = Z_add True (lz_dom s j) pc \<or> lz_pc s t = Z_notify True (lz_dom s j) pc))"
proof (intro conjI impI)
  show "submitted j es = executed j es @ lz_subs s j" by (rule lz_run_history [OF assms(1) refl])
  assume a: "length nodes < 2 ^ 32 \<and> (\<forall>d. Suc (notified d es) < 2 ^ 32) \<and> j < length nodes \<and> lz_pc s j = Z_asleep key \<and> lz_subs s j \<noteq> []"
  then have inv: "lz_inv es s" by (intro lz_run_inv [OF assms(1) refl assms(2)]) auto
  have "\<exists>c. pc = Z_add True d c" if "add_all d pc" for d pc
    using that by (cases "(d, pc)" rule: add_all.cases) auto
  moreover have "\<exists>c. pc = Z_notify True d c" if "tell_all d pc" for d pc
    using that by (cases "(d, pc)" rule: tell_all.cases) auto
  moreover have "(\<exists>t. add_all (lz_dom s j) (lz_pc s t)) \<or> (\<exists>t. tell_all (lz_dom s j) (lz_pc s t))"
    using lz_servedD [of es s j key] inv a lz_run_size [OF assms] by (auto simp: lz_inv_def)
  ultimately show "\<exists>t pc. lz_pc s t = Z_add True (lz_dom s j) pc \<or> lz_pc s t = Z_notify True (lz_dom s j) pc" by metis
qed

text \<open>
  Property C13. At any time, from the start of the threads to the destructor, a worker is in its event
  loop only while the contexts of all workers are initialised and none is finalised.  And the
  destructor leaves nobody behind, for fewer than \<open>2\<close> to the power 32 workers and notifications: once
  it has notified every locality and joins the threads, no worker sleeps, and a worker that still
  waits finds the epoch changed and returns from the wait.
\<close>

theorem lazy_pool_shutdown:
  assumes "pool_run lz_step (lz_new nodes) es s" "nodes \<noteq> []" "j < length nodes"
  shows "(\<forall>i<length nodes. lz_phase (lz_pc s j) = P_run \<longrightarrow> lz_alive s i) \<and>
     (length nodes < 2 ^ 32 \<and> (\<forall>d. Suc (notified d es) < 2 ^ 32) \<and> lz_pc s (length nodes) = Z_m_join \<longrightarrow>
        lz_pc s j \<noteq> Z_asleep key \<and> (lz_pc s j = Z_wait key \<longrightarrow> ec_epoch (notifier s (lz_dom s j)) \<noteq> key))"
proof (intro conjI allI impI)
  have start: "lz_started (length nodes) (lz_new nodes)" using assms(2) by (auto simp: lz_started_def)
  note n = lz_run_size [OF assms(1,2)]
  show "lz_alive s i" if "i < length nodes" "lz_phase (lz_pc s j) = P_run" for i
    using lz.run_contexts_alive [OF assms(1) start assms(3) _ that(1)] that(2) by (simp add: lz_view_def)
  assume a: "length nodes < 2 ^ 32 \<and> (\<forall>d. Suc (notified d es) < 2 ^ 32) \<and> lz_pc s (length nodes) = Z_m_join"
  then have inv: "lz_inv es s" by (intro lz_run_inv [OF assms(1) refl assms(2)]) auto
  from inv assms(3) n have "ec_epoch (notifier s (lz_dom s j)) = epoch es (lz_dom s j)"
    by (intro lz_epoch) (auto simp: lz_inv_def lz_wf_def)
  then show "lz_pc s j \<noteq> Z_asleep key" "lz_pc s j = Z_wait key \<Longrightarrow> ec_epoch (notifier s (lz_dom s j)) \<noteq> key"
    using lz_shutD [of es s j key] inv n assms(3) a by (auto simp: lz_inv_def)
qed

section \<open>Witnesses\<close>

text \<open>Two workers in one locality: one steals a task while the other falls asleep; then a job is
  submitted to the sleeper, or the first becomes active.  And the destructor of an idle pool.\<close>

definition lz_demo :: "int \<Rightarrow> bool \<Rightarrow> u64 \<Rightarrow> u64 \<Rightarrow> u64 \<Rightarrow> nat list \<Rightarrow> bool \<Rightarrow> bool \<Rightarrow> lz_pc \<Rightarrow> lz_pc \<Rightarrow> lz_pc \<Rightarrow> lz_sys" where
  "lz_demo a st tf nf act q al0 al1 p0 p1 m = \<lparr>latch_start = a, latch_stop = 2, stop_flag = st,
     lv_active = act, lv_numa = [\<lparr>fc_thief = tf, fc_notifier = nf\<rparr>], lz_n = 2, lz_dom = (\<lambda>j. [0, 0] ! j),
     lz_subs = (\<lambda>_. [])(1 := q), lz_alive = (\<lambda>_. False)(0 := al0, 1 := al1),
     lz_pc = (\<lambda>_. Z_ext)(0 := p0, 1 := p1, 2 := m)\<rparr>"

definition lz_demo_work :: "pool_event list" where
  "lz_demo_work = [E_tau, E_tau, E_tau, E_tau, E_tau, E_tau, E_tau, E_tau, E_tau, E_tau, E_tau, E_tau, E_notify 0, E_tau, E_tau, E_tau, E_tau, E_tau, E_tau, E_tau, E_tau, E_tau, E_tau]"

definition lz_demo_submit :: "pool_event list" where
  "lz_demo_submit = [E_tau, E_tau, E_tau, E_tau, E_tau, E_tau, E_tau, E_tau, E_tau, E_tau, E_tau, E_tau, E_notify 0, E_tau, E_tau, E_tau, E_tau, E_tau, E_tau, E_tau, E_tau, E_tau, E_submit 1 7]"

definition lz_demo_stop :: "pool_event list" where
  "lz_demo_stop = [E_tau, E_tau, E_tau, E_tau, E_tau, E_tau, E_tau, E_tau, E_stop, E_tau, E_notify 0, E_tau]"

lemma lz_demo_run:
  "pool_run lz_step (lz_new [0, 0]) lz_demo_work
     (lz_demo 0 False 0 4294967297 1 [] True True (Z_loop 0) (Z_asleep 1) Z_m_idle)"
  "pool_run lz_step (lz_new [0, 0]) lz_demo_submit
     (lz_demo 0 False 0 4294967297 0 [7] True True Z_active_add (Z_asleep 1) (Z_add True 0 Z_m_idle))"
  "pool_run lz_step (lz_new [0, 0]) lz_demo_stop
     (lz_demo 0 True 0 4294967296 0 [] True True Z_wake Z_wake Z_m_join)"
proof -
  note simps = lz_demo_def lz_go_def set_thief_def set_notifier_def thief_def notifier_def fun_eq_iff
    ec_notify_def ec_prepare_wait_def ec_epoch_def k_waiter_mask_def k_add_epoch_def k_add_waiter_def
  have w0: "lazy_work 0 s e u \<Longrightarrow> lz_n s = 2 \<Longrightarrow> u = v \<Longrightarrow> lz_step s e v"
    and w1: "lazy_work 1 s e u \<Longrightarrow> lz_n s = 2 \<Longrightarrow> u = v \<Longrightarrow> lz_step s e v"
    and t0: "thief_work_sleep 0 s e u \<Longrightarrow> lz_n s = 2 \<Longrightarrow> u = v \<Longrightarrow> lz_step s e v"
    and n0: "lazy_notify 0 s e u \<Longrightarrow> u = v \<Longrightarrow> lz_step s e v"
    and n2: "lazy_notify 2 s e u \<Longrightarrow> u = v \<Longrightarrow> lz_step s e v"
    and master: "lazy_master s e u \<Longrightarrow> u = v \<Longrightarrow> lz_step s e v"
    and push: "lazy_schedule 2 s e u \<Longrightarrow> u = v \<Longrightarrow> lz_step s e v" for s e u v
    by (auto simp: lz_step_def)
  have 0: "lz_new [0, 0] = lz_demo 3 False 0 0 0 [] False False Z_init Z_init Z_m_start"
    by (simp add: lz_new_def busy_vars_new_def lz_demo_def fun_eq_iff)
  have a1: "lz_step (lz_demo 3 False 0 0 0 [] False False Z_init Z_init Z_m_start) E_tau (lz_demo 3 False 0 0 0 [] True False Z_start Z_init Z_m_start)"
    by (rule w0 [OF lw_init]) (simp_all add: simps)
  have a2: "lz_step (lz_demo 3 False 0 0 0 [] True False Z_start Z_init Z_m_start) E_tau (lz_demo 3 False 0 0 0 [] True True Z_start Z_start Z_m_start)"
    by (rule w1 [OF lw_init]) (simp_all add: simps)
  have a3: "lz_step (lz_demo 3 False 0 0 0 [] True True Z_start Z_start Z_m_start) E_tau (lz_demo 2 False 0 0 0 [] True True Z_start_wait Z_start Z_m_start)"
    by (rule w0 [OF lw_start]) (simp_all add: simps)
  have a4: "lz_step (lz_demo 2 False 0 0 0 [] True True Z_start_wait Z_start Z_m_start) E_tau (lz_demo 1 False 0 0 0 [] True True Z_start_wait Z_start_wait Z_m_start)"
    by (rule w1 [OF lw_start]) (simp_all add: simps)
  have a5: "lz_step (lz_demo 1 False 0 0 0 [] True True Z_start_wait Z_start_wait Z_m_start) E_tau (lz_demo 0 False 0 0 0 [] True True Z_start_wait Z_start_wait Z_m_start_wait)"
    by (rule master [OF lm_start]) (simp_all add: simps)
  have a6: "lz_step (lz_demo 0 False 0 0 0 [] True True Z_start_wait Z_start_wait Z_m_start_wait) E_tau (lz_demo 0 False 0 0 0 [] True True Z_wake Z_start_wait Z_m_start_wait)"
    by (rule w0 [OF lw_started]) (simp_all add: simps)
  have a7: "lz_step (lz_demo 0 False 0 0 0 [] True True Z_wake Z_start_wait Z_m_start_wait) E_tau (lz_demo 0 False 0 0 0 [] True True Z_wake Z_wake Z_m_start_wait)"
    by (rule w1 [OF lw_started]) (simp_all add: simps)
  have a8: "lz_step (lz_demo 0 False 0 0 0 [] True True Z_wake Z_wake Z_m_start_wait) E_tau (lz_demo 0 False 0 0 0 [] True True Z_wake Z_wake Z_m_idle)"
    by (rule master [OF lm_started]) (simp_all add: simps)
  have b1: "lz_step (lz_demo 0 False 0 0 0 [] True True Z_wake Z_wake Z_m_idle) E_tau (lz_demo 0 False 1 0 0 [] True True Z_pop Z_wake Z_m_idle)"
    by (rule w0 [OF lw_wake [OF _ refl]]) (simp_all add: simps)
  have b2: "lz_step (lz_demo 0 False 1 0 0 [] True True Z_pop Z_wake Z_m_idle) E_tau (lz_demo 0 False 1 0 0 [] True True Z_steal Z_wake Z_m_idle)"
    by (rule w0 [OF lw_no_pop]) (simp_all add: simps)
  have b3: "lz_step (lz_demo 0 False 1 0 0 [] True True Z_steal Z_wake Z_m_idle) E_tau (lz_demo 0 False 1 0 0 [] True True Z_tws Z_wake Z_m_idle)"
    by (rule w0 [OF lw_steal]) (simp_all add: simps)
  have b4: "lz_step (lz_demo 0 False 1 0 0 [] True True Z_tws Z_wake Z_m_idle) E_tau (lz_demo 0 False 0 0 0 [] True True (Z_add False 0 Z_active_add) Z_wake Z_m_idle)"
    by (rule t0 [OF tw_last [OF _ refl]]) (simp_all add: simps)
  have b5: "lz_step (lz_demo 0 False 0 0 0 [] True True (Z_add False 0 Z_active_add) Z_wake Z_m_idle) (E_notify 0) (lz_demo 0 False 0 4294967296 0 [] True True Z_active_add Z_wake Z_m_idle)"
    by (rule n0 [OF ln_add [where pc = Z_active_add and b = False and w = False and v = 4294967296]]) (simp_all add: simps)
  have b6: "lz_step (lz_demo 0 False 0 4294967296 0 [] True True Z_active_add Z_wake Z_m_idle) E_tau (lz_demo 0 False 1 4294967296 0 [] True True Z_active_add Z_pop Z_m_idle)"
    by (rule w1 [OF lw_wake [OF _ refl]]) (simp_all add: simps)
  have b7: "lz_step (lz_demo 0 False 1 4294967296 0 [] True True Z_active_add Z_pop Z_m_idle) E_tau (lz_demo 0 False 1 4294967296 0 [] True True Z_active_add Z_steal Z_m_idle)"
    by (rule w1 [OF lw_no_pop]) (simp_all add: simps)
  have b8: "lz_step (lz_demo 0 False 1 4294967296 0 [] True True Z_active_add Z_steal Z_m_idle) E_tau (lz_demo 0 False 1 4294967296 0 [] True True Z_active_add Z_prep Z_m_idle)"
    by (rule w1 [OF lw_no_steal]) (simp_all add: simps)
  have b9: "lz_step (lz_demo 0 False 1 4294967296 0 [] True True Z_active_add Z_prep Z_m_idle) E_tau (lz_demo 0 False 1 4294967297 0 [] True True Z_active_add (Z_check 1) Z_m_idle)"
    by (rule w1 [OF lw_prepare [OF _ refl]]) (simp_all add: simps)
  have b10: "lz_step (lz_demo 0 False 1 4294967297 0 [] True True Z_active_add (Z_check 1) Z_m_idle) E_tau (lz_demo 0 False 1 4294967297 0 [] True True Z_active_add (Z_stop_test 1) Z_m_idle)"
    by (rule w1 [OF lw_check]) (simp_all add: simps)
  have b11: "lz_step (lz_demo 0 False 1 4294967297 0 [] True True Z_active_add (Z_stop_test 1) Z_m_idle) E_tau (lz_demo 0 False 1 4294967297 0 [] True True Z_active_add (Z_dec 1) Z_m_idle)"
    by (rule w1 [OF lw_no_stop]) (simp_all add: simps)
  have b12: "lz_step (lz_demo 0 False 1 4294967297 0 [] True True Z_active_add (Z_dec 1) Z_m_idle) E_tau (lz_demo 0 False 0 4294967297 0 [] True True Z_active_add (Z_load 1) Z_m_idle)"
    by (rule w1 [OF lw_dec_last [OF _ refl]]) (simp_all add: simps)
  have b13: "lz_step (lz_demo 0 False 0 4294967297 0 [] True True Z_active_add (Z_load 1) Z_m_idle) E_tau (lz_demo 0 False 0 4294967297 0 [] True True Z_active_add (Z_wait 1) Z_m_idle)"
    by (rule w1 [OF lw_load_idle]) (simp_all add: simps)
  have b14: "lz_step (lz_demo 0 False 0 4294967297 0 [] True True Z_active_add (Z_wait 1) Z_m_idle) E_tau (lz_demo 0 False 0 4294967297 0 [] True True Z_active_add (Z_asleep 1) Z_m_idle)"
    by (rule w1 [OF lw_sleep [OF _ refl]]) (simp_all add: simps)
  have c1: "lz_step (lz_demo 0 False 0 4294967297 0 [] True True Z_active_add (Z_asleep 1) Z_m_idle) E_tau (lz_demo 0 False 0 4294967297 1 [] True True (Z_loop 0) (Z_asleep 1) Z_m_idle)"
    by (rule t0 [OF tw_first]) (simp_all add: simps)
  have d1: "lz_step (lz_demo 0 False 0 4294967297 0 [] True True Z_active_add (Z_asleep 1) Z_m_idle) (E_submit 1 7) (lz_demo 0 False 0 4294967297 0 [7] True True Z_active_add (Z_asleep 1) (Z_add True 0 Z_m_idle))"
    by (rule push [OF ls_push]) (simp_all add: simps)
  have f1: "lz_step (lz_demo 0 False 0 0 0 [] True True Z_wake Z_wake Z_m_idle) E_stop (lz_demo 0 True 0 0 0 [] True True Z_wake Z_wake (Z_m_loop 0))"
    by (rule master [OF lm_stop]) (simp_all add: simps)
  have f2: "lz_step (lz_demo 0 True 0 0 0 [] True True Z_wake Z_wake (Z_m_loop 0)) E_tau (lz_demo 0 True 0 0 0 [] True True Z_wake Z_wake (Z_add True 0 (Z_m_loop 1)))"
    by (rule master [OF lm_loop]) (simp_all add: simps)
  have f3: "lz_step (lz_demo 0 True 0 0 0 [] True True Z_wake Z_wake (Z_add True 0 (Z_m_loop 1))) (E_notify 0) (lz_demo 0 True 0 4294967296 0 [] True True Z_wake Z_wake (Z_m_loop 1))"
    by (rule n2 [OF ln_add [where pc = "Z_m_loop 1" and b = True and w = False and v = 4294967296]]) (simp_all add: simps)
  have f4: "lz_step (lz_demo 0 True 0 4294967296 0 [] True True Z_wake Z_wake (Z_m_loop 1)) E_tau (lz_demo 0 True 0 4294967296 0 [] True True Z_wake Z_wake Z_m_join)"
    by (rule master [OF lm_loop_end [where i = 1]]) (simp_all add: simps)
  note run_nil = run_nil [of lz_step] and run_step = run_step [where pstep = lz_step]
  note ra = run_step [OF run_step [OF run_step [OF run_step [OF run_step [OF run_step [OF run_step [OF run_step [OF run_nil a1] a2] a3] a4] a5] a6] a7] a8]
  note rb = run_step [OF run_step [OF run_step [OF run_step [OF run_step [OF run_step [OF run_step [OF run_step [OF run_step [OF run_step [OF run_step [OF run_step [OF run_step [OF run_step [OF ra b1] b2] b3] b4] b5] b6] b7] b8] b9] b10] b11] b12] b13] b14]
  from run_step [OF rb c1] show "pool_run lz_step (lz_new [0, 0]) lz_demo_work
     (lz_demo 0 False 0 4294967297 1 [] True True (Z_loop 0) (Z_asleep 1) Z_m_idle)"
    unfolding 0 lz_demo_work_def by simp
  from run_step [OF rb d1] show "pool_run lz_step (lz_new [0, 0]) lz_demo_submit
     (lz_demo 0 False 0 4294967297 0 [7] True True Z_active_add (Z_asleep 1) (Z_add True 0 Z_m_idle))"
    unfolding 0 lz_demo_submit_def by simp
  from run_step [OF run_step [OF run_step [OF run_step [OF ra f1] f2] f3] f4] show "pool_run lz_step (lz_new [0, 0]) lz_demo_stop
     (lz_demo 0 True 0 4294967296 0 [] True True Z_wake Z_wake Z_m_join)"
    unfolding 0 lz_demo_stop_def by simp
qed

lemma lz_demo_bounds: "Suc (notified d lz_demo_work) < 2 ^ 32" "Suc (notified d lz_demo_submit) < 2 ^ 32"
  "Suc (notified d lz_demo_stop) < 2 ^ 32"
  by (simp_all add: notified_def lz_demo_work_def lz_demo_submit_def lz_demo_stop_def)

theorem lazy_pool_keeps_a_thief_witness:
  "lz_pc (lz_demo 0 False 0 4294967297 1 [] True True (Z_loop 0) (Z_asleep 1) Z_m_idle) 1 = Z_asleep 1 \<and>
   unat (lv_active (lz_demo 0 False 0 4294967297 1 [] True True (Z_loop 0) (Z_asleep 1) Z_m_idle)) = 1 \<and>
   ((\<exists>i<length [0::nat, 0]. lz_dom (lz_demo 0 False 0 4294967297 1 [] True True (Z_loop 0) (Z_asleep 1) Z_m_idle) i = 0 \<and> (th (lz_pc (lz_demo 0 False 0 4294967297 1 [] True True (Z_loop 0) (Z_asleep 1) Z_m_idle) i) \<or> rising (epoch lz_demo_work 0) (lz_pc (lz_demo 0 False 0 4294967297 1 [] True True (Z_loop 0) (Z_asleep 1) Z_m_idle) i))) \<or>
    (\<exists>t. coming 0 (lz_pc (lz_demo 0 False 0 4294967297 1 [] True True (Z_loop 0) (Z_asleep 1) Z_m_idle) t) \<or> telling 0 (lz_pc (lz_demo 0 False 0 4294967297 1 [] True True (Z_loop 0) (Z_asleep 1) Z_m_idle) t)))"
proof -
  let ?s = "lz_demo 0 False 0 4294967297 1 [] True True (Z_loop 0) (Z_asleep 1) Z_m_idle"
  have *: "lz_pc ?s 1 = Z_asleep 1" "lz_dom ?s 0 = 0" "lz_dom ?s 1 = 0" "ac (lz_pc ?s 0)" "\<not> stop_flag ?s" "lv_active ?s = 1"
    by (simp_all add: lz_demo_def)
  have "\<forall>w j key. \<not> stop_flag ?s \<longrightarrow> w < length [0::nat, 0] \<longrightarrow> ac (lz_pc ?s w) \<longrightarrow> j < length [0::nat, 0] \<longrightarrow> lz_pc ?s j = Z_asleep key \<longrightarrow>
        (\<exists>i<length [0::nat, 0]. lz_dom ?s i = lz_dom ?s j \<and> (th (lz_pc ?s i) \<or> rising (epoch lz_demo_work (lz_dom ?s j)) (lz_pc ?s i))) \<or>
        (\<exists>t. coming (lz_dom ?s j) (lz_pc ?s t) \<or> telling (lz_dom ?s j) (lz_pc ?s t))"
    using lazy_pool_keeps_a_thief [OF lz_demo_run(1) _ _ lz_demo_bounds(1)] by simp
  from this [rule_format, of 0 1 1] * show ?thesis by simp
qed

theorem lazy_pool_no_lost_submission_witness:
  "submitted 1 lz_demo_submit = [7] \<and>
   (\<exists>t pc. lz_pc (lz_demo 0 False 0 4294967297 0 [7] True True Z_active_add (Z_asleep 1) (Z_add True 0 Z_m_idle)) t = Z_add True 0 pc \<or> lz_pc (lz_demo 0 False 0 4294967297 0 [7] True True Z_active_add (Z_asleep 1) (Z_add True 0 Z_m_idle)) t = Z_notify True 0 pc)"
proof -
  let ?s = "lz_demo 0 False 0 4294967297 0 [7] True True Z_active_add (Z_asleep 1) (Z_add True 0 Z_m_idle)"
  have *: "lz_pc ?s 1 = Z_asleep 1" "lz_subs ?s 1 = [7]" "lz_dom ?s 1 = 0" "executed 1 lz_demo_submit = []"
    by (simp_all add: lz_demo_def lz_demo_submit_def)
  have b: "\<forall>d. Suc (notified d lz_demo_submit) < 2 ^ 32" using lz_demo_bounds(2) by blast
  have "[0, 0 :: nat] \<noteq> []" by simp
  from lazy_pool_no_lost_submission [OF lz_demo_run(2) this, of 1 1] * b show ?thesis by simp
qed

theorem lazy_pool_shutdown_witness:
  "lz_alive (lz_demo 0 True 0 4294967296 0 [] True True Z_wake Z_wake Z_m_join) 1 \<and>
   lz_pc (lz_demo 0 True 0 4294967296 0 [] True True Z_wake Z_wake Z_m_join) 0 \<noteq> Z_asleep 0"
proof -
  have b: "\<forall>d. Suc (notified d lz_demo_stop) < 2 ^ 32" using lz_demo_bounds(3) by blast
  show ?thesis using lazy_pool_shutdown [OF lz_demo_run(3), of 0] b by (simp add: lz_demo_def)
qed

end
