(* ===== verification/Numa.thy ===== *)
theory Numa
  imports Prelude
begin

text \<open>
  \<open>schedule/ext/numa.hpp\<close>: how the workers are spread over the topology of the machine.  The
  topology itself is the library hwloc: which object covers a handle, the common ancestor of two
  objects and the depth of an object are parameters.  Modelled are the numbering of the NUMA
  localities (\<open>numa_map\<close> in \<open>split\<close>), the \<open>distance_matrix\<close>, and \<open>distribute\<close>, which gives every
  worker its neighbours grouped by distance, with and without hwloc.
\<close>

section \<open>Numbering the localities\<close>

text \<open>\<open>numa_map\<close> as the list of its pairs; the right operand of the assignment is evaluated first,
  so a new locality gets the size the map had before.\<close>

fun numa_number :: "nat list \<Rightarrow> (nat \<times> nat) list \<Rightarrow> nat list" where
  "numa_number [] numa_map = []"
| "numa_number (numa_index # rest) numa_map =
     (case map_of numa_map numa_index of
        Some k \<Rightarrow> k # numa_number rest numa_map
      | None \<Rightarrow> length numa_map # numa_number rest ((numa_index, length numa_map) # numa_map))"

section \<open>Distances\<close>

text \<open>
  The constructor of \<open>distance_matrix\<close>: a null pointer of hwloc, or handles of two topologies (\<open>topo\<close>),
  throws; a negative distance fails an assertion.  The pairs are visited row by row.
\<close>

fun distances :: "('h \<Rightarrow> 't) \<Rightarrow> ('o \<Rightarrow> 'o \<Rightarrow> 'o option) \<Rightarrow> ('o \<Rightarrow> int) \<Rightarrow> (('h \<times> 'o) \<times> 'h \<times> 'o) list
    \<Rightarrow> (exn + int list) option" where
  "distances topo ancestor depth [] = Some (Inr [])"
| "distances topo ancestor depth (((h, a), k, b) # rest) =
     (if topo h \<noteq> topo k then Some (Inl Runtime_error)
      else case ancestor a b of None \<Rightarrow> Some (Inl Runtime_error)
      | Some c \<Rightarrow>
          (let dist_1 = depth a - depth c; dist_2 = depth b - depth c in do {
             lf_assert (dist_1 \<ge> 0);
             lf_assert (dist_2 \<ge> 0);
             r \<leftarrow> distances topo ancestor depth rest;
             Some (map_sum id (\<lambda>ds. max dist_1 dist_2 # ds) r) }))"

definition distance_matrix :: "('h \<Rightarrow> 't) \<Rightarrow> ('h \<Rightarrow> 'o option) \<Rightarrow> ('o \<Rightarrow> 'o \<Rightarrow> 'o option) \<Rightarrow> ('o \<Rightarrow> int) \<Rightarrow> 'h list
    \<Rightarrow> (exn + int list) option" where
  "distance_matrix topo covering ancestor depth handles =
     (let obj = map covering handles in
      if None \<in> set obj then Some (Inl Runtime_error)
      else let nodes = zip handles (map the obj) in distances topo ancestor depth (List.product nodes nodes))"

definition dm_at :: "nat \<Rightarrow> int list \<Rightarrow> nat \<Rightarrow> nat \<Rightarrow> int" where
  "dm_at m_size m_matrix i j = m_matrix ! (i * m_size + j)"

section \<open>Neighbours\<close>

text \<open>\<open>std::set<int>\<close> as the ascending list of its elements.\<close>

definition set_insert :: "int \<Rightarrow> int list \<Rightarrow> int list" where
  "set_insert x xs = (if x \<in> set xs then xs else insort x xs)"

definition uniques :: "nat \<Rightarrow> (nat \<Rightarrow> nat \<Rightarrow> int) \<Rightarrow> nat \<Rightarrow> int list" where
  "uniques n dist i = foldl (\<lambda>us j. if i \<noteq> j then set_insert (dist i j) us else us) [] [0..<n]"

definition set_index :: "int list \<Rightarrow> int \<Rightarrow> nat" where
  "set_index us x = length (takeWhile (\<lambda>y. y \<noteq> x) us)"

definition push_at :: "'a list list \<Rightarrow> nat \<Rightarrow> 'a \<Rightarrow> 'a list list" where
  "push_at nb k x = nb[k := nb ! k @ [x]]"

text \<open>The body of the outer loop of \<open>distribute\<close>, for worker \<open>i\<close>.\<close>

definition neighbors :: "'a list \<Rightarrow> (nat \<Rightarrow> nat \<Rightarrow> int) \<Rightarrow> nat \<Rightarrow> 'a list list" where
  "neighbors data dist i =
     (let us = uniques (length data) dist i in
      foldl (\<lambda>nb j. if i = j then push_at nb 0 (data ! j)
                    else push_at nb (1 + set_index us (dist i j)) (data ! j))
        (replicate (1 + length us) []) [0..<length data])"

definition distribute :: "'a list \<Rightarrow> (nat \<Rightarrow> nat \<Rightarrow> int) \<Rightarrow> 'a list list list" where
  "distribute data dist = map (neighbors data dist) [0..<length data]"

text \<open>\<open>distribute\<close> without hwloc: one group of all the others.\<close>

definition distribute_flat :: "'a list \<Rightarrow> 'a list list list" where
  "distribute_flat data =
     map (\<lambda>x. let nb = [[x]]; nb = (if length data > 1 then nb @ [[]] else nb)
              in foldl (\<lambda>nb neigh. if neigh \<noteq> x then push_at nb 1 neigh else nb) nb data) data"

section \<open>Lemmas\<close>

lemma map_sum_eq_Inr: "map_sum f g r = Inr x \<longleftrightarrow> (\<exists>y. r = Inr y \<and> x = g y)"
  by (cases r) auto

lemma distances_Inr:
  "distances topo ancestor depth ps = Some (Inr ds) \<Longrightarrow> length ds = length ps \<and> (\<forall>i<length ps. \<exists>h a k b c.
     ps ! i = ((h, a), k, b) \<and> topo h = topo k \<and> ancestor a b = Some c \<and> ds ! i = max (depth a - depth c) (depth b - depth c) \<and> 0 \<le> ds ! i)"
proof (induction topo ancestor depth ps arbitrary: ds rule: distances.induct)
  case (2 topo ancestor depth h a k b rest)
  from 2(2) obtain c es where c: "topo h = topo k" "ancestor a b = Some c" "0 \<le> depth a - depth c" "0 \<le> depth b - depth c"
    "distances topo ancestor depth rest = Some (Inr es)" "ds = max (depth a - depth c) (depth b - depth c) # es"
    by (auto simp: Let_def lf_assert_def Option.bind_eq_Some_conv map_sum_eq_Inr split: if_splits option.splits)
  from 2(1) [of c, OF _ c(2) refl refl _ _ c(5)] c show ?case
    by (auto simp: nth_Cons split: nat.splits)
qed simp

text \<open>Each entry of the matrix is the larger of the two distances to the common ancestor.\<close>

lemma distance_matrix_at:
  assumes "distance_matrix topo covering ancestor depth handles = Some (Inr m)" "i < length handles" "j < length handles"
  shows "\<exists>a b c. covering (handles ! i) = Some a \<and> covering (handles ! j) = Some b \<and> ancestor a b = Some c
     \<and> dm_at (length handles) m i j = max (depth a - depth c) (depth b - depth c) \<and> 0 \<le> dm_at (length handles) m i j"
proof -
  let ?n = "length handles"
  let ?nodes = "zip handles (map the (map covering handles))"
  from assms(1) have d: "distances topo ancestor depth (List.product ?nodes ?nodes) = Some (Inr m)" and some: "None \<notin> covering ` set handles"
    by (auto simp: distance_matrix_def Let_def split: if_splits)
  have "i * ?n + j < (i + 1) * ?n" using assms(3) by simp
  also have "\<dots> \<le> ?n * ?n" using assms(2) by (intro mult_le_mono1) simp
  finally have lt: "i * ?n + j < ?n * ?n" .
  have "?n \<noteq> 0" using assms(2) by auto
  then have "(i * ?n + j) div ?n = i" "(i * ?n + j) mod ?n = j" using assms(3) by simp_all
  then have "List.product ?nodes ?nodes ! (i * ?n + j) = (?nodes ! i, ?nodes ! j)"
    using lt product_nth [of "i * ?n + j" ?nodes ?nodes] by simp
  moreover have "\<exists>a. covering (handles ! i) = Some a" "\<exists>b. covering (handles ! j) = Some b"
    using some assms(2,3) by (metis image_eqI nth_mem option.exhaust)+
  ultimately show ?thesis
    using distances_Inr [OF d] lt assms(2,3) by (fastforce simp: dm_at_def)
qed

lemma set_insert_set [simp]: "set (set_insert x xs) = insert x (set xs)"
  by (auto simp: set_insert_def set_insort_key)

lemma set_insert_sorted: "sorted xs \<and> distinct xs \<Longrightarrow> sorted (set_insert x xs) \<and> distinct (set_insert x xs)"
  by (auto simp: set_insert_def sorted_insort distinct_insort)

lemma uniques_sorted: "sorted (uniques n dist i) \<and> distinct (uniques n dist i)"
proof -
  have "sorted (foldl (\<lambda>us j. if i \<noteq> j then set_insert (dist i j) us else us) us js)
      \<and> distinct (foldl (\<lambda>us j. if i \<noteq> j then set_insert (dist i j) us else us) us js)"
    if "sorted us \<and> distinct us" for us js
    using that by (induction js arbitrary: us) (simp_all add: set_insert_sorted)
  then show ?thesis unfolding uniques_def by simp
qed

lemma uniques_set: "set (uniques n dist i) = dist i ` ({..<n} - {i})"
proof -
  have "set (foldl (\<lambda>us j. if i \<noteq> j then set_insert (dist i j) us else us) us js)
      = set us \<union> dist i ` (set js - {i})" for us js
    by (induction js arbitrary: us) auto
  then show ?thesis by (auto simp: uniques_def)
qed

lemma set_index_nth:
  assumes "x \<in> set us"
  shows "set_index us x < length us \<and> us ! set_index us x = x"
  using assms
proof (induction us)
  case (Cons u us)
  then show ?case by (cases "u = x") (auto simp: set_index_def)
qed simp

lemma set_index_eq:
  assumes "distinct us" "x \<in> set us" "k < length us"
  shows "set_index us x = k \<longleftrightarrow> x = us ! k"
  using set_index_nth [OF assms(2)] assms(1,3) by (metis nth_eq_iff_index_eq)

text \<open>Distributing the elements over groups by a key.\<close>

lemma foldl_push_at:
  assumes "\<And>j. j \<in> set js \<Longrightarrow> f j < length nb" "k < length nb"
  shows "foldl (\<lambda>nb j. push_at nb (f j) (g j)) nb js ! k = nb ! k @ map g (filter (\<lambda>j. f j = k) js)"
    and "length (foldl (\<lambda>nb j. push_at nb (f j) (g j)) nb js) = length nb"
  using assms
  by (induction js arbitrary: nb) (auto simp: push_at_def nth_list_update)

lemma upt_split: "i < n \<Longrightarrow> [0..<n] = [0..<i] @ i # [Suc i..<n]"
  using upt_add_eq_append [of 0 i "n - i"] by (simp add: upt_conv_Cons)

lemma neighbors_groups:
  assumes "i < length data"
  shows "neighbors data dist i = [data ! i] #
     map (\<lambda>u. map ((!) data) (filter (\<lambda>j. j \<noteq> i \<and> dist i j = u) [0..<length data])) (uniques (length data) dist i)"
proof -
  let ?us = "uniques (length data) dist i" and ?n = "length data"
  let ?f = "\<lambda>j. if i = j then 0 else 1 + set_index ?us (dist i j)"
  let ?nb = "replicate (1 + length ?us) [] :: 'a list list"
  have mem: "dist i j \<in> set ?us" if "j < ?n" "j \<noteq> i" for j
    using that by (simp add: uniques_set)
  have fold: "neighbors data dist i = foldl (\<lambda>nb j. push_at nb (?f j) (data ! j)) ?nb [0..<?n]"
    unfolding neighbors_def Let_def by (rule arg_cong [where f = "\<lambda>h. foldl h ?nb [0..<?n]"]) (auto simp: fun_eq_iff)
  have f: "?f j < length ?nb" if "j \<in> set [0..<?n]" for j
    using that set_index_nth [OF mem, of j] by auto
  note push = foldl_push_at [of "[0..<?n]" ?f ?nb, OF f, where g = "(!) data"]
  have zero: "filter (\<lambda>j. ?f j = 0) [0..<?n] = [i]"
    unfolding upt_split [OF assms] by (auto simp: filter_empty_conv)
  have other: "filter (\<lambda>j. ?f j = Suc k) [0..<?n] = filter (\<lambda>j. j \<noteq> i \<and> dist i j = ?us ! k) [0..<?n]"
    if "k < length ?us" for k
    using that set_index_eq [OF conjunct2 [OF uniques_sorted] mem] by (intro filter_cong) auto
  show ?thesis
  proof (rule nth_equalityI)
    show "length (neighbors data dist i) = length ([data ! i] #
     map (\<lambda>u. map ((!) data) (filter (\<lambda>j. j \<noteq> i \<and> dist i j = u) [0..<length data])) ?us)"
      unfolding fold using push(2) [of 0] by simp
    fix k assume "k < length (neighbors data dist i)"
    then have k: "k < 1 + length ?us" unfolding fold using push(2) [of 0] by simp
    then have "neighbors data dist i ! k = map ((!) data) (filter (\<lambda>j. ?f j = k) [0..<?n])"
      unfolding fold using push(1) [of k] by (simp del: replicate_Suc)
    with k zero other show "neighbors data dist i ! k = ([data ! i] #
     map (\<lambda>u. map ((!) data) (filter (\<lambda>j. j \<noteq> i \<and> dist i j = u) [0..<length data])) ?us) ! k"
      by (cases k) simp_all
  qed
qed

text \<open>Every index but \<open>i\<close> is in the group of its distance, once.\<close>

lemma groups_mset:
  assumes "distinct us" "\<And>j. j \<in> set js \<Longrightarrow> P j \<Longrightarrow> f j \<in> set us"
  shows "mset (concat (map (\<lambda>u. map g (filter (\<lambda>j. P j \<and> f j = u) js)) us)) = mset (map g (filter P js))"
  using assms
proof (induction us arbitrary: P)
  case Nil
  then have "filter P js = []" by (auto simp: filter_empty_conv)
  then show ?case by simp
next
  case (Cons u us)
  have "filter (\<lambda>j. (P j \<and> f j \<noteq> u) \<and> f j = v) js = filter (\<lambda>j. P j \<and> f j = v) js" if "v \<in> set us" for v
    using that Cons.prems(1) by (intro filter_cong) auto
  then have same: "map (\<lambda>v. map g (filter (\<lambda>j. (P j \<and> f j \<noteq> u) \<and> f j = v) js)) us
      = map (\<lambda>v. map g (filter (\<lambda>j. P j \<and> f j = v) js)) us"
    by (intro map_cong refl arg_cong [where f = "map g"])
  have "mset (concat (map (\<lambda>v. map g (filter (\<lambda>j. (P j \<and> f j \<noteq> u) \<and> f j = v) js)) us))
      = mset (map g (filter (\<lambda>j. P j \<and> f j \<noteq> u) js))"
    by (rule Cons.IH) (use Cons.prems in auto)
  then have "mset (concat (map (\<lambda>v. map g (filter (\<lambda>j. P j \<and> f j = v) js)) us))
      = mset (map g (filter (\<lambda>j. P j \<and> f j \<noteq> u) js))" unfolding same .
  moreover have "mset (filter P js) = mset (filter (\<lambda>j. P j \<and> f j = u) js) + mset (filter (\<lambda>j. P j \<and> f j \<noteq> u) js)"
    by (induction js) auto
  ultimately show ?case by simp
qed

lemma neighbors_mset:
  assumes "i < length data"
  shows "mset (concat (neighbors data dist i)) = mset data"
proof -
  let ?js = "[0..<length data]"
  have "mset (concat (map (\<lambda>u. map ((!) data) (filter (\<lambda>j. j \<noteq> i \<and> dist i j = u) ?js)) (uniques (length data) dist i)))
      = mset (map ((!) data) (filter (\<lambda>j. j \<noteq> i) ?js))"
    by (rule groups_mset) (auto simp: uniques_sorted uniques_set)
  moreover have "mset (map ((!) data) ?js) = add_mset (data ! i) (mset (map ((!) data) (filter (\<lambda>j. j \<noteq> i) ?js)))"
  proof -
    have "filter (\<lambda>j. j \<noteq> i) ([0..<i] @ i # [Suc i..<length data]) = [0..<i] @ [Suc i..<length data]"
      by (simp add: filter_id_conv)
    then show ?thesis unfolding upt_split [OF assms] by simp
  qed
  ultimately show ?thesis
    by (simp add: neighbors_groups [OF assms] map_nth)
qed

lemma distribute_flat_nth:
  assumes "distinct data" "i < length data"
  shows "distribute_flat data ! i = [data ! i] # (if length data > 1 then [filter (\<lambda>x. x \<noteq> data ! i) data] else [])"
proof (cases "length data > 1")
  case True
  have "foldl (\<lambda>nb neigh. if neigh \<noteq> x then push_at nb 1 neigh else nb) [a, b] ys
      = [a, b @ filter (\<lambda>y. y \<noteq> x) ys]" for x ys and a b :: "'a list"
    by (induction ys arbitrary: b) (simp_all add: push_at_def)
  from this [of "data ! i" "[data ! i]" "[]" data] True assms(2) show ?thesis
    by (simp add: distribute_flat_def)
next
  case False
  with assms(2) obtain x where "data = [x]" by (cases data) auto
  with assms(2) show ?thesis by (simp add: distribute_flat_def)
qed

lemma numa_number_length [simp]: "length (numa_number gs m) = length gs"
  by (induction gs m rule: numa_number.induct) (auto split: option.splits)

text \<open>The map while it is filled: its values are \<open>0, \<dots>\<close> in the order of insertion.\<close>

definition numbering :: "(nat \<times> nat) list \<Rightarrow> bool" where
  "numbering m \<longleftrightarrow> distinct (map fst m) \<and> map snd m = rev [0..<length m]"

lemma numbering_insert: "numbering m \<Longrightarrow> map_of m g = None \<Longrightarrow> numbering ((g, length m) # m)"
  by (auto simp: numbering_def map_of_eq_None_iff)

lemma numbering_inj:
  assumes "numbering m" "map_of m a = Some k" "map_of m b = Some k"
  shows "a = b"
proof -
  from assms(1) have "distinct (map snd m)" by (simp add: numbering_def)
  with assms(2,3) show ?thesis by (metis eq_snd_iff inj_on_eq_iff distinct_map map_of_SomeD snd_conv prod.inject)
qed

lemma numa_number_map:
  assumes "numbering m"
  shows "\<exists>m'. numbering m' \<and> (\<forall>i<length gs. map_of m' (gs ! i) = Some (numa_number gs m ! i))
     \<and> map_of m \<subseteq>\<^sub>m map_of m' \<and> fst ` set m' = fst ` set m \<union> set gs"
  using assms
proof (induction gs m rule: numa_number.induct)
  case (2 g gs m)
  show ?case
  proof (cases "map_of m g")
    case None
    from 2(1) [OF None numbering_insert [OF 2(3) None]] obtain m' where
      m': "numbering m'" "\<forall>i<length gs. map_of m' (gs ! i) = Some (numa_number gs ((g, length m) # m) ! i)"
        "map_of ((g, length m) # m) \<subseteq>\<^sub>m map_of m'" "fst ` set m' = fst ` set ((g, length m) # m) \<union> set gs" by blast
    have "map_of m' g = Some (length m)" using m'(3) by (auto simp: map_le_def)
    moreover have "map_of m \<subseteq>\<^sub>m map_of m'"
      using m'(3) None by (auto simp: map_le_def) (metis domI option.distinct(1))
    ultimately show ?thesis
      using m' None by (intro exI [of _ m']) (auto simp: nth_Cons split: nat.splits)
  next
    case (Some k)
    from 2(2) [OF Some 2(3)] obtain m' where
      m': "numbering m'" "\<forall>i<length gs. map_of m' (gs ! i) = Some (numa_number gs m ! i)"
        "map_of m \<subseteq>\<^sub>m map_of m'" "fst ` set m' = fst ` set m \<union> set gs" by auto
    have "map_of m' g = Some k" using m'(3) Some by (auto simp: map_le_def dom_def)
    moreover have "g \<in> fst ` set m" using Some by (metis domI dom_map_of_conv_image_fst)
    ultimately show ?thesis
      using m' Some by (intro exI [of _ m']) (auto simp: nth_Cons split: nat.splits)
  qed
qed auto

lemma numa_number_ok:
  assumes ab: "a < length gs" "b < length gs"
  shows "(numa_number gs [] ! a = numa_number gs [] ! b \<longleftrightarrow> gs ! a = gs ! b) \<and> numa_number gs [] ! a < card (set gs)"
proof -
  obtain m where m: "numbering m" "\<forall>i<length gs. map_of m (gs ! i) = Some (numa_number gs [] ! i)"
    "fst ` set m = set gs"
    using numa_number_map [of "[]" gs] by (auto simp: numbering_def)
  have "numa_number gs [] ! a \<in> set (map snd m)"
    using m(2) ab by (auto dest!: map_of_SomeD simp: image_iff intro!: bexI)
  moreover have "set (map snd m) = {..<length m}"
    using m(1) unfolding numbering_def by (simp only: set_rev set_upt atLeast_upt lessThan_atLeast0)
  ultimately have "numa_number gs [] ! a < length m" by blast
  moreover have "card (set gs) = length m"
    using m(1,3) by (metis distinct_card length_map list.set_map numbering_def)
  ultimately show ?thesis using numbering_inj [OF m(1)] m(2) ab by (metis option.inject)
qed

section \<open>Properties\<close>

text \<open>
  Property C31. \<open>distribute\<close> gives every worker the hierarchy of its peers it promises: the first
  list is the worker itself alone; then one list for each distance that occurs, in strictly
  ascending order of distance, holding exactly the workers at that distance; so every worker
  occurs exactly once.  Without hwloc there is a single group of all the others.  The NUMA
  numbers are equal for equal localities only and fill an initial segment of the naturals.
\<close>

theorem distribute_hierarchy:
  assumes "i < length data"
  shows "\<exists>us. sorted us \<and> distinct us \<and> set us = dist i ` ({..<length data} - {i}) \<and>
      distribute data dist ! i = [data ! i] #
        map (\<lambda>u. map ((!) data) (filter (\<lambda>j. j \<noteq> i \<and> dist i j = u) [0..<length data])) us \<and>
      mset (concat (distribute data dist ! i)) = mset data \<and>
      (distinct data \<longrightarrow> distribute_flat data ! i =
         [data ! i] # (if length data > 1 then [filter (\<lambda>x. x \<noteq> data ! i) data] else [])) \<and>
      (\<forall>gs. \<forall>a<length gs. \<forall>b<length gs.
         (numa_number gs [] ! a = numa_number gs [] ! b \<longleftrightarrow> gs ! a = gs ! b) \<and>
         numa_number gs [] ! a < card (set gs))"
proof -
  have nth: "distribute data dist ! i = neighbors data dist i"
    using assms by (simp add: distribute_def)
  show ?thesis
    unfolding nth
    using uniques_sorted [of "length data" dist i] uniques_set [of "length data" dist i]
      neighbors_groups [OF assms] neighbors_mset [OF assms] distribute_flat_nth [OF _ assms] numa_number_ok
    by (intro exI [of _ "uniques (length data) dist i"]) simp
qed

theorem distribute_hierarchy_witness:
  "mset (concat (distribute [10, 20, 30 :: nat] (\<lambda>i j. int (i + j)) ! 0)) = {#10, 20, 30#}"
  using distribute_hierarchy [of 0 "[10, 20, 30 :: nat]" "\<lambda>i j. int (i + j)"] by auto
end
