(* ===== verification/Topology.thy ===== *)
theory Topology
  imports Numa
begin

text \<open>
  The rest of \<open>schedule/ext/numa.hpp\<close>, built with hwloc and without it: the constructor, \<open>split\<close>, which asks hwloc for one processing unit per worker, with
  \<open>count_cores\<close> and \<open>get_numa_index\<close>, and \<open>bind\<close>.  An object of hwloc's topology is a tree; the calls into
  hwloc are parameters: \<open>packages\<close> are the objects that \<open>hwloc_get_next_obj_by_type\<close> enumerates, \<open>root\<close>
  is the root object, \<open>distrib\<close> is \<open>hwloc_distrib\<close> (\<open>None\<close> when it reports an error), \<open>singlify\<close> is
  \<open>hwloc_bitmap_singlify\<close>, and \<open>covering\<close> gives the object that covers a set followed by its parents up
  to the root, with no object for a null pointer.
\<close>

section \<open>Objects\<close>

datatype hobj = Hobj (is_core: bool) (memory_arity: nat) (gp_index: nat) (children: "hobj list")

datatype hwloc_error = Too_few | Distrib_failed | Null_set | Singlify_failed | No_cover | No_memory
  | Init_failed | Load_failed | Bind_unsupported | Bind_refused | Bind_unknown | Bind_unexpected

datatype numa_strategy = Fan | Seq

text \<open>\<open>unsigned int\<close> sums.\<close>

fun count_cores :: "hobj \<Rightarrow> u32" where
  "count_cores (Hobj core m g cs) = (if core then 1 else foldl (\<lambda>num obj. num + obj) 0 (map count_cores cs))"

fun get_numa_index :: "hobj list \<Rightarrow> hwloc_error + nat" where
  "get_numa_index [] = Inl No_cover"
| "get_numa_index objs = (case dropWhile (\<lambda>obj. memory_arity obj = 0) objs of [] \<Rightarrow> Inl No_memory | obj # _ \<Rightarrow> Inr (gp_index obj))"

section \<open>Splitting\<close>

text \<open>The packages for the strategy \<open>seq\<close>, until there are enough cores.\<close>

fun seq_roots :: "hobj list \<Rightarrow> u64 \<Rightarrow> u32 \<Rightarrow> hobj list" where
  "seq_roots [] n cnt = []"
| "seq_roots (numa # rest) n cnt = (if ucast cnt < n then numa # seq_roots rest n (cnt + count_cores numa) else [])"

text \<open>One handle per set: the set and the number of its locality.\<close>

fun split_handles :: "('b \<Rightarrow> 'b option) \<Rightarrow> ('b \<Rightarrow> hobj list) \<Rightarrow> (nat \<times> nat) list \<Rightarrow> 'b option list \<Rightarrow> hwloc_error + ('b \<times> nat) list" where
  "split_handles singlify covering numa_map [] = Inr []"
| "split_handles singlify covering numa_map (None # rest) = Inl Null_set"
| "split_handles singlify covering numa_map (Some s # rest) =
     (case singlify s of None \<Rightarrow> Inl Singlify_failed
      | Some b \<Rightarrow> (case get_numa_index (covering b) of Inl e \<Rightarrow> Inl e
      | Inr numa_index \<Rightarrow>
          (let numa_map' = (if map_of numa_map numa_index = None then (numa_index, length numa_map) # numa_map else numa_map) in
           case split_handles singlify covering numa_map' rest of Inl e \<Rightarrow> Inl e
           | Inr hs \<Rightarrow> Inr ((b, the (map_of numa_map' numa_index)) # hs))))"

text \<open>hwloc is told the number of sets as an \<open>unsigned int\<close> and fills that many of them.\<close>

definition numa_split :: "(hobj list \<Rightarrow> u32 \<Rightarrow> 'b option list option) \<Rightarrow> ('b \<Rightarrow> 'b option) \<Rightarrow> ('b \<Rightarrow> hobj list)
    \<Rightarrow> hobj list \<Rightarrow> hobj \<Rightarrow> u64 \<Rightarrow> numa_strategy \<Rightarrow> hwloc_error + ('b \<times> nat) list" where
  "numa_split distrib singlify covering packages root n strategy =
     (if n < 1 then Inl Too_few
      else let roots = (if strategy = Seq then seq_roots packages n 0 else [root]) in
        case distrib roots (ucast n) of None \<Rightarrow> Inl Distrib_failed
        | Some sets \<Rightarrow> split_handles singlify covering [] (sets @ replicate (unat n - length sets) None))"

text \<open>\<open>bind\<close>: what \<open>hwloc_set_cpubind\<close> returned, and \<open>errno\<close>.\<close>

datatype errno = ENOSYS | EXDEV | Eother

definition numa_bind :: "int \<Rightarrow> errno \<Rightarrow> hwloc_error + unit" where
  "numa_bind r err = (if r = 0 then Inr ()
     else if r = -1 then (case err of ENOSYS \<Rightarrow> Inl Bind_unsupported | EXDEV \<Rightarrow> Inl Bind_refused | Eother \<Rightarrow> Inl Bind_unknown)
     else Inl Bind_unexpected)"

text \<open>
  The constructor: what \<open>hwloc_topology_init\<close> and \<open>hwloc_topology_load\<close> returned, and the number of topologies
  that exist.  If the second call fails the exception destroys the member that owns the topology.
\<close>

definition numa_topology_new :: "int \<Rightarrow> int \<Rightarrow> nat \<Rightarrow> (hwloc_error + unit) \<times> nat" where
  "numa_topology_new init load existing =
     (if init \<noteq> 0 then (Inl Init_failed, existing)
      else let existing = existing + 1 in
        if load \<noteq> 0 then (Inl Load_failed, existing - 1) else (Inr (), existing))"

text \<open>Without hwloc a handle has no topology, no set and locality 0, and \<open>bind\<close> only asserts the first two.\<close>

definition split_flat :: "u64 \<Rightarrow> (nat option \<times> nat option \<times> nat) list" where
  "split_flat n = replicate (unat n) (None, None, 0)"

definition bind_flat :: "nat option \<times> nat option \<times> nat \<Rightarrow> unit option" where
  "bind_flat h = (case h of (topo, cpup, numa) \<Rightarrow> do { lf_assert (topo = None); lf_assert (cpup = None); Some () })"

section \<open>Lemmas\<close>

text \<open>A constructor that throws leaks no topology, and what is thrown tells which call failed.\<close>

lemma numa_topology_new_cases:
  "numa_topology_new init load existing = (r, existing') \<Longrightarrow> existing' = existing + (case r of Inl _ \<Rightarrow> 0 | Inr _ \<Rightarrow> 1)
     \<and> (r = Inl Init_failed \<longleftrightarrow> init \<noteq> 0) \<and> (r = Inl Load_failed \<longleftrightarrow> init = 0 \<and> load \<noteq> 0)"
  by (auto simp: numa_topology_new_def split: if_splits)

lemma split_flat_binds: "length (split_flat n) = unat n \<and> (\<forall>h\<in>set (split_flat n). bind_flat h = Some ())"
  by (auto simp: split_flat_def bind_flat_def)

text \<open>The cores of an object, counted without wrap-around.\<close>

fun cores :: "hobj \<Rightarrow> nat" where
  "cores (Hobj core m g cs) = (if core then 1 else sum_list (map cores cs))"

lemma count_cores_cores: "count_cores obj = of_nat (cores obj)"
proof (induction obj rule: count_cores.induct)
  case (1 core m g cs)
  have "foldl (\<lambda>num obj. num + obj) a (map count_cores ds) = a + of_nat (sum_list (map cores ds))" if "set ds \<subseteq> set cs" "\<not> core" for a ds
    using that 1 by (induction ds arbitrary: a) (auto simp: algebra_simps)
  from this [of cs 0] show ?case by simp
qed

lemma seq_roots_prefix:
  assumes "unat cnt + sum_list (map cores ps) < 2 ^ 32"
  shows "\<exists>rest. ps = seq_roots ps n cnt @ rest
     \<and> (seq_roots ps n cnt \<noteq> [] \<longrightarrow> unat cnt + sum_list (map cores (butlast (seq_roots ps n cnt))) < unat n)
     \<and> (rest \<noteq> [] \<longrightarrow> unat n \<le> unat cnt + sum_list (map cores (seq_roots ps n cnt)))"
  using assms
proof (induction ps n cnt rule: seq_roots.induct)
  case (2 numa rest n cnt)
  have "uint (ucast cnt :: u64) = uint cnt" by (simp add: uint_up_ucast is_up)
  then have "unat (ucast cnt :: u64) = unat cnt" by (metis nat_uint_eq)
  then have less: "(ucast cnt < n) = (unat cnt < unat n)" by (simp add: word_less_nat_alt)
  have cnt: "unat (cnt + count_cores numa) = unat cnt + cores numa"
    using 2(2) by (simp add: count_cores_cores unat_word_ariths unat_of_nat)
  show ?case
  proof (cases "ucast cnt < n")
    case True
    have "unat (cnt + count_cores numa) + sum_list (map cores rest) < 2 ^ 32" using 2(2) cnt by simp
    from 2(1) [OF True this] obtain tl where
      tl: "rest = seq_roots rest n (cnt + count_cores numa) @ tl"
        "seq_roots rest n (cnt + count_cores numa) \<noteq> [] \<longrightarrow> unat cnt + cores numa
           + sum_list (map cores (butlast (seq_roots rest n (cnt + count_cores numa)))) < unat n"
        "tl \<noteq> [] \<longrightarrow> unat n \<le> unat cnt + cores numa + sum_list (map cores (seq_roots rest n (cnt + count_cores numa)))"
      unfolding cnt by blast
    with True less show ?thesis by (intro exI [of _ tl]) (auto simp: add.assoc)
  qed (use less in auto)
qed simp

lemma split_handles_numbers:
  "split_handles singlify covering m ss = Inr hs \<Longrightarrow>
     length hs = length ss \<and> (\<exists>gs. map snd hs = numa_number gs m \<and> length gs = length hs
       \<and> (\<forall>i<length hs. get_numa_index (covering (fst (hs ! i))) = Inr (gs ! i)))"
proof (induction singlify covering m ss arbitrary: hs rule: split_handles.induct)
  case (3 singlify covering m s rest)
  from 3(2) obtain b g where b: "singlify s = Some b" "get_numa_index (covering b) = Inr g"
    by (auto split: option.splits sum.splits)
  let ?m = "if map_of m g = None then (g, length m) # m else m"
  from 3(2) b obtain hs' where hs': "split_handles singlify covering ?m rest = Inr hs'" "hs = (b, the (map_of ?m g)) # hs'"
    by (auto simp: Let_def split: sum.splits if_splits)
  from 3(1) [OF b refl hs'(1)] obtain gs where
    gs: "length hs' = length rest" "map snd hs' = numa_number gs ?m" "length gs = length hs'"
      "\<forall>i<length hs'. get_numa_index (covering (fst (hs' ! i))) = Inr (gs ! i)" by blast
  have "map snd hs = numa_number (g # gs) m" using hs'(2) gs(2) by (cases "map_of m g") auto
  with gs hs'(2) b(2) show ?case
    by (intro conjI exI [of _ "g # gs"]) (auto simp: nth_Cons split: nat.splits)
qed auto

section \<open>Properties\<close>

text \<open>
  \<open>split\<close> asked for \<open>n\<close> places throws or returns exactly \<open>n\<close> handles; the localities are numbered from 0
  with no gaps, two handles have the same number exactly if the closest object with memory above
  their sets is the same, and each such object was found.  With the strategy \<open>seq\<close> it asks hwloc to
  use a shortest sequence of the first packages that has \<open>n\<close> cores, or all packages if they have fewer.
  Asked for no place it throws.
\<close>

theorem numa_split_places:
  assumes "\<And>roots m sets. distrib roots m = Some sets \<Longrightarrow> length sets = unat m"
    and "numa_split distrib singlify covering packages root n strategy = Inr hs" "sum_list (map cores packages) < 2 ^ 32"
  shows "n \<noteq> 0 \<and> length hs = unat n
    \<and> (\<forall>a<length hs. \<forall>b<length hs. \<exists>g h. get_numa_index (covering (fst (hs ! a))) = Inr g \<and> get_numa_index (covering (fst (hs ! b))) = Inr h
          \<and> (snd (hs ! a) = snd (hs ! b) \<longleftrightarrow> g = h))
    \<and> (\<forall>a<length hs. snd (hs ! a) < card (get_numa_index ` covering ` fst ` set hs))
    \<and> (\<exists>rest. packages = seq_roots packages n 0 @ rest
          \<and> sum_list (map cores (butlast (seq_roots packages n 0))) < unat n
          \<and> (rest = [] \<or> unat n \<le> sum_list (map cores (seq_roots packages n 0))))"
proof -
  from assms(2) have n: "n \<noteq> 0" by (auto simp: numa_split_def split: if_splits)
  let ?roots = "if strategy = Seq then seq_roots packages n 0 else [root]"
  from assms(2) n obtain sets where sets: "distrib ?roots (ucast n) = Some sets"
    and split: "split_handles singlify covering [] (sets @ replicate (unat n - length sets) None) = Inr hs"
    by (cases "distrib ?roots (ucast n)") (simp_all add: numa_split_def Let_def split: if_split_asm)
  from split_handles_numbers [OF split] obtain gs where
    gs: "length hs = length sets + (unat n - length sets)" "map snd hs = numa_number gs []" "length gs = length hs"
      "\<forall>i<length hs. get_numa_index (covering (fst (hs ! i))) = Inr (gs ! i)" by auto
  have "unat (ucast n :: u32) \<le> unat n" by (simp add: unsigned_ucast_eq)
  then have len: "length hs = unat n" using gs(1) assms(1) [OF sets] by simp
  have nums: "snd (hs ! a) = numa_number gs [] ! a" if "a < length hs" for a using that gs(2) by (metis nth_map)
  have "map (\<lambda>h. get_numa_index (covering (fst h))) hs = map Inr gs" by (rule nth_equalityI) (use gs in auto)
  from arg_cong [OF this, of set] have "get_numa_index ` covering ` fst ` set hs = Inr ` set gs" by (simp add: image_image)
  then have card: "card (get_numa_index ` covering ` fst ` set hs) = card (set gs)" by (simp add: card_image)
  have "\<exists>g h. get_numa_index (covering (fst (hs ! a))) = Inr g \<and> get_numa_index (covering (fst (hs ! b))) = Inr h
      \<and> (snd (hs ! a) = snd (hs ! b) \<longleftrightarrow> g = h)" if "a < length hs" "b < length hs" for a b
    using that nums gs(3,4) numa_number_ok [of a gs b] by (intro exI [of _ "gs ! a"] exI [of _ "gs ! b"]) simp
  moreover have "snd (hs ! a) < card (get_numa_index ` covering ` fst ` set hs)" if "a < length hs" for a
    using that nums gs(3) numa_number_ok [of a gs a] card by simp
  moreover obtain rest where "packages = seq_roots packages n 0 @ rest"
    "seq_roots packages n 0 \<noteq> [] \<longrightarrow> sum_list (map cores (butlast (seq_roots packages n 0))) < unat n"
    "rest \<noteq> [] \<longrightarrow> unat n \<le> sum_list (map cores (seq_roots packages n 0))"
    using seq_roots_prefix [of 0 packages n] assms(3) by (simp only: unsigned_0 add_0_left) blast
  moreover have "0 < unat n" using n by (simp add: unat_gt_0)
  then have "seq_roots packages n 0 = [] \<longrightarrow> sum_list (map cores (butlast (seq_roots packages n 0))) < unat n" by simp
  ultimately show ?thesis using n len by blast
qed

text \<open>Two packages of two cores, each with memory, and four places.\<close>

definition demo_package :: "nat \<Rightarrow> hobj" where
  "demo_package g = Hobj False 1 g [Hobj True 0 (g + 1) [], Hobj True 0 (g + 2) []]"

theorem numa_split_places_witness:
  "numa_split (\<lambda>roots m. Some (map Some [0..<unat m])) Some (\<lambda>i. [demo_package (10 * (i div 2))])
     [demo_package 0, demo_package 10, demo_package 20] (demo_package 0) 4 Seq = Inr [(0, 0), (1, 0), (2, 1), (3, 1)]
   \<and> seq_roots [demo_package 0, demo_package 10, demo_package 20] 4 0 = [demo_package 0, demo_package 10]
   \<and> length [(0, 0), (1, 0), (2, 1), (3, 1 :: nat)] = unat (4 :: u64)"
proof -
  have four: "[0..<4] = [0, 1, 2, 3 :: nat]" by (simp add: upt_rec)
  have s: "numa_split (\<lambda>roots m. Some (map Some [0..<unat m])) Some (\<lambda>i. [demo_package (10 * (i div 2))])
     [demo_package 0, demo_package 10, demo_package 20] (demo_package 0) 4 Seq = Inr [(0, 0), (1, 0), (2, 1), (3, 1)]"
    by (simp add: numa_split_def Let_def four demo_package_def)
  from numa_split_places [OF _ s] have "length [(0, 0), (1, 0), (2, 1), (3, 1 :: nat)] = unat (4 :: u64)"
    by (simp add: demo_package_def)
  with s show ?thesis by (simp add: demo_package_def)
qed

end
