(* ===== verification/Xoshiro.thy ===== *)
theory Xoshiro
  imports Prelude
begin

text \<open>
  The pseudo random number generator of the schedulers, \<open>schedule/ext/random.hpp\<close>: class
  \<open>xoshiro\<close> (xoshiro256**).  The state is the four 64-bit words of \<open>m_state\<close>; \<open>xo_next\<close> is
  \<open>operator()\<close>, which returns the output and the advanced state; \<open>xo_jump_impl\<close> with its two
  loops is \<open>jump_impl\<close>.  The seeding constructor draws from another generator through
  \<open>std::uniform_int_distribution\<close>: one draw is the parameter \<open>dist\<close>.

  The lemmas: a step is invertible and linear over exclusive or, so a seed that is not zero
  everywhere never degenerates; \<open>jump_impl\<close> evaluates, at the step function, the polynomial
  whose coefficients are the bits of its table, and therefore commutes with steps.
\<close>

section \<open>The generator\<close>

record xoshiro =
  st0 :: u64
  st1 :: u64
  st2 :: u64
  st3 :: u64

definition xo_default :: xoshiro where
  "xo_default = \<lparr>st0 = 0x8D0B73B52EA17D89, st1 = 0x2AA426A407C2B04F,
                 st2 = 0xF513614E4798928A, st3 = 0xA65E479EC5B49D41\<rparr>"

definition xo_of_array :: "u64 \<times> u64 \<times> u64 \<times> u64 \<Rightarrow> xoshiro" where
  "xo_of_array my_seed = (case my_seed of (a, b, c, d) \<Rightarrow> \<lparr>st0 = a, st1 = b, st2 = c, st3 = d\<rparr>)"

definition xo_seed :: "('g \<Rightarrow> u64 \<times> 'g) \<Rightarrow> 'g \<Rightarrow> xoshiro \<times> 'g" where
  "xo_seed dist dev =
     (let (a, dev) = dist dev; (b, dev) = dist dev; (c, dev) = dist dev; (d, dev) = dist dev
      in (\<lparr>st0 = a, st1 = b, st2 = c, st3 = d\<rparr>, dev))"

definition xo_min :: u64 where
  "xo_min = 0"

definition xo_max :: u64 where
  "xo_max = - 1"

definition xo_rotl :: "u64 \<Rightarrow> nat \<Rightarrow> u64" where
  "xo_rotl val bits = push_bit bits val OR drop_bit (64 - bits) val"

definition xo_next :: "xoshiro \<Rightarrow> u64 \<times> xoshiro" where
  "xo_next g =
     (let result = xo_rotl (st1 g * 5) 7 * 9;
          temp = push_bit 17 (st1 g);
          g = g\<lparr>st2 := st2 g XOR st0 g\<rparr>;
          g = g\<lparr>st3 := st3 g XOR st1 g\<rparr>;
          g = g\<lparr>st1 := st1 g XOR st2 g\<rparr>;
          g = g\<lparr>st0 := st0 g XOR st3 g\<rparr>;
          g = g\<lparr>st2 := st2 g XOR temp\<rparr>;
          g = g\<lparr>st3 := xo_rotl (st3 g) 45\<rparr>
      in (result, g))"

definition xo_xor :: "xoshiro \<Rightarrow> xoshiro \<Rightarrow> xoshiro" where
  "xo_xor a b = \<lparr>st0 = st0 a XOR st0 b, st1 = st1 a XOR st1 b,
                 st2 = st2 a XOR st2 b, st3 = st3 a XOR st3 b\<rparr>"

definition xo_zero :: xoshiro where
  "xo_zero = \<lparr>st0 = 0, st1 = 0, st2 = 0, st3 = 0\<rparr>"

text \<open>The inner loop of \<open>jump_impl\<close> over the bits of one table entry: \<open>(s, g)\<close> are the
  accumulator and the generator.\<close>

fun xo_jump_bits :: "u64 \<Rightarrow> nat list \<Rightarrow> xoshiro \<times> xoshiro \<Rightarrow> xoshiro \<times> xoshiro" where
  "xo_jump_bits jump [] (s, g) = (s, g)"
| "xo_jump_bits jump (i # is) (s, g) =
     (let s = (if jump AND push_bit i 1 \<noteq> 0 then xo_xor s g else s)
      in xo_jump_bits jump is (s, snd (xo_next g)))"

fun xo_jump_words :: "u64 list \<Rightarrow> xoshiro \<times> xoshiro \<Rightarrow> xoshiro \<times> xoshiro" where
  "xo_jump_words [] sg = sg"
| "xo_jump_words (jump # js) sg = xo_jump_words js (xo_jump_bits jump [0..<64] sg)"

definition xo_jump_impl :: "u64 list \<Rightarrow> xoshiro \<Rightarrow> xoshiro" where
  "xo_jump_impl jump_array g = fst (xo_jump_words jump_array (xo_zero, g))"

definition xo_jump :: "xoshiro \<Rightarrow> xoshiro" where
  "xo_jump = xo_jump_impl [0x180ec6d33cfd0aba, 0xd5a61266f0c9392c, 0xa9582618e03fc9aa,
                           0x39abdc4529b1661c]"

definition xo_long_jump :: "xoshiro \<Rightarrow> xoshiro" where
  "xo_long_jump = xo_jump_impl [0x76e15d3efefdcbbf, 0xc5004e441c522fb3, 0x77710069854ee241,
                                0x39109bb02acbe635]"

section \<open>A step is invertible\<close>

definition xo_step :: "xoshiro \<Rightarrow> xoshiro" where
  "xo_step g = snd (xo_next g)"

definition xo_rotr :: "u64 \<Rightarrow> nat \<Rightarrow> u64" where
  "xo_rotr val bits = drop_bit bits val OR push_bit (64 - bits) val"

text \<open>The inverse of \<open>x \<mapsto> x XOR (x << 17)\<close>: the series of shifts stops after 64 bits.\<close>

definition xo_unshift :: "u64 \<Rightarrow> u64" where
  "xo_unshift y = y XOR push_bit 17 y XOR push_bit 34 y XOR push_bit 51 y"

definition xo_prev :: "xoshiro \<Rightarrow> xoshiro" where
  "xo_prev g =
     (let c3 = xo_rotr (st3 g) 45; a0 = st0 g XOR c3;
          a1 = xo_unshift (st1 g XOR st2 g); c2 = st1 g XOR a1
      in \<lparr>st0 = a0, st1 = a1, st2 = c2 XOR a0, st3 = c3 XOR a1\<rparr>)"

lemma xo_step_fields:
  "xo_step g =
     \<lparr>st0 = st0 g XOR (st3 g XOR st1 g), st1 = st1 g XOR (st2 g XOR st0 g),
      st2 = (st2 g XOR st0 g) XOR push_bit 17 (st1 g), st3 = xo_rotl (st3 g XOR st1 g) 45\<rparr>"
  by (simp add: xo_step_def xo_next_def Let_def)

lemma xo_rotl_bit: "bits \<le> 64 \<Longrightarrow> n < 64 \<Longrightarrow>
    bit (xo_rotl x bits) n = bit x (if bits \<le> n then n - bits else n + (64 - bits))"
  using bit_imp_le_length [of x "64 - bits + n"]
  by (cases "bits \<le> n") (auto simp: xo_rotl_def bit_simps algebra_simps)

lemma xo_rotr_bit: "bits \<le> 64 \<Longrightarrow> n < 64 \<Longrightarrow>
    bit (xo_rotr x bits) n = bit x (if n + bits < 64 then n + bits else n + bits - 64)"
  using bit_imp_le_length [of x "bits + n"]
  by (cases "n + bits < 64") (auto simp: xo_rotr_def bit_simps algebra_simps)

lemma u64_eqI: "(\<And>n. n < 64 \<Longrightarrow> bit x n = bit y n) \<Longrightarrow> x = (y::u64)"
  by (rule bit_word_eqI) simp

lemma xo_rotr_rotl [simp]: "bits \<le> 64 \<Longrightarrow> xo_rotr (xo_rotl x bits) bits = x"
  by (rule u64_eqI) (auto simp: xo_rotl_bit xo_rotr_bit)

lemma xo_rotl_rotr [simp]: "bits \<le> 64 \<Longrightarrow> xo_rotl (xo_rotr x bits) bits = x"
  by (rule u64_eqI) (simp add: xo_rotl_bit xo_rotr_bit)

lemma xo_rotl_xor: "xo_rotl (x XOR y) bits = xo_rotl x bits XOR xo_rotl y bits" if "bits \<le> 64"
  using that by (intro u64_eqI) (simp add: xo_rotl_bit bit_xor_iff)

lemma xo_rotl_zero [simp]: "xo_rotl 0 bits = 0"
  by (simp add: xo_rotl_def)

lemma push_bit_u64_zero: "64 \<le> n \<Longrightarrow> push_bit n (x::u64) = 0"
  by (rule u64_eqI) (simp add: bit_simps)

lemma xor_cancel [simp]: "x XOR (x XOR y) = (y::u64)"
  by (simp flip: xor.assoc)

lemmas xor_ac = xor.assoc xor.commute xor.left_commute

lemma xo_unshift_shift [simp]: "xo_unshift (x XOR push_bit 17 x) = x"
  by (simp add: xo_unshift_def push_bit_xor push_bit_u64_zero xor_ac)

lemma xo_shift_unshift [simp]: "xo_unshift y XOR push_bit 17 (xo_unshift y) = y"
  by (simp add: xo_unshift_def push_bit_xor push_bit_u64_zero xor_ac)

lemma xo_prev_step: "xo_prev (xo_step g) = g"
proof -
  have "(st1 g XOR (st2 g XOR st0 g)) XOR ((st2 g XOR st0 g) XOR push_bit 17 (st1 g))
        = st1 g XOR push_bit 17 (st1 g)"
    by (simp add: xor_ac)
  then show ?thesis
    by (simp add: xo_prev_def xo_step_fields Let_def xor_ac)
qed

lemma xo_step_prev: "xo_step (xo_prev g) = g"
proof -
  have "push_bit 17 (xo_unshift y) = y XOR xo_unshift y" for y
    using xo_shift_unshift [of y] by (metis xor_cancel xor.commute)
  then show ?thesis
    by (simp add: xo_prev_def xo_step_fields Let_def xor_ac)
qed

lemma xo_step_bij: "bij xo_step"
  by (rule o_bij [of xo_prev]) (simp_all add: fun_eq_iff xo_prev_step xo_step_prev)

section \<open>A step is linear\<close>

lemma xo_xor_fields [simp]:
  "st0 (xo_xor a b) = st0 a XOR st0 b" "st1 (xo_xor a b) = st1 a XOR st1 b"
  "st2 (xo_xor a b) = st2 a XOR st2 b" "st3 (xo_xor a b) = st3 a XOR st3 b"
  by (simp_all add: xo_xor_def)

lemma xo_xor_monoid [simp]:
  "xo_xor a xo_zero = a" "xo_xor xo_zero a = a" "xo_xor a a = xo_zero"
  by (simp_all add: xo_xor_def xo_zero_def)

lemma xo_xor_assoc: "xo_xor (xo_xor a b) c = xo_xor a (xo_xor b c)"
  by (simp add: xo_xor_def xor.assoc)

lemma xo_xor_left_commute: "xo_xor a (xo_xor b c) = xo_xor b (xo_xor a c)"
  by (simp add: xo_xor_def xor_ac)

lemma xo_step_xor: "xo_step (xo_xor a b) = xo_xor (xo_step a) (xo_step b)"
  by (simp add: xo_step_fields xo_xor_def xo_rotl_xor xor_ac push_bit_xor)

lemma xo_step_zero [simp]: "xo_step xo_zero = xo_zero"
  by (simp add: xo_step_fields xo_zero_def)

lemma xo_step_eq_zero [simp]: "xo_step g = xo_zero \<longleftrightarrow> g = xo_zero"
  by (metis xo_prev_step xo_step_zero)

lemma xo_steps_eq_zero [simp]: "(xo_step ^^ n) g = xo_zero \<longleftrightarrow> g = xo_zero"
  by (induction n) simp_all

lemma xo_steps_xor: "(xo_step ^^ n) (xo_xor a b) = xo_xor ((xo_step ^^ n) a) ((xo_step ^^ n) b)"
  by (induction n) (simp_all add: xo_step_xor)

lemma xo_steps_bij: "bij (xo_step ^^ n)"
  by (rule bij_fn [OF xo_step_bij])

section \<open>Jumps as polynomials of the step\<close>

definition xo_sum :: "xoshiro list \<Rightarrow> xoshiro" where
  "xo_sum gs = foldr xo_xor gs xo_zero"

lemma xo_sum_simps [simp]:
  "xo_sum [] = xo_zero" "xo_sum (g # gs) = xo_xor g (xo_sum gs)"
  "xo_sum (gs @ hs) = xo_xor (xo_sum gs) (xo_sum hs)"
proof -
  show "xo_sum (gs @ hs) = xo_xor (xo_sum gs) (xo_sum hs)"
    by (induction gs) (simp_all add: xo_sum_def xo_xor_assoc)
qed (simp_all add: xo_sum_def)

text \<open>The value at \<open>g\<close> of the polynomial with the coefficients \<open>c 0, \<dots>, c (n - 1)\<close>.\<close>

definition xo_poly :: "(nat \<Rightarrow> bool) \<Rightarrow> nat \<Rightarrow> xoshiro \<Rightarrow> xoshiro" where
  "xo_poly c n g = xo_sum (map (\<lambda>k. (xo_step ^^ k) g) (filter c [0..<n]))"

lemma xo_poly_0 [simp]: "xo_poly c 0 g = xo_zero"
  by (simp add: xo_poly_def)

lemma xo_poly_add:
  "xo_poly c (m + n) g = xo_xor (xo_poly c m g) (xo_poly (\<lambda>k. c (m + k)) n ((xo_step ^^ m) g))"
proof -
  have "[0..<m + n] = [0..<m] @ map (\<lambda>i. i + m) [0..<n]"
    using upt_add_eq_append [of 0 m n] map_add_upt [of m n] by (simp add: add.commute [of m])
  then show ?thesis
    by (simp add: xo_poly_def filter_map comp_def funpow_add add.commute [of m])
qed

lemma xo_poly_1: "xo_poly c (Suc 0) g = (if c 0 then g else xo_zero)"
  by (simp add: xo_poly_def)

lemma xo_poly_xor: "xo_poly c n (xo_xor a b) = xo_xor (xo_poly c n a) (xo_poly c n b)"
proof -
  have "xo_sum (map (\<lambda>k. (xo_step ^^ k) (xo_xor a b)) ks)
        = xo_xor (xo_sum (map (\<lambda>k. (xo_step ^^ k) a) ks)) (xo_sum (map (\<lambda>k. (xo_step ^^ k) b) ks))" for ks
    by (induction ks) (simp_all add: xo_steps_xor xo_xor_assoc xo_xor_left_commute)
  then show ?thesis by (simp add: xo_poly_def)
qed

lemma xo_poly_step: "xo_poly c n (xo_step g) = xo_step (xo_poly c n g)"
proof -
  have "xo_sum (map (\<lambda>k. (xo_step ^^ k) (xo_step g)) ks)
        = xo_step (xo_sum (map (\<lambda>k. (xo_step ^^ k) g) ks))" for ks
    by (induction ks) (simp_all add: xo_step_xor funpow_swap1)
  then show ?thesis by (simp add: xo_poly_def)
qed

lemma xo_poly_steps: "xo_poly c n ((xo_step ^^ k) g) = (xo_step ^^ k) (xo_poly c n g)"
  by (induction k) (simp_all add: xo_poly_step)

lemma xo_jump_bits_poly:
  "xo_jump_bits jump [a..<a + n] (s, g)
   = (xo_xor s (xo_poly (\<lambda>k. bit jump (a + k)) n g), (xo_step ^^ n) g)"
proof (induction n arbitrary: a s g)
  case (Suc n)
  have test: "jump AND 2 ^ a = 0 \<longleftrightarrow> \<not> bit jump a"
    by (simp add: and_exp_eq_0_iff_not_bit)
  have poly: "xo_poly (\<lambda>k. bit jump (a + k)) (Suc n) g
        = xo_xor (if bit jump a then g else xo_zero) (xo_poly (\<lambda>k. bit jump (Suc a + k)) n (xo_step g))"
    using xo_poly_add [of _ "Suc 0" n g] by (simp add: xo_poly_1)
  have "[a..<a + Suc n] = a # [Suc a..<Suc a + n]"
    by (simp add: upt_rec)
  then show ?case
    using Suc.IH [of "Suc a" _ "xo_step g"]
    by (simp add: test poly Let_def xo_xor_assoc funpow_swap1 flip: xo_step_def del: upt_Suc)
qed simp

text \<open>The coefficients a table stands for: bit \<open>k mod 64\<close> of entry \<open>k div 64\<close>.\<close>

definition xo_coeff :: "u64 list \<Rightarrow> nat \<Rightarrow> bool" where
  "xo_coeff js k = bit (js ! (k div 64)) (k mod 64)"

lemma xo_jump_words_poly:
  "xo_jump_words js (s, g)
   = (xo_xor s (xo_poly (xo_coeff js) (64 * length js) g), (xo_step ^^ (64 * length js)) g)"
proof (induction js arbitrary: s g)
  case (Cons j js)
  have head: "xo_poly (xo_coeff (j # js)) 64 g = xo_poly (bit j) 64 g"
    unfolding xo_poly_def by (intro arg_cong [where f = xo_sum] map_cong filter_cong) (auto simp: xo_coeff_def)
  have tail: "(\<lambda>k. xo_coeff (j # js) (64 + k)) = xo_coeff js"
    using div_add_self1 [of 64 "k::nat" for k] by (simp add: fun_eq_iff xo_coeff_def del: div_add_self1)
  show ?case
    using Cons.IH xo_jump_bits_poly [of j 0 64] xo_poly_add [of "xo_coeff (j # js)" 64 "64 * length js" g]
      funpow_add [of "64 * length js" 64 xo_step]
    by (simp add: head tail xo_xor_assoc add.commute [of "64 * length js" 64])
qed simp

lemma xo_jump_impl_poly: "xo_jump_impl js g = xo_poly (xo_coeff js) (64 * length js) g"
  by (simp add: xo_jump_impl_def xo_jump_words_poly)

section \<open>Properties\<close>

text \<open>
  Property C32. The generator never degenerates: each call of \<open>operator()\<close> maps the 256-bit
  states one to one onto themselves and only the zero state to the zero state.  So a generator
  seeded with words that are not all zero never reaches the zero state, two generators in
  different states stay in different states, and every call can be undone.
\<close>

theorem xoshiro_never_degenerates:
  "bij (\<lambda>g. snd (xo_next g)) \<and>
   (snd (xo_next g) = xo_zero \<longleftrightarrow> g = xo_zero) \<and>
   xo_prev (snd (xo_next g)) = g"
  using xo_step_bij xo_step_eq_zero [of g] xo_prev_step [of g]
  by (simp_all add: xo_step_def [abs_def])

text \<open>
  \<open>jump_impl\<close> leaves the exclusive or of the states that lie \<open>k\<close> calls ahead, for
  the bits \<open>k\<close> set in its table: the polynomial of the table, evaluated at one step.  Hence
  jumping and calling the generator commute, in particular for \<open>jump\<close> and \<open>long_jump\<close>, and
  jumping the exclusive or of two states is jumping each.
\<close>

theorem jump_is_polynomial:
  "xo_jump_impl js g =
     foldr xo_xor (map (\<lambda>k. ((\<lambda>g. snd (xo_next g)) ^^ k) g)
       (filter (\<lambda>k. bit (js ! (k div 64)) (k mod 64)) [0..<64 * length js])) xo_zero \<and>
   xo_jump (snd (xo_next g)) = snd (xo_next (xo_jump g)) \<and>
   xo_long_jump (snd (xo_next g)) = snd (xo_next (xo_long_jump g)) \<and>
   xo_jump_impl js (xo_xor g h) = xo_xor (xo_jump_impl js g) (xo_jump_impl js h)"
proof (intro conjI)
  show "xo_jump_impl js g =
     foldr xo_xor (map (\<lambda>k. ((\<lambda>g. snd (xo_next g)) ^^ k) g)
       (filter (\<lambda>k. bit (js ! (k div 64)) (k mod 64)) [0..<64 * length js])) xo_zero"
    by (simp add: xo_jump_impl_poly xo_poly_def xo_sum_def xo_coeff_def [abs_def] xo_step_def [abs_def])
qed (simp_all add: xo_jump_def xo_long_jump_def xo_jump_impl_poly xo_poly_step xo_poly_xor
       flip: xo_step_def)
end
