(* ===== verification/Numa_Context.thy ===== *)
theory Numa_Context
  imports Complex_Main Worker_TLS Xoshiro Numa
begin

text \<open>
  \<open>schedule/impl/numa_context.hpp\<close>: a worker's view of its peers and NUMA-aware stealing.  A
  \<open>numa_context\<close> is named by a number; the worker contexts their \<open>m_context\<close> pointers lead to are
  a map from these numbers (\<open>None\<close>: the pointer is null).

  \<open>std::ranges::shuffle\<close> and \<open>std::discrete_distribution\<close> are the parameters \<open>shuffle\<close> and \<open>draw\<close>.
  Of them is used that the first permutes its argument and that the second returns the index of
  one of its weights; the weights are exact fractions here, rounded doubles in the code.
\<close>

section \<open>State\<close>

type_synonym contexts = "nat \<Rightarrow> worker_context option"

record numa_context =
  nc_rng :: xoshiro
  nc_dist :: "rat list"
  nc_close :: "nat list"
  nc_neigh :: "nat list"

definition k_min_steal_attempts :: nat where
  "k_min_steal_attempts = 1024"

definition k_steal_attempts_per_target :: nat where
  "k_steal_attempts_per_target = 32"

definition numa_context_new :: "xoshiro \<Rightarrow> numa_context" where
  "numa_context_new rng = \<lparr>nc_rng = rng, nc_dist = [], nc_close = [], nc_neigh = []\<rparr>"

section \<open>Initialisation\<close>

text \<open>The loop over the groups of neighbours from number \<open>i\<close> on: weights and neighbours.\<close>

fun nc_groups :: "nat \<Rightarrow> nat list list \<Rightarrow> rat list \<Rightarrow> nat list \<Rightarrow> rat list \<times> nat list" where
  "nc_groups i [] weights neigh = (weights, neigh)"
| "nc_groups i (grp # groups) weights neigh =
     (let w = 1 / (of_nat (length grp) * of_nat i * of_nat i) in
      nc_groups (Suc i) groups (weights @ map (\<lambda>_. w) grp) (neigh @ grp))"

text \<open>
  \<open>init_worker_and_bind\<close>: \<open>bound\<close> and \<open>init\<close> are the outcomes of \<open>topo.bind()\<close> and of \<open>worker_init\<close>,
  \<open>vectors_ok\<close> says whether the vectors could be allocated; when not, the handler clears them and
  rethrows.
\<close>

definition nc_init_worker_and_bind ::
    "exn + unit \<Rightarrow> exn + unit \<Rightarrow> bool \<Rightarrow> nat \<Rightarrow> nat list list \<Rightarrow> numa_context \<Rightarrow> ((exn + unit) \<times> numa_context) option" where
  "nc_init_worker_and_bind bound init vectors_ok this nbrs nc = do {
     lf_assert (nbrs \<noteq> []);
     lf_assert (hd nbrs \<noteq> []);
     lf_assert (hd (hd nbrs) = this);
     lf_assert (nc_neigh nc = []);
     (case bound of Inl e \<Rightarrow> Some (Inl e, nc)
      | Inr _ \<Rightarrow> (case init of Inl e \<Rightarrow> Some (Inl e, nc)
      | Inr _ \<Rightarrow>
        if vectors_ok then
          (let nc = (if length nbrs > 1 then nc\<lparr>nc_close := nbrs ! 1\<rparr> else nc);
               (weights, neigh) = nc_groups 1 (tl nbrs) [] (nc_neigh nc)
           in Some (Inr (), nc\<lparr>nc_neigh := neigh, nc_dist := weights\<rparr>))
        else Some (Inl Bad_alloc, nc\<lparr>nc_close := [], nc_neigh := []\<rparr>))) }"

section \<open>Stealing\<close>

text \<open>\<open>LF_RETURN_OR_CONTINUE\<close>: a task, or go on with the loop.\<close>

definition nc_attempt :: "contexts \<Rightarrow> nat \<Rightarrow> (nat option \<times> contexts) option" where
  "nc_attempt st c = do {
     w \<leftarrow> st c;
     (r, w') \<leftarrow> ctx_try_steal w;
     (case code r of
        Err_none \<Rightarrow> do { task \<leftarrow> steal_val r; Some (Some task, st(c \<mapsto> w')) }
      | Err_lost \<Rightarrow> Some (None, st(c \<mapsto> w'))
      | Err_empty \<Rightarrow> Some (None, st(c \<mapsto> w'))) }"

text \<open>The loop over the closest group.\<close>

fun nc_try_close :: "nat list \<Rightarrow> contexts \<Rightarrow> (nat option \<times> contexts) option" where
  "nc_try_close [] st = Some (None, st)"
| "nc_try_close (c # cs) st = do {
     (r, st') \<leftarrow> nc_attempt st c;
     (case r of Some t \<Rightarrow> Some (Some t, st') | None \<Rightarrow> nc_try_close cs st') }"

text \<open>The loop of random attempts; the first argument is the number of attempts left.\<close>

fun nc_try_random :: "(xoshiro \<Rightarrow> nat \<times> xoshiro) \<Rightarrow> nat \<Rightarrow> nat list \<Rightarrow> xoshiro \<Rightarrow> contexts
    \<Rightarrow> (nat option \<times> xoshiro \<times> contexts) option" where
  "nc_try_random draw 0 neigh rng st = Some (None, rng, st)"
| "nc_try_random draw (Suc left) neigh rng st = (case draw rng of (i, rng') \<Rightarrow> do {
     lf_assert (i < length neigh);
     (r, st') \<leftarrow> nc_attempt st (neigh ! i);
     (case r of Some t \<Rightarrow> Some (Some t, rng', st') | None \<Rightarrow> nc_try_random draw left neigh rng' st') })"

definition nc_try_steal :: "(nat list \<Rightarrow> xoshiro \<Rightarrow> nat list \<times> xoshiro) \<Rightarrow> (rat list \<Rightarrow> xoshiro \<Rightarrow> nat \<times> xoshiro)
    \<Rightarrow> numa_context \<Rightarrow> contexts \<Rightarrow> (nat option \<times> numa_context \<times> contexts) option" where
  "nc_try_steal shuffle draw nc st =
     (if nc_neigh nc = [] then Some (None, nc, st)
      else case shuffle (nc_close nc) (nc_rng nc) of (close, rng) \<Rightarrow> do {
        (r, st') \<leftarrow> nc_try_close close st;
        (case r of
           Some t \<Rightarrow> Some (Some t, nc\<lparr>nc_close := close, nc_rng := rng\<rparr>, st')
         | None \<Rightarrow> do {
             (r, rng', st') \<leftarrow> nc_try_random (draw (nc_dist nc))
               (k_min_steal_attempts + k_steal_attempts_per_target * length (nc_neigh nc)) (nc_neigh nc) rng st';
             Some (r, nc\<lparr>nc_close := close, nc_rng := rng'\<rparr>, st') }) })"

section \<open>Lemmas\<close>

lemma nc_groups_eq:
  "nc_groups i groups ws ns = (ws @ concat (map (\<lambda>(k, grp). map (\<lambda>_. 1 / (of_nat (length grp) * of_nat k * of_nat k)) grp)
     (zip [i..<i + length groups] groups)), ns @ concat groups)"
proof (induction i groups ws ns rule: nc_groups.induct)
  case (2 i grp groups ws ns)
  have "[i..<i + length (grp # groups)] = i # [Suc i..<Suc i + length groups]" by (simp add: upt_rec)
  with 2 show ?case by (simp add: Let_def del: upt_Suc)
qed simp

lemma nc_groups_lengths: "length (fst (nc_groups i groups ws ns)) = length ws + length (concat groups)"
  by (induction i groups ws ns rule: nc_groups.induct) (simp_all add: Let_def)

text \<open>The tasks of the context named \<open>c\<close>, oldest first.\<close>

definition tasks_of :: "contexts \<Rightarrow> nat \<Rightarrow> nat list" where
  "tasks_of st c = (case st c of None \<Rightarrow> [] | Some w \<Rightarrow> cl_contents (m_tasks w))"

definition contexts_ok :: "contexts \<Rightarrow> nat list \<Rightarrow> bool" where
  "contexts_ok st cs \<longleftrightarrow> (\<forall>c\<in>set cs. \<exists>w. st c = Some w \<and> cl_inv (m_tasks w))"

text \<open>One task left \<open>c\<close>: it was the oldest there, and nothing else changed.\<close>

definition took :: "contexts \<Rightarrow> nat \<Rightarrow> nat \<Rightarrow> contexts \<Rightarrow> bool" where
  "took st c t st' \<longleftrightarrow> tasks_of st c = t # tasks_of st' c \<and>
     (\<forall>b. b \<noteq> c \<longrightarrow> st' b = st b) \<and> (\<exists>w. st' c = Some w \<and> cl_inv (m_tasks w))"

lemma nc_attempt_ok:
  assumes "contexts_ok st cs" "c \<in> set cs"
  shows "if tasks_of st c = [] then nc_attempt st c = Some (None, st)
     else \<exists>t st'. nc_attempt st c = Some (Some t, st') \<and> took st c t st'"
proof -
  from assms obtain w where w: "st c = Some w" "cl_inv (m_tasks w)" by (auto simp: contexts_ok_def)
  show ?thesis
  proof (cases "tasks_of st c = []")
    case True
    with w have "ctx_try_steal w = Some (steal_failed Err_empty, w)"
      by (simp add: ctx_try_steal_def cl_steal_first tasks_of_def)
    with True w show ?thesis by (simp add: nc_attempt_def steal_failed_def fun_upd_idem)
  next
    case False
    with w have ne: "cl_contents (m_tasks w) \<noteq> []" by (simp add: tasks_of_def)
    let ?t = "hd (cl_contents (m_tasks w))" and ?d = "m_tasks w\<lparr>cl_top := cl_top (m_tasks w) + 1\<rparr>"
    have "ctx_try_steal w = Some (stolen ?t, w\<lparr>m_tasks := ?d\<rparr>)"
      using w ne by (simp add: ctx_try_steal_def cl_steal_first)
    then have "nc_attempt st c = Some (Some ?t, st(c \<mapsto> w\<lparr>m_tasks := ?d\<rparr>))"
      using w by (simp add: nc_attempt_def stolen_def)
    moreover have "cl_inv ?d \<and> cl_contents ?d = tl (cl_contents (m_tasks w))"
      using cl.steal_law [OF w(2)] cl_steal_first [OF w(2)] ne by (auto simp: stolen_def steal_failed_def)
    ultimately show ?thesis using False w ne by (auto simp: took_def tasks_of_def)
  qed
qed

lemma contexts_ok_sub: "contexts_ok st cs \<Longrightarrow> set bs \<subseteq> set cs \<Longrightarrow> contexts_ok st bs"
  by (auto simp: contexts_ok_def)

lemma nc_try_close_ok:
  assumes "contexts_ok st cs"
  shows "if \<forall>c\<in>set cs. tasks_of st c = [] then nc_try_close cs st = Some (None, st)
     else \<exists>c t st'. nc_try_close cs st = Some (Some t, st') \<and> c \<in> set cs \<and> took st c t st'"
  using assms
proof (induction cs)
  case (Cons c cs)
  from Cons.prems have ok: "contexts_ok st cs" by (rule contexts_ok_sub) auto
  from nc_attempt_ok [OF Cons.prems, of c] Cons.IH [OF ok] show ?case
    by (cases "tasks_of st c = []") (auto split: if_splits)
qed simp

lemma nc_try_random_ok:
  assumes "contexts_ok st neigh" "\<And>g. fst (draw g) < length neigh"
  shows "\<exists>r rng' st'. nc_try_random draw k neigh rng st = Some (r, rng', st') \<and>
     (case r of None \<Rightarrow> st' = st | Some t \<Rightarrow> \<exists>c\<in>set neigh. took st c t st')"
proof (induction k arbitrary: rng)
  case (Suc k)
  obtain i rng' where i: "draw rng = (i, rng')" by (cases "draw rng")
  with assms(2) [of rng] have lt: "i < length neigh" by simp
  then have mem: "neigh ! i \<in> set neigh" by simp
  show ?case
  proof (cases "tasks_of st (neigh ! i) = []")
    case True
    with nc_attempt_ok [OF assms(1) mem] Suc [of rng'] i lt show ?thesis by simp
  next
    case False
    with nc_attempt_ok [OF assms(1) mem] obtain t st' where
      "nc_attempt st (neigh ! i) = Some (Some t, st')" "took st (neigh ! i) t st'" by auto
    with i lt mem show ?thesis by auto
  qed
qed simp

lemma nc_try_steal_ok:
  assumes shuffle: "\<And>xs g. mset (fst (shuffle xs g)) = mset xs"
    and draw: "\<And>ws g. ws \<noteq> [] \<Longrightarrow> fst (draw ws g) < length ws"
    and nc: "length (nc_dist nc) = length (nc_neigh nc)" "set (nc_close nc) \<subseteq> set (nc_neigh nc)"
    and ok: "contexts_ok st (nc_neigh nc)"
  shows "\<exists>r nc' st'. nc_try_steal shuffle draw nc st = Some (r, nc', st') \<and>
      nc_neigh nc' = nc_neigh nc \<and> mset (nc_close nc') = mset (nc_close nc) \<and>
      (case r of None \<Rightarrow> st' = st \<and> (\<forall>c\<in>set (nc_close nc). tasks_of st c = [])
       | Some t \<Rightarrow> \<exists>c\<in>set (nc_neigh nc). took st c t st' \<and>
           ((\<exists>b\<in>set (nc_close nc). tasks_of st b \<noteq> []) \<longrightarrow> c \<in> set (nc_close nc)))"
proof (cases "nc_neigh nc = []")
  case True
  with nc(2) show ?thesis by (simp add: nc_try_steal_def)
next
  case False
  obtain close rng where sh: "shuffle (nc_close nc) (nc_rng nc) = (close, rng)"
    by (cases "shuffle (nc_close nc) (nc_rng nc)")
  with shuffle [of "nc_close nc" "nc_rng nc"] have m: "mset close = mset (nc_close nc)" by simp
  then have set: "set close = set (nc_close nc)" by (rule mset_eq_setD)
  have close_ok: "contexts_ok st close" by (rule contexts_ok_sub [OF ok]) (simp add: set nc(2))
  show ?thesis
  proof (cases "\<forall>c\<in>set close. tasks_of st c = []")
    case True
    let ?k = "k_min_steal_attempts + k_steal_attempts_per_target * length (nc_neigh nc)"
    have "nc_dist nc \<noteq> []" using False nc(1) by auto
    then have range: "\<And>g. fst (draw (nc_dist nc) g) < length (nc_neigh nc)" using draw nc(1) by metis
    from nc_try_random_ok [OF ok, of "draw (nc_dist nc)" ?k rng, OF range] obtain r rng' st' where
      rand: "nc_try_random (draw (nc_dist nc)) ?k (nc_neigh nc) rng st = Some (r, rng', st')"
        "case r of None \<Rightarrow> st' = st | Some t \<Rightarrow> \<exists>c\<in>set (nc_neigh nc). took st c t st'" by blast
    moreover have "nc_try_close close st = Some (None, st)"
      using nc_try_close_ok [OF close_ok] True by simp
    ultimately show ?thesis
      using False sh m True set by (auto simp: nc_try_steal_def split: option.splits)
  next
    case some: False
    with nc_try_close_ok [OF close_ok] obtain c t st' where
      "nc_try_close close st = Some (Some t, st')" "c \<in> set close" "took st c t st'" by auto
    with False sh m set nc(2) show ?thesis by (auto simp: nc_try_steal_def)
  qed
qed

section \<open>Properties\<close>

text \<open>
  Property C30. A worker initialised from the hierarchy of \<open>distribute\<close> knows every other worker
  exactly once, and \<open>try_steal\<close>, undisturbed, always returns: within its bounded number of
  attempts it meets no null context and no index out of range; if it returns a task, this was the
  oldest task of one of the others, of one in the closest group if that group had any, and nothing
  else changed; if it returns null, nothing changed and the closest group has no tasks.
\<close>

theorem try_steal_after_init:
  assumes shuffle: "\<And>xs g. mset (fst (shuffle xs g)) = mset xs"
    and draw: "\<And>ws g. ws \<noteq> [] \<Longrightarrow> fst (draw ws g) < length ws"
    and i: "i < length data" and ok: "contexts_ok st data"
  shows "\<exists>nc. nc_init_worker_and_bind (Inr ()) (Inr ()) True (data ! i) (distribute data d ! i)
        (numa_context_new rng) = Some (Inr (), nc) \<and>
      add_mset (data ! i) (mset (nc_neigh nc)) = mset data \<and>
      (\<exists>r nc' st'. nc_try_steal shuffle draw nc st = Some (r, nc', st') \<and>
        nc_neigh nc' = nc_neigh nc \<and> mset (nc_close nc') = mset (nc_close nc) \<and>
        (case r of None \<Rightarrow> st' = st \<and> (\<forall>c\<in>set (nc_close nc). tasks_of st c = [])
         | Some t \<Rightarrow> \<exists>c\<in>set (nc_neigh nc). took st c t st' \<and>
             ((\<exists>b\<in>set (nc_close nc). tasks_of st b \<noteq> []) \<longrightarrow> c \<in> set (nc_close nc))))"
proof -
  let ?nb = "neighbors data d i"
  have nth: "distribute data d ! i = ?nb" using i by (simp add: distribute_def)
  obtain gs where nb: "?nb = [data ! i] # gs" by (rule that [OF neighbors_groups [OF i]])
  with neighbors_mset [OF i, of d] have m: "add_mset (data ! i) (mset (concat gs)) = mset data" by simp
  define nc where "nc = \<lparr>nc_rng = rng, nc_dist = fst (nc_groups 1 gs [] []),
    nc_close = (if gs = [] then [] else hd gs), nc_neigh = concat gs\<rparr>"
  have init: "nc_init_worker_and_bind (Inr ()) (Inr ()) True (data ! i) (distribute data d ! i)
        (numa_context_new rng) = Some (Inr (), nc)"
    unfolding nth nb
    by (cases gs) (simp_all add: nc_init_worker_and_bind_def numa_context_new_def nc_def Let_def
        split_beta nc_groups_eq del: nc_groups.simps)
  have "length (nc_dist nc) = length (nc_neigh nc)" using nc_groups_lengths [of 1 gs "[]" "[]"] by (simp add: nc_def)
  moreover have "set (nc_close nc) \<subseteq> set (nc_neigh nc)" by (cases gs) (auto simp: nc_def)
  moreover have "contexts_ok st (nc_neigh nc)"
  proof (rule contexts_ok_sub [OF ok])
    from m have "set (concat gs) \<subseteq> set data" by (metis insert_subset mset_eq_setD set_mset_add_mset_insert set_mset_mset subset_insertI)
    then show "set (nc_neigh nc) \<subseteq> set data" by (simp add: nc_def)
  qed
  ultimately show ?thesis
    using init m nc_try_steal_ok [OF shuffle draw, of nc st] by (intro exI [of _ nc]) (simp add: nc_def)
qed

theorem try_steal_after_init_witness:
  "\<exists>nc r nc' st'. nc_init_worker_and_bind (Inr ()) (Inr ()) True 4 (distribute [4, 9] (\<lambda>_ _. 1) ! 0)
        (numa_context_new xo_default) = Some (Inr (), nc) \<and> mset (nc_neigh nc) = {#9#} \<and>
     nc_try_steal (\<lambda>xs g. (xs, g)) (\<lambda>ws g. (0, g)) nc
       (\<lambda>_. Some \<lparr>m_tasks = \<lparr>cl_top = 0, cl_bottom = 1, cl_buf = \<lparr>rb_cap = 1, rb_mask = 0, rb_cells = [7]\<rparr>,
          cl_garbage = []\<rparr>, m_submit = None\<rparr>) = Some (r, nc', st')"
proof -
  let ?st = "\<lambda>_. Some \<lparr>m_tasks = \<lparr>cl_top = 0, cl_bottom = 1, cl_buf = \<lparr>rb_cap = 1, rb_mask = 0, rb_cells = [7]\<rparr>,
          cl_garbage = []\<rparr>, m_submit = None\<rparr>"
  have "contexts_ok ?st [4, 9]"
    using has_single_bit_pow2 [of 0] by (simp add: contexts_ok_def cl_inv_def rb_wf_def)
  with try_steal_after_init [of "\<lambda>xs g. (xs, g)" "\<lambda>ws g. (0, g)" 0 "[4, 9]" ?st "\<lambda>_ _. 1" xo_default]
  show ?thesis by auto
qed
end
