(* ===== verification/Eventually.thy ===== *)
theory Eventually
  imports Prelude
begin

text \<open>
  \<open>core/eventually.hpp\<close>: \<open>basic_eventually<T, Exception>\<close>, the place a task leaves its result in.
  The model follows the storage of the code: an untagged union, of which only the active member
  may be read (reading another is the value \<open>None\<close>), and a flag that some instances leave out
  because a null pointer says the same.  What matters of \<open>T\<close> is whether it is void, a value or a
  reference; a value, or the address a reference is bound to, is an element of \<open>'v\<close>.  An exception
  pointer is null or the number of an exception object.

  The abstract object is empty, a value or an exception; every instance refines it.
\<close>

section \<open>Instances and storage\<close>

datatype ev_kind = K_void | K_val | K_ref

definition implicit_state :: "ev_kind \<Rightarrow> bool \<Rightarrow> bool" where
  "implicit_state k x \<longleftrightarrow> (k = K_ref \<and> \<not> x) \<or> (k = K_void \<and> x)"

text \<open>The requirement on the template arguments.\<close>

definition ev_valid :: "ev_kind \<Rightarrow> bool \<Rightarrow> bool" where
  "ev_valid k x \<longleftrightarrow> k \<noteq> K_void \<or> x"

datatype ev_state = S_empty | S_value | S_exception

datatype 'v ev_union = M_empty | M_value 'v | M_pointer "'v option" | M_exception "nat option"

record 'v eventually =
  ev_member :: "'v ev_union"
  ev_flag :: "ev_state option"

definition ev_new :: "ev_kind \<Rightarrow> bool \<Rightarrow> 'v eventually" where
  "ev_new k x =
     (if implicit_state k x
      then (if x then \<lparr>ev_member = M_exception None, ev_flag = None\<rparr>
            else \<lparr>ev_member = M_pointer None, ev_flag = None\<rparr>)
      else \<lparr>ev_member = M_empty, ev_flag = Some S_empty\<rparr>)"

section \<open>Reading the members\<close>

definition get_exception :: "'v eventually \<Rightarrow> nat option option" where
  "get_exception o' = (case ev_member o' of M_exception e \<Rightarrow> Some e | _ \<Rightarrow> None)"

definition get_pointer :: "'v eventually \<Rightarrow> 'v option option" where
  "get_pointer o' = (case ev_member o' of M_pointer p \<Rightarrow> Some p | _ \<Rightarrow> None)"

definition get_value :: "'v eventually \<Rightarrow> 'v option" where
  "get_value o' = (case ev_member o' of M_value v \<Rightarrow> Some v | _ \<Rightarrow> None)"

section \<open>Operations\<close>

definition ev_empty :: "ev_kind \<Rightarrow> bool \<Rightarrow> 'v eventually \<Rightarrow> bool option" where
  "ev_empty k x o' =
     (if implicit_state k x
      then (if x then do { e \<leftarrow> get_exception o'; Some (e = None) }
            else do { p \<leftarrow> get_pointer o'; Some (p = None) })
      else do { f \<leftarrow> ev_flag o'; Some (f = S_empty) })"

definition ev_has_value :: "ev_kind \<Rightarrow> bool \<Rightarrow> 'v eventually \<Rightarrow> bool option" where
  "ev_has_value k x o' =
     (if implicit_state k x then do { p \<leftarrow> get_pointer o'; Some (p \<noteq> None) }
      else do { f \<leftarrow> ev_flag o'; Some (f = S_value) })"

definition ev_has_exception :: "ev_kind \<Rightarrow> bool \<Rightarrow> 'v eventually \<Rightarrow> bool option" where
  "ev_has_exception k x o' =
     (if implicit_state k x then do { e \<leftarrow> get_exception o'; Some (e \<noteq> None) }
      else do { f \<leftarrow> ev_flag o'; Some (f = S_exception) })"

text \<open>\<open>stash_exception\<close>; \<open>current\<close> is \<open>std::current_exception()\<close>.\<close>

definition ev_stash_exception :: "ev_kind \<Rightarrow> bool \<Rightarrow> nat option \<Rightarrow> 'v eventually \<Rightarrow> 'v eventually option" where
  "ev_stash_exception k x current o' = do {
     b \<leftarrow> ev_empty k x o';
     lf_assert b;
     (let o' = o'\<lparr>ev_member := M_exception current\<rparr> in
      Some (if implicit_state k x then o' else o'\<lparr>ev_flag := Some S_exception\<rparr>)) }"

text \<open>Assignment to a value: the constructor of \<open>T\<close> returns a value or throws, which leaves the
  union without an active member and the flag as it was.\<close>

definition ev_assign_value :: "ev_kind \<Rightarrow> bool \<Rightarrow> nat + 'v \<Rightarrow> 'v eventually \<Rightarrow> ((nat + unit) \<times> 'v eventually) option" where
  "ev_assign_value k x expr o' = do {
     b \<leftarrow> ev_empty k x o';
     lf_assert b;
     Some (case expr of
        Inl e \<Rightarrow> (Inl e, o'\<lparr>ev_member := M_empty\<rparr>)
      | Inr v \<Rightarrow> (Inr (), o'\<lparr>ev_member := M_value v, ev_flag := Some S_value\<rparr>)) }"

definition ev_assign_ref :: "ev_kind \<Rightarrow> bool \<Rightarrow> 'v \<Rightarrow> 'v eventually \<Rightarrow> 'v eventually option" where
  "ev_assign_ref k x expr o' = do {
     b \<leftarrow> ev_empty k x o';
     lf_assert b;
     (let o' = o'\<lparr>ev_member := M_pointer (Some expr)\<rparr> in
      Some (if implicit_state k x then o' else o'\<lparr>ev_flag := Some S_value\<rparr>)) }"

definition ev_exception :: "ev_kind \<Rightarrow> bool \<Rightarrow> 'v eventually \<Rightarrow> nat option option" where
  "ev_exception k x o' = do { b \<leftarrow> ev_has_exception k x o'; lf_assert b; get_exception o' }"

text \<open>\<open>operator*\<close> and \<open>operator->\<close>: the value, or the object the reference is bound to.\<close>

definition ev_deref :: "ev_kind \<Rightarrow> bool \<Rightarrow> 'v eventually \<Rightarrow> 'v option" where
  "ev_deref k x o' = do {
     b \<leftarrow> ev_has_value k x o';
     lf_assert b;
     (if k = K_val then get_value o' else do { p \<leftarrow> get_pointer o'; p }) }"

text \<open>The destructor: the member it destroys, \<open>None\<close> if it runs into \<open>unreachable\<close>.\<close>

definition ev_destroy :: "ev_kind \<Rightarrow> bool \<Rightarrow> 'v eventually \<Rightarrow> 'v ev_union option" where
  "ev_destroy k x o' =
     (if implicit_state k x
      then (if x then do { e \<leftarrow> get_exception o'; Some (M_exception e) } else Some M_empty)
      else do {
        f \<leftarrow> ev_flag o';
        (case f of
           S_empty \<Rightarrow> Some M_empty
         | S_value \<Rightarrow> if k = K_val then do { v \<leftarrow> get_value o'; Some (M_value v) }
                      else if k = K_ref then do { p \<leftarrow> get_pointer o'; Some (M_pointer p) } else None
         | S_exception \<Rightarrow> if x then do { e \<leftarrow> get_exception o'; Some (M_exception e) } else None) })"

section \<open>The abstract object\<close>

datatype 'v outcome = Nothing | Result 'v | Thrown nat

text \<open>What the storage stands for; \<open>None\<close> for storage no object of this instance has.\<close>

fun ev_abs :: "ev_kind \<Rightarrow> bool \<Rightarrow> 'v eventually \<Rightarrow> 'v outcome option" where
  "ev_abs k x o' =
     (if implicit_state k x then
        (case (ev_flag o', ev_member o') of
           (None, M_exception e) \<Rightarrow> if x then Some (case e of None \<Rightarrow> Nothing | Some n \<Rightarrow> Thrown n) else None
         | (None, M_pointer p) \<Rightarrow> if x then None else Some (case p of None \<Rightarrow> Nothing | Some v \<Rightarrow> Result v)
         | _ \<Rightarrow> None)
      else
        (case (ev_flag o', ev_member o') of
           (Some S_empty, _) \<Rightarrow> Some Nothing
         | (Some S_value, M_value v) \<Rightarrow> if k = K_val then Some (Result v) else None
         | (Some S_value, M_pointer (Some v)) \<Rightarrow> if k = K_ref then Some (Result v) else None
         | (Some S_exception, M_exception (Some n)) \<Rightarrow> if x then Some (Thrown n) else None
         | _ \<Rightarrow> None))"

text \<open>The operations an instance offers, and what they answer.\<close>

datatype 'v ev_op = A_assign "nat + 'v" | A_stash nat | A_empty | A_has_value | A_has_exception | A_deref | A_exception

datatype 'v ev_out = R_unit | R_bool bool | R_value 'v | R_exn nat | R_throws nat

text \<open>The \<open>requires\<close> clauses; binding a reference does not throw.\<close>

fun ev_offers :: "ev_kind \<Rightarrow> bool \<Rightarrow> 'v ev_op \<Rightarrow> bool" where
  "ev_offers k x (A_assign r) = (k = K_val \<or> k = K_ref \<and> (\<exists>v. r = Inr v))"
| "ev_offers k x (A_stash e) = x"
| "ev_offers k x A_empty = True"
| "ev_offers k x A_has_value = (k \<noteq> K_void)"
| "ev_offers k x A_has_exception = x"
| "ev_offers k x A_deref = (k \<noteq> K_void)"
| "ev_offers k x A_exception = x"

fun ev_apply :: "ev_kind \<Rightarrow> bool \<Rightarrow> 'v ev_op \<Rightarrow> 'v eventually \<Rightarrow> ('v ev_out \<times> 'v eventually) option" where
  "ev_apply k x (A_assign r) o' =
     (if k = K_val then do { (s, o') \<leftarrow> ev_assign_value k x r o'; Some (case s of Inl e \<Rightarrow> R_throws e | Inr _ \<Rightarrow> R_unit, o') }
      else (case r of Inr v \<Rightarrow> do { o' \<leftarrow> ev_assign_ref k x v o'; Some (R_unit, o') } | Inl _ \<Rightarrow> None))"
| "ev_apply k x (A_stash e) o' = do { o' \<leftarrow> ev_stash_exception k x (Some e) o'; Some (R_unit, o') }"
| "ev_apply k x A_empty o' = do { b \<leftarrow> ev_empty k x o'; Some (R_bool b, o') }"
| "ev_apply k x A_has_value o' = do { b \<leftarrow> ev_has_value k x o'; Some (R_bool b, o') }"
| "ev_apply k x A_has_exception o' = do { b \<leftarrow> ev_has_exception k x o'; Some (R_bool b, o') }"
| "ev_apply k x A_deref o' = do { v \<leftarrow> ev_deref k x o'; Some (R_value v, o') }"
| "ev_apply k x A_exception o' = do { e \<leftarrow> ev_exception k x o'; n \<leftarrow> e; Some (R_exn n, o') }"

text \<open>The specification: \<open>None\<close> where the contract of the operation is broken.\<close>

fun sp_apply :: "'v ev_op \<Rightarrow> 'v outcome \<Rightarrow> ('v ev_out \<times> 'v outcome) option" where
  "sp_apply (A_assign r) Nothing = Some (case r of Inl e \<Rightarrow> (R_throws e, Nothing) | Inr v \<Rightarrow> (R_unit, Result v))"
| "sp_apply (A_stash e) Nothing = Some (R_unit, Thrown e)"
| "sp_apply A_empty q = Some (R_bool (q = Nothing), q)"
| "sp_apply A_has_value q = Some (R_bool (\<exists>v. q = Result v), q)"
| "sp_apply A_has_exception q = Some (R_bool (\<exists>e. q = Thrown e), q)"
| "sp_apply A_deref (Result v) = Some (R_value v, Result v)"
| "sp_apply A_exception (Thrown e) = Some (R_exn e, Thrown e)"
| "sp_apply _ _ = None"

fun run_ops :: "('op \<Rightarrow> 's \<Rightarrow> ('r \<times> 's) option) \<Rightarrow> 'op list \<Rightarrow> 's \<Rightarrow> ('r list \<times> 's) option" where
  "run_ops f [] s = Some ([], s)"
| "run_ops f (op # ops) s = do { (r, s) \<leftarrow> f op s; (rs, s) \<leftarrow> run_ops f ops s; Some (r # rs, s) }"

section \<open>Refinement of objects\<close>

text \<open>An object whose every operation answers as the specification does, and fails only where it
  does, answers whole histories as the specification does.\<close>

locale object_refinement =
  fixes abs_of :: "'s \<Rightarrow> 'a option"
    and offers :: "'op \<Rightarrow> bool"
    and conc :: "'op \<Rightarrow> 's \<Rightarrow> ('r \<times> 's) option"
    and spec :: "'op \<Rightarrow> 'a \<Rightarrow> ('r \<times> 'a) option"
  assumes step_none: "abs_of s = Some q \<Longrightarrow> offers op \<Longrightarrow> spec op q = None \<Longrightarrow> conc op s = None"
    and step_some: "abs_of s = Some q \<Longrightarrow> offers op \<Longrightarrow> spec op q = Some (r, q') \<Longrightarrow>
      \<exists>s'. conc op s = Some (r, s') \<and> abs_of s' = Some q'"
begin

lemma run_refines:
  assumes "abs_of s = Some q" "\<And>op. op \<in> set ops \<Longrightarrow> offers op"
  shows "case run_ops spec ops q of None \<Rightarrow> run_ops conc ops s = None
     | Some (rs, q') \<Rightarrow> \<exists>s'. run_ops conc ops s = Some (rs, s') \<and> abs_of s' = Some q'"
  using assms
proof (induction ops arbitrary: s q)
  case (Cons op ops)
  show ?case
  proof (cases "spec op q")
    case None
    with step_none [OF Cons.prems(1)] Cons.prems(2) show ?thesis by simp
  next
    case (Some rq)
    then obtain r q' where rq: "spec op q = Some (r, q')" by (cases rq) simp
    from step_some [OF Cons.prems(1) _ rq] Cons.prems(2) obtain s' where
      s': "conc op s = Some (r, s')" "abs_of s' = Some q'" by auto
    from Cons.IH [OF s'(2)] Cons.prems(2) s'(1) rq show ?thesis
      by (auto split: option.splits)
  qed
qed simp

end

section \<open>Every instance refines the abstract object\<close>

lemmas ev_defs = implicit_state_def ev_valid_def get_exception_def get_pointer_def get_value_def
  ev_empty_def ev_has_value_def ev_has_exception_def ev_stash_exception_def ev_assign_value_def
  ev_assign_ref_def ev_exception_def ev_deref_def lf_assert_def

lemma ev_abs_new: "ev_valid k x \<Longrightarrow> ev_abs k x (ev_new k x) = Some Nothing"
  by (cases k; cases x) (simp_all add: ev_new_def ev_defs)

text \<open>The storage of an object, by instance and abstract state.\<close>

lemma ev_abs_shape:
  assumes "ev_valid k x" "ev_abs k x o' = Some q"
  shows "case q of
      Nothing \<Rightarrow> (if implicit_state k x then ev_flag o' = None \<and>
                    ev_member o' = (if x then M_exception None else M_pointer None)
                  else ev_flag o' = Some S_empty)
    | Result v \<Rightarrow> k \<noteq> K_void \<and> ev_flag o' = (if implicit_state k x then None else Some S_value) \<and>
        ev_member o' = (if k = K_val then M_value v else M_pointer (Some v))
    | Thrown e \<Rightarrow> x \<and> ev_flag o' = (if implicit_state k x then None else Some S_exception) \<and>
        ev_member o' = M_exception (Some e)"
  using assms
  by (cases k; cases x)
    (auto simp: implicit_state_def ev_valid_def split: option.splits ev_state.splits ev_union.splits if_splits outcome.splits)

lemma ev_step:
  assumes valid: "ev_valid k x" and abs: "ev_abs k x o' = Some q" and op: "ev_offers k x op"
  shows "case sp_apply op q of None \<Rightarrow> ev_apply k x op o' = None
     | Some (r, q') \<Rightarrow> \<exists>o2. ev_apply k x op o' = Some (r, o2) \<and> ev_abs k x o2 = Some q'"
proof -
  note shape = ev_abs_shape [OF valid abs]
  show ?thesis
  proof (cases op)
    case (A_assign r)
    show ?thesis
      by (cases k; cases x; cases q; cases r)
        (use shape op valid in \<open>simp_all add: A_assign ev_defs\<close>)
  next
    case (A_stash e)
    show ?thesis
      by (cases k; cases x; cases q) (use shape op valid in \<open>simp_all add: A_stash ev_defs\<close>)
  qed (cases k; cases x; cases q; use shape op valid abs in \<open>simp add: ev_defs\<close>)+
qed

interpretation ev: object_refinement "ev_abs k x" "\<lambda>op. ev_valid k x \<and> ev_offers k x op" "ev_apply k x" sp_apply for k x
proof (unfold_locales, goal_cases)
  case (1 s q op)
  then show ?case using ev_step [of k x s q op] by simp
next
  case (2 s q op r q')
  then show ?case using ev_step [of k x s q op] by simp
qed

section \<open>Properties\<close>

text \<open>
  Property C24. Every instance of \<open>basic_eventually\<close> (value, reference or void; with or without
  exceptions) behaves as the object it promises: driven from its constructor through any sequence
  of the operations its \<open>requires\<close> clauses offer, it answers as an object that is empty, a value or
  an exception; a sequence fails exactly where it breaks a contract (assigning twice, reading a
  value or an exception that is not there) and never reads an inactive member of the union; and the
  destructor destroys the active member and nothing else.
\<close>

theorem eventually_refines:
  assumes "ev_valid k x" "\<And>op. op \<in> set ops \<Longrightarrow> ev_offers k x op"
  shows "case run_ops sp_apply ops Nothing of
      None \<Rightarrow> run_ops (ev_apply k x) ops (ev_new k x) = None
    | Some (rs, q) \<Rightarrow> \<exists>o'. run_ops (ev_apply k x) ops (ev_new k x) = Some (rs, o') \<and> ev_abs k x o' = Some q \<and>
        ev_destroy k x o' = Some (case q of
            Nothing \<Rightarrow> if implicit_state k x \<and> x then M_exception None else M_empty
          | Result v \<Rightarrow> if k = K_val then M_value v else if x then M_pointer (Some v) else M_empty
          | Thrown e \<Rightarrow> M_exception (Some e))"
proof -
  have destroy: "ev_destroy k x o' = Some (case q of
            Nothing \<Rightarrow> if implicit_state k x \<and> x then M_exception None else M_empty
          | Result v \<Rightarrow> if k = K_val then M_value v else if x then M_pointer (Some v) else M_empty
          | Thrown e \<Rightarrow> M_exception (Some e))" if "ev_abs k x o' = Some q" for o' :: "'a eventually" and q
    using ev_abs_shape [OF assms(1) that] assms(1)
    by (cases k; cases x; cases q) (simp_all add: ev_destroy_def ev_defs)
  from ev.run_refines [OF ev_abs_new [OF assms(1)], of ops] assms destroy show ?thesis
    by (auto split: option.splits simp del: ev_abs.simps)
qed

theorem eventually_refines_witness:
  "ev_valid K_val True \<and>
   run_ops (ev_apply K_val True) [A_empty, A_assign (Inl 3), A_assign (Inr 7), A_has_value, A_deref] (ev_new K_val True)
     = Some ([R_bool True, R_throws 3, R_unit, R_bool True, R_value (7::nat)], \<lparr>ev_member = M_value 7, ev_flag = Some S_value\<rparr>) \<and>
   run_ops (ev_apply K_val True) [A_assign (Inr 7), A_assign (Inr (8::nat))] (ev_new K_val True) = None"
proof -
  have v: "ev_valid K_val True" by (simp add: ev_valid_def)
  have "run_ops (ev_apply K_val True) [A_assign (Inr 7), A_assign (Inr (8::nat))] (ev_new K_val True) = None"
  proof -
    have "\<And>op. op \<in> set [A_assign (Inr 7), A_assign (Inr (8::nat))] \<Longrightarrow> ev_offers K_val True op"
      by auto
    from eventually_refines [OF v, of "[A_assign (Inr 7), A_assign (Inr 8)]", OF this] show ?thesis by simp
  qed
  with v show ?thesis by (simp add: ev_new_def ev_defs)
qed
end
