(* ===== verification/Sync_Wait.thy ===== *)
theory Sync_Wait
  imports Eventually
begin

text \<open>
  \<open>core/sync_wait.hpp\<close>: \<open>future\<close> and its shared state, which a thread outside the pool uses to
  wait for a root task; theory \<open>Schedule\<close> makes one.  The result is stored in a
  \<open>try_eventually\<close> (theory \<open>Eventually\<close>); the binary semaphore is its count.  The worker that runs
  the root task stores the outcome (\<open>return_value\<close>, or \<open>unhandled_exception\<close> by \<open>stash_exception\<close>)
  and then releases the semaphore (the final suspension point of a root task).
\<close>

section \<open>The future\<close>

datatype future_state = No_wait | Fut_ready | Retrieved

record 'v future_shared_state =
  fs_result :: "'v eventually"
  fs_sem :: nat
  fs_status :: future_state

definition fs_new :: "ev_kind \<Rightarrow> 'v future_shared_state" where
  "fs_new k = \<lparr>fs_result = ev_new k True, fs_sem = 0, fs_status = No_wait\<rparr>"

datatype fut_exn = Broken_future | Empty_future | Task_exn nat

text \<open>A call blocks on the semaphore, fails an assertion (or reads a dead member), or ends.\<close>

datatype 'r fcall = Blocks | Fails | Ends 'r

text \<open>\<open>m_heap\<close> is null or not: \<open>valid\<close>; the shared state is the one the future was made with.\<close>

definition fut_wait :: "bool \<Rightarrow> 'v future_shared_state \<Rightarrow> ((fut_exn + unit) \<times> 'v future_shared_state) fcall" where
  "fut_wait valid fs =
     (if \<not> valid then Ends (Inl Broken_future, fs)
      else if fs_status fs = No_wait then
        (if fs_sem fs = 0 then Blocks
         else Ends (Inr (), fs\<lparr>fs_sem := fs_sem fs - 1, fs_status := Fut_ready\<rparr>))
      else Ends (Inr (), fs))"

text \<open>\<open>get\<close>: rethrowing moves the exception pointer out of the shared state.\<close>

definition fut_get :: "ev_kind \<Rightarrow> bool \<Rightarrow> 'v future_shared_state
    \<Rightarrow> ((fut_exn + 'v option) \<times> 'v future_shared_state) fcall" where
  "fut_get k valid fs =
     (case fut_wait valid fs of
        Blocks \<Rightarrow> Blocks
      | Fails \<Rightarrow> Fails
      | Ends (Inl e, fs) \<Rightarrow> Ends (Inl e, fs)
      | Ends (Inr _, fs) \<Rightarrow>
          if fs_status fs = Retrieved then Ends (Inl Empty_future, fs)
          else let fs = fs\<lparr>fs_status := Retrieved\<rparr> in
            (case ev_has_exception k True (fs_result fs) of
               None \<Rightarrow> Fails
             | Some True \<Rightarrow>
                 (case ev_exception k True (fs_result fs) of
                    Some (Some e) \<Rightarrow> Ends (Inl (Task_exn e), fs\<lparr>fs_result := (fs_result fs)\<lparr>ev_member := M_exception None\<rparr>\<rparr>)
                  | _ \<Rightarrow> Fails)
             | Some False \<Rightarrow>
                 (if k = K_void then Ends (Inr None, fs)
                  else (case ev_deref k True (fs_result fs) of None \<Rightarrow> Fails | Some v \<Rightarrow> Ends (Inr (Some v), fs)))))"

definition fut_destroy :: "bool \<Rightarrow> 'v future_shared_state \<Rightarrow> 'v future_shared_state fcall" where
  "fut_destroy valid fs =
     (if valid \<and> fs_status fs = No_wait
      then (if fs_sem fs = 0 then Blocks else Ends (fs\<lparr>fs_sem := fs_sem fs - 1\<rparr>))
      else Ends fs)"

section \<open>The owner and the root task\<close>

datatype 'v root_result = T_void | T_value 'v | T_throws nat

text \<open>What the task stores before its final suspension.\<close>

definition root_store :: "ev_kind \<Rightarrow> 'v root_result \<Rightarrow> 'v eventually \<Rightarrow> 'v eventually option" where
  "root_store k res o' =
     (case res of
        T_void \<Rightarrow> Some o'
      | T_value v \<Rightarrow> map_option snd (ev_apply k True (A_assign (Inr v)) o')
      | T_throws e \<Rightarrow> ev_stash_exception k True (Some e) o')"

datatype root_pc = R_running | R_stored | R_finished

record 'v fut_sys =
  fu_fs :: "'v future_shared_state"
  fu_valid :: bool
  fu_alive :: bool
  fu_root :: root_pc

definition fut_start :: "ev_kind \<Rightarrow> 'v fut_sys" where
  "fut_start k = \<lparr>fu_fs = fs_new k, fu_valid = True, fu_alive = True, fu_root = R_running\<rparr>"

datatype 'v fut_event = F_store | F_release | F_wait "fut_exn + unit" | F_get "fut_exn + 'v option" | F_detach | F_destroy

text \<open>The owner's calls and the two steps of the task, in any order; a call that blocks is no step.\<close>

inductive fut_step :: "ev_kind \<Rightarrow> 'v root_result \<Rightarrow> 'v fut_sys \<Rightarrow> 'v fut_event \<Rightarrow> 'v fut_sys \<Rightarrow> bool" for k res where
  fu_store: "fu_root s = R_running \<Longrightarrow> root_store k res (fs_result (fu_fs s)) = Some o' \<Longrightarrow>
     fut_step k res s F_store (s\<lparr>fu_fs := (fu_fs s)\<lparr>fs_result := o'\<rparr>, fu_root := R_stored\<rparr>)"
| fu_release: "fu_root s = R_stored \<Longrightarrow>
     fut_step k res s F_release (s\<lparr>fu_fs := (fu_fs s)\<lparr>fs_sem := fs_sem (fu_fs s) + 1\<rparr>, fu_root := R_finished\<rparr>)"
| fu_wait: "fu_alive s \<Longrightarrow> fut_wait (fu_valid s) (fu_fs s) = Ends (r, fs) \<Longrightarrow>
     fut_step k res s (F_wait r) (s\<lparr>fu_fs := fs\<rparr>)"
| fu_get: "fu_alive s \<Longrightarrow> fut_get k (fu_valid s) (fu_fs s) = Ends (r, fs) \<Longrightarrow>
     fut_step k res s (F_get r) (s\<lparr>fu_fs := fs\<rparr>)"
| fu_detach: "fu_alive s \<Longrightarrow> fut_step k res s F_detach (s\<lparr>fu_valid := False\<rparr>)"
| fu_destroy: "fu_alive s \<Longrightarrow> fut_destroy (fu_valid s) (fu_fs s) = Ends fs \<Longrightarrow>
     fut_step k res s F_destroy (s\<lparr>fu_fs := fs, fu_alive := False\<rparr>)"

inductive fut_run :: "ev_kind \<Rightarrow> 'v root_result \<Rightarrow> 'v fut_sys \<Rightarrow> 'v fut_event list \<Rightarrow> 'v fut_sys \<Rightarrow> bool" for k res where
  fut_nil: "fut_run k res s [] s"
| fut_snoc: "fut_run k res s es t \<Longrightarrow> fut_step k res t e u \<Longrightarrow> fut_run k res s (es @ [e]) u"

section \<open>Invariant\<close>

definition res_ok :: "ev_kind \<Rightarrow> 'v root_result \<Rightarrow> bool" where
  "res_ok k res \<longleftrightarrow> (case res of T_void \<Rightarrow> k = K_void | T_value v \<Rightarrow> k \<noteq> K_void | T_throws e \<Rightarrow> True)"

definition res_abs :: "'v root_result \<Rightarrow> 'v outcome" where
  "res_abs res = (case res of T_void \<Rightarrow> Nothing | T_value v \<Rightarrow> Result v | T_throws e \<Rightarrow> Thrown e)"

text \<open>What \<open>get\<close> delivers.\<close>

definition delivered :: "'v root_result \<Rightarrow> fut_exn + 'v option" where
  "delivered res = (case res of T_void \<Rightarrow> Inr None | T_value v \<Rightarrow> Inr (Some v) | T_throws e \<Rightarrow> Inl (Task_exn e))"

definition was_get :: "'v fut_event \<Rightarrow> bool" where
  "was_get e \<longleftrightarrow> (\<exists>r. e = F_get r)"

definition fut_inv :: "ev_kind \<Rightarrow> 'v root_result \<Rightarrow> 'v fut_event list \<Rightarrow> 'v fut_sys \<Rightarrow> bool" where
  "fut_inv k res es s \<longleftrightarrow>
     (fu_valid s \<longleftrightarrow> F_detach \<notin> set es) \<and>
     (fu_root s = R_finished \<longleftrightarrow> F_release \<in> set es) \<and>
     (fu_alive s \<longleftrightarrow> F_destroy \<notin> set es) \<and>
     (fu_root s = R_running \<longrightarrow> ev_abs k True (fs_result (fu_fs s)) = Some Nothing) \<and>
     (fu_root s \<noteq> R_running \<and> fs_status (fu_fs s) \<noteq> Retrieved \<longrightarrow> ev_abs k True (fs_result (fu_fs s)) = Some (res_abs res)) \<and>
     (fu_root s \<noteq> R_finished \<longrightarrow> fs_sem (fu_fs s) = 0 \<and> fs_status (fu_fs s) = No_wait) \<and>
     (fu_alive s \<and> fu_root s = R_finished \<and> fs_status (fu_fs s) = No_wait \<longrightarrow> fs_sem (fu_fs s) = 1) \<and>
     (F_detach \<notin> set es \<longrightarrow> (fs_status (fu_fs s) = Retrieved \<longleftrightarrow> (\<exists>e\<in>set es. was_get e)))"

lemma root_store_ok:
  assumes "res_ok k res" "ev_abs k True o' = Some Nothing"
  shows "\<exists>o2. root_store k res o' = Some o2 \<and> ev_abs k True o2 = Some (res_abs res)"
proof -
  have v: "ev_valid k True" by (simp add: ev_valid_def)
  show ?thesis
  proof (cases res)
    case (T_value x)
    then have "ev_offers k True (A_assign (Inr x))" using assms(1) by (cases k) (auto simp: res_ok_def)
    from ev_step [OF v assms(2) this] T_value show ?thesis
      by (auto simp: root_store_def res_abs_def simp del: ev_abs.simps ev_apply.simps)
  next
    case (T_throws e)
    from ev_step [OF v assms(2), of "A_stash e"] T_throws show ?thesis
      by (auto simp: root_store_def res_abs_def simp del: ev_abs.simps split: Option.bind_splits)
  qed (use assms in \<open>simp add: root_store_def res_abs_def del: ev_abs.simps\<close>)
qed

text \<open>Taking the result out of a shared state that holds it.\<close>

lemma fut_get_ready:
  assumes ok: "res_ok k res" and abs: "ev_abs k True (fs_result fs) = Some (res_abs res)"
    and st: "fs_status fs \<noteq> Retrieved" "fs_status fs = No_wait \<Longrightarrow> 0 < fs_sem fs"
  shows "\<exists>fs'. fut_get k True fs = Ends (delivered res, fs') \<and> fs_status fs' = Retrieved"
proof -
  have v: "ev_valid k True" by (simp add: ev_valid_def)
  obtain fs1 where fs1: "fut_wait True fs = Ends (Inr (), fs1)" "fs_status fs1 = Fut_ready" "fs_result fs1 = fs_result fs"
    using st by (cases "fs_status fs") (auto simp: fut_wait_def)
  note shape = ev_abs_shape [OF v abs]
  show ?thesis
    by (cases k; cases res)
      (use fs1 ok shape in \<open>simp_all add: fut_get_def res_ok_def res_abs_def delivered_def ev_defs Let_def\<close>)
qed

lemma fut_inv_finished:
  assumes "fut_inv k res es s" "fs_status (fu_fs s) \<noteq> No_wait \<or> 0 < fs_sem (fu_fs s)"
  shows "fu_root s = R_finished"
  using assms unfolding fut_inv_def by (metis less_nat_zero_code)

text \<open>What a call of \<open>get\<close> returns in a state of the invariant.\<close>

lemma fut_get_cases:
  assumes ok: "res_ok k res" and inv: "fut_inv k res es s" and alive: "fu_alive s"
  shows "if F_detach \<in> set es then fut_get k (fu_valid s) (fu_fs s) = Ends (Inl Broken_future, fu_fs s)
     else if \<exists>e\<in>set es. was_get e then fut_get k (fu_valid s) (fu_fs s) = Ends (Inl Empty_future, fu_fs s)
     else if F_release \<in> set es
       then \<exists>fs'. fut_get k (fu_valid s) (fu_fs s) = Ends (delivered res, fs') \<and> fs_status fs' = Retrieved
     else fut_get k (fu_valid s) (fu_fs s) = Blocks"
proof -
  note i = inv [unfolded fut_inv_def]
  consider (broken) "F_detach \<in> set es" | (again) "F_detach \<notin> set es" "\<exists>e\<in>set es. was_get e"
    | (first) "F_detach \<notin> set es" "\<not> (\<exists>e\<in>set es. was_get e)" "F_release \<in> set es"
    | (early) "F_detach \<notin> set es" "\<not> (\<exists>e\<in>set es. was_get e)" "F_release \<notin> set es" by blast
  then show ?thesis
  proof cases
    case broken
    then have "\<not> fu_valid s" using i by blast
    with broken show ?thesis by (simp add: fut_get_def fut_wait_def)
  next
    case again
    then have "fu_valid s" "fs_status (fu_fs s) = Retrieved" using i by blast+
    with again show ?thesis by (simp add: fut_get_def fut_wait_def)
  next
    case first
    then have s: "fu_valid s" "fs_status (fu_fs s) \<noteq> Retrieved" "fu_root s = R_finished" using i by blast+
    then have "ev_abs k True (fs_result (fu_fs s)) = Some (res_abs res)" using i by (metis root_pc.distinct(3))
    moreover have "0 < fs_sem (fu_fs s)" if "fs_status (fu_fs s) = No_wait"
      using that s alive i by (metis zero_less_one)
    ultimately show ?thesis using fut_get_ready [OF ok, of "fu_fs s"] s first by simp
  next
    case early
    then have "fu_valid s" "fs_sem (fu_fs s) = 0" "fs_status (fu_fs s) = No_wait" using i by blast+
    with early show ?thesis by (simp add: fut_get_def fut_wait_def)
  qed
qed

lemma fut_step_inv:
  assumes ok: "res_ok k res" and step: "fut_step k res s e s'" and inv: "fut_inv k res es s"
  shows "fut_inv k res (es @ [e]) s'"
  using step
proof (cases rule: fut_step.cases)
  case (fu_store o')
  with root_store_ok [OF ok, of "fs_result (fu_fs s)"] inv show ?thesis
    by (auto simp: fut_inv_def was_get_def simp del: ev_abs.simps)
next
  case fu_release
  with inv show ?thesis by (auto simp: fut_inv_def was_get_def simp del: ev_abs.simps)
next
  case (fu_wait r fs)
  from fu_wait(4) consider "fs = fu_fs s"
    | "fs = (fu_fs s)\<lparr>fs_sem := fs_sem (fu_fs s) - 1, fs_status := Fut_ready\<rparr>"
      "fs_status (fu_fs s) = No_wait" "0 < fs_sem (fu_fs s)"
    by (auto simp: fut_wait_def split: if_splits)
  then show ?thesis
  proof cases
    case 1
    with fu_wait(1,2) inv show ?thesis by (simp add: fut_inv_def was_get_def del: ev_abs.simps)
  next
    case 2
    then have "fu_root s = R_finished" using fut_inv_finished [OF inv] by blast
    with 2 fu_wait(1,2) inv show ?thesis by (simp add: fut_inv_def was_get_def del: ev_abs.simps)
  qed
next
  case (fu_get r fs)
  from fut_get_cases [OF ok inv fu_get(3)] fu_get(4) have
    "F_detach \<in> set es \<and> fs = fu_fs s \<or> F_detach \<notin> set es \<and> (\<exists>e\<in>set es. was_get e) \<and> fs = fu_fs s \<or>
     F_detach \<notin> set es \<and> F_release \<in> set es \<and> fs_status fs = Retrieved"
    by (auto split: if_splits)
  with fu_get inv show ?thesis
    by (auto simp: fut_inv_def was_get_def simp del: ev_abs.simps)
next
  case fu_detach
  with inv show ?thesis by (auto simp: fut_inv_def was_get_def simp del: ev_abs.simps)
next
  case (fu_destroy fs)
  from fu_destroy(4) consider "fs = fu_fs s"
    | "fs = (fu_fs s)\<lparr>fs_sem := fs_sem (fu_fs s) - 1\<rparr>" "0 < fs_sem (fu_fs s)"
    by (auto simp: fut_destroy_def split: if_splits)
  then show ?thesis
  proof cases
    case 1
    with fu_destroy(1,2) inv show ?thesis by (simp add: fut_inv_def was_get_def del: ev_abs.simps)
  next
    case 2
    then have "fu_root s = R_finished" using fut_inv_finished [OF inv] by blast
    with 2 fu_destroy(1,2) inv show ?thesis by (simp add: fut_inv_def was_get_def del: ev_abs.simps)
  qed
qed

lemma fut_run_inv:
  assumes "fut_run k res s es t" "s = fut_start k" "res_ok k res"
  shows "fut_inv k res es t"
  using assms
proof (induction rule: fut_run.induct)
  case (fut_nil s)
  have "ev_abs k True (ev_new k True) = Some Nothing" by (rule ev_abs_new) (simp add: ev_valid_def)
  with fut_nil show ?case by (simp add: fut_inv_def fut_start_def fs_new_def del: ev_abs.simps)
next
  case (fut_snoc s es t e u)
  then show ?case using fut_step_inv by blast
qed

section \<open>Properties\<close>

text \<open>
  Property C6. A future delivers its task's outcome exactly once and never too early: in every
  interleaving of the owner's calls with the root task, \<open>get\<close> never fails an assertion or reads a
  result that is not there; the first \<open>get\<close> returns the task's value or rethrows its exception, and
  only after the task has finished; a later one throws \<open>empty_future\<close>, one on a detached future
  \<open>broken_future\<close>; the destructor of a future that is not detached returns only after the task has
  finished; and once the task has finished no call blocks.
\<close>

theorem future_delivers_once:
  assumes "fut_run k res (fut_start k) es s" "res_ok k res" "fu_alive s"
  shows "fut_get k (fu_valid s) (fu_fs s) \<noteq> Fails \<and>
     (\<forall>r u. fut_step k res s (F_get r) u \<longrightarrow>
        r = (if F_detach \<in> set es then Inl Broken_future
             else if \<exists>e\<in>set es. was_get e then Inl Empty_future else delivered res) \<and>
        (F_detach \<in> set es \<or> F_release \<in> set es)) \<and>
     (\<forall>u. fut_step k res s F_destroy u \<longrightarrow> F_detach \<in> set es \<or> F_release \<in> set es) \<and>
     (F_release \<in> set es \<longrightarrow> fut_get k (fu_valid s) (fu_fs s) \<noteq> Blocks \<and>
        fut_wait (fu_valid s) (fu_fs s) \<noteq> Blocks \<and> fut_destroy (fu_valid s) (fu_fs s) \<noteq> Blocks)"
proof (intro conjI allI impI)
  from fut_run_inv [OF assms(1) refl assms(2)] have inv: "fut_inv k res es s" .
  note i = inv [unfolded fut_inv_def] and g = fut_get_cases [OF assms(2) inv assms(3)]
  show "fut_get k (fu_valid s) (fu_fs s) \<noteq> Fails" using g by (auto split: if_splits)
  {
    fix r u assume "fut_step k res s (F_get r) u"
    then obtain fs where get: "fut_get k (fu_valid s) (fu_fs s) = Ends (r, fs)" by (cases rule: fut_step.cases) auto
    with g show "r = (if F_detach \<in> set es then Inl Broken_future
             else if \<exists>e\<in>set es. was_get e then Inl Empty_future else delivered res)"
      by (auto split: if_splits)
    have "F_release \<in> set es" if "F_detach \<notin> set es"
    proof (rule ccontr)
      assume no: "F_release \<notin> set es"
      then have "fs_status (fu_fs s) = No_wait \<and> fs_sem (fu_fs s) = 0 \<and> fu_valid s" using i that by blast
      with get show False by (simp add: fut_get_def fut_wait_def)
    qed
    then show "F_detach \<in> set es \<or> F_release \<in> set es" by blast
  }
  {
    fix u assume "fut_step k res s F_destroy u"
    then have "fut_destroy (fu_valid s) (fu_fs s) \<noteq> Blocks" by (cases rule: fut_step.cases) auto
    then show "F_detach \<in> set es \<or> F_release \<in> set es"
      using i by (auto simp: fut_destroy_def simp del: ev_abs.simps split: if_splits)
  }
  assume rel: "F_release \<in> set es"
  then have "0 < fs_sem (fu_fs s)" if "fs_status (fu_fs s) = No_wait"
    using that i assms(3) by (metis zero_less_one)
  then show "fut_wait (fu_valid s) (fu_fs s) \<noteq> Blocks" "fut_destroy (fu_valid s) (fu_fs s) \<noteq> Blocks"
    by (auto simp: fut_wait_def fut_destroy_def)
  show "fut_get k (fu_valid s) (fu_fs s) \<noteq> Blocks" using g rel by (auto split: if_splits)
qed

definition fut_demo :: "nat \<Rightarrow> root_pc \<Rightarrow> nat fut_sys" where
  "fut_demo n p = \<lparr>fu_fs = \<lparr>fs_result = \<lparr>ev_member = M_value 7, ev_flag = Some S_value\<rparr>, fs_sem = n, fs_status = No_wait\<rparr>,
      fu_valid = True, fu_alive = True, fu_root = p\<rparr>"

lemma fut_demo_steps:
  "fut_step K_val (T_value 7) (fut_start K_val) F_store (fut_demo 0 R_stored)"
  "fut_step K_val (T_value 7) (fut_demo 0 R_stored) F_release (fut_demo 1 R_finished)"
proof -
  let ?o = "\<lparr>ev_member = M_value (7::nat), ev_flag = Some S_value\<rparr>"
  have 1: "root_store K_val (T_value 7) (fs_result (fu_fs (fut_start K_val))) = Some ?o"
    by (simp add: root_store_def fut_start_def fs_new_def ev_new_def ev_defs)
  show "fut_step K_val (T_value 7) (fut_start K_val) F_store (fut_demo 0 R_stored)"
    using fut_step.fu_store [OF _ 1] by (simp add: fut_demo_def fut_start_def fs_new_def)
  show "fut_step K_val (T_value 7) (fut_demo 0 R_stored) F_release (fut_demo 1 R_finished)"
    using fut_step.fu_release [of "fut_demo 0 R_stored" K_val "T_value 7"] by (simp add: fut_demo_def)
qed

lemma fut_demo_run: "fut_run K_val (T_value 7) (fut_start K_val) [F_store, F_release] (fut_demo 1 R_finished)"
  using fut_snoc [OF fut_snoc [OF fut_nil fut_demo_steps(1)] fut_demo_steps(2)] by simp

theorem future_delivers_once_witness:
  "fut_get K_val True \<lparr>fs_result = \<lparr>ev_member = M_value (7::nat), ev_flag = Some S_value\<rparr>, fs_sem = 1, fs_status = No_wait\<rparr>
     \<noteq> Blocks \<and>
   fut_get K_val True \<lparr>fs_result = \<lparr>ev_member = M_value (7::nat), ev_flag = Some S_value\<rparr>, fs_sem = 1, fs_status = No_wait\<rparr>
     \<noteq> Fails"
  using future_delivers_once [OF fut_demo_run] by (simp add: res_ok_def fut_demo_def)

end
