(* ===== verification/Invocation.thy ===== *)
theory Invocation
  imports Awaitables Sync_Wait
begin

text \<open>
  How a task invokes another one: \<open>core/tag.hpp\<close> (tags and modifiers), \<open>core/impl/combinate.hpp\<close> (the
  call that creates the child and sets its return address), \<open>await_transform\<close> of \<open>promise_base\<close>
  (\<open>core/impl/promise.hpp\<close>), which picks the awaitable for a tag and a modifier, and \<open>core/just.hpp\<close>.
  The pieces of the other theories come together here: a child's frame is allocated on the
  segmented stack, its outcome goes to a \<open>try_eventually\<close> or to the parent's frame, and its end
  gives the stack and control back to the parent.

  A body is what the child's coroutine does between its start and its end: it maps the address of
  the child and the state to the outcome and the new state.
\<close>

section \<open>Creating a child\<close>

datatype modifier = Mod_none | Mod_sync | Mod_sync_outside | Mod_eager_throw | Mod_eager_throw_outside

fun valid_modifier :: "modifier \<Rightarrow> tag \<Rightarrow> bool" where
  "valid_modifier Mod_none tg = True"
| "valid_modifier Mod_sync tg = (tg = Tag_fork)"
| "valid_modifier Mod_sync_outside tg = (tg = Tag_fork)"
| "valid_modifier Mod_eager_throw tg = (tg = Tag_call)"
| "valid_modifier Mod_eager_throw_outside tg = (tg = Tag_call)"

text \<open>
  \<open>y_combinate::operator()\<close>. \<open>ret\<close> is the return address, \<open>None\<close> for \<open>discard_t\<close>; \<open>rets\<close> holds the
  return address stored in each promise.
\<close>

definition y_combinate :: "('m \<Rightarrow> u64 \<Rightarrow> (nat \<times> 'm) option) \<Rightarrow> ('m \<Rightarrow> nat \<Rightarrow> 'm) \<Rightarrow> u64 \<Rightarrow> 'p option
    \<Rightarrow> ('e, 'm) world \<Rightarrow> (nat \<rightharpoonup> 'p) \<Rightarrow> (('e throw + nat) \<times> ('e, 'm) world \<times> (nat \<rightharpoonup> 'p)) option" where
  "y_combinate malloc free sz ret w rets = do {
     (r, w1) \<leftarrow> promise_new malloc free sz w;
     Some (r, w1, case (r, ret) of (Inr child, Some p) \<Rightarrow> rets(child \<mapsto> p) | _ \<Rightarrow> rets) }"

section \<open>Awaitables for a tag and a modifier\<close>

text \<open>The awaitables with their members: the child, the awaiting task, the number of steals before.\<close>

datatype awaitable =
    A_call nat
  | A_eager_call region nat nat
  | A_fork nat nat
  | A_sync_fork bool region nat nat u16

definition set_parent_of :: "nat \<Rightarrow> nat \<Rightarrow> ('e, 'm) world \<Rightarrow> ('e, 'm) world option" where
  "set_parent_of self child w = do {
     cf \<leftarrow> w_frames w child;
     cf' \<leftarrow> set_parent (Some self) cf;
     Some (set_frame child cf' w) }"

text \<open>\<open>throwing\<close> tells whether the return address can stash an exception. \<open>None\<close>: no such overload.\<close>

definition await_transform :: "tag \<Rightarrow> modifier \<Rightarrow> bool \<Rightarrow> nat \<Rightarrow> nat \<Rightarrow> ('e, 'm) world \<Rightarrow> (awaitable \<times> ('e, 'm) world) option" where
  "await_transform tg md throwing self child w = do {
     w1 \<leftarrow> set_parent_of self child w;
     f \<leftarrow> w_frames w1 self;
     (case tg of
        Tag_call \<Rightarrow>
          Some (if throwing \<and> md = Mod_eager_throw then A_eager_call Unknown child self
                else if throwing \<and> md = Mod_eager_throw_outside then A_eager_call Outside child self
                else A_call child, w1)
      | Tag_fork \<Rightarrow>
          (if md = Mod_none then Some (A_fork child self, w1)
           else if md = Mod_sync then Some (A_sync_fork throwing Unknown child self (load_steals f), w1)
           else if md = Mod_sync_outside then Some (A_sync_fork throwing Opening_fork child self (load_steals f), w1)
           else None)
      | Tag_root \<Rightarrow> None) }"

definition await_suspend :: "(int \<Rightarrow> bool) \<Rightarrow> ('m \<Rightarrow> nat \<Rightarrow> 'm) \<Rightarrow> awaitable \<Rightarrow> ('e, 'm) world
    \<Rightarrow> (('e throw + handle) \<times> ('e, 'm) world) option" where
  "await_suspend alloc free aw w = (case aw of
     A_call child \<Rightarrow> map_option (apfst Inr) (call_await_suspend child w)
   | A_eager_call r child self \<Rightarrow> map_option (apfst Inr) (call_await_suspend child w)
   | A_fork child self \<Rightarrow> fork_await_suspend alloc free self child w
   | A_sync_fork th r child self pre \<Rightarrow> fork_await_suspend alloc free self child w)"

text \<open>The value of \<open>co_await\<close>: a boolean for a synchronous fork, \<open>None\<close> for void.\<close>

definition await_resume :: "awaitable \<Rightarrow> ('e, 'm) world \<Rightarrow> (('e throw + bool option) \<times> ('e, 'm) world) option" where
  "await_resume aw w = (case aw of
     A_call child \<Rightarrow> Some (Inr None, w)
   | A_eager_call r child self \<Rightarrow>
       map_option (apfst (map_sum id (\<lambda>_. None))) (eager_call_await_resume r self w)
   | A_fork child self \<Rightarrow> Some (Inr None, w)
   | A_sync_fork th r child self pre \<Rightarrow>
       map_option (apfst (map_sum id Some)) (sync_fork_await_resume th r self pre w))"

section \<open>The end of a child\<close>

text \<open>
  The value is stored (\<open>store\<close>) or the exception handed on, then the final suspension point.  The
  result starts with the coroutine that runs next.
\<close>

definition child_ends :: "('m \<Rightarrow> u64 \<Rightarrow> (nat \<times> 'm) option) \<Rightarrow> ('m \<Rightarrow> nat \<Rightarrow> 'm) \<Rightarrow> tag \<Rightarrow> (nat \<Rightarrow> 'r \<Rightarrow> 'r) option
    \<Rightarrow> ('v root_result \<Rightarrow> 'r \<Rightarrow> 'r) \<Rightarrow> nat \<Rightarrow> 'v root_result \<Rightarrow> (nat, 'm) world \<Rightarrow> 'r \<Rightarrow> (nat \<Rightarrow> nat)
    \<Rightarrow> (handle \<times> (nat, 'm) world \<times> 'r \<times> (nat \<Rightarrow> nat)) option" where
  "child_ends malloc free tg stash store child res w ret sems = do {
     (w1, ret1) \<leftarrow> (case res of T_throws e \<Rightarrow> unhandled_exception stash child e w ret | _ \<Rightarrow> Some (w, store res ret));
     final_suspend child w1;
     (h, w2, sems') \<leftarrow> final_awaitable malloc free tg child w1 sems;
     Some (h, w2, ret1, sems') }"

section \<open>\<open>just\<close>\<close>

text \<open>\<open>just_awaitable::await_resume\<close>; \<open>None\<close> where a member that is not there would be read.\<close>

definition just_await_resume :: "ev_kind \<Rightarrow> 'v eventually \<Rightarrow> (nat + 'v option) option" where
  "just_await_resume k ret = do {
     x \<leftarrow> ev_has_exception k True ret;
     (if x then do { e \<leftarrow> ev_exception k True ret; n \<leftarrow> e; Some (Inl n) }
      else if k = K_void then Some (Inr None)
      else do { v \<leftarrow> ev_deref k True ret; Some (Inr (Some v)) }) }"

text \<open>
  \<open>co_await just(fun)(args)\<close> for an asynchronous function: the constructor of \<open>just_awaitable\<close> creates
  the child, whose return address is the member \<open>ret\<close>; \<open>await_transform\<close> sets the parent;
  \<open>await_suspend\<close> transfers to the child; when it ends \<open>await_resume\<close> delivers.
\<close>

definition co_await_just :: "('m \<Rightarrow> u64 \<Rightarrow> (nat \<times> 'm) option) \<Rightarrow> ('m \<Rightarrow> nat \<Rightarrow> 'm) \<Rightarrow> u64 \<Rightarrow> ev_kind
    \<Rightarrow> (nat \<Rightarrow> (nat, 'm) world \<Rightarrow> ('v root_result \<times> (nat, 'm) world) option) \<Rightarrow> nat \<Rightarrow> (nat, 'm) world \<Rightarrow> (nat \<Rightarrow> nat)
    \<Rightarrow> (handle \<times> (nat throw + 'v option) \<times> (nat, 'm) world \<times> (nat \<Rightarrow> nat)) option" where
  "co_await_just malloc free sz k body self w sems = do {
     f \<leftarrow> w_frames w self;
     (r, w1, rets) \<leftarrow> y_combinate malloc free sz (Some ()) w Map.empty;
     (case r of
        Inl e \<Rightarrow> Some (Some (fr_self f), Inl e, w1, sems)
      | Inr child \<Rightarrow> do {
          w2 \<leftarrow> set_parent_of self child w1;
          (h, w3) \<leftarrow> call_await_suspend child w2;
          p \<leftarrow> h;
          (res, w4) \<leftarrow> body p w3;
          (h', w5, ret, sems') \<leftarrow> child_ends malloc free Tag_call
             (Some (\<lambda>e ret. ret \<bind> ev_stash_exception k True (Some e)))
             (\<lambda>res ret. ret \<bind> root_store k res) child res w4 (Some (ev_new k True)) sems;
          ret' \<leftarrow> ret;
          x \<leftarrow> just_await_resume k ret';
          Some (h', map_sum Child_exn id x, w5, sems') }) }"

section \<open>\<open>call\<close> with a modifier\<close>

text \<open>\<open>co_await dispatch<tag::call, md>(ret, fun)(args)\<close>; \<open>stash\<close> is there if the return address can stash
  an exception.\<close>

definition co_await_call :: "('m \<Rightarrow> u64 \<Rightarrow> (nat \<times> 'm) option) \<Rightarrow> ('m \<Rightarrow> nat \<Rightarrow> 'm) \<Rightarrow> u64 \<Rightarrow> modifier
    \<Rightarrow> (nat \<Rightarrow> 'r \<Rightarrow> 'r) option \<Rightarrow> ('v root_result \<Rightarrow> 'r \<Rightarrow> 'r)
    \<Rightarrow> (nat \<Rightarrow> (nat, 'm) world \<Rightarrow> ('v root_result \<times> (nat, 'm) world) option) \<Rightarrow> nat \<Rightarrow> (nat, 'm) world \<Rightarrow> 'r \<Rightarrow> (nat \<Rightarrow> nat)
    \<Rightarrow> (handle \<times> (nat throw + bool option) \<times> (nat, 'm) world \<times> 'r \<times> (nat \<Rightarrow> nat)) option" where
  "co_await_call malloc free sz md stash store body self w ret sems = do {
     f \<leftarrow> w_frames w self;
     (r, w1, rets) \<leftarrow> y_combinate malloc free sz (Some ()) w Map.empty;
     (case r of
        Inl e \<Rightarrow> Some (Some (fr_self f), Inl e, w1, ret, sems)
      | Inr child \<Rightarrow> do {
          (aw, w2) \<leftarrow> await_transform Tag_call md (stash \<noteq> None) self child w1;
          (x, w3) \<leftarrow> await_suspend (\<lambda>_. True) free aw w2;
          p \<leftarrow> (case x of Inl e \<Rightarrow> None | Inr h \<Rightarrow> h);
          (res, w4) \<leftarrow> body p w3;
          (h', w5, ret', sems') \<leftarrow> child_ends malloc free Tag_call stash store child res w4 ret sems;
          (y, w6) \<leftarrow> await_resume aw w5;
          Some (h', y, w6, ret', sems') }) }"

section \<open>\<open>fork\<close>\<close>

text \<open>
  \<open>co_await dispatch<tag::fork, md>(ret, fun)(args)\<close> on the worker that forks, up to the end of the
  child.  The result has the coroutine that this worker runs next and the awaitable, whose
  \<open>await_resume\<close> is called by whoever resumes the parent, or the exception of a failed allocation,
  which is thrown into the parent.  \<open>alloc\<close>: whether the deque can grow.
\<close>

definition co_await_fork :: "(int \<Rightarrow> bool) \<Rightarrow> ('m \<Rightarrow> u64 \<Rightarrow> (nat \<times> 'm) option) \<Rightarrow> ('m \<Rightarrow> nat \<Rightarrow> 'm) \<Rightarrow> u64 \<Rightarrow> modifier
    \<Rightarrow> (nat \<Rightarrow> 'r \<Rightarrow> 'r) option \<Rightarrow> ('v root_result \<Rightarrow> 'r \<Rightarrow> 'r)
    \<Rightarrow> (nat \<Rightarrow> (nat, 'm) world \<Rightarrow> ('v root_result \<times> (nat, 'm) world) option) \<Rightarrow> nat \<Rightarrow> (nat, 'm) world \<Rightarrow> 'r \<Rightarrow> (nat \<Rightarrow> nat)
    \<Rightarrow> (handle \<times> (nat throw + awaitable) \<times> (nat, 'm) world \<times> 'r \<times> (nat \<Rightarrow> nat)) option" where
  "co_await_fork alloc malloc free sz md stash store body self w ret sems = do {
     f \<leftarrow> w_frames w self;
     (r, w1, rets) \<leftarrow> y_combinate malloc free sz (Some ()) w Map.empty;
     (case r of
        Inl e \<Rightarrow> Some (Some (fr_self f), Inl e, w1, ret, sems)
      | Inr child \<Rightarrow> do {
          (aw, w2) \<leftarrow> await_transform Tag_fork md (stash \<noteq> None) self child w1;
          (x, w3) \<leftarrow> await_suspend alloc free aw w2;
          (case x of
             Inl e \<Rightarrow> Some (Some (fr_self f), Inl e, w3, ret, sems)
           | Inr h \<Rightarrow> do {
               p \<leftarrow> h;
               (res, w4) \<leftarrow> body p w3;
               (h', w5, ret', sems') \<leftarrow> child_ends malloc free Tag_fork stash store child res w4 ret sems;
               Some (h', Inr aw, w5, ret', sems') }) }) }"

section \<open>A call gives the stack back\<close>

text \<open>
  What is asked of a body that ends with \<open>res\<close>: it leaves the stack and the frames as it found
  them (the tasks it called are gone), on whichever worker it ends.
\<close>

definition well_nested :: "('m \<Rightarrow> bool) \<Rightarrow> ('m \<Rightarrow> nat \<rightharpoonup> nat)
    \<Rightarrow> (nat \<Rightarrow> (nat, 'm) world \<Rightarrow> ('v root_result \<times> (nat, 'm) world) option) \<Rightarrow> 'v root_result \<Rightarrow> bool" where
  "well_nested good blocks body res \<longleftrightarrow>
     (\<forall>p w fib c bs ps bss cache. worker_at w fib c \<and> seg_ok good blocks (w_mem w) fib bs ps bss cache \<longrightarrow>
       (\<exists>w' c' cache'. body p w = Some (res, w') \<and> worker_at w' fib c' \<and> w_frames w' = w_frames w \<and>
          seg_ok good blocks (w_mem w') fib bs ps bss cache'))"

lemma well_nestedD:
  assumes "well_nested good blocks body res" "worker_at w fib c" "seg_ok good blocks (w_mem w) fib bs ps bss cache"
  obtains w' c' cache' where "body p w = Some (res, w')" "worker_at w' fib c'" "w_frames w' = w_frames w"
    "seg_ok good blocks (w_mem w') fib bs ps bss cache'"
  using assms unfolding well_nested_def by metis

text \<open>A body none of whose tasks is stolen also leaves the deque as it found it.\<close>

definition unstolen :: "('m \<Rightarrow> bool) \<Rightarrow> ('m \<Rightarrow> nat \<rightharpoonup> nat)
    \<Rightarrow> (nat \<Rightarrow> (nat, 'm) world \<Rightarrow> ('v root_result \<times> (nat, 'm) world) option) \<Rightarrow> 'v root_result \<Rightarrow> bool" where
  "unstolen good blocks body res \<longleftrightarrow>
     (\<forall>p w fib c bs ps bss cache. worker_at w fib c \<and> cl_inv (m_tasks c) \<and> seg_ok good blocks (w_mem w) fib bs ps bss cache \<longrightarrow>
       (\<exists>w' c' cache'. body p w = Some (res, w') \<and> worker_at w' fib c' \<and> w_frames w' = w_frames w \<and>
          seg_ok good blocks (w_mem w') fib bs ps bss cache' \<and>
          cl_inv (m_tasks c') \<and> cl_contents (m_tasks c') = cl_contents (m_tasks c)))"

lemma unstolenD:
  assumes "unstolen good blocks body res" "worker_at w fib c" "cl_inv (m_tasks c)" "seg_ok good blocks (w_mem w) fib bs ps bss cache"
  obtains w' c' cache' where "body p w = Some (res, w')" "worker_at w' fib c'" "w_frames w' = w_frames w"
    "seg_ok good blocks (w_mem w') fib bs ps bss cache'" "cl_inv (m_tasks c')" "cl_contents (m_tasks c') = cl_contents (m_tasks c)"
  using assms unfolding unstolen_def by metis

text \<open>The stack object of a thread lives; a worker's always does.\<close>

definition on_stack :: "(nat, 'm) world \<Rightarrow> nat \<Rightarrow> bool" where
  "on_stack w fib \<longleftrightarrow> has_stack (w_tls w) \<and> thread_stack (w_tls w) = Some fib"

lemma on_stack_simps [simp]:
  "on_stack w fib \<Longrightarrow> tls_stack (w_tls w) = Some fib" "on_stack w fib \<Longrightarrow> on_stack (set_stack q g w) q"
  "on_stack (set_frame p f w) fib = on_stack w fib"
  "on_stack w fib \<Longrightarrow> set_stack fib (w_mem w) w = w" "on_stack w fib \<Longrightarrow> tls_top w = stack_top fib (w_mem w)"
  by (auto simp: on_stack_def tls_stack_def ml_data_def set_stack_def set_frame_def tls_top_def)

lemma worker_on_stack [intro]: "worker_at w fib c \<Longrightarrow> on_stack w fib"
  by (simp add: worker_at_def on_stack_def)

text \<open>A child that has left the stack as it was at its start can be destroyed, which undoes its creation.\<close>

lemma child_destroyed:
  assumes al: "alloc_ok good blocks malloc free" and w: "on_stack w fib'"
    and push: "pushed (child, n) fib bs ps bss fib' bs' ps' bss'" and n: "n mod 16 = 0"
    and old: "seg_ok good blocks g0 fib bs ps bss cache0" and seg: "seg_ok good blocks (w_mem w) fib' bs' ps' bss' cache"
    and cf: "w_frames w child = Some cf" "fr_stacklet cf = fib'" "fr_self cf = child"
  shows "\<exists>g cache'. coro_destroy free child w = Some ((set_stack fib g w)\<lparr>w_frames := (w_frames w)(child := None)\<rparr>) \<and>
     seg_ok good blocks g fib bs ps bss cache'"
proof -
  from stack_deallocate_pushed [OF al push old seg n] obtain g cache' where
    g: "stack_deallocate free child fib' (w_mem w) = Some (fib, g)" "seg_ok good blocks g fib bs ps bss cache'" by blast
  from seg_ok_is_top [OF seg] have top: "tls_top w = Some fib'" using w by (auto simp: stack_top_def)
  have "coro_destroy free child w = Some ((set_stack fib g w)\<lparr>w_frames := (w_frames w)(child := None)\<rparr>)"
    using w cf top g(1) by (simp add: coro_destroy_def)
  with g(2) show ?thesis by blast
qed

abbreviation child_frame :: "nat \<Rightarrow> nat \<Rightarrow> nat \<Rightarrow> nat frame" where
  "child_frame self child fib \<equiv> (frame_new child fib)\<lparr>m_link := Parent self\<rparr>"

lemma child_frame_simps [simp]:
  "fr_stacklet (child_frame self child fib) = fib" "fr_self (child_frame self child fib) = child"
  "fr_parent (child_frame self child fib) = Some self"
  by (simp_all add: fr_stacklet_def fr_self_def fr_parent_def frame_new_def)

lemma child_may_end: "w_frames w child = Some (child_frame self child fib) \<Longrightarrow> final_suspend child w = Some ()"
  by (simp add: final_suspend_def frame_new_def load_steals_def load_joins_def unsafe_has_exception_def)

lemma call_ends:
  assumes al: "alloc_ok good blocks malloc free" and w: "worker_at w fib' c"
    and push: "pushed (child, n) fib bs ps bss fib' bs' ps' bss'" and n: "n mod 16 = 0"
    and old: "seg_ok good blocks g0 fib bs ps bss cache0" and seg: "seg_ok good blocks (w_mem w) fib' bs' ps' bss' cache"
    and cf: "w_frames w child = Some (child_frame self child fib')"
    and f: "w_frames w self = Some f" "self \<noteq> child"
  shows "\<exists>w' cache'. final_suspend child w = Some () \<and>
     final_awaitable malloc free Tag_call child w sems = Some (Some (fr_self f), w', sems) \<and>
     worker_at w' fib c \<and> w_frames w' = (w_frames w)(child := None) \<and>
     seg_ok good blocks (w_mem w') fib bs ps bss cache'"
proof -
  from child_destroyed [OF al worker_on_stack [OF w] push n old seg cf] obtain g cache' where
    g: "coro_destroy free child w = Some ((set_stack fib g w)\<lparr>w_frames := (w_frames w)(child := None)\<rparr>)"
      "seg_ok good blocks g fib bs ps bss cache'" by auto
  let ?w = "(set_stack fib g w)\<lparr>w_frames := (w_frames w)(child := None)\<rparr>"
  have "worker_at ?w fib c" using w by (simp add: worker_at_def set_stack_def)
  moreover have "final_awaitable malloc free Tag_call child w sems = Some (Some (fr_self f), ?w, sems)"
    using cf f g(1) by (simp add: final_awaitable_def)
  ultimately show ?thesis using g(2) child_may_end [OF cf] by (intro exI [of _ ?w] exI [of _ cache']) simp
qed

text \<open>Creating a child: the allocation fails and nothing has changed, or there is a new frame on the stack.\<close>

lemma promise_new_ok:
  assumes al: "alloc_ok good blocks malloc free" and w: "on_stack w fib"
    and seg: "seg_ok good blocks (w_mem w) fib bs ps bss cache" and sz: "unat sz \<le> 2 ^ 62"
  shows "promise_new malloc free sz w = Some (Inl (Lib_exn Bad_alloc), w) \<or>
    (\<exists>child fib' g bs' ps' bss' cache'. stack_allocate malloc free sz fib (w_mem w) = Some (Inr child, fib', g) \<and>
       promise_new malloc free sz w = Some (Inr child, set_frame child (frame_new child fib') (set_stack fib' g w)) \<and>
       seg_ok good blocks g fib' bs' ps' bss' cache' \<and>
       pushed (child, unat (ext_size sz)) fib bs ps bss fib' bs' ps' bss')"
  using stack_allocate_pushed [OF al seg sz]
proof (elim disjE exE conjE)
  assume fail: "stack_allocate malloc free sz fib (w_mem w) = Some (Inl Bad_alloc, fib, w_mem w)"
  with w show ?thesis by (simp add: promise_new_def)
next
  fix child fib' g bs' ps' bss' cache'
  assume a: "stack_allocate malloc free sz fib (w_mem w) = Some (Inr child, fib', g)"
    "seg_ok good blocks g fib' bs' ps' bss' cache'" "pushed (child, unat (ext_size sz)) fib bs ps bss fib' bs' ps' bss'"
  have "on_stack (set_stack fib' g w) fib'" using w by simp
  then have "tls_top (set_stack fib' g w) = Some fib'"
    using seg_ok_is_top [OF a(2)] by (auto simp: stack_top_def)
  then have "promise_new malloc free sz w = Some (Inr child, set_frame child (frame_new child fib') (set_stack fib' g w))"
    using w a(1) by (simp add: promise_new_def)
  with a show ?thesis by blast
qed

lemma set_parent_of_new:
  "w_frames w child = Some cf \<Longrightarrow> set_parent_of self child w = Some (set_frame child (cf\<lparr>m_link := Parent self\<rparr>) w)"
  by (simp add: set_parent_of_def set_parent_def non_null_def)

text \<open>A child that has been created and whose parent is set.\<close>

lemma child_made:
  assumes al: "alloc_ok good blocks malloc free" and w: "worker_at w fib c"
    and seg: "seg_ok good blocks (w_mem w) fib bs ps bss cache" and sz: "unat sz \<le> 2 ^ 62"
    and f: "w_frames w self = Some f"
    and fresh: "\<forall>a fib' g. stack_allocate malloc free sz fib (w_mem w) = Some (Inr a, fib', g) \<longrightarrow> w_frames w a = None"
  obtains (fails) "promise_new malloc free sz w = Some (Inl (Lib_exn Bad_alloc), w)"
  | (made) child fib' bs' ps' bss' cache' w1 w2 where
      "promise_new malloc free sz w = Some (Inr child, w1)" "set_parent_of self child w1 = Some w2"
      "worker_at w2 fib' c" "w_frames w2 = (w_frames w)(child \<mapsto> child_frame self child fib')" "self \<noteq> child" "w_frames w child = None"
      "seg_ok good blocks (w_mem w2) fib' bs' ps' bss' cache'"
      "pushed (child, unat (ext_size sz)) fib bs ps bss fib' bs' ps' bss'"
  using promise_new_ok [OF al worker_on_stack [OF w] seg sz]
proof (elim disjE exE conjE)
  fix child fib' g bs' ps' bss' cache'
  assume a: "stack_allocate malloc free sz fib (w_mem w) = Some (Inr child, fib', g)"
    and new: "promise_new malloc free sz w = Some (Inr child, set_frame child (frame_new child fib') (set_stack fib' g w))"
    and seg': "seg_ok good blocks g fib' bs' ps' bss' cache'"
    and push: "pushed (child, unat (ext_size sz)) fib bs ps bss fib' bs' ps' bss'"
  let ?w1 = "set_frame child (frame_new child fib') (set_stack fib' g w)"
  let ?w2 = "set_frame child (child_frame self child fib') ?w1"
  have gone: "w_frames w child = None" using fresh a by blast
  with f have ne: "self \<noteq> child" by auto
  have par: "set_parent_of self child ?w1 = Some ?w2" by (rule set_parent_of_new) simp
  have "worker_at ?w2 fib' c" "w_frames ?w2 = (w_frames w)(child \<mapsto> child_frame self child fib')"
    "seg_ok good blocks (w_mem ?w2) fib' bs' ps' bss' cache'" using w seg' by simp_all
  from made [OF new par this(1,2) ne gone this(3) push] show thesis .
qed (rule fails)

text \<open>A child from its creation to the end of its body.\<close>

lemma child_runs:
  assumes al: "alloc_ok good blocks malloc free" and w: "worker_at w fib c"
    and seg: "seg_ok good blocks (w_mem w) fib bs ps bss cache" and sz: "unat sz \<le> 2 ^ 62"
    and f: "w_frames w self = Some f"
    and fresh: "\<forall>a fib' g. stack_allocate malloc free sz fib (w_mem w) = Some (Inr a, fib', g) \<longrightarrow> w_frames w a = None"
    and body: "well_nested good blocks body res"
  obtains (fails) "promise_new malloc free sz w = Some (Inl (Lib_exn Bad_alloc), w)"
  | (runs) child fib' bs' ps' bss' w1 w2 w3 c3 cache3 where
      "promise_new malloc free sz w = Some (Inr child, w1)" "set_parent_of self child w1 = Some w2"
      "call_await_suspend child w2 = Some (Some child, w2)" "body child w2 = Some (res, w3)"
      "worker_at w3 fib' c3" "w_frames w2 self = Some f" "self \<noteq> child" "w_frames w child = None"
      "w_frames w3 = (w_frames w)(child \<mapsto> child_frame self child fib')"
      "seg_ok good blocks (w_mem w3) fib' bs' ps' bss' cache3"
      "pushed (child, unat (ext_size sz)) fib bs ps bss fib' bs' ps' bss'"
proof (cases rule: child_made [OF al w seg sz f fresh, consumes 0, case_names fails made])
  case (made child fib' bs' ps' bss' cache' w1 w2)
  have susp: "call_await_suspend child w2 = Some (Some child, w2)"
    using made(4) by (simp add: call_await_suspend_def)
  from well_nestedD [OF body made(3,7)] obtain w3 c3 cache3 where w3: "body child w2 = Some (res, w3)"
    "worker_at w3 fib' c3" "w_frames w3 = w_frames w2" "seg_ok good blocks (w_mem w3) fib' bs' ps' bss' cache3" by metis
  have "w_frames w2 self = Some f" using f made(4,5) by simp
  moreover have "w_frames w3 = (w_frames w)(child \<mapsto> child_frame self child fib')" using w3(3) made(4) by simp
  ultimately show thesis by (rule runs [OF made(1,2) susp w3(1,2) _ made(5,6) _ w3(4) made(8)])
qed (rule fails)

definition just_outcome :: "'v root_result \<Rightarrow> nat throw + 'v option" where
  "just_outcome res = (case res of T_void \<Rightarrow> Inr None | T_value v \<Rightarrow> Inr (Some v) | T_throws e \<Rightarrow> Inl (Child_exn e))"

lemma just_resume_ok:
  assumes "res_ok k res" "ev_abs k True ret = Some (res_abs res)"
  shows "\<exists>x. just_await_resume k ret = Some x \<and> map_sum Child_exn id x = just_outcome res"
proof -
  have v: "ev_valid k True" by (simp add: ev_valid_def)
  from ev_abs_shape [OF v assms(2)] assms(1) show ?thesis
    by (cases res; cases k)
      (auto simp: just_await_resume_def just_outcome_def res_ok_def res_abs_def ev_defs lf_assert_def split: option.splits)
qed

section \<open>A fork that nobody steals\<close>

text \<open>What a child leaves behind: in the object at its return address, and in its parent's frame.\<close>

fun ret_after :: "(nat \<Rightarrow> 'r \<Rightarrow> 'r) option \<Rightarrow> ('v root_result \<Rightarrow> 'r \<Rightarrow> 'r) \<Rightarrow> 'v root_result \<Rightarrow> 'r \<Rightarrow> 'r" where
  "ret_after None store (T_throws e) ret = ret"
| "ret_after (Some st) store (T_throws e) ret = st e ret"
| "ret_after stash store res ret = store res ret"

fun frame_after :: "(nat \<Rightarrow> 'r \<Rightarrow> 'r) option \<Rightarrow> 'v root_result \<Rightarrow> nat frame \<Rightarrow> nat frame" where
  "frame_after None (T_throws e) f = capture_exception e f"
| "frame_after stash res f = f"

lemma frame_after_simps [simp]:
  "fr_self (frame_after stash res f) = fr_self f" "load_steals (frame_after stash res f) = load_steals f"
  by (cases "(stash, res, f)" rule: frame_after.cases;
      simp add: fr_self_def load_steals_def capture_exception_def Let_def)+

lemma sync_fork_quiet:
  assumes "w_frames v self = Some k" "load_steals k = pre" "throwing \<longrightarrow> pre = 0 \<and> \<not> unsafe_has_exception k"
  shows "sync_fork_await_resume throwing r self pre v = Some (Inr True, v)"
proof -
  have "set_frame self k v = v" using assms(1) by (simp add: set_frame_def fun_upd_idem)
  with assms show ?thesis
    by (simp add: sync_fork_await_resume_def rethrow_into_def unsafe_rethrow_if_exception_def unsafe_has_exception_def lf_assert_def)
qed

definition fork_awaitable :: "modifier \<Rightarrow> bool \<Rightarrow> nat \<Rightarrow> nat \<Rightarrow> u16 \<Rightarrow> awaitable" where
  "fork_awaitable md throwing child self pre = (if md = Mod_none then A_fork child self
     else A_sync_fork throwing (if md = Mod_sync then Unknown else Opening_fork) child self pre)"

lemma fork_awaitable_made:
  assumes "set_parent_of self child w = Some w'" "w_frames w' self = Some f" "valid_modifier md Tag_fork"
  shows "await_transform Tag_fork md throwing self child w = Some (fork_awaitable md throwing child self (load_steals f), w')"
  using assms by (cases md) (simp_all add: await_transform_def fork_awaitable_def)

lemma fork_awaitable_suspends:
  "await_suspend alloc free (fork_awaitable md throwing child self pre) v = fork_await_suspend alloc free self child v"
  by (simp add: await_suspend_def fork_awaitable_def)

lemma fork_awaitable_resumes:
  assumes "w_frames v self = Some k" "load_steals k = pre"
    and "md = Mod_none \<or> \<not> throwing \<or> pre = 0 \<and> \<not> unsafe_has_exception k"
  shows "await_resume (fork_awaitable md throwing child self pre) v = Some (Inr (if md = Mod_none then None else Some True), v)"
proof (cases "md = Mod_none")
  case False
  then have "throwing \<longrightarrow> pre = 0 \<and> \<not> unsafe_has_exception k" using assms(3) by blast
  from sync_fork_quiet [OF assms(1,2) this] False show ?thesis by (simp add: await_resume_def fork_awaitable_def)
qed (simp add: await_resume_def fork_awaitable_def)

text \<open>The end of a forked child whose parent is still on top of the deque.\<close>

lemma fork_ends:
  assumes al: "alloc_ok good blocks malloc free" and w: "worker_at w fib' c"
    and push: "pushed (child, n) fib bs ps bss fib' bs' ps' bss'" and n: "n mod 16 = 0"
    and old: "seg_ok good blocks g0 fib bs ps bss cache0" and seg: "seg_ok good blocks (w_mem w) fib' bs' ps' bss' cache"
    and cf: "w_frames w child = Some (child_frame self child fib')"
    and f: "w_frames w self = Some f" "self \<noteq> child"
    and tasks: "cl_inv (m_tasks c)" "cl_contents (m_tasks c) = xs @ [self]"
  shows "\<exists>w' c' cache'. child_ends malloc free Tag_fork stash store child res w ret sems
       = Some (Some (fr_self f), w', ret_after stash store res ret, sems) \<and>
     w_frames w' = (w_frames w)(child := None, self \<mapsto> frame_after stash res f) \<and>
     worker_at w' fib c' \<and> cl_inv (m_tasks c') \<and> cl_contents (m_tasks c') = xs \<and> seg_ok good blocks (w_mem w') fib bs ps bss cache'"
proof -
  let ?k = "frame_after stash res f"
  let ?v = "if stash = None \<and> (\<exists>e. res = T_throws e) then set_frame self ?k w else w"
  have stored: "(case res of T_throws e \<Rightarrow> unhandled_exception stash child e w ret | _ \<Rightarrow> Some (w, store res ret))
      = Some (?v, ret_after stash store res ret)"
    using cf f by (cases "(stash, store, res, ret)" rule: ret_after.cases) (simp_all add: unhandled_exception_def)
  have v: "worker_at ?v fib' c" "seg_ok good blocks (w_mem ?v) fib' bs' ps' bss' cache"
    "w_frames ?v child = Some (child_frame self child fib')" "w_frames ?v = (w_frames w)(self \<mapsto> ?k)"
    using w seg cf f by (cases stash; cases res; simp add: fun_upd_idem)+
  from child_destroyed [OF al worker_on_stack [OF v(1)] push n old v(2,3)] obtain g cache' where
    g: "coro_destroy free child ?v = Some ((set_stack fib g ?v)\<lparr>w_frames := (w_frames ?v)(child := None)\<rparr>)"
      "seg_ok good blocks g fib bs ps bss cache'" by auto
  let ?u = "(set_stack fib g ?v)\<lparr>w_frames := (w_frames ?v)(child := None)\<rparr>"
  have u: "worker_at ?u fib c" "w_frames ?u self = Some ?k"
    using v(1,4) f(2) by (simp_all add: worker_at_def set_stack_def)
  from final_pops [OF u(1) tasks u(2)] obtain d where d:
    "final_await_suspend malloc free self ?u = Some (Some (fr_self ?k), set_context (c\<lparr>m_tasks := d\<rparr>) ?u)" "cl_inv d" "cl_contents d = xs"
    by blast
  have "final_awaitable malloc free Tag_fork child ?v sems = Some (Some (fr_self f), set_context (c\<lparr>m_tasks := d\<rparr>) ?u, sems)"
    unfolding final_awaitable_def using v(3) g(1) d(1) by simp
  then have "child_ends malloc free Tag_fork stash store child res w ret sems
      = Some (Some (fr_self f), set_context (c\<lparr>m_tasks := d\<rparr>) ?u, ret_after stash store res ret, sems)"
    using stored child_may_end [OF v(3)] by (simp add: child_ends_def)
  moreover have "w_frames (set_context (c\<lparr>m_tasks := d\<rparr>) ?u) = (w_frames w)(child := None, self \<mapsto> ?k)"
    using v(4) f(2) by (simp add: fun_upd_twist)
  moreover have "w_mem (set_context (c\<lparr>m_tasks := d\<rparr>) ?u) = g" by simp
  ultimately show ?thesis using d(2,3) g(2) worker_at_simps(3) [OF u(1)]
    by (intro exI [of _ "set_context (c\<lparr>m_tasks := d\<rparr>) ?u"] exI [of _ "c\<lparr>m_tasks := d\<rparr>"] exI [of _ cache']) simp
qed

section \<open>Properties\<close>

text \<open>
  Property C11. \<open>co_await just(fun)(args)\<close> is a function call: either the child's frame cannot be
  allocated, \<open>bad_alloc\<close> is thrown and nothing has changed; or the child runs, its frame is
  destroyed, control comes back to the caller with the child's value or its exception, and the
  frames and the stack, down to its stacklets, are as they were, on whichever worker the child
  ended.
\<close>

theorem just_delivers:
  assumes al: "alloc_ok good blocks malloc free" and w: "worker_at w fib c"
    and seg: "seg_ok good blocks (w_mem w) fib bs ps bss cache" and sz: "unat sz \<le> 2 ^ 62"
    and f: "w_frames w self = Some f"
    and fresh: "\<forall>a fib' g. stack_allocate malloc free sz fib (w_mem w) = Some (Inr a, fib', g) \<longrightarrow> w_frames w a = None"
    and body: "well_nested good blocks body res" and res: "res_ok k res"
  shows "co_await_just malloc free sz k body self w sems = Some (Some (fr_self f), Inl (Lib_exn Bad_alloc), w, sems) \<or>
    (\<exists>w' c' cache'. co_await_just malloc free sz k body self w sems = Some (Some (fr_self f), just_outcome res, w', sems) \<and>
       w_frames w' = w_frames w \<and> worker_at w' fib c' \<and> seg_ok good blocks (w_mem w') fib bs ps bss cache')"
proof (cases rule: child_runs [OF al w seg sz f fresh body, consumes 0, case_names fails runs])
  case fails
  with f show ?thesis by (simp add: co_await_just_def y_combinate_def)
next
  case (runs child fib' bs' ps' bss' w1 w2 w3 c3 cache3)
  have "w_frames w3 child = Some (child_frame self child fib')" "w_frames w3 self = Some f"
    using runs(7,9) f by simp_all
  from call_ends [OF al runs(5) runs(11) _ seg runs(10) this runs(7), of sems] ext_size_bounds [OF sz] obtain w5 cache5 where
    w5: "final_suspend child w3 = Some ()" "final_awaitable malloc free Tag_call child w3 sems = Some (Some (fr_self f), w5, sems)"
    "worker_at w5 fib c3" "w_frames w5 = (w_frames w3)(child := None)" "seg_ok good blocks (w_mem w5) fib bs ps bss cache5" by auto
  have frames: "w_frames w5 = w_frames w" using w5(4) runs(8,9) by (auto simp: fun_eq_iff)
  have "ev_abs k True (ev_new k True) = Some Nothing" by (rule ev_abs_new) (simp add: ev_valid_def)
  from root_store_ok [OF res this] obtain ret where ret: "root_store k res (ev_new k True) = Some ret"
    "ev_abs k True ret = Some (res_abs res)" by blast
  from just_resume_ok [OF res ret(2)] obtain x where x: "just_await_resume k ret = Some x"
    "map_sum Child_exn id x = just_outcome res" by blast
  have "child_ends malloc free Tag_call (Some (\<lambda>e ret. ret \<bind> ev_stash_exception k True (Some e)))
      (\<lambda>res ret. ret \<bind> root_store k res) child res w3 (Some (ev_new k True)) sems
    = Some (Some (fr_self f), w5, Some ret, sems)"
    using ret(1) w5(1,2) by (cases res) (simp_all add: child_ends_def unhandled_exception_def root_store_def)
  then have "co_await_just malloc free sz k body self w sems = Some (Some (fr_self f), just_outcome res, w5, sems)"
    using f runs(1-4) x by (simp add: co_await_just_def y_combinate_def)
  with frames w5(3,5) show ?thesis by blast
qed

text \<open>
  Property C20. A fork that nobody steals is a call.  From the \<open>co_await\<close> of the fork on, for every
  modifier: either an allocation, of the child's frame or by the push, fails, \<open>bad_alloc\<close> is thrown
  into the parent and no child is left; or the parent is pushed, the child runs on the same worker,
  its value or exception is stored and its frame destroyed, and the \<open>pop\<close> at its end returns exactly
  the parent, which goes on, with a synchronous fork reporting that the child has completed (unless
  the return address stashes exceptions and the parent was stolen before or has an exception
  pending).  The frames, the worker's stack down to its stacklets, and the deque are as they were,
  but for an exception of the child in the parent's frame.
\<close>

theorem fork_without_theft:
  assumes al: "alloc_ok good blocks malloc free" and w: "worker_at w fib c" and inv: "cl_inv (m_tasks c)"
    and seg: "seg_ok good blocks (w_mem w) fib bs ps bss cache" and sz: "unat sz \<le> 2 ^ 62"
    and f: "w_frames w self = Some f"
    and fresh: "\<forall>a fib' g. stack_allocate malloc free sz fib (w_mem w) = Some (Inr a, fib', g) \<longrightarrow> w_frames w a = None"
    and body: "unstolen good blocks body res" and md: "valid_modifier md Tag_fork"
  shows "\<exists>x w' ret' c' cache'. co_await_fork alloc malloc free sz md stash store body self w ret sems
       = Some (Some (fr_self f), x, w', ret', sems) \<and>
     worker_at w' fib c' \<and> cl_contents (m_tasks c') = cl_contents (m_tasks c) \<and> seg_ok good blocks (w_mem w') fib bs ps bss cache' \<and>
     (case x of
        Inl e \<Rightarrow> e = Lib_exn Bad_alloc \<and> w_frames w' = w_frames w \<and> ret' = ret
      | Inr aw \<Rightarrow> w_frames w' = (w_frames w)(self \<mapsto> frame_after stash res f) \<and> ret' = ret_after stash store res ret \<and>
          (md = Mod_none \<or> stash = None \<or> load_steals f = 0 \<and> \<not> unsafe_has_exception f \<longrightarrow>
             await_resume aw w' = Some (Inr (if md = Mod_none then None else Some True), w')))"
proof (cases rule: child_made [OF al w seg sz f fresh, consumes 0, case_names fails made])
  case fails
  with f w seg show ?thesis by (fastforce simp: co_await_fork_def y_combinate_def)
next
  case (made child fib' bs' ps' bss' cache' w1 w2)
  note n = ext_size_bounds [OF sz] and ne = made(5) and push = made(8)
  have w2: "w_frames w2 child = Some (child_frame self child fib')" "w_frames w2 self = Some f"
    using made(4,5) f by simp_all
  let ?aw = "fork_awaitable md (stash \<noteq> None) child self (load_steals f)"
  note start = f made(1) fork_awaitable_made [OF made(2) w2(2) md, of "stash \<noteq> None"]
  from fork_pushes [OF made(3) inv w2(1), of alloc free self] show ?thesis
  proof (elim disjE exE conjE)
    from child_destroyed [OF al worker_on_stack [OF made(3)] push _ seg made(7) w2(1)] n obtain g2 cache2 where
      g2: "coro_destroy free child w2 = Some ((set_stack fib g2 w2)\<lparr>w_frames := (w_frames w2)(child := None)\<rparr>)"
        "seg_ok good blocks g2 fib bs ps bss cache2" by auto
    let ?v = "(set_stack fib g2 w2)\<lparr>w_frames := (w_frames w2)(child := None)\<rparr>"
    assume "fork_await_suspend alloc free self child w2 = map_option (Pair (Inl (Lib_exn Bad_alloc))) (coro_destroy free child w2)"
    then have "co_await_fork alloc malloc free sz md stash store body self w ret sems
        = Some (Some (fr_self f), Inl (Lib_exn Bad_alloc), ?v, ret, sems)"
      using start g2(1) by (simp add: co_await_fork_def y_combinate_def fork_awaitable_suspends)
    moreover have "worker_at ?v fib c" "w_frames ?v = w_frames w" "w_mem ?v = g2"
      using made(3,4,6) by (auto simp: worker_at_def set_stack_def fun_eq_iff)
    ultimately show ?thesis using g2(2)
      by (intro exI [of _ "Inl (Lib_exn Bad_alloc)"] exI [of _ ?v] exI [of _ ret] exI [of _ c] exI [of _ cache2]) simp
  next
    fix d
    assume fork: "fork_await_suspend alloc free self child w2
        = Some (Inr (Some (fr_self (child_frame self child fib'))), set_context (c\<lparr>m_tasks := d\<rparr>) w2)"
      and d: "cl_inv d" "cl_contents d = cl_contents (m_tasks c) @ [self]"
    let ?w3 = "set_context (c\<lparr>m_tasks := d\<rparr>) w2"
    have w3: "worker_at ?w3 fib' (c\<lparr>m_tasks := d\<rparr>)" "seg_ok good blocks (w_mem ?w3) fib' bs' ps' bss' cache'" "w_frames ?w3 = w_frames w2"
      using made(3,7) by simp_all
    obtain w4 c4 cache4 where w4:
      "body child ?w3 = Some (res, w4)" "worker_at w4 fib' c4" "w_frames w4 = w_frames w2"
      "seg_ok good blocks (w_mem w4) fib' bs' ps' bss' cache4"
      "cl_inv (m_tasks c4)" "cl_contents (m_tasks c4) = cl_contents (m_tasks c) @ [self]"
      by (rule unstolenD [OF body w3(1) _ w3(2), where p = child]) (simp_all add: d)
    from fork_ends [OF al w4(2) push _ seg w4(4) _ _ ne w4(5,6), of f stash store res ret sems] w2 w4(3) n obtain w5 c5 cache5 where
      w5: "child_ends malloc free Tag_fork stash store child res w4 ret sems
          = Some (Some (fr_self f), w5, ret_after stash store res ret, sems)"
        "w_frames w5 = (w_frames w2)(child := None, self \<mapsto> frame_after stash res f)"
        "worker_at w5 fib c5" "cl_contents (m_tasks c5) = cl_contents (m_tasks c)" "seg_ok good blocks (w_mem w5) fib bs ps bss cache5" by auto
    have "co_await_fork alloc malloc free sz md stash store body self w ret sems
        = Some (Some (fr_self f), Inr ?aw, w5, ret_after stash store res ret, sems)"
      using start fork w4(1) w5(1) by (simp add: co_await_fork_def y_combinate_def fork_awaitable_suspends)
    moreover have fr: "w_frames w5 = (w_frames w)(self \<mapsto> frame_after stash res f)"
      using w5(2) made(4,6) by (auto simp: fun_eq_iff)
    moreover have "await_resume ?aw w5 = Some (Inr (if md = Mod_none then None else Some True), w5)"
      if "md = Mod_none \<or> stash = None \<or> load_steals f = 0 \<and> \<not> unsafe_has_exception f"
      using that fr by (intro fork_awaitable_resumes [of w5 self "frame_after stash res f"]) (cases stash; simp)+
    ultimately show ?thesis using w5(3-5)
      by (intro exI [of _ "Inr ?aw"] exI [of _ w5] exI [of _ "ret_after stash store res ret"] exI [of _ c5] exI [of _ cache5]) simp
  qed
qed

text \<open>
  Property C37. A call with the modifier \<open>eager_throw\<close> or \<open>eager_throw_outside\<close>, which is documented
  to rethrow the child's exception, never does: \<open>co_await\<close> of a call whose child throws, outside a
  fork-join scope, resumes normally with every modifier. If the return address cannot stash the
  exception it stays in the caller's frame, and unless the caller happens to join, the assertion at
  its end fails; if it can, only the return object knows of it. For the eager awaitable is chosen
  for return addresses that stash exceptions, whose children leave none in the frame it looks at.
\<close>

theorem eager_throw_swallowed:
  assumes al: "alloc_ok good blocks malloc free" and w: "worker_at w fib c"
    and seg: "seg_ok good blocks (w_mem w) fib bs ps bss cache" and sz: "unat sz \<le> 2 ^ 62"
    and f: "w_frames w self = Some f" "load_steals f = 0" "\<not> unsafe_has_exception f"
    and fresh: "\<forall>a fib' g. stack_allocate malloc free sz fib (w_mem w) = Some (Inr a, fib', g) \<longrightarrow> w_frames w a = None"
    and body: "well_nested good blocks body (T_throws e)" and md: "valid_modifier md Tag_call"
  shows "co_await_call malloc free sz md stash store body self w ret sems
        = Some (Some (fr_self f), Inl (Lib_exn Bad_alloc), w, ret, sems) \<or>
    (\<exists>w' ret'. co_await_call malloc free sz md stash store body self w ret sems
        = Some (Some (fr_self f), Inr None, w', ret', sems) \<and>
       (case stash of None \<Rightarrow> final_suspend self w' = None | Some st \<Rightarrow> ret' = st e ret))"
proof (cases rule: child_runs [OF al w seg sz f(1) fresh body, consumes 0, case_names fails runs])
  case fails
  with f show ?thesis by (simp add: co_await_call_def y_combinate_def)
next
  case (runs child fib' bs' ps' bss' w1 w2 w3 c3 cache3)
  note ne = runs(7)
  obtain aw where aw: "await_transform Tag_call md (stash \<noteq> None) self child w1 = Some (aw, w2)"
    "aw = A_call child \<or> stash \<noteq> None \<and> (\<exists>r. aw = A_eager_call r child self)"
    using runs(2,6) by (simp add: await_transform_def)
  have susp: "await_suspend (\<lambda>_. True) free aw w2 = Some (Inr (Some child), w2)"
    using aw(2) runs(3) by (auto simp: await_suspend_def)
  have fr: "w_frames w3 child = Some (child_frame self child fib')" "w_frames w3 self = Some f"
    using runs(7,9) f by simp_all
  let ?f = "if stash = None then capture_exception e f else f"
  let ?w4 = "if stash = None then set_frame self ?f w3 else w3"
  let ?ret = "case stash of None \<Rightarrow> ret | Some st \<Rightarrow> st e ret"
  have exn: "unhandled_exception stash child e w3 ret = Some (?w4, ?ret)"
    using fr by (cases stash) (simp_all add: unhandled_exception_def fr_parent_def)
  have "worker_at ?w4 fib' c3" "seg_ok good blocks (w_mem ?w4) fib' bs' ps' bss' cache3"
    "w_frames ?w4 child = Some (child_frame self child fib')" "w_frames ?w4 self = Some ?f"
    using runs(5,10) fr ne by simp_all
  from call_ends [OF al this(1) runs(11) _ seg this(2-4) ne, of sems] ext_size_bounds [OF sz] obtain w5 cache5 where
    w5: "final_suspend child ?w4 = Some ()" "final_awaitable malloc free Tag_call child ?w4 sems = Some (Some (fr_self ?f), w5, sems)"
    "w_frames w5 = (w_frames ?w4)(child := None)" by auto
  have self: "fr_self ?f = fr_self f" by (simp add: fr_self_def capture_exception_def Let_def)
  have w5f: "w_frames w5 self = Some ?f" using w5(3) \<open>w_frames ?w4 self = Some ?f\<close> ne by simp
  have ends: "child_ends malloc free Tag_call stash store child (T_throws e) w3 ret sems = Some (Some (fr_self f), w5, ?ret, sems)"
    using exn w5(1,2) self by (simp add: child_ends_def)
  obtain w6 where w6: "await_resume aw w5 = Some (Inr None, w6)" "w_frames w6 self = Some ?f"
  proof (cases "aw = A_call child")
    case True
    with w5f that show ?thesis by (simp add: await_resume_def)
  next
    case False
    then obtain r where r: "aw = A_eager_call r child self" "stash \<noteq> None" using aw(2) by auto
    have "eager_call_await_resume r self w5 = Some (Inr (), set_frame self f w5)"
      using w5f r(2) f(2,3)
      by (simp add: eager_call_await_resume_def rethrow_into_def unsafe_rethrow_if_exception_def unsafe_has_exception_def lf_assert_def)
    with r that [of "set_frame self f w5"] show ?thesis by (auto simp: await_resume_def)
  qed
  have "co_await_call malloc free sz md stash store body self w ret sems = Some (Some (fr_self f), Inr None, w6, ?ret, sems)"
    using f(1) runs(1,4) aw(1) susp ends w6(1) by (simp add: co_await_call_def y_combinate_def)
  moreover have "final_suspend self w6 = None" if "stash = None"
  proof -
    have "unsafe_has_exception ?f" using that f(3) by (simp add: unsafe_has_exception_def capture_exception_def Let_def)
    then show ?thesis using w6(2) by (simp add: final_suspend_def lf_assert_def)
  qed
  ultimately show ?thesis by (cases stash) auto
qed

section \<open>Witnesses\<close>

text \<open>A fresh stack of the bump allocator, a task at address 0 and a child of 64 bytes.\<close>

definition one_stacklet :: "nat \<Rightarrow> (nat \<times> (nat \<rightharpoonup> nat)) smem" where
  "one_stacklet sp = \<lparr>sm_alloc = (4080, [16 \<mapsto> 4048]),
     sm_heap = [16 \<mapsto> \<lparr>st_lo = 64, st_sp = sp, st_hi = 4064, st_prev = None, st_next = None\<rparr>]\<rparr>"

lemma one_stacklet_new:
  "stack_new bump_malloc bump_free \<lparr>sm_alloc = (16, Map.empty), sm_heap = Map.empty\<rparr> = Some (Inr 16, one_stacklet 64)"
  using first_request
  by (simp add: stack_new_def next_stacklet_def bump_malloc_def one_stacklet_def sizeof_stacklet_def fibre_init_size_def Let_def)

lemma one_stacklet_seg: "seg_ok bump_good snd (one_stacklet 64) 16 [] [] [] None"
  using seg_new [OF bump_alloc_ok, of "\<lparr>sm_alloc = (16, Map.empty), sm_heap = Map.empty\<rparr>"] one_stacklet_new
  by (auto simp: bump_good_def)

lemma one_stacklet_alloc:
  "stack_allocate bump_malloc bump_free 64 16 (one_stacklet 64) = Some (Inr 64, 16, one_stacklet 128)"
  by (simp add: stack_allocate_def one_stacklet_def sl_capacity_def sl_unused_def ext_size_def k_new_align_def
      sl_is_top_def)

definition demo_world :: "worker_context \<Rightarrow> (nat, nat \<times> (nat \<rightharpoonup> nat)) world" where
  "demo_world c = \<lparr>w_frames = [0 \<mapsto> frame_new 0 16], w_mem = one_stacklet 64,
     w_tls = \<lparr>has_stack = True, thread_stack = Some 16, has_context = True, thread_context = Some c\<rparr>\<rparr>"

lemma small_frame: "unat (64 :: u64) \<le> 2 ^ 62"
  by simp

lemma demo_facts:
  "worker_at (demo_world c) 16 c" "w_frames (demo_world c) 0 = Some (frame_new 0 16)"
  "seg_ok bump_good snd (w_mem (demo_world c)) 16 [] [] [] None"
  "\<forall>a fib' g. stack_allocate bump_malloc bump_free 64 16 (w_mem (demo_world c)) = Some (Inr a, fib', g) \<longrightarrow>
     w_frames (demo_world c) a = None"
  "\<exists>w. promise_new bump_malloc bump_free 64 (demo_world c) = Some (Inr 64, w)"
  using one_stacklet_seg one_stacklet_alloc
  by (simp_all add: demo_world_def worker_at_def promise_new_def tls_stack_def ml_data_def tls_top_def set_stack_def
      stack_top_def one_stacklet_def sl_is_top_def)

lemma return_well_nested: "well_nested good blocks (\<lambda>p w. Some (res, w)) res"
  unfolding well_nested_def by blast

theorem just_delivers_witness:
  "\<forall>c. \<exists>w'. co_await_just bump_malloc bump_free 64 K_val (\<lambda>p w. Some (T_value (5 :: nat), w)) 0 (demo_world c) (\<lambda>_. 0)
     = Some (Some 0, Inr (Some 5), w', \<lambda>_. 0) \<and> w_frames w' = [0 \<mapsto> frame_new 0 16]"
proof
  fix c :: worker_context
  note d = demo_facts [where c = c]
  have "res_ok K_val (T_value (5 :: nat))" by (simp add: res_ok_def)
  note r = just_delivers [OF bump_alloc_ok d(1,3) small_frame d(2,4) return_well_nested this, where sems = "\<lambda>_. 0"]
  obtain w where new: "promise_new bump_malloc bump_free 64 (demo_world c) = Some (Inr 64, w)" using d(5) by blast
  have "co_await_just bump_malloc bump_free 64 K_val (\<lambda>p w. Some (T_value (5 :: nat), w)) 0 (demo_world c) (\<lambda>_. 0)
      \<noteq> Some (h, Inl (Lib_exn e), w', s)" for h e w' s
    using new d(2)
    by (auto simp: co_await_just_def y_combinate_def map_sum_def split: Option.bind_splits sum.splits)
  with r show "\<exists>w'. co_await_just bump_malloc bump_free 64 K_val (\<lambda>p w. Some (T_value (5 :: nat), w)) 0 (demo_world c) (\<lambda>_. 0)
     = Some (Some 0, Inr (Some 5), w', \<lambda>_. 0) \<and> w_frames w' = [0 \<mapsto> frame_new 0 16]"
    by (auto simp: just_outcome_def d(2) fr_self_def frame_new_def demo_world_def)
qed

theorem fork_without_theft_witness:
  "\<exists>c aw w'. co_await_fork (\<lambda>_. True) bump_malloc bump_free 64 Mod_sync None (\<lambda>res ret. case res of T_value v \<Rightarrow> v | _ \<Rightarrow> ret)
       (\<lambda>p w. Some (T_value 5, w)) 0 (demo_world c) (0 :: nat) (\<lambda>_. 0) = Some (Some 0, Inr aw, w', 5, \<lambda>_. 0)
     \<and> w_frames w' = [0 \<mapsto> frame_new 0 16] \<and> await_resume aw w' = Some (Inr (Some True), w')"
proof -
  from worker_context_new_ok obtain c :: worker_context where c: "cl_inv (m_tasks c)" by blast
  note d = demo_facts [where c = c]
  let ?store = "\<lambda>res ret. case res of T_value v \<Rightarrow> v | _ \<Rightarrow> ret" and ?body = "\<lambda>p w. Some (T_value 5 :: nat root_result, w)"
  let ?run = "co_await_fork (\<lambda>_. True) bump_malloc bump_free 64 Mod_sync None ?store ?body 0 (demo_world c) (0 :: nat) (\<lambda>_. 0)"
  have "unstolen bump_good snd ?body (T_value 5)" unfolding unstolen_def by blast
  note body = this
  have md: "valid_modifier Mod_sync Tag_fork" by simp
  note T = fork_without_theft [OF bump_alloc_ok d(1) c d(3) small_frame d(2,4) body md, where alloc = "\<lambda>_. True"
      and stash = None and store = ?store and ret = 0 and sems = "\<lambda>_. 0"]
  have "\<exists>x w' r. ?run = Some (Some (fr_self (frame_new 0 16 :: nat frame)), x, w', r, \<lambda>_. 0) \<and> (\<forall>aw. x = Inr aw \<longrightarrow>
     w_frames w' = (w_frames (demo_world c))(0 \<mapsto> frame_new 0 16) \<and> r = 5 \<and> await_resume aw w' = Some (Inr (Some True), w'))"
    using T by (elim exE conjE) (intro exI conjI, assumption, clarsimp)
  then obtain x w' r where r: "?run = Some (Some (fr_self (frame_new 0 16 :: nat frame)), x, w', r, \<lambda>_. 0)"
    "\<forall>aw. x = Inr aw \<longrightarrow> w_frames w' = (w_frames (demo_world c))(0 \<mapsto> frame_new 0 16) \<and> r = 5 \<and> await_resume aw w' = Some (Inr (Some True), w')"
    by blast
  have self: "fr_self (frame_new 0 16 :: nat frame) = 0" "w_frames (demo_world c) = [0 \<mapsto> frame_new 0 16]"
    by (simp_all add: fr_self_def frame_new_def demo_world_def)
  from d(5) obtain w1 where new: "promise_new bump_malloc bump_free 64 (demo_world c) = Some (Inr 64, w1)" by blast
  with promise_new_ok [OF bump_alloc_ok worker_on_stack [OF d(1)] d(3) small_frame]
  obtain fib' g where w1: "w1 = set_frame 64 (frame_new 64 fib') (set_stack fib' g (demo_world c))" by auto
  have tls: "tls_context (w_tls w1) = Some c"
    using worker_at_simps(2) [of w1 fib' c] worker_at_simps(4) [OF d(1), of fib' g] unfolding w1 by simp
  from chase_lev_push_outcomes [OF c, of "\<lambda>_. True" 0 0] have "\<exists>e. ctx_push (\<lambda>_. True) (Some 0) c = Some (Inr e)"
    by (auto simp: ctx_push_def non_null_def)
  then have "x \<noteq> Inl e" for e
    using r(1) new tls d(2)
    by (auto simp: co_await_fork_def y_combinate_def await_transform_def set_parent_of_def await_suspend_def fork_await_suspend_def set_frame_def
        Option.bind_eq_Some_conv)
  with r self show ?thesis by (cases x) auto
qed

theorem eager_throw_swallowed_witness:
  "\<forall>c. \<exists>w'. co_await_call bump_malloc bump_free 64 Mod_eager_throw_outside None (\<lambda>res ret. ret)
       (\<lambda>p w. Some (T_throws 3 :: nat root_result, w)) 0 (demo_world c) () (\<lambda>_. 0)
     = Some (Some 0, Inr None, w', (), \<lambda>_. 0) \<and> final_suspend 0 w' = None"
proof
  fix c :: worker_context
  note d = demo_facts [where c = c]
  have clean: "load_steals (frame_new 0 16 :: nat frame) = 0" "\<not> unsafe_has_exception (frame_new 0 16 :: nat frame)"
    "valid_modifier Mod_eager_throw_outside Tag_call"
    by (simp_all add: load_steals_def unsafe_has_exception_def frame_new_def)
  note r = eager_throw_swallowed [OF bump_alloc_ok d(1,3) small_frame d(2) clean(1,2) d(4)
    return_well_nested clean(3), where stash = None and store = "\<lambda>res ret. ret" and ret = "()" and sems = "\<lambda>_. 0" and e = 3]
  obtain w where new: "promise_new bump_malloc bump_free 64 (demo_world c) = Some (Inr 64, w)" using d(5) by blast
  have "co_await_call bump_malloc bump_free 64 Mod_eager_throw_outside None (\<lambda>res ret. ret)
       (\<lambda>p w. Some (T_throws 3 :: nat root_result, w)) 0 (demo_world c) () (\<lambda>_. 0)
      \<noteq> Some (Some 0, Inl (Lib_exn Bad_alloc), demo_world c, (), \<lambda>_. 0)"
    using new d(2)
    by (auto simp: co_await_call_def y_combinate_def await_transform_def await_resume_def split: Option.bind_splits sum.splits)
  with r show "\<exists>w'. co_await_call bump_malloc bump_free 64 Mod_eager_throw_outside None (\<lambda>res ret. ret)
       (\<lambda>p w. Some (T_throws 3 :: nat root_result, w)) 0 (demo_world c) () (\<lambda>_. 0)
     = Some (Some 0, Inr None, w', (), \<lambda>_. 0) \<and> final_suspend 0 w' = None"
    by (auto simp: fr_self_def frame_new_def)
qed

end
