(* ===== verification/Schedule.thy ===== *)
theory Schedule
  imports Invocation
begin

text \<open>
  \<open>schedule\<close> of \<open>core/sync_wait.hpp\<close>: a thread outside the pool gets a stack object for the length of
  the call, creates the root task's coroutine on it, gives the storage up with \<open>release\<close>, so that the
  object now stands for a new, empty stack, and hands the coroutine to the scheduler.  The stack, the
  creation and destruction of the coroutine and the thread-local variables are those of \<open>Seg_Stack\<close>,
  \<open>Awaitables\<close> and \<open>Worker_TLS\<close>.  \<open>make_shared\<close> and \<open>sch\<close> say whether the allocation of the shared
  state and the scheduler's \<open>schedule\<close> throw; \<open>sem\<close> is the address of the semaphore in the shared state.
\<close>

section \<open>The function\<close>

text \<open>What became of the coroutine: it is gone, or never was, or the scheduler has it.\<close>

datatype coro = C_none | C_destroyed | C_submitted nat

datatype sched_exn = Schedule_in_worker | Call_threw "nat throw"

text \<open>\<open>thread_stack->release()\<close>, and the exception if it throws.\<close>

definition release_or_throw :: "('m \<Rightarrow> u64 \<Rightarrow> (nat \<times> 'm) option) \<Rightarrow> ('m \<Rightarrow> nat \<Rightarrow> 'm) \<Rightarrow> (nat, 'm) world
    \<Rightarrow> (exn option \<times> (nat, 'm) world) option" where
  "release_or_throw malloc free w = do {
     fib \<leftarrow> ml_data (thread_stack (w_tls w));
     (r, g) \<leftarrow> stack_release malloc free fib (w_mem w);
     Some (case r of Inl e \<Rightarrow> (Some e, w\<lparr>w_mem := g\<rparr>) | Inr (old, new_top) \<Rightarrow> (None, set_stack new_top g w)) }"

text \<open>The deferred block: end the life of the stack object and lower the flag.\<close>

definition sched_cleanup :: "('m \<Rightarrow> nat \<Rightarrow> 'm) \<Rightarrow> (nat, 'm) world \<Rightarrow> (nat, 'm) world option" where
  "sched_cleanup free w = do {
     fib \<leftarrow> ml_data (thread_stack (w_tls w));
     g \<leftarrow> stack_destroy free fib (w_mem w);
     m \<leftarrow> ml_destroy (thread_stack (w_tls w));
     Some (w\<lparr>w_mem := g, w_tls := (w_tls w)\<lparr>thread_stack := m, has_stack := False\<rparr>\<rparr>) }"

text \<open>
  The statements under the guard.  The local \<open>await\<close> owns the coroutine until its \<open>release\<close>: when a call
  after its creation throws, its destructor destroys the coroutine on the stack the thread has then.
\<close>

definition sched_guarded :: "('m \<Rightarrow> u64 \<Rightarrow> (nat \<times> 'm) option) \<Rightarrow> ('m \<Rightarrow> nat \<Rightarrow> 'm) \<Rightarrow> u64 \<Rightarrow> exn option \<Rightarrow> exn option \<Rightarrow> nat
    \<Rightarrow> (nat, 'm) world \<Rightarrow> ((sched_exn + unit) \<times> coro \<times> (nat, 'm) world) option" where
  "sched_guarded malloc free sz make_shared sch sem w = (case make_shared of
     Some e \<Rightarrow> Some (Inl (Call_threw (Lib_exn e)), C_none, w)
   | None \<Rightarrow> do {
       (r, w1, rets) \<leftarrow> y_combinate malloc free sz (Some ()) w Map.empty;
       (case r of
          Inl e \<Rightarrow> Some (Inl (Call_threw e), C_none, w1)
        | Inr child \<Rightarrow> do {
            f \<leftarrow> w_frames w1 child;
            f' \<leftarrow> set_root_sem (Some sem) f;
            (x, w2) \<leftarrow> release_or_throw malloc free (set_frame child f' w1);
            (case (case x of Some e \<Rightarrow> Some e | None \<Rightarrow> sch) of
               Some e \<Rightarrow> do { w3 \<leftarrow> coro_destroy free child w2; Some (Inl (Call_threw (Lib_exn e)), C_destroyed, w3) }
             | None \<Rightarrow> Some (Inr (), C_submitted child, w2)) }) })"

definition lf_schedule :: "('m \<Rightarrow> u64 \<Rightarrow> (nat \<times> 'm) option) \<Rightarrow> ('m \<Rightarrow> nat \<Rightarrow> 'm) \<Rightarrow> u64 \<Rightarrow> exn option \<Rightarrow> exn option \<Rightarrow> nat
    \<Rightarrow> (nat, 'm) world \<Rightarrow> ((sched_exn + unit) \<times> coro \<times> (nat, 'm) world) option" where
  "lf_schedule malloc free sz make_shared sch sem w =
     (if has_stack (w_tls w) \<or> has_context (w_tls w) then Some (Inl Schedule_in_worker, C_none, w)
      else do {
        (r, g) \<leftarrow> stack_new malloc free (w_mem w);
        (case r of
           Inl e \<Rightarrow> Some (Inl (Call_threw (Lib_exn e)), C_none, w\<lparr>w_mem := g\<rparr>)
         | Inr fib \<Rightarrow> do {
             (x, c, w1) \<leftarrow> sched_guarded malloc free sz make_shared sch sem
               (w\<lparr>w_mem := g, w_tls := (w_tls w)\<lparr>thread_stack := ml_construct fib (thread_stack (w_tls w)), has_stack := True\<rparr>\<rparr>);
             w2 \<leftarrow> sched_cleanup free w1;
             Some (x, c, w2) }) })"

section \<open>Lemmas\<close>

lemma sched_cleanup_ok:
  assumes al: "alloc_ok good blocks malloc free" and w: "on_stack w fib" and seg: "seg_ok good blocks (w_mem w) fib [] [] [] cache"
  shows "\<exists>g. sched_cleanup free w = Some (w\<lparr>w_mem := g, w_tls := (w_tls w)\<lparr>thread_stack := None, has_stack := False\<rparr>\<rparr>)
     \<and> stack_destroy free fib (w_mem w) = Some g"
  using stack_destroy_ok [OF al seg] w by (auto simp: sched_cleanup_def on_stack_def ml_data_def ml_destroy_def)

lemma release_or_throw_ok:
  assumes al: "alloc_ok good blocks malloc free" and w: "on_stack w fib" and good: "good (sm_alloc (w_mem w))"
  shows "release_or_throw malloc free w = Some (Some Bad_alloc, w)
     \<or> (\<exists>q g. stack_new malloc free (w_mem w) = Some (Inr q, g) \<and> release_or_throw malloc free w = Some (None, set_stack q g w)
          \<and> seg_ok good blocks g q [] [] [] None)"
  using seg_new [OF al good] w
  by (auto simp: release_or_throw_def stack_release_def stack_new_def on_stack_def ml_data_def)

abbreviation root_frame :: "nat \<Rightarrow> nat \<Rightarrow> nat \<Rightarrow> nat frame" where
  "root_frame sem child fib \<equiv> (frame_new child fib)\<lparr>m_link := Sem sem\<rparr>"

text \<open>
  The guarded statements on a fresh stack, with a scheduler that does not throw: an exception, and
  the stack is as at the start; or a coroutine on a stack apart from the thread's, which is new.
\<close>

lemma sched_guarded_ok:
  assumes al: "alloc_ok good blocks malloc free" and w: "on_stack w fib" and seg: "seg_ok good blocks (w_mem w) fib [] [] [] None"
    and sz: "unat sz \<le> 2 ^ 62"
    and fresh: "\<And>a fib' g. stack_allocate malloc free sz fib (w_mem w) = Some (Inr a, fib', g) \<Longrightarrow> w_frames w a = None"
  obtains (throws) e c w' cache where
      "\<And>sch. sched_guarded malloc free sz make_shared sch sem w = Some (Inl (Call_threw e), c, w')" "c = C_none \<or> c = C_destroyed"
      "on_stack w' fib" "w_tls w' = w_tls w" "w_frames w' = w_frames w" "seg_ok good blocks (w_mem w') fib [] [] [] cache"
  | (submits) child fib' q w' ps where
      "sched_guarded malloc free sz make_shared None sem w = Some (Inr (), C_submitted child, w')"
      "\<And>e. sched_guarded malloc free sz make_shared (Some e) sem w = None"
      "on_stack w' q" "w_tls w' = (w_tls w)\<lparr>thread_stack := Some q\<rparr>" "w_frames w' = (w_frames w)(child \<mapsto> root_frame sem child fib')"
      "seg_ok good blocks (w_mem w') q [] [] [] None"
      "seg_at good blocks (w_mem w') fib' [(child, unat (ext_size sz))] ps" "q \<notin> ps"
proof (cases make_shared)
  case (Some e)
  show thesis by (rule throws [of "Lib_exn e" C_none w None]) (use Some w seg in \<open>simp_all add: sched_guarded_def\<close>)
next
  case shared: None
  from promise_new_ok [OF al w seg sz] show thesis
  proof (elim disjE exE conjE)
    assume fail: "promise_new malloc free sz w = Some (Inl (Lib_exn Bad_alloc), w)"
    show thesis
      by (rule throws [of "Lib_exn Bad_alloc" C_none w None])
        (use shared fail w seg in \<open>simp_all add: sched_guarded_def y_combinate_def\<close>)
  next
    fix child fib' g bs' ps' bss' cache'
    assume a: "stack_allocate malloc free sz fib (w_mem w) = Some (Inr child, fib', g)"
      and new: "promise_new malloc free sz w = Some (Inr child, set_frame child (frame_new child fib') (set_stack fib' g w))"
      and seg': "seg_ok good blocks g fib' bs' ps' bss' cache'"
      and push: "pushed (child, unat (ext_size sz)) fib [] [] [] fib' bs' ps' bss'"
    let ?w = "set_frame child (root_frame sem child fib') (set_frame child (frame_new child fib') (set_stack fib' g w))"
    have cf: "w_frames ?w child = Some (root_frame sem child fib')" "fr_stacklet (root_frame sem child fib') = fib'"
      "fr_self (root_frame sem child fib') = child" by (simp_all add: fr_stacklet_def fr_self_def frame_new_def)
    have on: "on_stack ?w fib'" and segw: "seg_ok good blocks (w_mem ?w) fib' bs' ps' bss' cache'" using w seg' by simp_all
    have gone: "w_frames w child = None" by (rule fresh [OF a])
    have step: "sched_guarded malloc free sz make_shared sch sem w = do {
        (x, w2) \<leftarrow> release_or_throw malloc free ?w;
        (case (case x of Some e \<Rightarrow> Some e | None \<Rightarrow> sch) of
           Some e \<Rightarrow> do { w3 \<leftarrow> coro_destroy free child w2; Some (Inl (Call_threw (Lib_exn e)), C_destroyed, w3) }
         | None \<Rightarrow> Some (Inr (), C_submitted child, w2)) }" for sch
      using shared new by (simp add: sched_guarded_def y_combinate_def set_root_sem_def non_null_def)
    have tls: "w_tls ?w = (w_tls w)\<lparr>thread_stack := Some fib'\<rparr>" by (simp add: set_frame_def set_stack_def)
    have live: "seg_at good blocks (w_mem ?w) fib' [(child, unat (ext_size sz))] (set (fib' # ps') \<union> set_option cache')"
      using segw push unfolding seg_at_def pushed_def by fastforce
    from release_or_throw_ok [OF al on seg_at_top(3) [OF live]] show thesis
    proof (elim disjE exE conjE)
      assume rel: "release_or_throw malloc free ?w = Some (Some Bad_alloc, ?w)"
      from child_destroyed [OF al on push _ seg segw cf] ext_size_bounds [OF sz] obtain g2 cache2 where
        g2: "coro_destroy free child ?w = Some ((set_stack fib g2 ?w)\<lparr>w_frames := (w_frames ?w)(child := None)\<rparr>)"
          "seg_ok good blocks g2 fib [] [] [] cache2" by auto
      let ?v = "(set_stack fib g2 ?w)\<lparr>w_frames := (w_frames ?w)(child := None)\<rparr>"
      have "on_stack ?v fib" "w_tls ?v = w_tls w" "w_frames ?v = w_frames w" "w_mem ?v = g2"
        using w gone by (auto simp: on_stack_def set_stack_def set_frame_def fun_eq_iff)
      with g2 rel step show thesis by (intro throws [of "Lib_exn Bad_alloc" C_destroyed ?v cache2]) simp_all
    next
      fix q g2
      assume new2: "stack_new malloc free (w_mem ?w) = Some (Inr q, g2)"
        and rel: "release_or_throw malloc free ?w = Some (None, set_stack q g2 ?w)" and segq: "seg_ok good blocks g2 q [] [] [] None"
      note apart = stack_new_apart [OF al live new2]
      have "q \<noteq> fib'" using apart seg_at_top(2) [OF live] by blast
      moreover have onq: "on_stack (set_stack q g2 ?w) q" using on by simp
      moreover have "tls_top (set_stack q g2 ?w) = Some q"
        using onq seg_ok_is_top [OF segq] by (auto simp: stack_top_def)
      ultimately have "coro_destroy free child (set_stack q g2 ?w) = None"
        using cf by (simp add: coro_destroy_def lf_assert_def)
      with apart onq segq rel step tls show thesis
        by (intro submits [of child "set_stack q g2 ?w" q fib' "set (fib' # ps') \<union> set_option cache'"])
          (simp_all add: set_stack_def set_frame_def)
    qed
  qed
qed

text \<open>
  \<open>schedule\<close> on a thread that is not in the middle of another one, with a scheduler that does not throw:
  called from a worker it throws \<open>schedule_in_worker\<close> and does nothing; otherwise, whichever of the calls
  inside throws, the thread-local variables are as before when it returns or throws, no assertion
  fails, and the coroutine is gone if it throws.  If it returns, the scheduler has the coroutine, whose
  frame names the semaphore, on a stack that is all there, although the thread's stack object is gone.
  The comment in the source says that \<open>await\<close> cleans up also if the scheduler throws.  It does not: the
  stack object has been replaced by then, so the assertion in the destructor of the promise fails.
\<close>

lemma schedule_outcomes:
  assumes al: "alloc_ok good blocks malloc free" and good: "good (sm_alloc (w_mem w))" and sz: "unat sz \<le> 2 ^ 62"
    and t: "\<not> has_stack (w_tls w) \<longrightarrow> thread_stack (w_tls w) = None"
    and fresh: "\<forall>fib g a fib' g'. stack_new malloc free (w_mem w) = Some (Inr fib, g)
       \<and> stack_allocate malloc free sz fib g = Some (Inr a, fib', g') \<longrightarrow> w_frames w a = None"
  shows "\<exists>r c w'. lf_schedule malloc free sz make_shared None sem w = Some (r, c, w') \<and> w_tls w' = w_tls w \<and>
     (has_stack (w_tls w) \<or> has_context (w_tls w) \<longrightarrow> r = Inl Schedule_in_worker \<and> w' = w) \<and>
     (case r of
        Inl x \<Rightarrow> w_frames w' = w_frames w \<and> (c = C_none \<or> c = C_destroyed)
      | Inr _ \<Rightarrow> \<exists>child fib ps. c = C_submitted child \<and> w_frames w' = (w_frames w)(child \<mapsto> root_frame sem child fib) \<and>
          seg_at good blocks (w_mem w') fib [(child, unat (ext_size sz))] ps \<and>
          (\<forall>e. lf_schedule malloc free sz make_shared (Some e) sem w = None))"
proof (cases "has_stack (w_tls w) \<or> has_context (w_tls w)")
  case True
  then show ?thesis by (simp add: lf_schedule_def)
next
  case out: False
  from seg_new [OF al good] show ?thesis
  proof (elim disjE exE conjE)
    assume "stack_new malloc free (w_mem w) = Some (Inl Bad_alloc, w_mem w)"
    with out show ?thesis by (simp add: lf_schedule_def)
  next
    fix fib g
    assume new: "stack_new malloc free (w_mem w) = Some (Inr fib, g)" and seg: "seg_ok good blocks g fib [] [] [] None"
    let ?w = "w\<lparr>w_mem := g, w_tls := (w_tls w)\<lparr>thread_stack := ml_construct fib (thread_stack (w_tls w)), has_stack := True\<rparr>\<rparr>"
    have on: "on_stack ?w fib" by (simp add: on_stack_def ml_construct_def)
    have start: "lf_schedule malloc free sz make_shared sch sem w
        = do { (x, c, w1) \<leftarrow> sched_guarded malloc free sz make_shared sch sem ?w; w2 \<leftarrow> sched_cleanup free w1; Some (x, c, w2) }" for sch
      using out new by (simp add: lf_schedule_def)
    have same: "(w_tls w)\<lparr>thread_stack := None, has_stack := False\<rparr> = w_tls w" using out t by simp
    have seg': "seg_ok good blocks (w_mem ?w) fib [] [] [] None" using seg by simp
    have "w_frames ?w a = None" if "stack_allocate malloc free sz fib (w_mem ?w) = Some (Inr a, fib', g')" for a fib' g'
      using that fresh new by simp
    then show ?thesis
    proof (cases rule: sched_guarded_ok [OF al on seg' sz, where make_shared = make_shared and sem = sem,
          consumes 0, case_names fresh throws submits])
      case (throws e c w' cache)
      from sched_cleanup_ok [OF al throws(3,6)] throws(1,2,4,5) out same show ?thesis by (auto simp: start ml_construct_def)
    next
      case (submits child fib' q w' ps)
      from sched_cleanup_ok [OF al submits(3,6)] obtain g2 where
        g2: "sched_cleanup free w' = Some (w'\<lparr>w_mem := g2, w_tls := (w_tls w')\<lparr>thread_stack := None, has_stack := False\<rparr>\<rparr>)"
          "stack_destroy free q (w_mem w') = Some g2" by blast
      have "seg_at good blocks (w_mem w') q [] {q}" using submits(6) unfolding seg_at_def by force
      from seg_at_destroy [OF al this submits(7)] submits(8) g2(2)
      have "seg_at good blocks g2 fib' [(child, unat (ext_size sz))] ps" by auto
      with submits(1,2,4,5) g2(1) out same show ?thesis by (auto simp: start ml_construct_def)
    qed
  qed
qed

end
