(* ===== verification/Entry.thy ===== *)
theory Entry
  imports Schedule Sync_Wait
begin

text \<open>
  \<open>sync_wait\<close> and \<open>detach\<close> of \<open>core/sync_wait.hpp\<close>: \<open>schedule\<close>, a call of the future it returns, and the
  destructor of that future, which is a temporary, against the root task.  The shared state of the
  future is reference counted: the future holds one reference and the promise of the root task, whose
  return address is a copy of the pointer, the other.  Everything up to the return of \<open>schedule\<close> is
  theory \<open>Schedule\<close>, on the stacks and the thread-local variables of the calling thread.  The task stores its outcome, releases the
  semaphore, which lives in the shared state, and then destroys its coroutine.
\<close>

section \<open>The two entry points\<close>

datatype 'v entry_result = Returns "'v option" | Throws_task fut_exn | Throws_sched sched_exn

datatype 'v caller_pc = W_get | W_detach | W_dtor "fut_exn + 'v option" | W_returned "'v entry_result"

text \<open>\<open>en_refs\<close> is the use count of the shared state, which is freed when it drops to 0; \<open>en_gone\<close>: the coroutine is destroyed.\<close>

record 'v entry =
  en_fut :: "'v fut_sys"
  en_refs :: nat
  en_owner :: "'v caller_pc"
  en_gone :: bool

text \<open>
  After \<open>schedule\<close> the caller is at the call \<open>first\<close>.  The promise holds its reference while the
  scheduler has the coroutine, the caller holds one if there is a future.
\<close>

definition entry_begin :: "('m \<Rightarrow> u64 \<Rightarrow> (nat \<times> 'm) option) \<Rightarrow> ('m \<Rightarrow> nat \<Rightarrow> 'm) \<Rightarrow> u64 \<Rightarrow> exn option \<Rightarrow> exn option \<Rightarrow> nat
    \<Rightarrow> ev_kind \<Rightarrow> 'v caller_pc \<Rightarrow> (nat, 'm) world \<Rightarrow> ('v entry \<times> (nat, 'm) world) option" where
  "entry_begin malloc free sz make_shared sch sem k first w = do {
     (r, c, w') \<leftarrow> lf_schedule malloc free sz make_shared sch sem w;
     let promise = (case c of C_submitted _ \<Rightarrow> 1 | _ \<Rightarrow> 0);
     let future = (case r of Inr _ \<Rightarrow> 1 | Inl _ \<Rightarrow> 0);
     Some (\<lparr>en_fut = fut_start k, en_refs = future + promise,
       en_owner = (case r of Inl e \<Rightarrow> W_returned (Throws_sched e) | Inr _ \<Rightarrow> first), en_gone = (promise = 0)\<rparr>, w') }"

definition sync_wait_begin where
  "sync_wait_begin malloc free sz make_shared sch sem k = entry_begin malloc free sz make_shared sch sem k W_get"

definition detach_begin where
  "detach_begin malloc free sz make_shared sch sem k = entry_begin malloc free sz make_shared sch sem k W_detach"

definition entry_outcome :: "fut_exn + 'v option \<Rightarrow> 'v entry_result" where
  "entry_outcome r = (case r of Inl e \<Rightarrow> Throws_task e | Inr v \<Rightarrow> Returns v)"

text \<open>The caller's calls, and the root task, which the pool runs to its end.\<close>

inductive entry_step :: "ev_kind \<Rightarrow> 'v root_result \<Rightarrow> 'v entry \<Rightarrow> 'v fut_event option \<Rightarrow> 'v entry \<Rightarrow> bool" for k res where
  en_get: "en_owner s = W_get \<Longrightarrow> fut_step k res (en_fut s) (F_get r) u \<Longrightarrow>
     entry_step k res s (Some (F_get r)) (s\<lparr>en_fut := u, en_owner := W_dtor r\<rparr>)"
| en_detach: "en_owner s = W_detach \<Longrightarrow> fut_step k res (en_fut s) F_detach u \<Longrightarrow>
     entry_step k res s (Some F_detach) (s\<lparr>en_fut := u, en_owner := W_dtor (Inr None), en_refs := en_refs s - 1\<rparr>)"
| en_dtor: "en_owner s = W_dtor r \<Longrightarrow> fut_step k res (en_fut s) F_destroy u \<Longrightarrow>
     entry_step k res s (Some F_destroy) (s\<lparr>en_fut := u, en_owner := W_returned (entry_outcome r),
       en_refs := en_refs s - (if fu_valid (en_fut s) then 1 else 0)\<rparr>)"
| en_store: "\<not> en_gone s \<Longrightarrow> fut_step k res (en_fut s) F_store u \<Longrightarrow> entry_step k res s (Some F_store) (s\<lparr>en_fut := u\<rparr>)"
| en_release: "\<not> en_gone s \<Longrightarrow> fut_step k res (en_fut s) F_release u \<Longrightarrow> entry_step k res s (Some F_release) (s\<lparr>en_fut := u\<rparr>)"
| en_destroy: "\<not> en_gone s \<Longrightarrow> fu_root (en_fut s) = R_finished \<Longrightarrow>
     entry_step k res s None (s\<lparr>en_gone := True, en_refs := en_refs s - 1\<rparr>)"

inductive entry_run :: "ev_kind \<Rightarrow> 'v root_result \<Rightarrow> 'v entry \<Rightarrow> 'v entry \<Rightarrow> bool" for k res where
  en_refl: "entry_run k res s s"
| en_snoc: "entry_run k res s t \<Longrightarrow> entry_step k res t e u \<Longrightarrow> entry_run k res s u"

section \<open>Who holds the shared state\<close>

definition en_holds :: "'v entry \<Rightarrow> bool" where
  "en_holds s \<longleftrightarrow> fu_valid (en_fut s) \<and> (\<forall>x. en_owner s \<noteq> W_returned x)"

text \<open>Where the caller is, in terms of the events so far.\<close>

fun en_place :: "'v caller_pc \<Rightarrow> 'v root_result \<Rightarrow> 'v fut_event list \<Rightarrow> 'v caller_pc \<Rightarrow> bool" where
  "en_place first res es W_get \<longleftrightarrow> first = W_get \<and> F_detach \<notin> set es \<and> F_destroy \<notin> set es \<and> \<not> (\<exists>e\<in>set es. was_get e)"
| "en_place first res es W_detach \<longleftrightarrow> first = W_detach \<and> F_detach \<notin> set es \<and> F_destroy \<notin> set es"
| "en_place first res es (W_dtor r) \<longleftrightarrow> F_destroy \<notin> set es
     \<and> (first = W_get \<and> F_detach \<notin> set es \<and> F_release \<in> set es \<and> r = delivered res \<or> first = W_detach \<and> F_detach \<in> set es \<and> r = Inr None)"
| "en_place first res es (W_returned x) \<longleftrightarrow> F_destroy \<in> set es
     \<and> (first = W_get \<and> F_release \<in> set es \<and> x = entry_outcome (delivered res) \<or> first = W_detach \<and> x = Returns None)"

definition en_inv :: "ev_kind \<Rightarrow> 'v root_result \<Rightarrow> 'v caller_pc \<Rightarrow> 'v entry \<Rightarrow> bool" where
  "en_inv k res first s \<longleftrightarrow> (\<exists>es. fut_run k res (fut_start k) es (en_fut s) \<and> en_place first res es (en_owner s))
     \<and> en_refs s = (if en_holds s then 1 else 0) + (if en_gone s then 0 else 1)
     \<and> (en_gone s \<longrightarrow> fu_root (en_fut s) = R_finished)"

lemma fut_flags:
  assumes "fut_run k res (fut_start k) es s" "res_ok k res"
  shows "fu_valid s \<longleftrightarrow> F_detach \<notin> set es" "fu_alive s \<longleftrightarrow> F_destroy \<notin> set es" "fu_root s = R_finished \<longleftrightarrow> F_release \<in> set es"
  using fut_run_inv [OF assms(1) refl assms(2)] unfolding fut_inv_def by blast+

lemma en_inv_step:
  assumes ok: "res_ok k res" and step: "entry_step k res s e s'" and inv: "en_inv k res first s"
  shows "en_inv k res first s'"
proof -
  from inv obtain es where run: "fut_run k res (fut_start k) es (en_fut s)" and place: "en_place first res es (en_owner s)"
    and refs: "en_refs s = (if en_holds s then 1 else 0) + (if en_gone s then 0 else 1)"
    and gone: "en_gone s \<longrightarrow> fu_root (en_fut s) = R_finished" by (auto simp: en_inv_def)
  note fl = fut_flags [OF run ok]
  have ext: "fut_run k res (fut_start k) (es @ [f]) u" if "fut_step k res (en_fut s) f u" for f u
    by (rule fut_run.fut_snoc [OF run that])
  note fl' = fut_flags [OF ext ok]
  from step show ?thesis
  proof cases
    case (en_get r u)
    from en_get(4) have get: "\<exists>fs. fut_get k (fu_valid (en_fut s)) (fu_fs (en_fut s)) = Ends (r, fs)" and alive: "fu_alive (en_fut s)"
      by (auto elim: fut_step.cases)
    have "F_release \<in> set es \<and> r = delivered res"
      using fut_get_cases [OF ok fut_run_inv [OF run refl ok] alive] get place en_get(3) by (auto split: if_splits)
    with ext [OF en_get(4)] fl' [OF en_get(4)] fl en_get refs gone place show ?thesis
      by (auto simp: en_inv_def en_holds_def intro!: exI [of _ "es @ [F_get r]"])
  next
    case (en_detach u)
    with ext [OF en_detach(4)] fl' [OF en_detach(4)] fl refs gone place show ?thesis
      by (auto simp: en_inv_def en_holds_def intro!: exI [of _ "es @ [F_detach]"])
  next
    case (en_dtor r u)
    with ext [OF en_dtor(4)] fl' [OF en_dtor(4)] fl refs gone place show ?thesis
      by (auto simp: en_inv_def en_holds_def entry_outcome_def intro!: exI [of _ "es @ [F_destroy]"])
  next
    case (en_store u)
    then have "en_place first res (es @ [F_store]) (en_owner s)" using place by (cases "en_owner s") (auto simp: was_get_def)
    with ext [OF en_store(4)] fl' [OF en_store(4)] fl refs gone en_store show ?thesis
      by (auto simp: en_inv_def en_holds_def intro!: exI [of _ "es @ [F_store]"])
  next
    case (en_release u)
    then have "en_place first res (es @ [F_release]) (en_owner s)" using place by (cases "en_owner s") (auto simp: was_get_def)
    with ext [OF en_release(4)] fl' [OF en_release(4)] fl refs gone en_release show ?thesis
      by (auto simp: en_inv_def en_holds_def intro!: exI [of _ "es @ [F_release]"])
  next
    case en_destroy
    with run place refs show ?thesis by (auto simp: en_inv_def en_holds_def)
  qed
qed

lemma en_run_inv: "entry_run k res s t \<Longrightarrow> res_ok k res \<Longrightarrow> en_inv k res first s \<Longrightarrow> en_inv k res first t"
  by (induction rule: entry_run.induct) (auto dest: en_inv_step)

text \<open>
  The start of a call whose scheduler does not throw: \<open>schedule\<close> throws and the coroutine, if there was
  one, is gone, or the scheduler has it; then a scheduler that throws would have failed an assertion.
\<close>

definition starts :: "(exn option \<Rightarrow> ('v entry \<times> (nat, 'm) world) option) \<Rightarrow> 'v caller_pc \<Rightarrow> (nat, 'm) world \<Rightarrow> nat
    \<Rightarrow> 'v entry \<Rightarrow> (nat, 'm) world \<Rightarrow> bool" where
  "starts b first w sem s0 w' \<longleftrightarrow> b None = Some (s0, w') \<and> w_tls w' = w_tls w \<and>
     (if has_stack (w_tls w) \<or> has_context (w_tls w) then en_owner s0 = W_returned (Throws_sched Schedule_in_worker) \<and> w' = w
      else (\<exists>e. en_owner s0 = W_returned (Throws_sched e)) \<and> w_frames w' = w_frames w
         \<or> en_owner s0 = first \<and> (\<exists>child fib. w_frames w' = (w_frames w)(child \<mapsto> root_frame sem child fib)) \<and> (\<forall>e. b (Some e) = None))"

lemma entry_begin_cases:
  assumes al: "alloc_ok good blocks malloc free" and good: "good (sm_alloc (w_mem w))" and sz: "unat sz \<le> 2 ^ 62"
    and t: "\<not> has_stack (w_tls w) \<longrightarrow> thread_stack (w_tls w) = None"
    and fresh: "\<forall>fib g a fib' g'. stack_new malloc free (w_mem w) = Some (Inr fib, g)
       \<and> stack_allocate malloc free sz fib g = Some (Inr a, fib', g') \<longrightarrow> w_frames w a = None"
    and first: "first = W_get \<or> first = W_detach"
  obtains s0 w' where "starts (\<lambda>sch. entry_begin malloc free sz make_shared sch sem k first w) first w sem s0 w'"
    "en_inv k res first s0 \<and> en_owner s0 = first
     \<or> (\<exists>e. en_owner s0 = W_returned (Throws_sched e)) \<and> en_gone s0 \<and> en_refs s0 = 0"
proof -
  from schedule_outcomes [OF al good sz t fresh, of make_shared sem] obtain r c w' where
    r: "lf_schedule malloc free sz make_shared None sem w = Some (r, c, w')" and tls: "w_tls w' = w_tls w"
    and inside: "has_stack (w_tls w) \<or> has_context (w_tls w) \<longrightarrow> r = Inl Schedule_in_worker \<and> w' = w"
    and out: "case r of Inl x \<Rightarrow> w_frames w' = w_frames w \<and> (c = C_none \<or> c = C_destroyed)
      | Inr _ \<Rightarrow> \<exists>child fib ps. c = C_submitted child \<and> w_frames w' = (w_frames w)(child \<mapsto> root_frame sem child fib) \<and>
          seg_at good blocks (w_mem w') fib [(child, unat (ext_size sz))] ps \<and>
          (\<forall>e. lf_schedule malloc free sz make_shared (Some e) sem w = None)" by blast
  have inv: "en_inv k res first \<lparr>en_fut = fut_start k, en_refs = 2, en_owner = first, en_gone = False\<rparr>"
    using first fut_run.fut_nil [of k res "fut_start k"]
    by (auto simp: en_inv_def en_holds_def fut_start_def intro!: exI [of _ "[]"])
  show thesis
  proof (cases r)
    case (Inl e)
    with out have "(case c of C_submitted _ \<Rightarrow> 1 :: nat | _ \<Rightarrow> 0) = 0" by auto
    with Inl r tls inside out show thesis
      by (intro that [of "\<lparr>en_fut = fut_start k, en_refs = 0, en_owner = W_returned (Throws_sched e), en_gone = True\<rparr>" w'])
        (auto simp: starts_def entry_begin_def)
  next
    case (Inr u)
    with r tls inside out inv show thesis
      by (intro that [of "\<lparr>en_fut = fut_start k, en_refs = 2, en_owner = first, en_gone = False\<rparr>" w'])
        (auto simp: starts_def entry_begin_def numeral_2_eq_2)
  qed
qed

lemma entry_stuck: "entry_run k res s t \<Longrightarrow> en_owner s = W_returned x \<Longrightarrow> en_gone s \<Longrightarrow> t = s"
proof (induction rule: entry_run.induct)
  case (en_snoc s t e u)
  then have "t = s" by simp
  with en_snoc show ?case by (auto elim: entry_step.cases)
qed simp

text \<open>The shared state outlives every access, and the last holder frees it.\<close>

lemma en_inv_refs:
  assumes ok: "res_ok k res" and inv: "en_inv k res first s"
  shows "(\<forall>e s'. entry_step k res s (Some e) s' \<and> (e = F_destroy \<longrightarrow> fu_valid (en_fut s)) \<longrightarrow> 0 < en_refs s)
     \<and> ((\<exists>x. en_owner s = W_returned x) \<and> en_gone s \<longrightarrow> en_refs s = 0)"
proof -
  from inv obtain es where run: "fut_run k res (fut_start k) es (en_fut s)" and place: "en_place first res es (en_owner s)"
    and refs: "en_refs s = (if en_holds s then 1 else 0) + (if en_gone s then 0 else 1)" by (auto simp: en_inv_def)
  note fl = fut_flags [OF run ok]
  show ?thesis
  proof (intro conjI allI impI)
    fix e s' assume a: "entry_step k res s (Some e) s' \<and> (e = F_destroy \<longrightarrow> fu_valid (en_fut s))"
    then have "entry_step k res s (Some e) s'" by simp
    then show "0 < en_refs s" by cases (use a refs fl place in \<open>auto simp: en_holds_def\<close>)
  qed (use refs in \<open>auto simp: en_holds_def\<close>)
qed

text \<open>The caller's next call does not block: in \<open>detach\<close> never, in \<open>sync_wait\<close> not once the task has finished.\<close>

lemma en_inv_moves:
  assumes ok: "res_ok k res" and inv: "en_inv k res first s" and busy: "\<And>x. en_owner s \<noteq> W_returned x"
    and ready: "first = W_detach \<or> fu_root (en_fut s) = R_finished"
  shows "\<exists>e s'. entry_step k res s (Some e) s' \<and> e \<noteq> F_store \<and> e \<noteq> F_release"
proof -
  from inv obtain es where run: "fut_run k res (fut_start k) es (en_fut s)" and place: "en_place first res es (en_owner s)"
    by (auto simp: en_inv_def)
  note fl = fut_flags [OF run ok] and finv = fut_run_inv [OF run refl ok]
  show ?thesis
  proof (cases "en_owner s")
    case W_get
    with place fl ready have "fu_alive (en_fut s)" "F_release \<in> set es" by auto
    with fut_get_cases [OF ok finv] place W_get obtain fs where
      "fut_get k (fu_valid (en_fut s)) (fu_fs (en_fut s)) = Ends (delivered res, fs)" by auto
    from entry_step.en_get [OF W_get fut_step.fu_get [OF \<open>fu_alive (en_fut s)\<close> this]] show ?thesis by blast
  next
    case W_detach
    with place fl have "fu_alive (en_fut s)" by auto
    from entry_step.en_detach [OF W_detach fut_step.fu_detach [OF this]] show ?thesis by blast
  next
    case (W_dtor r)
    with place fl have alive: "fu_alive (en_fut s)" by auto
    have "fu_valid (en_fut s) \<longrightarrow> fu_root (en_fut s) = R_finished" using place W_dtor fl by auto
    then have "\<exists>fs. fut_destroy (fu_valid (en_fut s)) (fu_fs (en_fut s)) = Ends fs"
      using finv alive by (auto simp: fut_inv_def fut_destroy_def simp del: ev_abs.simps)
    then obtain fs where "fut_destroy (fu_valid (en_fut s)) (fu_fs (en_fut s)) = Ends fs" by blast
    from entry_step.en_dtor [OF W_dtor fut_step.fu_destroy [OF alive this]] show ?thesis by blast
  qed (use busy in auto)
qed

section \<open>Properties\<close>

text \<open>
  Property C7. On a thread that is not inside another \<open>schedule\<close>, with a scheduler whose \<open>schedule\<close> does not
  throw, \<open>sync_wait\<close> restores the calling thread's thread-local state and ends in one of two ways.  Either
  \<open>schedule\<close> throws (always, in a worker, and then it does nothing else), the coroutine is destroyed if it
  was made, and nobody holds the shared state; or the call returns the task's value, or throws its
  exception, and not before the task has finished.  In every interleaving with the task the shared
  state, its semaphore included, is alive whenever the caller or the task touches it, it is freed once
  the call has returned and the coroutine is destroyed, whichever is later, and when the task has
  finished no call of the caller blocks.  A scheduler that throws is not cleaned up after, as the source
  says it is: the thread's stack object has been replaced by then, so the destructor of the promise
  fails its assertion and \<open>sync_wait\<close> has no outcome.
\<close>

theorem sync_wait_delivers:
  assumes al: "alloc_ok good blocks malloc free" and good: "good (sm_alloc (w_mem w))" and sz: "unat sz \<le> 2 ^ 62"
    and t: "\<not> has_stack (w_tls w) \<longrightarrow> thread_stack (w_tls w) = None"
    and fresh: "\<forall>fib g a fib' g'. stack_new malloc free (w_mem w) = Some (Inr fib, g)
       \<and> stack_allocate malloc free sz fib g = Some (Inr a, fib', g') \<longrightarrow> w_frames w a = None"
    and ok: "res_ok k res"
  shows "\<exists>s0 w'. starts (\<lambda>sch. sync_wait_begin malloc free sz make_shared sch sem k w) W_get w sem s0 w'
    \<and> (\<forall>s. entry_run k res s0 s \<longrightarrow>
        (\<forall>x. en_owner s = W_returned x \<longrightarrow> (\<exists>e. x = Throws_sched e \<and> en_gone s \<and> en_refs s = 0)
            \<or> x = entry_outcome (delivered res) \<and> fu_root (en_fut s) = R_finished)
      \<and> (\<forall>e s'. entry_step k res s (Some e) s' \<longrightarrow> 0 < en_refs s)
      \<and> ((\<exists>x. en_owner s = W_returned x) \<and> en_gone s \<longrightarrow> en_refs s = 0)
      \<and> (fu_root (en_fut s) = R_finished \<longrightarrow> (\<exists>x. en_owner s = W_returned x)
            \<or> (\<exists>e s'. entry_step k res s (Some e) s' \<and> e \<noteq> F_store \<and> e \<noteq> F_release)))"
    (is "\<exists>s0 w'. _ \<and> (\<forall>s. _ \<longrightarrow> ?good s)")
proof -
  obtain s0 w' where start: "starts (\<lambda>sch. sync_wait_begin malloc free sz make_shared sch sem k w) W_get w sem s0 w'"
    and c: "en_inv k res W_get s0 \<and> en_owner s0 = W_get
      \<or> (\<exists>e. en_owner s0 = W_returned (Throws_sched e)) \<and> en_gone s0 \<and> en_refs s0 = 0"
    unfolding sync_wait_begin_def
    by (rule entry_begin_cases [OF al good sz t fresh, of W_get make_shared sem k res]; blast)
  have "?good s" if run: "entry_run k res s0 s" for s
  using c proof
    assume "en_inv k res W_get s0 \<and> en_owner s0 = W_get"
    with en_run_inv [OF run ok] have inv: "en_inv k res W_get s" by blast
    then obtain es where frun: "fut_run k res (fut_start k) es (en_fut s)" and place: "en_place W_get res es (en_owner s)"
      by (auto simp: en_inv_def)
    note fl = fut_flags [OF frun ok]
    have valid: "fu_valid (en_fut s)" if "entry_step k res s (Some F_destroy) s'" for s'
      using that place fl by (auto elim!: entry_step.cases)
    show "?good s" using en_inv_refs [OF ok inv] valid en_inv_moves [OF ok inv] place fl by fastforce
  next
    assume a: "(\<exists>e. en_owner s0 = W_returned (Throws_sched e)) \<and> en_gone s0 \<and> en_refs s0 = 0"
    with entry_stuck [OF run] have "s = s0" by blast
    with a show "?good s" by (auto elim: entry_step.cases)
  qed
  with start c show ?thesis by (intro exI [of _ s0] exI [of _ w']) auto
qed

text \<open>
  \<open>detach\<close> never blocks and never waits for the task: it returns, or throws what \<open>schedule\<close> threw, whatever
  the task does.  The task stores its outcome and releases the semaphore in memory that is still
  there although the future is gone, and the shared state is freed with the coroutine.
\<close>

lemma detach_lets_go:
  assumes al: "alloc_ok good blocks malloc free" and good: "good (sm_alloc (w_mem w))" and sz: "unat sz \<le> 2 ^ 62"
    and t: "\<not> has_stack (w_tls w) \<longrightarrow> thread_stack (w_tls w) = None"
    and fresh: "\<forall>fib g a fib' g'. stack_new malloc free (w_mem w) = Some (Inr fib, g)
       \<and> stack_allocate malloc free sz fib g = Some (Inr a, fib', g') \<longrightarrow> w_frames w a = None"
    and ok: "res_ok k res"
  shows "\<exists>s0 w'. starts (\<lambda>sch. detach_begin malloc free sz make_shared sch sem k w) W_detach w sem s0 w'
    \<and> (\<forall>s. entry_run k res s0 s \<longrightarrow>
        (\<forall>x. en_owner s = W_returned x \<longrightarrow> (\<exists>e. x = Throws_sched e \<and> en_gone s \<and> en_refs s = 0) \<or> x = Returns None)
      \<and> (\<forall>e s'. entry_step k res s (Some e) s' \<and> e \<noteq> F_destroy \<longrightarrow> 0 < en_refs s)
      \<and> ((\<exists>x. en_owner s = W_returned x) \<and> en_gone s \<longrightarrow> en_refs s = 0)
      \<and> ((\<exists>x. en_owner s = W_returned x) \<or> (\<exists>e s'. entry_step k res s (Some e) s' \<and> e \<noteq> F_store \<and> e \<noteq> F_release)))"
    (is "\<exists>s0 w'. _ \<and> (\<forall>s. _ \<longrightarrow> ?good s)")
proof -
  obtain s0 w' where start: "starts (\<lambda>sch. detach_begin malloc free sz make_shared sch sem k w) W_detach w sem s0 w'"
    and c: "en_inv k res W_detach s0 \<and> en_owner s0 = W_detach
      \<or> (\<exists>e. en_owner s0 = W_returned (Throws_sched e)) \<and> en_gone s0 \<and> en_refs s0 = 0"
    unfolding detach_begin_def
    by (rule entry_begin_cases [OF al good sz t fresh, of W_detach make_shared sem k res]; blast)
  have "?good s" if run: "entry_run k res s0 s" for s
  using c proof
    assume "en_inv k res W_detach s0 \<and> en_owner s0 = W_detach"
    with en_run_inv [OF run ok] have inv: "en_inv k res W_detach s" by blast
    then obtain es where "en_place W_detach res es (en_owner s)" by (auto simp: en_inv_def)
    then show "?good s" using en_inv_refs [OF ok inv] en_inv_moves [OF ok inv] by fastforce
  next
    assume a: "(\<exists>e. en_owner s0 = W_returned (Throws_sched e)) \<and> en_gone s0 \<and> en_refs s0 = 0"
    with entry_stuck [OF run] have "s = s0" by blast
    with a show "?good s" by (auto elim: entry_step.cases)
  qed
  with start c show ?thesis by (intro exI [of _ s0] exI [of _ w']) auto
qed

text \<open>A thread outside the pool, the bump allocator, and a task that returns 7.\<close>

definition entry_demo :: "nat caller_pc \<Rightarrow> nat fut_sys \<Rightarrow> nat entry" where
  "entry_demo p u = \<lparr>en_fut = u, en_refs = 2, en_owner = p, en_gone = False\<rparr>"

definition outside_thread :: "(nat, nat \<times> (nat \<rightharpoonup> nat)) world" where
  "outside_thread = \<lparr>w_frames = Map.empty, w_mem = \<lparr>sm_alloc = (16, Map.empty), sm_heap = Map.empty\<rparr>, w_tls = tls_init\<rparr>"

lemma outside_thread_schedules:
  "\<exists>w'. lf_schedule bump_malloc bump_free 64 None None 9 outside_thread = Some (Inr (), C_submitted 64, w')"
proof -
  let ?on = "\<lparr>w_frames = Map.empty, w_mem = one_stacklet 64, w_tls = tls_init\<lparr>thread_stack := Some 16, has_stack := True\<rparr>\<rparr>
      :: (nat, nat \<times> (nat \<rightharpoonup> nat)) world"
  have on: "on_stack ?on 16" by (simp add: on_stack_def)
  have seg: "seg_ok bump_good snd (w_mem ?on) 16 [] [] [] None" using one_stacklet_seg by simp
  have new: "promise_new bump_malloc bump_free 64 ?on = Some (Inr 64, set_frame 64 (frame_new 64 16) (set_stack 16 (one_stacklet 128) ?on))"
  proof -
    have "\<exists>v. promise_new bump_malloc bump_free 64 ?on = Some (Inr 64, v)" using one_stacklet_alloc
      by (simp add: promise_new_def tls_stack_def ml_data_def tls_top_def set_stack_def stack_top_def one_stacklet_def sl_is_top_def)
    with promise_new_ok [OF bump_alloc_ok on seg small_frame] one_stacklet_alloc show ?thesis by auto
  qed
  let ?w = "set_frame 64 (root_frame 9 64 16) (set_frame 64 (frame_new 64 16) (set_stack 16 (one_stacklet 128) ?on))"
  have onw: "on_stack ?w 16" using on by simp
  have "bump_good (sm_alloc (one_stacklet 128))" by (simp add: bump_good_def one_stacklet_def)
  from seg_new [OF bump_alloc_ok this] bump_stack_new [of "one_stacklet 128"] obtain q g where
    q: "stack_new bump_malloc bump_free (one_stacklet 128) = Some (Inr q, g)" and "seg_ok bump_good snd g q [] [] [] None"
    by (auto simp: one_stacklet_def)
  then have segq: "seg_ok bump_good snd (w_mem (set_stack q g ?w)) q [] [] [] None" by simp
  then have rel: "release_or_throw bump_malloc bump_free ?w = Some (None, set_stack q g ?w)"
    using q by (simp add: release_or_throw_def stack_release_def stack_new_def set_frame_def set_stack_def ml_data_def)
  have "sched_guarded bump_malloc bump_free 64 None None 9 ?on = Some (Inr (), C_submitted 64, set_stack q g ?w)"
    using new rel by (simp add: sched_guarded_def y_combinate_def set_root_sem_def non_null_def)
  moreover have "\<exists>w2. sched_cleanup bump_free (set_stack q g ?w) = Some w2"
    using sched_cleanup_ok [OF bump_alloc_ok on_stack_simps(2) [OF onw] segq] by blast
  ultimately show ?thesis using one_stacklet_new
    by (auto simp: lf_schedule_def outside_thread_def tls_init_def ml_construct_def)
qed

lemma entry_demo_run: "entry_run K_val (T_value 7) (entry_demo p (fut_start K_val)) (entry_demo p (fut_demo 1 R_finished))"
proof -
  have "entry_step K_val (T_value 7) (entry_demo p (fut_start K_val)) (Some F_store) (entry_demo p (fut_demo 0 R_stored))"
    using fut_demo_steps(1) entry_step.en_store [of "entry_demo p (fut_start K_val)" K_val "T_value 7" "fut_demo 0 R_stored"] by (simp add: entry_demo_def)
  moreover have "entry_step K_val (T_value 7) (entry_demo p (fut_demo 0 R_stored)) (Some F_release) (entry_demo p (fut_demo 1 R_finished))"
    using fut_demo_steps(2) entry_step.en_release [of "entry_demo p (fut_demo 0 R_stored)" K_val "T_value 7" "fut_demo 1 R_finished"]
    by (simp add: entry_demo_def)
  ultimately show ?thesis by (rule en_snoc [OF en_snoc [OF en_refl]])
qed

theorem sync_wait_delivers_witness:
  "(\<exists>w'. sync_wait_begin bump_malloc bump_free 64 None None 9 K_val outside_thread = Some (entry_demo W_get (fut_start K_val), w')
      \<and> w_tls w' = tls_init \<and> (\<exists>child fib. w_frames w' = [child \<mapsto> root_frame 9 child fib]))
   \<and> sync_wait_begin bump_malloc bump_free 64 None (Some Bad_alloc) 9 K_val outside_thread = (None :: (nat entry \<times> _) option)
   \<and> (\<exists>e s'. entry_step K_val (T_value 7) (entry_demo W_get (fut_demo 1 R_finished)) (Some e) s' \<and> e \<noteq> F_store \<and> e \<noteq> F_release)"
proof -
  from outside_thread_schedules obtain w1 where "lf_schedule bump_malloc bump_free 64 None None 9 outside_thread = Some (Inr (), C_submitted 64, w1)"
    by blast
  then have began: "sync_wait_begin bump_malloc bump_free 64 None None 9 K_val outside_thread = Some (entry_demo W_get (fut_start K_val), w1)"
    by (simp add: sync_wait_begin_def entry_begin_def entry_demo_def numeral_2_eq_2)
  have good: "bump_good (sm_alloc (w_mem outside_thread))" by (simp add: outside_thread_def bump_good_def)
  have t: "\<not> has_stack (w_tls outside_thread) \<longrightarrow> thread_stack (w_tls outside_thread) = None" by (simp add: outside_thread_def tls_init_def)
  have fresh: "\<forall>fib g a fib' g'. stack_new bump_malloc bump_free (w_mem outside_thread) = Some (Inr fib, g)
       \<and> stack_allocate bump_malloc bump_free 64 fib g = Some (Inr a, fib', g') \<longrightarrow> w_frames outside_thread a = None"
    by (simp add: outside_thread_def)
  have ok: "res_ok K_val (T_value (7 :: nat))" by (simp add: res_ok_def)
  have out: "\<not> has_stack (w_tls outside_thread)" "\<not> has_context (w_tls outside_thread)" "w_tls outside_thread = tls_init"
    "w_frames outside_thread = Map.empty" by (simp_all add: outside_thread_def tls_init_def)
  have own: "en_owner (entry_demo p u) = p" for p u by (simp add: entry_demo_def)
  from sync_wait_delivers [OF bump_alloc_ok good small_frame t fresh ok, of None 9] obtain s0 w' where
    start: "starts (\<lambda>sch. sync_wait_begin bump_malloc bump_free 64 None sch 9 K_val outside_thread) W_get outside_thread 9 s0 w'"
    and runs: "\<And>s :: nat entry. entry_run K_val (T_value 7) s0 s \<Longrightarrow> fu_root (en_fut s) = R_finished \<Longrightarrow> (\<exists>x. en_owner s = W_returned x)
      \<or> (\<exists>e s'. entry_step K_val (T_value 7) s (Some e) s' \<and> e \<noteq> F_store \<and> e \<noteq> F_release)" by blast
  have s0: "s0 = entry_demo W_get (fut_start K_val)" "w' = w1" using start began by (auto simp: starts_def)
  have "\<exists>e s'. entry_step K_val (T_value 7) (entry_demo W_get (fut_demo 1 R_finished)) (Some e) s' \<and> e \<noteq> F_store \<and> e \<noteq> F_release"
    using runs [unfolded s0, OF entry_demo_run] own [of W_get] by (auto simp: entry_demo_def fut_demo_def)
  with start began s0 out own [of W_get] show ?thesis by (auto simp: starts_def)
qed

end
