(* ===== verification/Spec2Isabelle.thy ===== *)
theory Spec2Isabelle
  imports Chase_Lev_Conc Blocking_Conc Lace_Conc Event_Count Fork_Join Awaitables Switching Elementwise Fold Scan_Correct
    Busy_Pool Unit_Pool Lazy_Pool_Wakeups Topology Numa_Context Entry Invocation
begin

text \<open>
  A verification development for libfork, a C++20 library for fork-join parallelism by
  continuation stealing.  Paths below are relative to \<open>src/include/libfork\<close>.

  \<^bold>\<open>The program.\<close>
  A thread outside the pool enters with \<open>schedule\<close> or \<open>sync_wait\<close> (\<open>core/sync_wait.hpp\<close>): it builds a
  root task whose result goes to a shared \<open>future\<close> state (\<open>core/eventually.hpp\<close>) and submits it to
  a scheduler.  A scheduler (\<open>schedule/\<close>) owns worker threads; each has a context with a
  work-stealing deque and an intrusive list of submissions (\<open>core/ext/context.hpp\<close>, \<open>tls.hpp\<close>)
  and loops over: take submissions, else steal from a peer, else spin or sleep on an event count.
  A task is a coroutine with a \<open>frame\<close> (\<open>core/impl/frame.hpp\<close>) allocated on the segmented stack
  (\<open>core/impl/stack.hpp\<close>) of the worker that runs it.  At a fork the worker pushes the parent on its
  deque and runs the child; a thief that steals the parent runs it on a stack of its own, and the
  atomic counters of the frame decide at the join, or at the end of a child, who goes on with the
  parent (\<open>core/impl/awaitables.hpp\<close>, \<open>core/impl/promise.hpp\<close>).  The algorithms (\<open>algorithm/\<close>) are
  recursive tasks over a range.

  \<^bold>\<open>Theories and code.\<close>
  \<^item> \<open>Prelude\<close>: conventions for outcomes (assertion failures and undefined reads are \<open>None\<close>, C++
    exceptions are \<open>Inl\<close>), words, shared lemmas.  \<open>Utility\<close>: \<open>core/impl/utility.hpp\<close>,
    \<open>manual_lifetime.hpp\<close>.
  \<^item> \<open>Deque_Common\<close> (\<open>core/ext/deque_common.hpp\<close>) has the result type of \<open>steal\<close> and the contract of a
    work-stealing deque as the locales \<open>ws_deque\<close>, \<open>ws_deque_eager\<close> and \<open>ws_deque_bounded\<close>;
    \<open>Ring_Buffer\<close>, \<open>Chase_Lev\<close>, \<open>Blocking_Deque\<close> and \<open>Lace_Deque\<close> model the three deques and
    interpret it: histories of pushes, pops and steals answer as a list does.
    \<open>Conc_Deque\<close> has the events of a deque used concurrently, what each does to a list, and the locale
    \<open>conc_deque\<close>: steps that keep an invariant and act as their events conserve the elements and
    return what was taken.  It is interpreted on the three deques under interleaving, one shared
    access per step.  \<open>Chase_Lev_Conc\<close> and \<open>Blocking_Conc\<close> have step relations, with a linearisation,
    absence of stuck states, mutual exclusion and the release of the lock; in \<open>Lace_Conc\<close> the functions
    \<open>x_push\<close>, \<open>x_own\<close> and \<open>x_steal\<close> do the next access: linearisation, wait-freedom, and agreement with
    \<open>Lace_Deque\<close> when nobody else moves.
  \<^item> \<open>Intrusive_List\<close>: \<open>core/ext/list.hpp\<close> as functions on a heap and as an interleaving of
    producers with the consumer.  \<open>Event_Count\<close>: \<open>schedule/ext/event_count.hpp\<close>.
  \<^item> \<open>Seg_Stack\<close>: \<open>core/impl/stack.hpp\<close> with \<open>malloc\<close> and \<open>free\<close> as parameters; allocations never
    overlap.  \<open>Frame\<close>, \<open>Fork_Join\<close>: the frame and the join protocol of a task with its stolen
    children as a step relation.  \<open>Worker_TLS\<close>: contexts, \<open>worker_init\<close>, \<open>finalize\<close>.  \<open>Awaitables\<close>:
    each suspension point as a transformer of the worker's whole state (frames, stacks, deque).
    \<open>Switching\<close>: \<open>core/scheduler.hpp\<close>, a task that moves from one worker to another, stack included.
  \<^item> \<open>Tasks\<close>: the task trees that \<open>core/control_flow.hpp\<close> builds, run under all schedules;
    \<open>Elementwise\<close> (\<open>for_each.hpp\<close>, \<open>map.hpp\<close>), \<open>Fold\<close> (\<open>fold.hpp\<close>), \<open>Scan\<close> and \<open>Scan_Correct\<close> (\<open>scan.hpp\<close>)
    are the algorithms over a shared memory.  The locales \<open>elementwise\<close>, \<open>reduction\<close> and \<open>sweep\<close> carry
    the inductions once and are interpreted on the chunked and unchunked versions.
  \<^item> \<open>Pool_Common\<close>: the latches both work-stealing pools share, with the locale \<open>latched_pool\<close>
    (contexts are alive while any worker is in its loop); \<open>Busy_Pool\<close>, \<open>Lazy_Pool\<close> and \<open>Unit_Pool\<close> are the
    event loops, \<open>schedule\<close>, constructors and destructors of the three schedulers as step relations.
    \<open>Lazy_Pool_Correct\<close> and \<open>Lazy_Pool_Wakeups\<close> hold the invariant of the lazy pool: exact counters,
    a thief awake while there is work, no submission slept over, nobody left behind at the end.
  \<^item> \<open>Xoshiro\<close> (\<open>schedule/ext/random.hpp\<close>), \<open>Numa\<close>, \<open>Topology\<close> (\<open>schedule/ext/numa.hpp\<close>) and \<open>Numa_Context\<close>
    (\<open>schedule/impl/numa_context.hpp\<close>): the generator, the places of the workers, the hierarchy of neighbours and
    \<open>try_steal\<close>, which walks it with the generator on the deques of \<open>Worker_TLS\<close>.
  \<^item> \<open>Eventually\<close>: \<open>basic_eventually\<close> in all its instances against an object of three states (locale
    \<open>object_refinement\<close>).  \<open>Sync_Wait\<close>: the future, its owner and the root task.
  \<^item> \<open>Invocation\<close>: \<open>core/tag.hpp\<close>, \<open>core/impl/combinate.hpp\<close>, \<open>await_transform\<close> and \<open>core/just.hpp\<close>; a
    child, called or forked, from its creation on the segmented stack to the result its parent gets.
  \<^item> \<open>Schedule\<close>: \<open>schedule\<close> of \<open>core/sync_wait.hpp\<close> on the stacks and thread-local variables of the calling
    thread.  \<open>Entry\<close>: \<open>sync_wait\<close> and \<open>detach\<close> on top of it, and who keeps the shared state of the future
    alive.

  \<^bold>\<open>Bounds and assumptions.\<close>
  \<^item> Interleavings are sequentially consistent, one shared access per step; the memory orders of the
    source are not modelled.  A compare-exchange and a wait may fail or wake spuriously where the
    standard allows it.
  \<^item> The join protocol is proved for fewer than 65535 steals per fork-join scope, the range of its
    16-bit counter; past the bound it fails (\<open>join_counter_overflow\<close>).
  \<^item> The event count is proved for fewer than \<open>2\<close> to the power 32 waiters, and fewer than that many
    notifications after a waiter's \<open>prepare_wait\<close>, the range of its epoch; what the lazy pool says of
    sleeping workers and of its counters holds for fewer than \<open>2\<close> to the power 32 workers and notifications of
    one locality.  The Lace deque is proved for its first \<open>capacity\<close> pushes; past the bound it reads
    outside its array (\<open>lace_pop_reads_out_of_bounds\<close>).
  \<^item> \<open>sync_wait\<close> and \<open>detach\<close> are proved for a scheduler whose \<open>schedule\<close> does not throw.  If it throws,
    \<open>lf_schedule\<close> is \<open>None\<close>: the destructor of the promise finds the thread's stack object replaced and
    its assertion fails (\<open>sync_wait_delivers\<close>).  In \<open>switch_hands_over\<close> the destination is idle and the
    allocation of the first worker's new stack succeeds.
  \<^item> No definition uses fuel: recursion has a termination proof; a loop over pointers is a partial
    function into \<open>option\<close> that is proved to return; a loop that may spin is a step relation.
  \<^item> Parameters stand for code outside the repository: allocation, the user's functions, what hwloc
    answers, \<open>std::shuffle\<close>, \<open>std::discrete_distribution\<close> and the seeding generator.  What the proofs use
    of them is a hypothesis, and each such theorem has a witness with concrete functions.
  \<^item> \<open>fold\<close> and \<open>scan\<close> are proved for a binary operation that is regular, or asynchronous and never
    throws: an exception of an asynchronous one called with \<open>eager_throw_outside\<close> is not rethrown
    (\<open>eager_throw_swallowed\<close>).  For the same reason \<open>scan\<close> may compare an uninitialised iterator
    when its left part throws; the parameter \<open>left0\<close> gives its value in each frame, by the range of the
    frame (\<open>scan_reads_uninitialised\<close>).
  \<^item> In the pools a resumed task is any number of steps with any submissions, and a submission list
    is the list of its jobs, as \<open>list_concurrent_fifo\<close> justifies.

  \<^bold>\<open>Not modelled.\<close>
  Compile-time code: concepts, \<open>first_arg\<close>, \<open>invocable\<close>, \<open>constraints\<close>, \<open>lift\<close>, \<open>macro\<close>.  Calls that only
  forward to the operating system (\<open>allocate_virtual\<close>).  Bodies of user coroutines and what the
  compiler generates for them.  The pools run on deques and lists that do one operation per step; that the
  deques may be used so is what their linearisations say.  The single header is
  generated from the others; tests and benchmarks drive the library.
\<close>

end
